(* ===== verification/Prelude.thy ===== *)
theory Prelude
  imports Main "HOL-Library.Word" "HOL-Library.List_Lexorder"
begin

text \<open>
  Shared vocabulary of the development: the machine integers of the C++ sources, byte
  strings, native memory images of integers, and the facts about lists, words and byte
  strings that several components use.

  Conventions used by every theory:
  \<^item> \<open>char\<close>/\<open>unsigned char\<close>, \<open>uint32_t\<close> and \<open>uint64_t\<close> are words of 8, 32 and 64 bits,
    so arithmetic on them wraps around as in C++.  A \<open>size_t\<close> that counts bytes held
    in memory is a \<open>nat\<close>; where the code narrows such a size to \<open>uint32_t\<close> the model says
    \<^const>\<open>word_of_nat\<close>.
  \<^item> A byte buffer, \<open>std::string\<close> or \<open>Slice\<close> is a list of bytes.  A pointer into a buffer
    is an offset, or the list of the bytes from the pointer up to the limit.
  \<^item> A read outside the buffer, or an \<open>assert\<close> that fails, is the value \<^const>\<open>None\<close>.
\<close>

unbundle bit_operations_syntax

type_synonym u8 = "8 word"
type_synonym u32 = "32 word"
type_synonym u64 = "64 word"
type_synonym bytes = "u8 list"

named_theorems unat_simps
  \<open>rules that turn operations on machine words into arithmetic on natural numbers\<close>

section \<open>Byte strings\<close>

text \<open>A C string literal as the bytes it denotes (without the terminator).\<close>

definition str :: "string \<Rightarrow> bytes" where
  "str s = map of_char s"

lemma length_str [simp]: "length (str s) = length s"
  by (simp add: str_def)

lemma str_Nil [simp]: "str [] = []"
  by (simp add: str_def)

lemma str_eq_Nil [simp]: "str s = [] \<longleftrightarrow> s = []"
  by (simp add: str_def)

lemma str_append: "str (s @ t) = str s @ str t"
  by (simp add: str_def)

text \<open>A number in decimal digits, what \<open>snprintf\<close> prints for \<open>%u\<close> and \<open>%llu\<close>.\<close>

fun decimal :: "nat \<Rightarrow> bytes" where
  "decimal n = (if n < 10 then [48 + word_of_nat n] else decimal (n div 10) @ [48 + word_of_nat (n mod 10)])"

declare decimal.simps [simp del]

section \<open>Lists\<close>

lemma take_append_exact [simp]: "length xs = n \<Longrightarrow> take n (xs @ ys) = xs"
  by auto

lemma drop_append_exact [simp]: "length xs = n \<Longrightarrow> drop n (xs @ ys) = ys"
  by auto

lemma take_drop_append:
  "length pre = k \<Longrightarrow> length xs = n \<Longrightarrow> take n (drop k (pre @ xs @ post)) = xs"
  by auto

lemma drop_Suc_nth: "i < length xs \<Longrightarrow> drop i xs = xs ! i # drop (Suc i) xs"
  by (simp add: Cons_nth_drop_Suc)

section \<open>Words as numbers\<close>

lemma unat_and_mask [unat_simps]:
  fixes v :: "'a::len word"
  shows "unat (v AND mask n) = unat v mod 2 ^ n"
  by (simp flip: take_bit_eq_mask take_bit_eq_mod add: unsigned_take_bit_eq)

lemma unat_drop_bit [unat_simps]:
  fixes v :: "'a::len word"
  shows "unat (drop_bit n v) = unat v div 2 ^ n"
  by (rule trans [OF unat_drop_bit_eq drop_bit_eq_div])

lemma unat_ucast_mod [unat_simps]:
  fixes v :: "'a::len word"
  shows "unat (ucast v :: 'b::len word) = unat v mod 2 ^ LENGTH('b)"
  by (simp add: unsigned_ucast_eq take_bit_eq_mod)

lemma unat_push_bit [unat_simps]:
  fixes v :: "'a::len word"
  shows "unat (push_bit n v) = unat v * 2 ^ n mod 2 ^ LENGTH('a)"
  unfolding unsigned_push_bit_eq by (simp add: take_bit_eq_mod push_bit_eq_mult)

lemma unat_bound8: "unat (b :: u8) < 256"
  using unsigned_less [of b] by simp

lemma unat_bound32: "unat (v :: u32) < 4294967296"
  using unsigned_less [of v] by simp

lemma unat_bound64: "unat (v :: u64) < 18446744073709551616"
  using unsigned_less [of v] by simp

text \<open>A bitwise or of two numbers that share no bit is their sum.\<close>

lemma or_eq_add_nat:
  fixes a b :: nat
  assumes "a < 2 ^ n" and "2 ^ n dvd b"
  shows "a OR b = a + b"
proof -
  obtain c where b: "b = push_bit n c"
    using assms(2) by (auto simp: push_bit_eq_mult mult.commute)
  have a: "take_bit n a = a"
    using assms(1) by (simp add: take_bit_nat_eq_self)
  have "a AND b = 0"
    by (subst a [symmetric]) (auto simp: b bit_eq_iff bit_simps)
  then show ?thesis
    by (simp add: disjunctive_add_eq_or)
qed

lemma unat_or_add:
  fixes a b :: "'a::len word"
  assumes "unat a < 2 ^ n" and "2 ^ n dvd unat b"
  shows "unat (a OR b) = unat a + unat b"
  using or_eq_add_nat [OF assms] by (simp add: unsigned_or_eq)

lemma concat_split_nth: "j < length xss \<Longrightarrow> concat xss = concat (take j xss) @ xss ! j @ concat (drop (Suc j) xss)"
  by (metis concat.simps(2) concat_append id_take_nth_drop)

end
