(* ===== verification/Coding.thy ===== *)
theory Coding
  imports Prelude
begin

text \<open>
  The integer encodings of \<^verbatim>\<open>util/coding.h\<close> and \<^verbatim>\<open>util/coding.cpp\<close>: fixed-width little
  endian integers, varints and length-prefixed slices.  An \<open>Encode\<close> routine returns the
  bytes it stores at \<open>dst\<close>; a \<open>Put\<close> routine takes and returns the destination string.
  A \<open>Get\<close> routine reads the bytes of \<open>[p, limit)\<close> and returns the value with the bytes
  that remain, or \<^const>\<open>None\<close> where the C++ returns \<open>NULL\<close> or \<open>false\<close>.
\<close>

unbundle bit_operations_syntax

section \<open>Native memory images\<close>

text \<open>The bytes of an integer in memory, least significant first, and the way back.\<close>

definition le_bytes :: "nat \<Rightarrow> 'a::len word \<Rightarrow> bytes" where
  "le_bytes n v = map (\<lambda>i. ucast (drop_bit (8 * i) v)) [0..<n]"

fun le_word :: "bytes \<Rightarrow> 'a::len word" where
  "le_word [] = 0"
| "le_word (b # bs) = ucast b OR push_bit 8 (le_word bs)"

text \<open>\<open>memcpy\<close> between an integer and a buffer on a host of the given endianness.\<close>

definition native_bytes :: "bool \<Rightarrow> nat \<Rightarrow> 'a::len word \<Rightarrow> bytes" where
  "native_bytes little n v = (if little then le_bytes n v else rev (le_bytes n v))"

definition native_word :: "bool \<Rightarrow> bytes \<Rightarrow> 'a::len word" where
  "native_word little bs = le_word (if little then bs else rev bs)"

text \<open>\<open>port::kLittleEndian\<close>, fixed by the build for the host.\<close>

definition kLittleEndian :: bool where
  "kLittleEndian = True"

section \<open>Fixed-width integers\<close>

definition EncodeFixed32_host :: "bool \<Rightarrow> u32 \<Rightarrow> bytes" where
  "EncodeFixed32_host little v =
     (if little then native_bytes little 4 v
      else [ucast (v AND 0xff), ucast (drop_bit 8 v AND 0xff),
            ucast (drop_bit 16 v AND 0xff), ucast (drop_bit 24 v AND 0xff)])"

definition EncodeFixed64_host :: "bool \<Rightarrow> u64 \<Rightarrow> bytes" where
  "EncodeFixed64_host little v =
     (if little then native_bytes little 8 v
      else [ucast (v AND 0xff), ucast (drop_bit 8 v AND 0xff),
            ucast (drop_bit 16 v AND 0xff), ucast (drop_bit 24 v AND 0xff),
            ucast (drop_bit 32 v AND 0xff), ucast (drop_bit 40 v AND 0xff),
            ucast (drop_bit 48 v AND 0xff), ucast (drop_bit 56 v AND 0xff)])"

text \<open>The decoders read the first four or eight bytes at the pointer.\<close>

definition DecodeFixed32_host :: "bool \<Rightarrow> bytes \<Rightarrow> u32 option" where
  "DecodeFixed32_host little p =
     (if length p < 4 then None
      else if little then Some (native_word little (take 4 p))
      else Some (ucast (p ! 0) OR push_bit 8 (ucast (p ! 1)) OR
                 push_bit 16 (ucast (p ! 2)) OR push_bit 24 (ucast (p ! 3))))"

definition DecodeFixed64_host :: "bool \<Rightarrow> bytes \<Rightarrow> u64 option" where
  "DecodeFixed64_host little p =
     (if length p < 8 then None
      else if little then Some (native_word little (take 8 p))
      else (case (DecodeFixed32_host little p, DecodeFixed32_host little (drop 4 p)) of
              (Some lo, Some hi) \<Rightarrow> Some (push_bit 32 (ucast hi) OR ucast lo)
            | _ \<Rightarrow> None))"

definition EncodeFixed32 :: "u32 \<Rightarrow> bytes" where
  "EncodeFixed32 = EncodeFixed32_host kLittleEndian"

definition EncodeFixed64 :: "u64 \<Rightarrow> bytes" where
  "EncodeFixed64 = EncodeFixed64_host kLittleEndian"

definition DecodeFixed32 :: "bytes \<Rightarrow> u32 option" where
  "DecodeFixed32 = DecodeFixed32_host kLittleEndian"

definition DecodeFixed64 :: "bytes \<Rightarrow> u64 option" where
  "DecodeFixed64 = DecodeFixed64_host kLittleEndian"

definition PutFixed32 :: "bytes \<Rightarrow> u32 \<Rightarrow> bytes" where
  "PutFixed32 dst value = dst @ EncodeFixed32 value"

definition PutFixed64 :: "bytes \<Rightarrow> u64 \<Rightarrow> bytes" where
  "PutFixed64 dst value = dst @ EncodeFixed64 value"

section \<open>Varints\<close>

definition EncodeVarint32 :: "u32 \<Rightarrow> bytes" where
  "EncodeVarint32 v =
     (if v < 2 ^ 7 then [ucast v]
      else if v < 2 ^ 14 then [ucast (v OR 128), ucast (drop_bit 7 v)]
      else if v < 2 ^ 21 then
        [ucast (v OR 128), ucast (drop_bit 7 v OR 128), ucast (drop_bit 14 v)]
      else if v < 2 ^ 28 then
        [ucast (v OR 128), ucast (drop_bit 7 v OR 128), ucast (drop_bit 14 v OR 128),
         ucast (drop_bit 21 v)]
      else
        [ucast (v OR 128), ucast (drop_bit 7 v OR 128), ucast (drop_bit 14 v OR 128),
         ucast (drop_bit 21 v OR 128), ucast (drop_bit 28 v)])"

definition PutVarint32 :: "bytes \<Rightarrow> u32 \<Rightarrow> bytes" where
  "PutVarint32 dst v = dst @ EncodeVarint32 v"

lemma drop_bit7_less: "128 \<le> v \<Longrightarrow> unat (drop_bit 7 v) < unat (v :: u64)"
  by (simp add: unat_simps word_le_nat_alt)

function EncodeVarint64 :: "u64 \<Rightarrow> bytes" where
  "EncodeVarint64 v =
     (if v \<ge> 128 then ucast ((v AND (128 - 1)) OR 128) # EncodeVarint64 (drop_bit 7 v)
      else [ucast v])"
  by pat_completeness auto
termination
  by (relation "measure unat") (auto simp: drop_bit7_less)

declare EncodeVarint64.simps [simp del]

definition PutVarint64 :: "bytes \<Rightarrow> u64 \<Rightarrow> bytes" where
  "PutVarint64 dst v = dst @ EncodeVarint64 v"

text \<open>\<open>VarintLength\<close>: the loop on \<open>v\<close> with the counter \<open>len\<close>.\<close>

function VarintLength_loop :: "u64 \<Rightarrow> nat \<Rightarrow> nat" where
  "VarintLength_loop v len =
     (if v \<ge> 128 then VarintLength_loop (drop_bit 7 v) (len + 1) else len)"
  by pat_completeness auto
termination
  by (relation "measure (unat \<circ> fst)") (auto simp: drop_bit7_less)

declare VarintLength_loop.simps [simp del]

definition VarintLength :: "u64 \<Rightarrow> nat" where
  "VarintLength v = VarintLength_loop v 1"

text \<open>The loops of \<open>GetVarint32PtrFallback\<close> and \<open>GetVarint64Ptr\<close> over the bytes of \<open>[p, limit)\<close>.\<close>

fun GetVarint32PtrFallback_loop :: "nat \<Rightarrow> u32 \<Rightarrow> bytes \<Rightarrow> (u32 \<times> bytes) option" where
  "GetVarint32PtrFallback_loop shift result [] = None"
| "GetVarint32PtrFallback_loop shift result (c # p) =
     (if shift \<le> 28 then
        let byte = ucast c :: u32 in
        if byte AND 128 \<noteq> 0 then
          GetVarint32PtrFallback_loop (shift + 7) (result OR push_bit shift (byte AND 127)) p
        else Some (result OR push_bit shift byte, p)
      else None)"

definition GetVarint32PtrFallback :: "bytes \<Rightarrow> (u32 \<times> bytes) option" where
  "GetVarint32PtrFallback p = GetVarint32PtrFallback_loop 0 0 p"

definition GetVarint32Ptr :: "bytes \<Rightarrow> (u32 \<times> bytes) option" where
  "GetVarint32Ptr p =
     (case p of
        [] \<Rightarrow> GetVarint32PtrFallback p
      | c # q \<Rightarrow>
          let result = ucast c :: u32 in
          if result AND 128 = 0 then Some (result, q) else GetVarint32PtrFallback p)"

definition GetVarint32 :: "bytes \<Rightarrow> (u32 \<times> bytes) option" where
  "GetVarint32 input = GetVarint32Ptr input"

fun GetVarint64Ptr_loop :: "nat \<Rightarrow> u64 \<Rightarrow> bytes \<Rightarrow> (u64 \<times> bytes) option" where
  "GetVarint64Ptr_loop shift result [] = None"
| "GetVarint64Ptr_loop shift result (c # p) =
     (if shift \<le> 63 then
        let byte = ucast c :: u64 in
        if byte AND 128 \<noteq> 0 then
          GetVarint64Ptr_loop (shift + 7) (result OR push_bit shift (byte AND 127)) p
        else Some (result OR push_bit shift byte, p)
      else None)"

definition GetVarint64Ptr :: "bytes \<Rightarrow> (u64 \<times> bytes) option" where
  "GetVarint64Ptr p = GetVarint64Ptr_loop 0 0 p"

definition GetVarint64 :: "bytes \<Rightarrow> (u64 \<times> bytes) option" where
  "GetVarint64 input = GetVarint64Ptr input"

section \<open>Length-prefixed slices\<close>

definition PutLengthPrefixedSlice :: "bytes \<Rightarrow> bytes \<Rightarrow> bytes" where
  "PutLengthPrefixedSlice dst value = PutVarint32 dst (word_of_nat (length value)) @ value"

text \<open>
  The result and the input after the call: a length that does not fit leaves the input
  past the varint.
\<close>

definition GetLengthPrefixedSlice :: "bytes \<Rightarrow> bytes option \<times> bytes" where
  "GetLengthPrefixedSlice input =
     (case GetVarint32 input of
        None \<Rightarrow> (None, input)
      | Some (len, rest) \<Rightarrow>
          if length rest \<ge> unat len then (Some (take (unat len) rest), drop (unat len) rest)
          else (None, rest))"

section \<open>Fixed-width integers: lemmas\<close>

text \<open>The number a byte string denotes, least significant byte first.\<close>

fun nat_of_bytes :: "bytes \<Rightarrow> nat" where
  "nat_of_bytes [] = 0"
| "nat_of_bytes (b # bs) = unat b + 256 * nat_of_bytes bs"

lemma nat_of_bytes_bound: "nat_of_bytes bs < 256 ^ length bs"
proof (induction bs)
  case (Cons b bs)
  have "unat b + 256 * nat_of_bytes bs < 256 + 256 * nat_of_bytes bs"
    by (simp add: unat_bound8)
  also have "\<dots> = 256 * Suc (nat_of_bytes bs)"
    by simp
  also have "\<dots> \<le> 256 * 256 ^ length bs"
    using Cons.IH by (intro mult_le_mono2) simp
  finally show ?case by simp
qed simp

lemma unat_le_word:
  "8 * length bs \<le> LENGTH('a) \<Longrightarrow> unat (le_word bs :: 'a::len word) = nat_of_bytes bs"
proof (induction bs)
  case (Cons b bs)
  let ?w = "le_word bs :: 'a word"
  from Cons have IH: "unat ?w = nat_of_bytes bs" and len: "8 * Suc (length bs) \<le> LENGTH('a)"
    by simp_all
  have pow: "(256::nat) ^ n = 2 ^ (8 * n)" for n
    by (simp add: power_mult)
  have "nat_of_bytes bs * 256 < 256 ^ length bs * 256"
    using nat_of_bytes_bound by simp
  also have "\<dots> = 2 ^ (8 * Suc (length bs))"
    by (simp add: pow power_add mult.commute)
  also have "\<dots> \<le> 2 ^ LENGTH('a)"
    using len by (simp add: power_increasing)
  finally have push: "unat (push_bit 8 ?w) = nat_of_bytes bs * 256"
    by (simp add: unat_simps IH)
  have "(2::nat) ^ 8 \<le> 2 ^ LENGTH('a)"
    using len by (intro power_increasing) auto
  then have "unat b < 2 ^ LENGTH('a)"
    using unat_bound8 [of b] by simp
  then have b: "unat (ucast b :: 'a word) = unat b"
    by (simp add: unat_simps)
  have "unat (ucast b OR push_bit 8 ?w) = unat (ucast b :: 'a word) + unat (push_bit 8 ?w)"
    by (rule unat_or_add [where n = 8]) (simp_all add: b push unat_bound8)
  then show ?case
    by (simp add: b push)
qed simp

lemma length_le_bytes [simp]: "length (le_bytes n v) = n"
  by (simp add: le_bytes_def)

lemma le_bytes_Suc: "le_bytes (Suc n) v = ucast v # le_bytes n (drop_bit 8 v)"
  by (simp add: le_bytes_def upt_conv_Cons map_Suc_upt [symmetric] del: upt_Suc)
     (simp add: add.commute)

lemma nat_of_le_bytes: "nat_of_bytes (le_bytes n v) = unat v mod 256 ^ n"
proof (induction n arbitrary: v)
  case 0
  then show ?case by (simp add: le_bytes_def)
next
  case (Suc n)
  have "nat_of_bytes (le_bytes (Suc n) v) = unat v mod 256 + 256 * (unat v div 256 mod 256 ^ n)"
    by (simp add: le_bytes_Suc Suc.IH unat_simps)
  then show ?case
    by (simp add: mod_mult2_eq add.commute)
qed

lemma le_word_le_bytes:
  "8 * n = LENGTH('a) \<Longrightarrow> le_word (le_bytes n v) = (v :: 'a::len word)"
proof -
  assume n: "8 * n = LENGTH('a)"
  have "(256::nat) ^ n = 2 ^ LENGTH('a)"
    by (simp add: n [symmetric] power_mult)
  then have "unat (le_word (le_bytes n v) :: 'a word) = unat v mod 2 ^ LENGTH('a)"
    using n by (simp add: unat_le_word nat_of_le_bytes)
  also have "\<dots> = unat v"
    by simp
  finally show ?thesis
    by (simp add: word_unat_eq_iff)
qed

lemma nat_of_bytes_inject:
  "length a = length b \<Longrightarrow> nat_of_bytes a = nat_of_bytes b \<longleftrightarrow> a = b"
proof (induction a b rule: list_induct2)
  case (Cons x a y b)
  have "unat x = unat y \<and> nat_of_bytes a = nat_of_bytes b"
    if eq: "unat x + 256 * nat_of_bytes a = unat y + 256 * nat_of_bytes b"
  proof -
    have "unat x = (unat x + 256 * nat_of_bytes a) mod 256"
      using unat_bound8 [of x] by simp
    also have "\<dots> = unat y"
      unfolding eq using unat_bound8 [of y] by simp
    finally show ?thesis
      using eq by simp
  qed
  with Cons show ?case
    by (auto simp: word_unat_eq_iff)
qed simp

lemma le_bytes_le_word:
  "8 * length bs = LENGTH('a) \<Longrightarrow> le_bytes (length bs) (le_word bs :: 'a::len word) = bs"
  by (subst nat_of_bytes_inject [symmetric])
    (simp_all add: nat_of_le_bytes unat_le_word nat_of_bytes_bound)

text \<open>Both branches of every fixed-width routine agree, so the format is host independent.\<close>

lemma and_0xff: "ucast (v AND 0xff :: 'a::len word) = (ucast v :: u8)"
proof -
  have "v AND 0xff = v AND mask 8"
    by (simp add: mask_eq_exp_minus_1)
  also have "\<dots> = take_bit 8 v"
    by (simp only: take_bit_eq_mask)
  finally show ?thesis
    by (auto simp: bit_eq_iff bit_simps dest: bit_imp_le_length)
qed

lemma EncodeFixed32_host_le_bytes: "EncodeFixed32_host little v = le_bytes 4 v"
  by (simp add: EncodeFixed32_host_def native_bytes_def and_0xff le_bytes_def
        numeral_eq_Suc upt_conv_Cons)

lemma EncodeFixed64_host_le_bytes: "EncodeFixed64_host little v = le_bytes 8 v"
  by (simp add: EncodeFixed64_host_def native_bytes_def and_0xff le_bytes_def
        numeral_eq_Suc upt_conv_Cons)

lemma or_push_bit_assoc:
  fixes a b c d :: "'a::len word"
  shows "a OR push_bit 8 (b OR push_bit 8 (c OR push_bit 8 d)) =
     a OR push_bit 8 b OR push_bit 16 c OR push_bit 24 d"
  by (simp add: or.assoc)

lemma DecodeFixed32_host_le_word:
  "DecodeFixed32_host little p = (if length p < 4 then None else Some (le_word (take 4 p)))"
proof (cases "length p < 4")
  case False
  then obtain a b c d q where p: "p = a # b # c # d # q"
    by (auto simp: numeral_eq_Suc not_less Suc_le_length_iff)
  show ?thesis
    by (simp add: DecodeFixed32_host_def native_word_def p or_push_bit_assoc
        del: push_bit_or)
qed (simp add: DecodeFixed32_host_def)

lemma le_word_append:
  "8 * length (xs @ ys) \<le> LENGTH('a) \<Longrightarrow>
   (le_word (xs @ ys) :: 'a::len word) = le_word xs OR push_bit (8 * length xs) (le_word ys)"
  by (induction xs) (simp_all add: or.assoc add.commute)

lemma ucast_le_word:
  assumes "8 * length bs \<le> LENGTH('a)" and "8 * length bs \<le> LENGTH('b)"
  shows "(ucast (le_word bs :: 'a::len word) :: 'b::len word) = le_word bs"
proof -
  have "nat_of_bytes bs < 2 ^ (8 * length bs)"
    using nat_of_bytes_bound [of bs] by (simp add: power_mult)
  also have "\<dots> \<le> 2 ^ LENGTH('b)"
    using assms(2) by (simp add: power_increasing)
  finally have "unat (ucast (le_word bs :: 'a word) :: 'b word) = nat_of_bytes bs"
    using assms(1) by (simp add: unat_simps unat_le_word)
  then show ?thesis
    using assms(2) by (simp add: word_unat_eq_iff unat_le_word)
qed

lemma DecodeFixed64_host_le_word:
  "DecodeFixed64_host little p = (if length p < 8 then None else Some (le_word (take 8 p)))"
proof (cases "length p < 8")
  case False
  have "take 8 p = take 4 p @ take 4 (drop 4 p)"
    using take_add [of 4 4 p] by simp
  with False have "(le_word (take 8 p) :: u64) =
      push_bit 32 (ucast (le_word (take 4 (drop 4 p)) :: u32)) OR ucast (le_word (take 4 p) :: u32)"
    by (simp add: le_word_append ucast_le_word or.commute)
  with False show ?thesis
    by (auto simp: DecodeFixed64_host_def DecodeFixed32_host_le_word native_word_def)
qed (simp add: DecodeFixed64_host_def)

lemma EncodeFixed32_le_bytes: "EncodeFixed32 v = le_bytes 4 v"
  by (simp add: EncodeFixed32_def EncodeFixed32_host_le_bytes)

lemma EncodeFixed64_le_bytes: "EncodeFixed64 v = le_bytes 8 v"
  by (simp add: EncodeFixed64_def EncodeFixed64_host_le_bytes)

lemma length_EncodeFixed32 [simp]: "length (EncodeFixed32 v) = 4"
  by (simp add: EncodeFixed32_le_bytes)

lemma length_EncodeFixed64 [simp]: "length (EncodeFixed64 v) = 8"
  by (simp add: EncodeFixed64_le_bytes)

lemma DecodeFixed32_append [simp]: "DecodeFixed32 (EncodeFixed32 v @ rest) = Some v"
  by (simp add: DecodeFixed32_def DecodeFixed32_host_le_word EncodeFixed32_le_bytes le_word_le_bytes)

lemma DecodeFixed64_append [simp]: "DecodeFixed64 (EncodeFixed64 v @ rest) = Some v"
  by (simp add: DecodeFixed64_def DecodeFixed64_host_le_word EncodeFixed64_le_bytes le_word_le_bytes)

text \<open>Arrays of fixed-width integers.\<close>

lemma fold_PutFixed32: "fold (\<lambda>r buf. PutFixed32 buf r) rs buf = buf @ concat (map EncodeFixed32 rs)"
  by (induction rs arbitrary: buf) (simp_all add: PutFixed32_def)

lemma nth_concat_fixed:
  "j < length xs \<Longrightarrow> drop (j * 4) (concat (map EncodeFixed32 xs)) = EncodeFixed32 (xs ! j) @ concat (map EncodeFixed32 (drop (Suc j) xs))"
proof (induction xs arbitrary: j)
  case (Cons x xs)
  then show ?case
    by (cases j) (simp_all add: add.commute)
qed simp

lemma EncodeFixed32_surj: "length bs = 4 \<Longrightarrow> \<exists>v. bs = EncodeFixed32 v"
  using le_bytes_le_word [of bs, where 'a = 32] by (intro exI [of _ "le_word bs"]) (simp add: EncodeFixed32_le_bytes)

lemma EncodeFixed64_surj: "length bs = 8 \<Longrightarrow> \<exists>v. bs = EncodeFixed64 v"
  using le_bytes_le_word [of bs, where 'a = 64] by (intro exI [of _ "le_word bs"]) (simp add: EncodeFixed64_le_bytes)

lemma DecodeFixed32_EncodeFixed32 [simp]: "DecodeFixed32 (EncodeFixed32 v) = Some v"
  using DecodeFixed32_append [of v "[]"] by simp

lemma DecodeFixed64_EncodeFixed64 [simp]: "DecodeFixed64 (EncodeFixed64 v) = Some v"
  using DecodeFixed64_append [of v "[]"] by simp

section \<open>Varints: lemmas\<close>

text \<open>The reference encoding: base 128 digits, the high bit set on all but the last.\<close>

fun varint_digits :: "nat \<Rightarrow> nat list" where
  "varint_digits n = (if n < 128 then [n] else (n mod 128 + 128) # varint_digits (n div 128))"

declare varint_digits.simps [simp del]

definition byte :: "nat \<Rightarrow> u8" where
  "byte n = word_of_nat n"

definition varint :: "nat \<Rightarrow> bytes" where
  "varint n = map byte (varint_digits n)"

lemma unat_byte: "unat (byte n) = n mod 256"
  by (simp add: byte_def unat_of_nat)

lemma byte_eqI: "unat b = n mod 256 \<Longrightarrow> b = byte n"
  by (simp add: word_unat_eq_iff unat_byte)

lemma varint_small: "n < 128 \<Longrightarrow> varint n = [byte n]"
  by (simp add: varint_def varint_digits.simps)

lemma varint_big: "128 \<le> n \<Longrightarrow> varint n = byte (n mod 128 + 128) # varint (n div 128)"
  by (simp add: varint_def varint_digits.simps [of n])

lemma length_varint_pos: "0 < length (varint n)"
  by (cases "n < 128") (simp_all add: varint_small varint_big)

lemma length_varint_le: "n < 128 ^ Suc k \<Longrightarrow> length (varint n) \<le> Suc k"
proof (induction k arbitrary: n)
  case 0
  then show ?case by (simp add: varint_small)
next
  case (Suc k)
  show ?case
  proof (cases "n < 128")
    case False
    have "n div 128 < 128 ^ Suc k"
      using Suc.prems by (simp add: less_mult_imp_div_less mult.commute)
    with False Suc.IH show ?thesis by (simp add: varint_big)
  qed (simp add: varint_small)
qed

text \<open>A byte of a varint, as the encoders compute it and as the decoders take it apart.\<close>

lemma ucast_byte: "(ucast v :: u8) = byte (unat (v :: 'a::len word))"
  by (rule byte_eqI) (simp add: unat_simps)

lemma u8_or_128: "unat ((w :: u8) OR 128) = unat w mod 128 + 128"
proof -
  have "w OR 128 = (w AND mask 7) OR push_bit 7 1"
    by (rule bit_word_eqI) (auto simp: bit_simps less_Suc_eq numeral_eq_Suc)
  moreover have "unat ((w AND mask 7) OR push_bit 7 1) = unat (w AND mask 7) + unat (push_bit 7 1 :: u8)"
    by (rule unat_or_add [where n = 7]) (simp_all add: unat_simps del: push_bit_of_1)
  ultimately show ?thesis
    by (simp add: unat_simps)
qed

lemma mod_256_mod_128: "(n :: nat) mod 256 mod 128 = n mod 128"
  by (simp add: mod_mod_cancel)

lemma mod_128_add_128: "((n :: nat) mod 128 + 128) mod 256 = n mod 128 + 128"
  by simp

lemma ucast_or_128_32: "(ucast ((v :: u32) OR 128) :: u8) = byte (unat v mod 128 + 128)"
proof -
  have "(ucast (v OR 128) :: u8) = ucast v OR 128"
    by (simp add: unsigned_or_eq)
  then have "unat (ucast (v OR 128) :: u8) = unat v mod 128 + 128"
    by (simp only: u8_or_128 unat_ucast_mod) (simp add: mod_256_mod_128)
  then show ?thesis
    by (intro byte_eqI) (simp only: mod_128_add_128)
qed

lemma ucast_or_128_64: "(ucast ((v :: u64) OR 128) :: u8) = byte (unat v mod 128 + 128)"
proof -
  have "(ucast (v OR 128) :: u8) = ucast v OR 128"
    by (simp add: unsigned_or_eq)
  then have "unat (ucast (v OR 128) :: u8) = unat v mod 128 + 128"
    by (simp only: u8_or_128 unat_ucast_mod) (simp add: mod_256_mod_128)
  then show ?thesis
    by (intro byte_eqI) (simp only: mod_128_add_128)
qed

lemma and_127: "(v AND 127 :: 'a::len word) = v AND mask 7"
  by (simp add: mask_eq_exp_minus_1)

lemma EncodeVarint64_varint: "EncodeVarint64 v = varint (unat v)"
proof (induction v rule: EncodeVarint64.induct)
  case (1 v)
  show ?case
  proof (cases "v \<ge> 128")
    case True
    have "unat (v AND mask 7) mod 128 = unat v mod 128"
      by (simp add: unat_and_mask)
    then have head: "ucast ((v AND (128 - 1)) OR 128) = byte (unat v mod 128 + 128)"
      by (simp add: and_127 ucast_or_128_64)
    from True have big: "128 \<le> unat v"
      by (simp add: word_le_nat_alt)
    have "EncodeVarint64 (drop_bit 7 v) = varint (unat v div 128)"
      using 1 True by (simp add: unat_drop_bit)
    with True head big show ?thesis
      by (simp add: EncodeVarint64.simps [of v] varint_big)
  next
    case False
    then show ?thesis
      by (simp add: EncodeVarint64.simps [of v] varint_small word_le_nat_alt ucast_byte)
  qed
qed

lemma varint_digits_unroll:
  fixes n :: nat
  assumes "n < 2 ^ 32"
  shows "varint n =
     (if n < 2 ^ 7 then [byte n]
      else if n < 2 ^ 14 then [byte (n mod 128 + 128), byte (n div 2 ^ 7)]
      else if n < 2 ^ 21 then
        [byte (n mod 128 + 128), byte (n div 2 ^ 7 mod 128 + 128), byte (n div 2 ^ 14)]
      else if n < 2 ^ 28 then
        [byte (n mod 128 + 128), byte (n div 2 ^ 7 mod 128 + 128),
         byte (n div 2 ^ 14 mod 128 + 128), byte (n div 2 ^ 21)]
      else
        [byte (n mod 128 + 128), byte (n div 2 ^ 7 mod 128 + 128),
         byte (n div 2 ^ 14 mod 128 + 128), byte (n div 2 ^ 21 mod 128 + 128),
         byte (n div 2 ^ 28)])"
proof -
  have split: "varint m = (if m < 128 then [byte m]
      else byte (m mod 128 + 128) # varint (m div 128))" for m
    by (simp add: varint_small varint_big)
  have "n div 268435456 < 128"
    using assms by (simp add: less_mult_imp_div_less)
  then show ?thesis
    using split [of n] split [of "n div 128"] split [of "n div 16384"] split [of "n div 2097152"]
      split [of "n div 268435456"]
    by (simp add: div_less_iff_less_mult flip: div_mult2_eq)
qed

lemma EncodeVarint32_varint: "EncodeVarint32 v = varint (unat v)"
proof -
  have lt: "v < 2 ^ 7 \<longleftrightarrow> unat v < 2 ^ 7" "v < 2 ^ 14 \<longleftrightarrow> unat v < 2 ^ 14"
    "v < 2 ^ 21 \<longleftrightarrow> unat v < 2 ^ 21" "v < 2 ^ 28 \<longleftrightarrow> unat v < 2 ^ 28"
    by (simp_all add: word_less_nat_alt)
  have bound: "unat v < 2 ^ 32"
    using unsigned_less [of v, where ?'a = nat] by simp
  show ?thesis
    unfolding EncodeVarint32_def varint_digits_unroll [OF bound] lt ucast_or_128_32
    unfolding ucast_byte unat_drop_bit ..
qed

text \<open>The unrolled 32-bit encoder is the 64-bit loop on the same number.\<close>

lemma EncodeVarint32_EncodeVarint64: "EncodeVarint32 v = EncodeVarint64 (ucast v)"
proof -
  have "unat (ucast v :: u64) = unat v"
    by (simp add: unat_ucast_mod order.strict_trans2 [OF unat_bound32])
  then show ?thesis
    by (simp add: EncodeVarint32_varint EncodeVarint64_varint)
qed

lemma VarintLength_loop_eq: "VarintLength_loop v len + 1 = len + length (EncodeVarint64 v)"
proof (induction v len rule: VarintLength_loop.induct)
  case (1 v len)
  then show ?case
    by (cases "v \<ge> 128") (simp_all add: VarintLength_loop.simps [of v] EncodeVarint64.simps [of v])
qed

lemma VarintLength_eq: "VarintLength v = length (EncodeVarint64 v)"
  using VarintLength_loop_eq [of v 1] by (simp add: VarintLength_def)

lemma length_EncodeVarint64: "length (EncodeVarint64 v) \<le> 10"
proof -
  have "unat v < 128 ^ Suc 9"
    using unat_bound64 [of v] by simp
  then show ?thesis
    unfolding EncodeVarint64_varint by (drule_tac length_varint_le) simp
qed

lemma length_EncodeVarint32: "length (EncodeVarint32 v) \<le> 5"
proof -
  have "unat v < 128 ^ Suc 4"
    using unat_bound32 [of v] by simp
  then show ?thesis
    unfolding EncodeVarint32_varint by (drule_tac length_varint_le) simp
qed

text \<open>The continuation bit, as the decoders test it.\<close>

lemma and_128_eq_0:
  fixes w :: "'a::len word"
  assumes "8 \<le> LENGTH('a)" and "unat w < 256"
  shows "w AND 128 = 0 \<longleftrightarrow> unat w < 128"
proof -
  have "w AND 128 = 0 \<longleftrightarrow> \<not> bit w 7"
    using and_exp_eq_0_iff_not_bit [of w 7] by simp
  also have "bit w 7 \<longleftrightarrow> bit (unat w) 7"
    using assms(1) by (simp add: bit_unsigned_iff)
  also have "\<dots> \<longleftrightarrow> odd (unat w div 128)"
    by (simp add: bit_iff_odd)
  also have "\<dots> \<longleftrightarrow> \<not> unat w < 128"
  proof -
    have "unat w div 128 < 2"
      using assms(2) by (simp add: less_mult_imp_div_less)
    then consider "unat w div 128 = 0" | "unat w div 128 = 1"
      by (auto simp: less_2_cases_iff)
    then show ?thesis
      by cases (auto simp: div_eq_0_iff)
  qed
  finally show ?thesis by simp
qed

lemma varint_digit_or:
  fixes result w :: "'a::len word"
  assumes "unat result < 2 ^ shift" and "unat w * 2 ^ shift < 2 ^ LENGTH('a)"
  shows "unat (result OR push_bit shift w) = unat result + unat w * 2 ^ shift"
proof -
  have push: "unat (push_bit shift w) = unat w * 2 ^ shift"
    using assms(2) by (simp add: unat_push_bit)
  have "unat (result OR push_bit shift w) = unat result + unat (push_bit shift w)"
    by (rule unat_or_add [where n = shift]) (simp_all add: push assms(1))
  then show ?thesis
    by (simp add: push)
qed

text \<open>Decoding a reference varint, for both widths.\<close>

lemma digit_scaled_less:
  fixes n :: nat
  assumes "n * 2 ^ shift < 2 ^ w"
  shows "(n mod 128) * 2 ^ shift < 2 ^ w" and "n div 128 * 2 ^ (shift + 7) < 2 ^ w"
    and "(n mod 128) * 2 ^ shift + n div 128 * 2 ^ (shift + 7) = n * 2 ^ shift"
proof -
  have "n mod 128 * 2 ^ shift + 128 * (n div 128) * 2 ^ shift = n * 2 ^ shift"
    by (metis add.commute add_mult_distrib mult_div_mod_eq)
  then show eq: "(n mod 128) * 2 ^ shift + n div 128 * 2 ^ (shift + 7) = n * 2 ^ shift"
    by (simp add: power_add mult.commute mult.left_commute)
  from eq assms show "(n mod 128) * 2 ^ shift < 2 ^ w"
    by linarith
  from eq assms show "n div 128 * 2 ^ (shift + 7) < 2 ^ w"
    by linarith
qed

lemma shift_bound:
  fixes n :: nat
  assumes "128 \<le> n" and "n * 2 ^ shift < 2 ^ w"
  shows "shift + 7 < w"
proof -
  have "(2::nat) ^ (shift + 7) \<le> n * 2 ^ shift"
    using assms(1) by (simp add: power_add mult.commute)
  with assms(2) have "(2::nat) ^ (shift + 7) < 2 ^ w"
    by linarith
  then show ?thesis by simp
qed

lemma unat_cont_byte: "unat (byte (n mod 128 + 128)) = n mod 128 + 128"
  by (simp only: unat_byte mod_128_add_128)

lemma unat_ucast_u8:
  "8 \<le> LENGTH('a) \<Longrightarrow> unat (ucast (b :: u8) :: 'a::len word) = unat b"
proof -
  assume "8 \<le> LENGTH('a)"
  then have "(2::nat) ^ 8 \<le> 2 ^ LENGTH('a)"
    by (rule power_increasing) simp
  then show ?thesis
    using unat_bound8 [of b] by (simp add: unat_ucast_mod)
qed

text \<open>The two decoding loops are one loop at two widths.\<close>

fun get_varint_loop :: "nat \<Rightarrow> nat \<Rightarrow> 'a::len word \<Rightarrow> bytes \<Rightarrow> ('a word \<times> bytes) option" where
  "get_varint_loop hi shift result [] = None"
| "get_varint_loop hi shift result (c # p) =
     (if shift \<le> hi then
        let byte = ucast c in
        if byte AND 128 \<noteq> 0 then
          get_varint_loop hi (shift + 7) (result OR push_bit shift (byte AND 127)) p
        else Some (result OR push_bit shift byte, p)
      else None)"

lemma GetVarint32_loop_generic:
  "GetVarint32PtrFallback_loop shift result p = get_varint_loop 28 shift result p"
  by (induction p arbitrary: shift result) (simp_all add: Let_def)

lemma GetVarint64_loop_generic:
  "GetVarint64Ptr_loop shift result p = get_varint_loop 63 shift result p"
  by (induction p arbitrary: shift result) (simp_all add: Let_def)

lemma get_varint_loop_last:
  fixes result :: "'a::len word"
  assumes "8 \<le> LENGTH('a)" and "n < 128" and "shift \<le> hi"
    and "unat result < 2 ^ shift" and "n * 2 ^ shift < 2 ^ LENGTH('a)"
  shows "get_varint_loop hi shift result (byte n # rest) =
     Some (word_of_nat (unat result + n * 2 ^ shift), rest)"
proof -
  let ?byte = "ucast (byte n) :: 'a word"
  have byte: "unat ?byte = n"
    using assms by (simp add: unat_ucast_u8 unat_byte)
  then have "?byte AND 128 = 0"
    using assms and_128_eq_0 [of ?byte] by simp
  moreover have "unat (result OR push_bit shift ?byte) = unat result + n * 2 ^ shift"
    using assms varint_digit_or [of result shift ?byte] by (simp add: byte)
  then have "result OR push_bit shift ?byte = word_of_nat (unat result + n * 2 ^ shift)"
    by (metis of_nat_unat ucast_id)
  ultimately show ?thesis
    using assms by simp
qed

lemma get_varint_loop_cont:
  fixes result :: "'a::len word"
  assumes "8 \<le> LENGTH('a)" and "shift \<le> hi"
    and "unat result < 2 ^ shift" and "n * 2 ^ shift < 2 ^ LENGTH('a)"
  shows "\<exists>r. get_varint_loop hi shift result (byte (n mod 128 + 128) # p) =
       get_varint_loop hi (shift + 7) r p \<and>
     unat r = unat result + n mod 128 * 2 ^ shift \<and> unat r < 2 ^ (shift + 7)"
proof -
  let ?byte = "ucast (byte (n mod 128 + 128)) :: 'a word"
  have byte: "unat ?byte = n mod 128 + 128"
    using assms(1) by (simp add: unat_ucast_u8 unat_cont_byte)
  then have cont: "?byte AND 128 \<noteq> 0"
    using assms(1) and_128_eq_0 [of ?byte] by simp
  have low: "unat (?byte AND 127) = n mod 128"
    by (simp add: and_127 unat_and_mask byte)
  have r: "unat (result OR push_bit shift (?byte AND 127)) = unat result + n mod 128 * 2 ^ shift"
    using assms(3) varint_digit_or [of result shift "?byte AND 127"]
      digit_scaled_less(1) [OF assms(4)] low by simp
  have "n mod 128 * 2 ^ shift \<le> 127 * 2 ^ shift"
    by (intro mult_right_mono) (simp_all add: less_Suc_eq_le [symmetric])
  moreover have "(2::nat) ^ (shift + 7) = 128 * 2 ^ shift"
    by (simp add: power_add)
  ultimately have "unat result + n mod 128 * 2 ^ shift < 2 ^ (shift + 7)"
    using assms(3) by linarith
  with cont r assms(2) show ?thesis
    by (intro exI [of _ "result OR push_bit shift (?byte AND 127)"]) (simp add: Let_def)
qed

lemma get_varint_loop_varint:
  fixes result :: "'a::len word"
  assumes "8 \<le> LENGTH('a)" and hi: "\<And>s. 7 dvd s \<Longrightarrow> s + 7 < LENGTH('a) \<Longrightarrow> s + 7 \<le> hi"
    and "unat result < 2 ^ shift" and "n * 2 ^ shift < 2 ^ LENGTH('a)" and "7 dvd shift"
    and "shift \<le> hi"
  shows "get_varint_loop hi shift result (varint n @ rest) =
     Some (word_of_nat (unat result + n * 2 ^ shift), rest)"
  using assms(3-)
proof (induction n arbitrary: shift result rule: varint_digits.induct)
  case (1 n)
  show ?case
  proof (cases "n < 128")
    case True
    with 1 assms(1) show ?thesis
      by (simp add: varint_small get_varint_loop_last del: get_varint_loop.simps)
  next
    case False
    obtain r where r: "get_varint_loop hi shift result (varint n @ rest) =
          get_varint_loop hi (shift + 7) r (varint (n div 128) @ rest)"
        "unat r = unat result + n mod 128 * 2 ^ shift" "unat r < 2 ^ (shift + 7)"
      using get_varint_loop_cont [OF assms(1) 1(5) 1(2) 1(3), of "varint (n div 128) @ rest"] False
      by (auto simp: varint_big simp del: get_varint_loop.simps)
    have "shift + 7 < LENGTH('a)"
      using False 1(3) by (intro shift_bound [of n]) simp_all
    then have "shift + 7 \<le> hi"
      using hi 1(4) by blast
    with 1 False r(3) have "get_varint_loop hi (shift + 7) r (varint (n div 128) @ rest) =
        Some (word_of_nat (unat r + n div 128 * 2 ^ (shift + 7)), rest)"
      using digit_scaled_less(2) [OF 1(3)] by simp
    then show ?thesis
      unfolding r(1) r(2) add.assoc digit_scaled_less(3) [OF 1(3)] .
  qed
qed

lemma GetVarint64_varint:
  "GetVarint64 (EncodeVarint64 v @ rest) = Some (v, rest)"
proof -
  have "s + 7 \<le> 63" if "7 dvd s" "s + 7 < LENGTH(64)" for s :: nat
    using that by simp
  from get_varint_loop_varint [OF _ this, of "0 :: u64" 0 "unat v"] show ?thesis
    by (simp add: GetVarint64_def GetVarint64Ptr_def GetVarint64_loop_generic EncodeVarint64_varint
        unat_bound64)
qed

lemma GetVarint32PtrFallback_varint:
  "GetVarint32PtrFallback (EncodeVarint32 v @ rest) = Some (v, rest)"
proof -
  have "s + 7 \<le> 28" if "7 dvd s" "s + 7 < LENGTH(32)" for s :: nat
    using that by auto
  from get_varint_loop_varint [OF _ this, of "0 :: u32" 0 "unat v"] show ?thesis
    by (simp add: GetVarint32PtrFallback_def GetVarint32_loop_generic EncodeVarint32_varint
        unat_bound32)
qed

text \<open>The fast path of \<open>GetVarint32Ptr\<close> is the first turn of the loop.\<close>

lemma GetVarint32Ptr_fallback: "GetVarint32Ptr p = GetVarint32PtrFallback p"
  by (cases p) (simp_all add: GetVarint32Ptr_def GetVarint32PtrFallback_def Let_def)

lemma GetVarint32_varint [simp]: "GetVarint32 (EncodeVarint32 v @ rest) = Some (v, rest)"
  by (simp add: GetVarint32_def GetVarint32Ptr_fallback GetVarint32PtrFallback_varint)

lemma GetVarint64_varint_end [simp]: "GetVarint64 (EncodeVarint64 v) = Some (v, [])"
  using GetVarint64_varint [of v "[]"] by simp

lemma GetVarint32Ptr_varint [simp]: "GetVarint32Ptr (EncodeVarint32 v @ rest) = Some (v, rest)"
  by (simp add: GetVarint32Ptr_fallback GetVarint32PtrFallback_varint)

declare GetVarint64_varint [simp]

text \<open>A decoder returns a proper suffix of what it reads, and never looks past ten bytes.\<close>

lemma get_varint_loop_suffix:
  "get_varint_loop hi shift result p = Some (v, rest) \<Longrightarrow>
   \<exists>used. p = used @ rest \<and> used \<noteq> [] \<and> 7 * length used + shift \<le> hi + 7"
proof (induction hi shift result p rule: get_varint_loop.induct)
  case (2 hi shift result c p)
  show ?case
  proof (cases "(ucast c :: 'a word) AND 128 = 0")
    case True
    with 2(2) show ?thesis
      by (intro exI [of _ "[c]"]) (simp add: Let_def split: if_splits)
  next
    case False
    with 2(2) have le: "shift \<le> hi" and rec: "get_varint_loop hi (shift + 7)
        (result OR push_bit shift (ucast c AND 127)) p = Some (v, rest)"
      by (simp_all add: Let_def split: if_splits)
    from 2(1) [OF le refl False rec] obtain used where
      "p = used @ rest" "used \<noteq> []" "7 * length used + (shift + 7) \<le> hi + 7"
      by blast
    then show ?thesis
      by (intro exI [of _ "c # used"]) simp
  qed
qed simp

lemma GetVarint32_suffix:
  "GetVarint32 p = Some (v, rest) \<Longrightarrow> \<exists>used. p = used @ rest \<and> used \<noteq> [] \<and> length used \<le> 5"
  using get_varint_loop_suffix [of 28 0 0 p v rest]
  by (auto simp: GetVarint32_def GetVarint32Ptr_fallback GetVarint32PtrFallback_def
      GetVarint32_loop_generic)

lemma GetVarint64_suffix:
  "GetVarint64 p = Some (v, rest) \<Longrightarrow> \<exists>used. p = used @ rest \<and> used \<noteq> [] \<and> length used \<le> 10"
  using get_varint_loop_suffix [of 63 0 0 p v rest]
  by (auto simp: GetVarint64_def GetVarint64Ptr_def GetVarint64_loop_generic)

lemma GetLengthPrefixedSlice_Put:
  assumes "length value < 2 ^ 32"
  shows "GetLengthPrefixedSlice (PutLengthPrefixedSlice [] value @ rest) = (Some value, rest)"
proof -
  have "unat (word_of_nat (length value) :: u32) = length value"
    using assms by (simp add: unat_of_nat)
  then show ?thesis
    by (simp add: GetLengthPrefixedSlice_def PutLengthPrefixedSlice_def PutVarint32_def)
qed

section \<open>Properties\<close>

text \<open>Fixed-width integers: on every host, whatever its endianness, the encoder writes the
  same bytes, and the decoder gives the value back from those bytes followed by anything.\<close>

lemma fixed_roundtrip:
  "DecodeFixed32_host d32 (EncodeFixed32_host e32 v @ rest) = Some v \<and>
   DecodeFixed64_host d64 (EncodeFixed64_host e64 w @ rest) = Some w"
  by (simp add: DecodeFixed32_host_le_word DecodeFixed64_host_le_word EncodeFixed32_host_le_bytes
      EncodeFixed64_host_le_bytes le_word_le_bytes)

text \<open>C19. Varints: \<open>GetVarint32\<close> and \<open>GetVarint64\<close> read back what \<open>PutVarint32\<close> and
  \<open>PutVarint64\<close> append and stop exactly behind it; the unrolled 32-bit encoder writes the
  bytes of the 64-bit loop; \<open>VarintLength\<close> is the number of bytes written, at most 5 and
  10 of them, so the \<open>buf[5]\<close> and \<open>buf[10]\<close> of the \<open>Put\<close> routines never overflow.\<close>

theorem varint_roundtrip:
  "GetVarint32 (PutVarint32 [] v @ rest) = Some (v, rest) \<and>
   GetVarint64 (PutVarint64 [] w @ rest) = Some (w, rest) \<and>
   EncodeVarint32 v = EncodeVarint64 (ucast v) \<and>
   VarintLength w = length (EncodeVarint64 w) \<and>
   length (EncodeVarint32 v) \<le> 5 \<and> length (EncodeVarint64 w) \<le> 10"
  by (simp add: PutVarint32_def PutVarint64_def EncodeVarint32_EncodeVarint64 [symmetric]
      VarintLength_eq length_EncodeVarint32 length_EncodeVarint64)

end
