(* ===== verification/Slice.thy ===== *)
theory Slice
  imports Prelude
begin

text \<open>
  The operations of \<open>Slice\<close> (\<^verbatim>\<open>include/leveldb/slice.h\<close>).  A slice is the list of the bytes
  it refers to; the operations that \<open>assert\<close> a precondition return \<^const>\<open>None\<close> where it fails.
\<close>

section \<open>Operations\<close>

definition Slice_at :: "bytes \<Rightarrow> nat \<Rightarrow> u8 option" where
  "Slice_at s n = (if n < length s then Some (s ! n) else None)"

definition Slice_remove_prefix :: "bytes \<Rightarrow> nat \<Rightarrow> bytes option" where
  "Slice_remove_prefix s n = (if n \<le> length s then Some (drop n s) else None)"

text \<open>\<open>memcmp\<close> of the C library on the first \<open>n\<close> bytes (the sign is what C specifies).\<close>

fun memcmp :: "bytes \<Rightarrow> bytes \<Rightarrow> nat \<Rightarrow> int" where
  "memcmp (x # a) (y # b) (Suc n) = (if x < y then -1 else if y < x then 1 else memcmp a b n)"
| "memcmp _ _ _ = 0"

definition Slice_compare :: "bytes \<Rightarrow> bytes \<Rightarrow> int" where
  "Slice_compare a b =
     (let min_len = (if length a < length b then length a else length b);
          r = memcmp a b min_len
      in if r = 0 then (if length a < length b then -1 else if length a > length b then 1 else r)
         else r)"

definition Slice_starts_with :: "bytes \<Rightarrow> bytes \<Rightarrow> bool" where
  "Slice_starts_with s x \<longleftrightarrow> length s \<ge> length x \<and> memcmp s x (length x) = 0"

definition Slice_eq :: "bytes \<Rightarrow> bytes \<Rightarrow> bool" where
  "Slice_eq x y \<longleftrightarrow> length x = length y \<and> memcmp x y (length x) = 0"

section \<open>Lemmas\<close>

lemma memcmp_0: "memcmp a b 0 = 0"
  by (cases a; cases b) simp_all

lemma memcmp_eq_0:
  "n \<le> length a \<Longrightarrow> n \<le> length b \<Longrightarrow> memcmp a b n = 0 \<longleftrightarrow> take n a = take n b"
  by (induction a b n rule: memcmp.induct) auto

text \<open>\<open>Slice::compare\<close> by recursion on both slices: the order of bytes, shorter first.\<close>

lemma Slice_compare_simps [simp]:
  "Slice_compare [] [] = 0"
  "Slice_compare [] (y # b) = -1"
  "Slice_compare (x # a) [] = 1"
  "Slice_compare (x # a) (y # b) = (if x < y then -1 else if y < x then 1 else Slice_compare a b)"
  by (simp_all add: Slice_compare_def Let_def memcmp_0)

lemma Slice_compare_less: "Slice_compare a b < 0 \<longleftrightarrow> a < b"
  by (induction a b rule: List.list_induct2') auto

lemma Slice_compare_eq: "Slice_compare a b = 0 \<longleftrightarrow> a = b"
  by (induction a b rule: List.list_induct2') auto

lemma Slice_compare_greater: "Slice_compare a b > 0 \<longleftrightarrow> b < a"
  by (induction a b rule: List.list_induct2') auto

lemma Slice_eq_iff: "Slice_eq x y \<longleftrightarrow> x = y"
  by (auto simp: Slice_eq_def memcmp_eq_0)

lemma Slice_starts_with_iff: "Slice_starts_with s x \<longleftrightarrow> (\<exists>t. s = x @ t)"
proof
  assume "Slice_starts_with s x"
  then have "s = x @ drop (length x) s"
    by (auto simp: Slice_starts_with_def memcmp_eq_0) (metis append_take_drop_id)
  then show "\<exists>t. s = x @ t" ..
qed (auto simp: Slice_starts_with_def memcmp_eq_0)

section \<open>Properties\<close>

text \<open>\<open>Slice::compare\<close>, \<open>operator==\<close> and \<open>starts_with\<close> are the lexicographic order on byte
  strings, equality, and the prefix relation.\<close>

lemma Slice_compare_lexicographic:
  "(Slice_compare a b < 0 \<longleftrightarrow> a < b) \<and> (Slice_compare a b = 0 \<longleftrightarrow> a = b) \<and>
   (Slice_compare a b > 0 \<longleftrightarrow> b < a) \<and> (Slice_eq a b \<longleftrightarrow> a = b) \<and>
   (Slice_starts_with a b \<longleftrightarrow> (\<exists>t. a = b @ t))"
  by (simp add: Slice_compare_less Slice_compare_eq Slice_compare_greater Slice_eq_iff
      Slice_starts_with_iff)

end
