(* ===== verification/Comparator.thy ===== *)
theory Comparator
  imports Slice
begin

text \<open>
  The \<open>Comparator\<close> interface (\<^verbatim>\<open>include/leveldb/comparator.h\<close>) as two locales, the order and
  the order with the key-shortening operations, and its built-in implementation
  \<open>BytewiseComparatorImpl\<close> (\<^verbatim>\<open>util/comparator.cpp\<close>).
\<close>

section \<open>Operations\<close>

definition Bytewise_Name :: bytes where
  "Bytewise_Name = str ''leveldb.BytewiseComparator''"

definition Bytewise_Compare :: "bytes \<Rightarrow> bytes \<Rightarrow> int" where
  "Bytewise_Compare a b = Slice_compare a b"

text \<open>The loop that counts the bytes two strings share from their start.\<close>

fun shared_prefix :: "bytes \<Rightarrow> bytes \<Rightarrow> nat" where
  "shared_prefix (x # a) (y # b) = (if x = y then Suc (shared_prefix a b) else 0)"
| "shared_prefix _ _ = 0"

definition Bytewise_FindShortestSeparator :: "bytes \<Rightarrow> bytes \<Rightarrow> bytes" where
  "Bytewise_FindShortestSeparator start limit =
     (let min_length = min (length start) (length limit);
          diff_index = shared_prefix start limit
      in if diff_index \<ge> min_length then start
         else
           let diff_byte = start ! diff_index in
           if diff_byte < 0xff \<and> unat diff_byte + 1 < unat (limit ! diff_index) then
             take (diff_index + 1) (start[diff_index := diff_byte + 1])
           else start)"

text \<open>The loop over \<open>i\<close>: the bytes before \<open>i\<close> are all \<open>0xff\<close> and stay.\<close>

fun Bytewise_FindShortSuccessor :: "bytes \<Rightarrow> bytes" where
  "Bytewise_FindShortSuccessor [] = []"
| "Bytewise_FindShortSuccessor (byte # key) =
     (if byte \<noteq> 0xff then [byte + 1] else byte # Bytewise_FindShortSuccessor key)"

section \<open>The interface\<close>

text \<open>
  A three-way comparison that orders the keys satisfying \<open>valid\<close>: reflexive, with opposite
  signs for swapped arguments, and transitive.  Clients (the skip list, the blocks) rely on
  no more than this.
\<close>

locale key_order =
  fixes cmp :: "'k \<Rightarrow> 'k \<Rightarrow> int" and valid :: "'k \<Rightarrow> bool"
  assumes cmp_refl: "valid a \<Longrightarrow> cmp a a = 0"
    and cmp_swap: "valid a \<Longrightarrow> valid b \<Longrightarrow> cmp b a < 0 \<longleftrightarrow> cmp a b > 0"
    and cmp_trans: "valid a \<Longrightarrow> valid b \<Longrightarrow> valid c \<Longrightarrow> cmp a b \<le> 0 \<Longrightarrow> cmp b c \<le> 0 \<Longrightarrow> cmp a c \<le> 0"
begin

lemma cmp_le_iff: "valid a \<Longrightarrow> valid b \<Longrightarrow> cmp a b \<le> 0 \<longleftrightarrow> \<not> cmp b a < 0"
  using cmp_swap [of a b] by auto

lemma cmp_ge_iff: "valid a \<Longrightarrow> valid b \<Longrightarrow> cmp a b \<ge> 0 \<longleftrightarrow> cmp b a \<le> 0"
  using cmp_swap [of b a] by auto

lemma cmp_less_le_trans:
  assumes "valid a" "valid b" "valid c" "cmp a b < 0" "cmp b c \<le> 0"
  shows "cmp a c < 0"
proof (rule ccontr)
  assume "\<not> cmp a c < 0"
  with assms have "cmp c a \<le> 0"
    by (simp add: cmp_le_iff)
  with assms have "cmp b a \<le> 0"
    using cmp_trans [of b c a] by simp
  with assms show False
    by (simp add: cmp_le_iff)
qed

lemma cmp_le_less_trans:
  assumes "valid a" "valid b" "valid c" "cmp a b \<le> 0" "cmp b c < 0"
  shows "cmp a c < 0"
proof (rule ccontr)
  assume "\<not> cmp a c < 0"
  with assms have "cmp c a \<le> 0"
    by (simp add: cmp_le_iff)
  with assms have "cmp c b \<le> 0"
    using cmp_trans [of c a b] by simp
  with assms show False
    by (simp add: cmp_le_iff)
qed

lemma cmp_less_trans:
  "valid a \<Longrightarrow> valid b \<Longrightarrow> valid c \<Longrightarrow> cmp a b < 0 \<Longrightarrow> cmp b c < 0 \<Longrightarrow> cmp a c < 0"
  using cmp_less_le_trans [of a b c] by simp

lemma cmp_irrefl: "valid a \<Longrightarrow> \<not> cmp a a < 0"
  by (simp add: cmp_refl)

end

text \<open>Comparing what the keys denote.\<close>

lemma key_order_image:
  assumes "key_order cmp valid" and "\<And>a. valid' a \<Longrightarrow> valid (f a)"
    and "\<And>a b. valid' a \<Longrightarrow> valid' b \<Longrightarrow> cmp' a b = cmp (f a) (f b)"
  shows "key_order cmp' valid'"
proof
  fix a b c
  show "cmp' a a = 0" if "valid' a"
    using that assms(2,3) by (simp add: key_order.cmp_refl [OF assms(1)])
  show "cmp' b a < 0 \<longleftrightarrow> cmp' a b > 0" if "valid' a" "valid' b"
    using that assms(2,3) by (simp add: key_order.cmp_swap [OF assms(1)])
  show "cmp' a c \<le> 0" if "valid' a" "valid' b" "valid' c" "cmp' a b \<le> 0" "cmp' b c \<le> 0"
    using that key_order.cmp_trans [OF assms(1), of "f a" "f b" "f c"] assms(2,3) by simp
qed

text \<open>
  The whole interface: \<open>FindShortestSeparator\<close> moves a key that lies below the limit to a
  key between the two, \<open>FindShortSuccessor\<close> moves it up.
\<close>

locale comparator = key_order cmp valid
  for cmp :: "bytes \<Rightarrow> bytes \<Rightarrow> int" and valid :: "bytes \<Rightarrow> bool" +
  fixes separator :: "bytes \<Rightarrow> bytes \<Rightarrow> bytes" and successor :: "bytes \<Rightarrow> bytes"
  assumes separator_valid: "valid start \<Longrightarrow> valid limit \<Longrightarrow> cmp start limit < 0 \<Longrightarrow>
      valid (separator start limit)"
    and separator_ge: "valid start \<Longrightarrow> valid limit \<Longrightarrow> cmp start limit < 0 \<Longrightarrow>
      cmp start (separator start limit) \<le> 0"
    and separator_less: "valid start \<Longrightarrow> valid limit \<Longrightarrow> cmp start limit < 0 \<Longrightarrow>
      cmp (separator start limit) limit < 0"
    and successor_valid: "valid key \<Longrightarrow> valid (successor key)"
    and successor_ge: "valid key \<Longrightarrow> cmp key (successor key) \<le> 0"
begin

text \<open>What an index block needs: every key up to \<open>start\<close> is at or below the separator and
  every key from \<open>limit\<close> on is above it.\<close>

lemma separator_splits:
  assumes "valid start" "valid limit" "valid k" "cmp start limit < 0"
  shows "cmp k start \<le> 0 \<Longrightarrow> cmp k (separator start limit) \<le> 0"
    and "cmp limit k \<le> 0 \<Longrightarrow> cmp (separator start limit) k < 0"
proof -
  assume "cmp k start \<le> 0"
  then show "cmp k (separator start limit) \<le> 0"
    using assms by (meson cmp_trans separator_ge separator_valid)
next
  assume "cmp limit k \<le> 0"
  then show "cmp (separator start limit) k < 0"
    using assms by (meson cmp_less_le_trans separator_less separator_valid)
qed

lemma successor_above:
  assumes "valid key" "valid k" "cmp k key \<le> 0"
  shows "cmp k (successor key) \<le> 0"
  using assms by (meson cmp_trans successor_ge successor_valid)

end

section \<open>Lemmas\<close>

lemma shared_prefix_le: "shared_prefix a b \<le> length a" "shared_prefix a b \<le> length b"
  by (induction a b rule: shared_prefix.induct) auto

lemma shared_prefix_take: "take (shared_prefix a b) a = take (shared_prefix a b) b"
  by (induction a b rule: shared_prefix.induct) auto

lemma Bytewise_less: "Bytewise_Compare a b < 0 \<longleftrightarrow> a < b"
  by (simp add: Bytewise_Compare_def Slice_compare_less)

lemma Bytewise_le: "Bytewise_Compare a b \<le> 0 \<longleftrightarrow> a \<le> b"
  by (metis Bytewise_Compare_def Slice_compare_greater not_less)

lemma Bytewise_eq: "Bytewise_Compare a b = 0 \<longleftrightarrow> a = b"
  by (simp add: Bytewise_Compare_def Slice_compare_eq)

lemma Bytewise_greater: "Bytewise_Compare a b > 0 \<longleftrightarrow> b < a"
  by (simp add: Bytewise_Compare_def Slice_compare_greater)

lemma append_less_append: "(p @ a < p @ b) = (a < (b :: 'a::linorder list))"
  by (induction p) auto

text \<open>Where the separator differs from \<open>start\<close>, one byte is raised and the tail dropped.\<close>

lemma separator_cases:
  "Bytewise_FindShortestSeparator start limit = start \<or>
   (\<exists>p x a y b. start = p @ x # a \<and> limit = p @ y # b \<and> x < x + 1 \<and> x + 1 < y \<and>
      Bytewise_FindShortestSeparator start limit = p @ [x + 1])"
proof (cases "Bytewise_FindShortestSeparator start limit = start")
  case False
  let ?i = "shared_prefix start limit"
  let ?x = "start ! ?i"
  from False have i: "?i < length start" "?i < length limit"
    and x: "?x < 0xff" "unat ?x + 1 < unat (limit ! ?i)"
    and sep: "Bytewise_FindShortestSeparator start limit =
      take (?i + 1) (start[?i := ?x + 1])"
    by (auto simp: Bytewise_FindShortestSeparator_def Let_def split: if_splits)
  have unat: "unat (?x + 1) = unat ?x + 1"
    using x(1) by (simp add: word_less_nat_alt unat_word_ariths)
  have "start = take ?i start @ ?x # drop (Suc ?i) start"
    using i(1) by (simp add: id_take_nth_drop)
  moreover have "limit = take ?i start @ limit ! ?i # drop (Suc ?i) limit"
    using i(2) by (simp add: shared_prefix_take id_take_nth_drop)
  moreover have "Bytewise_FindShortestSeparator start limit = take ?i start @ [?x + 1]"
    using i(1) by (simp add: sep take_Suc_conv_app_nth)
  moreover have "?x < ?x + 1" "?x + 1 < limit ! ?i"
    using x(2) by (simp_all add: word_less_nat_alt unat)
  ultimately show ?thesis by blast
qed simp

lemma separator_bytewise_ge: "start \<le> Bytewise_FindShortestSeparator start limit"
proof -
  from separator_cases [of start limit] consider
    "Bytewise_FindShortestSeparator start limit = start"
  | p x a where "start = p @ x # a" "x < x + 1"
      "Bytewise_FindShortestSeparator start limit = p @ [x + 1]"
    by blast
  then show ?thesis
    by cases (simp_all add: less_imp_le append_less_append)
qed

lemma separator_bytewise_less:
  assumes "start < limit"
  shows "Bytewise_FindShortestSeparator start limit < limit"
proof -
  from separator_cases [of start limit] consider
    "Bytewise_FindShortestSeparator start limit = start"
  | p x y b where "limit = p @ y # b" "x + 1 < y"
      "Bytewise_FindShortestSeparator start limit = p @ [x + 1]"
    by blast
  then show ?thesis
    using assms by cases (simp_all add: append_less_append)
qed

lemma successor_bytewise_ge: "key \<le> Bytewise_FindShortSuccessor key"
proof (induction key)
  case (Cons byte key)
  have "byte < byte + 1" if "byte \<noteq> 0xff"
  proof -
    have "unat byte \<noteq> 255"
      using that by (simp add: word_unat_eq_iff)
    then have "unat (byte + 1) = unat byte + 1"
      using unat_bound8 [of byte] by (simp add: unat_word_ariths)
    then show ?thesis
      by (simp add: word_less_nat_alt)
  qed
  with Cons show ?case by auto
qed simp

lemma separator_bytewise_short: "length (Bytewise_FindShortestSeparator start limit) \<le> length start"
  using separator_cases [of start limit] by auto

lemma successor_bytewise_short: "length (Bytewise_FindShortSuccessor key) \<le> length key"
  by (induction key) auto

section \<open>The built-in comparator implements the interface\<close>

interpretation bytewise: comparator Bytewise_Compare "\<lambda>_. True"
  Bytewise_FindShortestSeparator Bytewise_FindShortSuccessor
proof unfold_locales
  fix a b c :: bytes
  show "Bytewise_Compare a a = 0"
    by (simp add: Bytewise_eq)
  show "(Bytewise_Compare b a < 0) = (0 < Bytewise_Compare a b)"
    by (simp add: Bytewise_less Bytewise_greater)
  show "Bytewise_Compare a b \<le> 0 \<Longrightarrow> Bytewise_Compare b c \<le> 0 \<Longrightarrow> Bytewise_Compare a c \<le> 0"
    by (simp add: Bytewise_le)
  show "Bytewise_Compare a (Bytewise_FindShortestSeparator a b) \<le> 0"
    by (simp add: Bytewise_le separator_bytewise_ge)
  show "Bytewise_Compare a b < 0 \<Longrightarrow> Bytewise_Compare (Bytewise_FindShortestSeparator a b) b < 0"
    by (simp add: Bytewise_less separator_bytewise_less)
  show "Bytewise_Compare a (Bytewise_FindShortSuccessor a) \<le> 0"
    by (simp add: Bytewise_le successor_bytewise_ge)
qed simp_all

end
