(* ===== verification/Status.thy ===== *)
theory Status
  imports Coding Slice
begin

text \<open>
  \<open>Status\<close> (\<^verbatim>\<open>include/leveldb/status.h\<close>, \<^verbatim>\<open>util/status.cpp\<close>) twice: as the value the rest of
  the program passes around (success, or a code with a message), and as the \<open>char[]\<close> the
  class really keeps in \<open>state_\<close>, with the byte stores of its constructor.  The second
  implements the first as long as the stores stay inside the array.
\<close>

section \<open>Status values\<close>

datatype Code = kOk | kNotFound | kCorruption | kNotSupported | kInvalidArgument | kIOError

datatype Status = OK | Failed Code bytes

text \<open>The text of a status with two messages, as the constructor lays it out.\<close>

definition status_message :: "bytes \<Rightarrow> bytes \<Rightarrow> bytes" where
  "status_message msg msg2 = msg @ (if msg2 = [] then [] else str '': '' @ msg2)"

definition NotFound :: "bytes \<Rightarrow> bytes \<Rightarrow> Status" where
  "NotFound msg msg2 = Failed kNotFound (status_message msg msg2)"

definition Corruption :: "bytes \<Rightarrow> bytes \<Rightarrow> Status" where
  "Corruption msg msg2 = Failed kCorruption (status_message msg msg2)"

definition NotSupported :: "bytes \<Rightarrow> bytes \<Rightarrow> Status" where
  "NotSupported msg msg2 = Failed kNotSupported (status_message msg msg2)"

definition InvalidArgument :: "bytes \<Rightarrow> bytes \<Rightarrow> Status" where
  "InvalidArgument msg msg2 = Failed kInvalidArgument (status_message msg msg2)"

definition IOError :: "bytes \<Rightarrow> bytes \<Rightarrow> Status" where
  "IOError msg msg2 = Failed kIOError (status_message msg msg2)"

fun status_code :: "Status \<Rightarrow> Code" where
  "status_code OK = kOk"
| "status_code (Failed c m) = c"

definition ok :: "Status \<Rightarrow> bool" where
  "ok s \<longleftrightarrow> s = OK"

definition IsNotFound :: "Status \<Rightarrow> bool" where
  "IsNotFound s \<longleftrightarrow> status_code s = kNotFound"

definition IsCorruption :: "Status \<Rightarrow> bool" where
  "IsCorruption s \<longleftrightarrow> status_code s = kCorruption"

definition IsIOError :: "Status \<Rightarrow> bool" where
  "IsIOError s \<longleftrightarrow> status_code s = kIOError"

fun code_prefix :: "Code \<Rightarrow> bytes" where
  "code_prefix kOk = str ''OK''"
| "code_prefix kNotFound = str ''NotFound: ''"
| "code_prefix kCorruption = str ''Corruption: ''"
| "code_prefix kNotSupported = str ''Not implemented: ''"
| "code_prefix kInvalidArgument = str ''Invalid argument: ''"
| "code_prefix kIOError = str ''IO error: ''"

fun ToString :: "Status \<Rightarrow> bytes" where
  "ToString OK = str ''OK''"
| "ToString (Failed c m) = code_prefix c @ m"

section \<open>The representation\<close>

text \<open>The values of the enumerators, and the way back (no enumerator for other bytes).\<close>

fun code_byte :: "Code \<Rightarrow> u8" where
  "code_byte kOk = 0"
| "code_byte kNotFound = 1"
| "code_byte kCorruption = 2"
| "code_byte kNotSupported = 3"
| "code_byte kInvalidArgument = 4"
| "code_byte kIOError = 5"

definition byte_code :: "u8 \<Rightarrow> Code option" where
  "byte_code b =
     find (\<lambda>c. code_byte c = b)
       [kOk, kNotFound, kCorruption, kNotSupported, kInvalidArgument, kIOError]"

text \<open>\<open>memcpy\<close> into an array: \<^const>\<open>None\<close> when a byte would land outside it.\<close>

definition store :: "bytes \<Rightarrow> nat \<Rightarrow> bytes \<Rightarrow> bytes option" where
  "store buf off bs =
     (if off + length bs \<le> length buf
      then Some (take off buf @ bs @ drop (off + length bs) buf) else None)"

text \<open>
  \<open>Status::Status(code, msg, msg2)\<close>.  The local \<open>size\<close> is a \<open>size_t\<close>, so \<open>memcpy(result, &size,
  sizeof(size))\<close> stores eight bytes.  The fresh array is given as zeros; every byte of it is
  overwritten before it is read.
\<close>

definition Status_new :: "Code \<Rightarrow> bytes \<Rightarrow> bytes \<Rightarrow> bytes option" where
  "Status_new code msg msg2 =
     (if code = kOk then None
      else
        let len1 = length msg; len2 = length msg2;
            size = len1 + (if len2 \<noteq> 0 then 2 + len2 else 0);
            result = replicate (size + 5) 0
        in Option.bind (store result 0 (EncodeFixed64 (word_of_nat size))) (\<lambda>result.
           Option.bind (store result 4 [code_byte code]) (\<lambda>result.
           Option.bind (store result 5 msg) (\<lambda>result.
           if len2 \<noteq> 0 then
             Option.bind (store result (5 + len1) (str '':'')) (\<lambda>result.
             Option.bind (store result (6 + len1) (str '' '')) (\<lambda>result.
             store result (7 + len1) msg2))
           else Some result))))"

text \<open>\<open>CopyState\<close>: the length in the first four bytes says how much to copy; \<open>size + 5\<close> is a \<open>uint32_t\<close> and
  wraps around.\<close>

definition CopyState :: "bytes \<Rightarrow> bytes option" where
  "CopyState state =
     Option.bind (DecodeFixed32 state) (\<lambda>size.
       let n = unat (size + 5) in
       if n \<le> length state then Some (take n state) else None)"

definition code_rep :: "bytes option \<Rightarrow> Code option" where
  "code_rep state = (case state of None \<Rightarrow> Some kOk
     | Some s \<Rightarrow> Option.bind (Slice_at s 4) byte_code)"

definition ToString_rep :: "bytes option \<Rightarrow> bytes option" where
  "ToString_rep state =
     (case state of
        None \<Rightarrow> Some (str ''OK'')
      | Some s \<Rightarrow>
          Option.bind (code_rep state) (\<lambda>code.
          Option.bind (DecodeFixed32 s) (\<lambda>len.
            if 5 + unat len \<le> length s
            then Some (code_prefix code @ take (unat len) (drop 5 s)) else None)))"

section \<open>Lemmas\<close>

lemma ok_simps [simp]: "ok OK" "\<not> ok (Failed c m)"
  by (simp_all add: ok_def)

lemma not_ok_constructors [simp]:
  "\<not> ok (NotFound m n)" "\<not> ok (Corruption m n)" "\<not> ok (NotSupported m n)"
  "\<not> ok (InvalidArgument m n)" "\<not> ok (IOError m n)"
  by (simp_all add: NotFound_def Corruption_def NotSupported_def InvalidArgument_def IOError_def)

lemma length_status_message:
  "length (status_message msg msg2) = length msg + (if msg2 = [] then 0 else 2 + length msg2)"
  by (simp add: status_message_def)

lemma byte_code_code_byte [simp]: "byte_code (code_byte c) = Some c"
  by (cases c) (simp_all add: byte_code_def)

lemma store_prefix:
  "length p = off \<Longrightarrow> length bs \<le> length q \<Longrightarrow>
   store (p @ q) off bs = Some (p @ bs @ drop (length bs) q)"
  by (auto simp: store_def)

lemma le_bytes_word_of_nat:
  "k < 2 ^ LENGTH('a) \<Longrightarrow>
   le_bytes n (word_of_nat k :: 'a::len word) = map (\<lambda>i. byte (k div 2 ^ (8 * i))) [0..<n]"
  by (simp add: le_bytes_def ucast_byte unat_drop_bit unat_of_nat)

lemma take_EncodeFixed64:
  assumes "k < 2 ^ 32"
  shows "EncodeFixed64 (word_of_nat k) =
     EncodeFixed32 (word_of_nat k) @ drop 4 (EncodeFixed64 (word_of_nat k))"
proof -
  have "take 4 (EncodeFixed64 (word_of_nat k)) = EncodeFixed32 (word_of_nat k)"
    using assms by (simp add: EncodeFixed64_le_bytes EncodeFixed32_le_bytes le_bytes_word_of_nat
        take_map)
  then show ?thesis
    by (metis append_take_drop_id)
qed

text \<open>Without overflow the array holds the length, the code and the text.\<close>

lemma Status_new_layout:
  assumes "code \<noteq> kOk" and "3 \<le> length (status_message msg msg2)"
    and "length (status_message msg msg2) < 2 ^ 32"
  shows "Status_new code msg msg2 =
     Some (EncodeFixed32 (word_of_nat (length (status_message msg msg2))) @ [code_byte code] @
           status_message msg msg2)"
proof -
  define size where "size = length (status_message msg msg2)"
  define e where "e = EncodeFixed32 (word_of_nat size)"
  have e: "length e = 4" by (simp add: e_def)
  have size: "length msg + (if length msg2 \<noteq> 0 then 2 + length msg2 else 0) = size"
    by (simp add: size_def length_status_message)
  define q :: bytes where
    "q = drop 4 (EncodeFixed64 (word_of_nat size)) @ drop 8 (replicate (size + 5) 0)"
  have "EncodeFixed64 (word_of_nat size) = e @ drop 4 (EncodeFixed64 (word_of_nat size))"
    unfolding e_def using assms(3) by (intro take_EncodeFixed64) (simp add: size_def)
  then have q: "store (replicate (size + 5) 0) 0 (EncodeFixed64 (word_of_nat size)) = Some (e @ q)"
      "length q = size + 1"
    using store_prefix [of "[]" 0 "EncodeFixed64 (word_of_nat size)" "replicate (size + 5) 0"]
      assms(2) by (simp_all add: q_def size_def)
  have s1: "store (e @ q) 4 [code_byte code] = Some (e @ [code_byte code] @ drop 1 q)"
    using store_prefix [of e 4 "[code_byte code]" q] by (simp add: e q)
  have s2: "store (e @ [code_byte code] @ drop 1 q) 5 msg =
      Some (e @ [code_byte code] @ msg @ drop (1 + length msg) q)"
    using store_prefix [of "e @ [code_byte code]" 5 msg "drop 1 q"] size by (simp add: e q)
  show ?thesis
  proof (cases "msg2 = []")
    case True
    with size have "drop (1 + length msg) q = []" by (simp add: q)
    with True assms(1) q(1) s1 s2 show ?thesis
      unfolding Status_new_def Let_def size size_def [symmetric] e_def [symmetric]
      by (simp add: status_message_def)
  next
    case False
    let ?p = "e @ [code_byte code] @ msg"
    have s3: "store (?p @ drop (1 + length msg) q) (5 + length msg) (str '':'') =
        Some ((?p @ str '':'') @ drop (2 + length msg) q)"
      using store_prefix [of ?p "5 + length msg" "str '':''" "drop (1 + length msg) q"] False size
      by (simp add: e q)
    have s4: "store ((?p @ str '':'') @ drop (2 + length msg) q) (6 + length msg) (str '' '') =
        Some ((?p @ str '': '') @ drop (3 + length msg) q)"
      using store_prefix [of "?p @ str '':''" "6 + length msg" "str '' ''" "drop (2 + length msg) q"]
        False size str_append [of "'':''" "'' ''"] by (simp add: e q numeral_3_eq_3)
    have s5: "store ((?p @ str '': '') @ drop (3 + length msg) q) (7 + length msg) msg2 =
        Some (?p @ str '': '' @ msg2)"
      using store_prefix [of "?p @ str '': ''" "7 + length msg" msg2 "drop (3 + length msg) q"]
        False size by (simp add: e q)
    show ?thesis
      unfolding Status_new_def Let_def size size_def [symmetric] e_def [symmetric]
      using False assms(1) q(1) s1 s2 s3 s4 s5 by (simp add: status_message_def)
  qed
qed

text \<open>The eight-byte store of the length needs an array of eight bytes.\<close>

lemma Status_new_overflow:
  "length (status_message msg msg2) < 3 \<Longrightarrow> Status_new code msg msg2 = None"
  by (auto simp: Status_new_def store_def length_status_message Let_def split: if_splits)

section \<open>Properties\<close>

text \<open>C35. A \<open>Status\<close> built with a text of at least three and less than \<open>2^32\<close> bytes keeps its
  code and text: the representation reports the code it was built with and prints as the
  specification says.  \<open>CopyState\<close> yields an equal array if the text has less than \<open>2^32 - 5\<close>
  bytes; for the last five lengths \<open>size + 5\<close> wraps around, and the copy is too short to hold a code.\<close>

theorem Status_rep_correct:
  assumes "code \<noteq> kOk" and "3 \<le> length (status_message msg msg2)"
    and "length (status_message msg msg2) < 2 ^ 32"
  shows "\<exists>state. Status_new code msg msg2 = Some state \<and>
     code_rep (Some state) = Some (status_code (Failed code (status_message msg msg2))) \<and>
     ToString_rep (Some state) = Some (ToString (Failed code (status_message msg msg2))) \<and>
     (if length (status_message msg msg2) + 5 < 2 ^ 32 then CopyState state = Some state
      else \<exists>copy. CopyState state = Some copy \<and> length copy < 5 \<and> code_rep (Some copy) = None)"
proof -
  let ?n = "length (status_message msg msg2)"
  let ?state = "EncodeFixed32 (word_of_nat ?n) @ [code_byte code] @ status_message msg msg2"
  have n: "unat (word_of_nat ?n :: u32) = ?n"
    using assms(3) by (simp add: unat_of_nat)
  have copy: "CopyState ?state = Some (take ((?n + 5) mod 2 ^ 32) ?state)"
  proof -
    have "unat (word_of_nat ?n + 5 :: u32) = (?n + 5) mod 2 ^ 32"
      by (simp add: unat_word_ariths n)
    moreover have "(?n + 5) mod 2 ^ 32 \<le> length ?state"
      using mod_less_eq_dividend [of "?n + 5" "2 ^ 32"] by simp
    ultimately show ?thesis
      by (simp add: CopyState_def Let_def)
  qed
  have "code_rep (Some (take ((?n + 5) mod 2 ^ 32) ?state)) = None \<and> (?n + 5) mod 2 ^ 32 < 5" if "\<not> ?n + 5 < 2 ^ 32"
  proof -
    have "(?n + 5) mod 2 ^ 32 = ?n + 5 - 2 ^ 32"
      using that assms(3) by (simp add: mod_if)
    then have "(?n + 5) mod 2 ^ 32 < 5"
      using that assms(3) by linarith
    then show ?thesis
      by (simp add: code_rep_def Slice_at_def)
  qed
  with copy n Status_new_layout [OF assms] show ?thesis
    by (auto simp: code_rep_def ToString_rep_def Slice_at_def nth_append)
qed

theorem Status_rep_correct_witness:
  "length (status_message (str ''db'') (str ''bad'')) = 7 \<and>
   (\<exists>state. Status_new kIOError (str ''db'') (str ''bad'') = Some state \<and>
     ToString_rep (Some state) = Some (str ''IO error: db: bad''))"
proof -
  have len: "length (status_message (str ''db'') (str ''bad'')) = 7"
    by (simp add: length_status_message)
  from Status_rep_correct [of kIOError "str ''db''" "str ''bad''"] len show ?thesis
    by (auto simp: status_message_def str_def)
qed

text \<open>C40. The constructor writes outside its array exactly when the text is shorter than three
  bytes: the array then has fewer than the eight bytes that \<open>memcpy(result, &size, sizeof(size))\<close>
  stores.  In particular \<open>Status::NotFound(Slice())\<close>, which \<open>MemTable::Get\<close> returns for a deleted
  key, overflows its heap block.\<close>

theorem Status_ctor_overflow:
  assumes "code \<noteq> kOk" and "length (status_message msg msg2) < 2 ^ 32"
  shows "(Status_new code msg msg2 = None \<longleftrightarrow> length (status_message msg msg2) < 3) \<and>
     Status_new kNotFound [] [] = None"
proof -
  have "Status_new kNotFound [] [] = None"
    by (rule Status_new_overflow) (simp add: length_status_message)
  then show ?thesis
    using Status_new_layout [OF assms(1) _ assms(2)] Status_new_overflow [of msg msg2 code]
    by force
qed

theorem Status_ctor_overflow_witness:
  "kCorruption \<noteq> kOk \<and> Status_new kCorruption (str ''ab'') [] = None \<and>
   Status_new kCorruption (str ''abc'') [] \<noteq> None"
proof -
  have "length (status_message (str ''ab'') []) < 3"
    "length (status_message (str ''ab'') []) < 2 ^ 32"
    "\<not> length (status_message (str ''abc'') []) < 3"
    "length (status_message (str ''abc'') []) < 2 ^ 32"
    by (simp_all add: length_status_message)
  then show ?thesis
    using Status_ctor_overflow [of kCorruption "str ''ab''" "[]"]
      Status_ctor_overflow [of kCorruption "str ''abc''" "[]"] by blast
qed

end
