(* ===== verification/Crc32c.thy ===== *)
theory Crc32c
  imports Coding Crc32c_Tables
begin

text \<open>
  The checksum of \<^verbatim>\<open>util/crc32c.h\<close> and \<^verbatim>\<open>util/crc32c.cpp\<close>: the strided, table-driven \<open>Extend\<close>
  and the masking of stored checksums.  The tables and the
  reference they are compared with are in \<^verbatim>\<open>Crc32c_Tables\<close>.
\<close>

unbundle bit_operations_syntax

section \<open>The portable implementation\<close>

definition kCRC32Xor :: u32 where
  "kCRC32Xor = 0xffffffff"

text \<open>Every call of \<open>ReadUint32LE\<close> is guarded by a test that four bytes are left.\<close>

definition ReadUint32LE :: "bytes \<Rightarrow> u32" where
  "ReadUint32LE p = (case DecodeFixed32 p of Some w \<Rightarrow> w | None \<Rightarrow> 0)"

text \<open>The address rounded up to a multiple of \<open>n\<close>, a power of two.\<close>

definition RoundUp :: "int \<Rightarrow> int \<Rightarrow> int" where
  "RoundUp n pointer = (pointer + (n - 1)) AND NOT (n - 1)"

definition STEP1 :: "u8 \<Rightarrow> u32 \<Rightarrow> u32" where
  "STEP1 b l = table_at kByteExtensionTable ((l AND 0xff) XOR ucast b) XOR drop_bit 8 l"

definition STEP4 :: "u32 \<Rightarrow> u32 \<Rightarrow> u32" where
  "STEP4 crc w =
     w XOR table_at kStrideExtensionTable3 crc
       XOR table_at kStrideExtensionTable2 (drop_bit 8 crc)
       XOR table_at kStrideExtensionTable1 (drop_bit 16 crc)
       XOR table_at kStrideExtensionTable0 (drop_bit 24 crc)"

definition STEP4W :: "u32 \<Rightarrow> u32 \<Rightarrow> u32" where
  "STEP4W w l =
     ((\<lambda>w. drop_bit 8 w XOR table_at kByteExtensionTable w) ^^ 4) (w XOR l)"

text \<open>The four partial checksums of the strided loops.\<close>

record strides =
  crc0 :: u32
  crc1 :: u32
  crc2 :: u32
  crc3 :: u32

definition STEP16 :: "strides \<Rightarrow> bytes \<Rightarrow> strides" where
  "STEP16 s p =
     \<lparr>crc0 = STEP4 (crc0 s) (ReadUint32LE p),
      crc1 = STEP4 (crc1 s) (ReadUint32LE (drop 4 p)),
      crc2 = STEP4 (crc2 s) (ReadUint32LE (drop 8 p)),
      crc3 = STEP4 (crc3 s) (ReadUint32LE (drop 12 p))\<rparr>"

function swath_loop :: "strides \<Rightarrow> bytes \<Rightarrow> strides \<times> bytes" where
  "swath_loop s p = (if length p \<ge> 16 then swath_loop (STEP16 s p) (drop 16 p) else (s, p))"
  by pat_completeness auto
termination
  by (relation "measure (length \<circ> snd)") auto

function word_loop :: "strides \<Rightarrow> bytes \<Rightarrow> strides \<times> bytes" where
  "word_loop s p =
     (if length p \<ge> 4 then
        word_loop \<lparr>crc0 = crc1 s, crc1 = crc2 s, crc2 = crc3 s,
                   crc3 = STEP4 (crc0 s) (ReadUint32LE p)\<rparr> (drop 4 p)
      else (s, p))"
  by pat_completeness auto
termination
  by (relation "measure (length \<circ> snd)") auto

declare swath_loop.simps [simp del] word_loop.simps [simp del]

text \<open>The strided part: at least 16 bytes are left, all full words are consumed.\<close>

definition strided :: "u32 \<Rightarrow> bytes \<Rightarrow> u32 \<times> bytes" where
  "strided l p =
     (if length p \<ge> 16 then
        let s = \<lparr>crc0 = ReadUint32LE p XOR l, crc1 = ReadUint32LE (drop 4 p),
                 crc2 = ReadUint32LE (drop 8 p), crc3 = ReadUint32LE (drop 12 p)\<rparr>;
            (s, p) = swath_loop s (drop 16 p);
            (s, p) = word_loop s p
        in (STEP4W (crc3 s) (STEP4W (crc2 s) (STEP4W (crc1 s) (STEP4W (crc0 s) 0))), p)
      else (l, p))"

text \<open>
  \<open>port::AcceleratedCRC32C\<close> as the sources configure it: no \<open>HAVE_CRC32C\<close> in
  \<^verbatim>\<open>port/port_config.h.in\<close>, so it returns zero and \<open>CanAccelerateCRC32C\<close> fails its test.
\<close>

definition AcceleratedCRC32C :: "u32 \<Rightarrow> bytes \<Rightarrow> u32" where
  "AcceleratedCRC32C crc buf = 0"

definition CanAccelerateCRC32C :: bool where
  "CanAccelerateCRC32C \<longleftrightarrow> AcceleratedCRC32C 0 (str ''TestCRCBuffer'') = 0xdcbc59fa"

text \<open>\<open>Extend\<close> on data that starts at the given address.\<close>

definition Extend_at :: "int \<Rightarrow> u32 \<Rightarrow> bytes \<Rightarrow> u32" where
  "Extend_at addr crc data =
     (if CanAccelerateCRC32C then AcceleratedCRC32C crc data
      else
        let l = crc XOR kCRC32Xor;
            head = nat (RoundUp 4 addr - addr);
            (l, p) = (if head \<le> length data
                      then (fold STEP1 (take head data) l, drop head data) else (l, data));
            (l, p) = strided l p;
            l = fold STEP1 p l
        in l XOR kCRC32Xor)"

text \<open>The functions the other components call; the address does not matter (below).\<close>

definition Extend :: "u32 \<Rightarrow> bytes \<Rightarrow> u32" where
  "Extend crc data = Extend_at 0 crc data"

definition Value :: "bytes \<Rightarrow> u32" where
  "Value data = Extend 0 data"

definition kMaskDelta :: u32 where
  "kMaskDelta = 0xa282ead8"

definition Mask :: "u32 \<Rightarrow> u32" where
  "Mask crc = (drop_bit 15 crc OR push_bit 17 crc) + kMaskDelta"

definition Unmask :: "u32 \<Rightarrow> u32" where
  "Unmask masked_crc =
     (let rot = masked_crc - kMaskDelta in drop_bit 17 rot OR push_bit 15 rot)"

section \<open>The steps of the implementation\<close>

lemma and_0xff_take_bit: "(c :: u32) AND 0xff = take_bit 8 c"
  by (simp add: take_bit_eq_mask mask_eq_exp_minus_1)

lemma crc_zeros_1: "crc_zeros 1 c = crc_zeros 1 (c AND 0xff) XOR drop_bit 8 c"
proof -
  have "c = (c AND 0xff) XOR push_bit 8 (drop_bit 8 c)"
    by (rule bit_word_eqI) (auto simp: and_0xff_take_bit bit_simps)
  then have "crc_zeros 1 c = crc_zeros 1 (c AND 0xff) XOR (crc_bit ^^ 8) (push_bit 8 (drop_bit 8 c))"
    by (metis crc_zeros_def crc_bits_xor mult.right_neutral)
  also have "(crc_bit ^^ 8) (push_bit 8 (drop_bit 8 c)) = drop_bit 8 c"
  proof -
    have "bit (take_bit 24 (drop_bit 8 c)) i = bit (drop_bit 8 c) i" for i
      using bit_imp_le_length [of c "8 + i"] by (auto simp: bit_simps)
    then show ?thesis
      using crc_bits_push [of 8 "drop_bit 8 c"] by (simp add: bit_eq_iff)
  qed
  finally show ?thesis .
qed

lemma bit_u8: "bit (b :: u8) n \<Longrightarrow> n < 8"
  by (drule bit_imp_le_length) simp

lemma STEP1_crc_byte: "STEP1 b l = crc_byte b l"
proof -
  have idx: "((l AND 0xff) XOR ucast b) AND 0xff = (l XOR ucast b) AND 0xff"
    by (rule bit_word_eqI) (auto simp: and_0xff_take_bit bit_simps)
  have "drop_bit 8 (l XOR ucast b) = drop_bit 8 l"
    by (rule bit_word_eqI) (auto simp: bit_simps dest: bit_u8)
  then have "crc_zeros 1 (l XOR ucast b) =
      crc_zeros 1 ((l XOR ucast b) AND 0xff) XOR drop_bit 8 l"
    by (metis crc_zeros_1)
  then show ?thesis
    by (simp add: STEP1_def crc_byte_def byte_table idx) (simp add: crc_zeros_def)
qed

lemma STEP4_crc_zeros: "STEP4 crc w = w XOR crc_zeros 16 crc"
proof -
  let ?b = "\<lambda>i. push_bit i (drop_bit i crc AND 0xff)"
  have crc: "crc = (crc AND 0xff) XOR ?b 8 XOR ?b 16 XOR ?b 24"
    by (rule bit_word_eqI) (auto simp: and_0xff_take_bit bit_simps)
  have "crc_zeros 16 crc = crc_zeros 16 (crc AND 0xff) XOR crc_zeros 16 (?b 8) XOR
      crc_zeros 16 (?b 16) XOR crc_zeros 16 (?b 24)"
    by (subst crc) (simp only: crc_zeros_xor)
  then show ?thesis
    by (simp only: STEP4_def stride_table0 stride_table1 stride_table2 stride_table3 xor.assoc)
qed

lemma STEP4W_crc_zeros: "STEP4W w l = crc_zeros 4 (w XOR l)"
proof -
  have "drop_bit 8 w XOR table_at kByteExtensionTable w = crc_zeros 1 w" for w
    using crc_zeros_1 [of w] by (simp add: byte_table xor.commute)
  then have "STEP4W w l = ((crc_bit ^^ 8) ^^ 4) (w XOR l)"
    by (simp add: STEP4W_def crc_zeros_def)
  then show ?thesis
    by (simp add: funpow_mult crc_zeros_def)
qed

text \<open>Four bytes at once: the reference absorbs a little endian word.\<close>

lemma crc_byte_push:
  "n < 4 \<Longrightarrow> crc_zeros n c XOR ucast (b :: u8) = crc_zeros n (c XOR push_bit (8 * n) (ucast b))"
proof -
  assume n: "n < 4"
  have "(crc_bit ^^ (8 * n)) (push_bit (8 * n) (ucast b)) = (ucast b :: u32)"
  proof -
    have "bit (take_bit (32 - 8 * n) (ucast b :: u32)) i = bit (ucast b :: u32) i" for i
      using bit_u8 [of b i] n by (auto simp: bit_simps)
    then show ?thesis
      using n crc_bits_push [of "8 * n" "ucast b"] by (simp add: bit_eq_iff)
  qed
  then show ?thesis
    by (simp add: crc_zeros_def crc_bits_xor)
qed

lemma crc_word:
  assumes "length p \<ge> 4"
  shows "fold crc_byte (take 4 p) l = crc_zeros 4 (l XOR ReadUint32LE p)"
proof -
  obtain a b c d q where p: "p = a # b # c # d # q"
    using assms by (auto simp: numeral_eq_Suc Suc_le_length_iff)
  have w: "ReadUint32LE p = ucast a OR push_bit 8 (ucast b) OR push_bit 16 (ucast c)
      OR push_bit 24 (ucast d)"
    by (simp add: ReadUint32LE_def DecodeFixed32_def DecodeFixed32_host_le_word p or_push_bit_assoc
        del: push_bit_or)
  have xor: "ReadUint32LE p = ucast a XOR push_bit 8 (ucast b) XOR push_bit 16 (ucast c)
      XOR push_bit 24 (ucast d)"
    unfolding w by (rule bit_word_eqI) (auto simp: bit_simps dest: bit_u8)
  have step: "crc_byte x (crc_zeros n y) = crc_zeros (Suc n) (y XOR push_bit (8 * n) (ucast x))"
    if "n < 4" for x n y
    using that by (simp only: crc_byte_def crc_byte_push) (simp add: crc_zeros_def funpow_add)
  have "fold crc_byte (take 4 p) l =
      crc_byte d (crc_byte c (crc_byte b (crc_byte a (crc_zeros 0 l))))"
    by (simp add: p)
  also have "\<dots> = crc_zeros 4 (l XOR ReadUint32LE p)"
    by (simp only: step Suc_eq_plus1 xor) (simp add: xor.assoc eval_nat_numeral)
  finally show ?thesis .
qed

section \<open>The strided loops\<close>

text \<open>The checksum the four partial ones stand for.\<close>

definition combine :: "strides \<Rightarrow> u32" where
  "combine s = crc_zeros 16 (crc0 s) XOR crc_zeros 12 (crc1 s) XOR crc_zeros 8 (crc2 s)
     XOR crc_zeros 4 (crc3 s)"

lemma STEP4W_combine:
  "STEP4W (crc3 s) (STEP4W (crc2 s) (STEP4W (crc1 s) (STEP4W (crc0 s) 0))) = combine s"
  by (simp only: STEP4W_crc_zeros crc_zeros_xor crc_zeros_add combine_def)
    (simp add: xor.assoc xor.commute xor.left_commute)

lemma fold_crc_word:
  "length p \<ge> 4 \<Longrightarrow> fold crc_byte p l = fold crc_byte (drop 4 p) (crc_zeros 4 (l XOR ReadUint32LE p))"
  by (metis append_take_drop_id comp_apply crc_word fold_append)

lemma fold_crc_swath:
  assumes "length p \<ge> 16"
  shows "fold crc_byte p l = fold crc_byte (drop 16 p)
     (combine \<lparr>crc0 = ReadUint32LE p XOR l, crc1 = ReadUint32LE (drop 4 p),
               crc2 = ReadUint32LE (drop 8 p), crc3 = ReadUint32LE (drop 12 p)\<rparr>)"
  using assms
  by (simp add: fold_crc_word [of p] fold_crc_word [of "drop 4 p"] fold_crc_word [of "drop 8 p"]
      fold_crc_word [of "drop 12 p"] combine_def crc_zeros_xor crc_zeros_add
      xor.assoc xor.commute xor.left_commute)

lemma combine_STEP16:
  "combine (STEP16 s p) =
     combine \<lparr>crc0 = ReadUint32LE p XOR combine s, crc1 = ReadUint32LE (drop 4 p),
              crc2 = ReadUint32LE (drop 8 p), crc3 = ReadUint32LE (drop 12 p)\<rparr>"
  by (simp add: combine_def STEP16_def STEP4_crc_zeros crc_zeros_xor crc_zeros_add
      xor.assoc xor.commute xor.left_commute)

lemma combine_word:
  "combine \<lparr>crc0 = crc1 s, crc1 = crc2 s, crc2 = crc3 s, crc3 = STEP4 (crc0 s) w\<rparr> =
     crc_zeros 4 (combine s XOR w)"
  by (simp add: combine_def STEP4_crc_zeros crc_zeros_xor crc_zeros_add
      xor.assoc xor.commute xor.left_commute)

lemma swath_loop_correct:
  "swath_loop s p = (s', p') \<Longrightarrow> fold crc_byte p (combine s) = fold crc_byte p' (combine s')"
proof (induction s p rule: swath_loop.induct)
  case (1 s p)
  show ?case
  proof (cases "length p \<ge> 16")
    case True
    with 1(2) have "swath_loop (STEP16 s p) (drop 16 p) = (s', p')"
      by (simp add: swath_loop.simps [of s p])
    with 1(1) True show ?thesis
      by (simp add: fold_crc_swath [of p] combine_STEP16)
  qed (use 1(2) in \<open>simp add: swath_loop.simps [of s p]\<close>)
qed

lemma word_loop_correct:
  "word_loop s p = (s', p') \<Longrightarrow> fold crc_byte p (combine s) = fold crc_byte p' (combine s')"
proof (induction s p rule: word_loop.induct)
  case (1 s p)
  show ?case
  proof (cases "length p \<ge> 4")
    case True
    with 1(2) have "word_loop \<lparr>crc0 = crc1 s, crc1 = crc2 s, crc2 = crc3 s,
        crc3 = STEP4 (crc0 s) (ReadUint32LE p)\<rparr> (drop 4 p) = (s', p')"
      by (simp add: word_loop.simps [of s p])
    with 1(1) True show ?thesis
      by (simp add: fold_crc_word [of p] combine_word)
  qed (use 1(2) in \<open>simp add: word_loop.simps [of s p]\<close>)
qed

lemma strided_correct:
  assumes "strided l p = (l', p')"
  shows "fold crc_byte p l = fold crc_byte p' l'"
proof (cases "length p \<ge> 16")
  case True
  define s where "s = \<lparr>crc0 = ReadUint32LE p XOR l, crc1 = ReadUint32LE (drop 4 p),
    crc2 = ReadUint32LE (drop 8 p), crc3 = ReadUint32LE (drop 12 p)\<rparr>"
  obtain s1 p1 where 1: "swath_loop s (drop 16 p) = (s1, p1)" by fastforce
  obtain s2 p2 where 2: "word_loop s1 p1 = (s2, p2)" by fastforce
  have "l' = combine s2" "p' = p2"
    using assms True 1 2 by (auto simp: strided_def STEP4W_combine s_def Let_def)
  then show ?thesis
    using fold_crc_swath [OF True, of l] swath_loop_correct [OF 1] word_loop_correct [OF 2]
    by (simp add: s_def)
qed (use assms in \<open>simp add: strided_def\<close>)

lemma not_accelerated [simp]: "\<not> CanAccelerateCRC32C"
  by (simp add: CanAccelerateCRC32C_def AcceleratedCRC32C_def)

lemma fold_STEP1: "fold STEP1 p l = fold crc_byte p l"
proof -
  have "STEP1 = crc_byte"
    by (intro ext) (rule STEP1_crc_byte)
  then show ?thesis by simp
qed

lemma Extend_at_reference: "Extend_at addr crc data = crc32c_reference crc data"
proof -
  let ?l = "crc XOR kCRC32Xor"
  let ?head = "nat (RoundUp 4 addr - addr)"
  define lp where "lp = (if ?head \<le> length data
    then (fold STEP1 (take ?head data) ?l, drop ?head data) else (?l, data))"
  obtain l p where lp: "lp = (l, p)" by fastforce
  obtain l' p' where str: "strided l p = (l', p')" by fastforce
  have "fold crc_byte p l = fold crc_byte data ?l"
  proof (cases "?head \<le> length data")
    case True
    have "fold crc_byte data ?l = fold crc_byte (take ?head data @ drop ?head data) ?l"
      by simp
    also have "\<dots> = fold crc_byte (drop ?head data) (fold crc_byte (take ?head data) ?l)"
      by (simp only: fold_append comp_apply)
    finally show ?thesis
      using lp True by (simp add: lp_def fold_STEP1)
  qed (use lp in \<open>simp add: lp_def\<close>)
  with strided_correct [OF str] have "fold STEP1 p' l' = fold crc_byte data ?l"
    by (simp add: fold_STEP1)
  moreover have "Extend_at addr crc data = fold STEP1 p' l' XOR kCRC32Xor"
    using lp str unfolding Extend_at_def Let_def lp_def [symmetric] by simp
  ultimately show ?thesis
    by (simp add: crc32c_reference_def kCRC32Xor_def)
qed

lemma Extend_reference: "Extend crc data = crc32c_reference crc data"
  by (simp add: Extend_def Extend_at_reference)

lemma Extend_append: "Extend crc (a @ b) = Extend (Extend crc a) b"
  by (simp add: Extend_reference crc32c_reference_def xor.assoc)

lemma Value_append: "Value (a @ b) = Extend (Value a) b"
  by (simp add: Value_def Extend_append)

lemma Unmask_Mask [simp]: "Unmask (Mask crc) = crc"
proof -
  let ?rot = "drop_bit 15 crc OR push_bit 17 crc"
  have "bit (drop_bit 17 ?rot OR push_bit 15 ?rot) i = bit crc i" if "i < 32" for i
    using that bit_imp_le_length [of crc "32 + i"] by (cases "i < 15") (auto simp: bit_simps not_less)
  then have "drop_bit 17 ?rot OR push_bit 15 ?rot = crc"
    by (intro bit_word_eqI) simp
  then show ?thesis
    by (simp only: Unmask_def Mask_def Let_def add_diff_cancel_right')
qed

lemma Mask_inject: "Mask a = Mask b \<longleftrightarrow> a = b"
  by (metis Unmask_Mask)

section \<open>Properties\<close>

text \<open>C18. The strided, table-driven \<open>Extend\<close> computes the CRC-32C division bit by bit, whatever
  the alignment of the data, and the checksum of a concatenation can be built piecewise.\<close>

theorem Extend_correct:
  "Extend_at addr crc data = crc32c_reference crc data \<and>
   Extend_at addr (Extend_at addr' crc a) b = Extend_at addr'' crc (a @ b)"
  by (simp add: Extend_at_reference crc32c_reference_def xor.assoc)

text \<open>Masking of stored checksums loses nothing: \<open>Unmask\<close> undoes \<open>Mask\<close>, so two checksums
  have the same masked form only if they are equal.\<close>

lemma Mask_roundtrip: "Unmask (Mask crc) = crc \<and> (Mask a = Mask b \<longleftrightarrow> a = b)"
  by (simp add: Mask_inject)

text \<open>The first vector of the test suite (RFC 3720): 32 zero bytes.\<close>

lemma Value_32_zeros: "Value (replicate 32 0) = 0x8a9136aa"
proof -
  have "crc_byte 0 = crc_bit ^^ 8"
    by (rule ext) (simp add: crc_byte_def)
  then show ?thesis
    by (simp add: Value_def Extend_reference crc32c_reference_def funpow_mult
        crc_eval)
qed

end
