(* ===== verification/Env.thy ===== *)
theory Env
  imports Status
begin

text \<open>
  The file interfaces of \<^verbatim>\<open>include/leveldb/env.h\<close>: \<open>WritableFile\<close>, \<open>SequentialFile\<close> and
  \<open>RandomAccessFile\<close> as locales over the state of a file object.  A call of a virtual method returns the status,
  the data it delivers and the new state of the object.

  The clients take the operations as arguments, as the code takes a pointer to the abstract
  class, and rely on the laws stated here.
\<close>

section \<open>The interfaces\<close>

text \<open>
  \<open>good f\<close> says that the device behind the file object accepts data; \<open>contents f\<close> is what
  the file holds once everything buffered has been written.  One call appends less than 4 GB: the
  length of a single write is a 32-bit number on Windows.
\<close>

locale writable_file =
  fixes Append :: "'f \<Rightarrow> bytes \<Rightarrow> Status \<times> 'f"
    and Flush :: "'f \<Rightarrow> Status \<times> 'f"
    and contents :: "'f \<Rightarrow> bytes"
    and good :: "'f \<Rightarrow> bool"
  assumes append_ok: "good f \<Longrightarrow> length data < 2 ^ 32 \<Longrightarrow> Append f data = (s, f') \<Longrightarrow>
      ok s \<and> good f' \<and> contents f' = contents f @ data"
    and flush_ok: "good f \<Longrightarrow> Flush f = (s, f') \<Longrightarrow>
      ok s \<and> good f' \<and> contents f' = contents f"

text \<open>
  \<open>remaining f\<close> is the part of the file that has not been read.  A read of \<open>n\<close> bytes delivers
  \<open>n\<close> bytes unless the file ends before; \<open>Skip\<close> stops at the end of the file.
\<close>

locale sequential_file =
  fixes Read :: "'f \<Rightarrow> nat \<Rightarrow> Status \<times> bytes \<times> 'f"
    and Skip :: "'f \<Rightarrow> u64 \<Rightarrow> Status \<times> 'f"
    and remaining :: "'f \<Rightarrow> bytes"
    and good :: "'f \<Rightarrow> bool"
  assumes read_ok: "good f \<Longrightarrow> Read f n = (s, data, f') \<Longrightarrow>
      ok s \<and> good f' \<and> data = take n (remaining f) \<and> remaining f' = drop n (remaining f)"
    and skip_ok: "good f \<Longrightarrow> Skip f k = (s, f') \<Longrightarrow>
      ok s \<and> good f' \<and> remaining f' = drop (unat k) (remaining f)"

text \<open>
  A read at an offset yields the status, the data and whether the data lies in the caller's
  scratch buffer; \<^const>\<open>None\<close> stands for an access outside the file's memory.
\<close>

type_synonym read_at = "u64 \<Rightarrow> u64 \<Rightarrow> (Status \<times> bytes \<times> bool) option"

locale random_access_file =
  fixes Read :: "'f \<Rightarrow> read_at"
    and contents :: "'f \<Rightarrow> bytes"
    and good :: "'f \<Rightarrow> bool"
  assumes read_inside: "good f \<Longrightarrow> unat offset + unat n \<le> length (contents f) \<Longrightarrow>
      \<exists>scratch. Read f offset n = Some (OK, take (unat n) (drop (unat offset) (contents f)), scratch)"

end
