(* ===== verification/Log_Writer.thy ===== *)
theory Log_Writer
  imports Crc32c Env
begin

text \<open>
  The write-ahead log: its format (\<^verbatim>\<open>db/log_format.h\<close>) and \<open>log::Writer\<close>
  (\<^verbatim>\<open>db/log_writer.cpp\<close>).

  \<open>AddRecord\<close> cuts a record into fragments that never cross a boundary of 32 KB blocks.  The
  loop is a function over the record that is left; its termination proof is the argument that
  a block with exactly a header's room left gives an empty fragment only once.  A failed
  \<open>assert\<close> is \<^const>\<open>None\<close>.
\<close>

section \<open>Format\<close>

datatype RecordType = kZeroType | kFullType | kFirstType | kMiddleType | kLastType

fun record_type_code :: "RecordType \<Rightarrow> nat" where
  "record_type_code kZeroType = 0"
| "record_type_code kFullType = 1"
| "record_type_code kFirstType = 2"
| "record_type_code kMiddleType = 3"
| "record_type_code kLastType = 4"

definition kMaxRecordType :: nat where
  "kMaxRecordType = record_type_code kLastType"

definition kBlockSize :: nat where
  "kBlockSize = 32768"

definition kHeaderSize :: nat where
  "kHeaderSize = 4 + 2 + 1"

section \<open>Writer\<close>

record 'f Writer =
  dest :: 'f
  block_offset :: nat
  type_crc :: "u32 list"

definition InitTypeCrc :: "u32 list" where
  "InitTypeCrc = map (\<lambda>i. Value [word_of_nat i]) [0..<kMaxRecordType + 1]"

text \<open>\<open>Writer(dest)\<close> and \<open>Writer(dest, dest_length)\<close>.\<close>

definition Writer_new :: "'f \<Rightarrow> 'f Writer" where
  "Writer_new f = \<lparr>dest = f, block_offset = 0, type_crc = InitTypeCrc\<rparr>"

definition Writer_reopen :: "'f \<Rightarrow> u64 \<Rightarrow> 'f Writer" where
  "Writer_reopen f dest_length =
     \<lparr>dest = f, block_offset = unat dest_length mod kBlockSize, type_crc = InitTypeCrc\<rparr>"

definition EmitPhysicalRecord ::
  "('f \<Rightarrow> bytes \<Rightarrow> Status \<times> 'f) \<Rightarrow> ('f \<Rightarrow> Status \<times> 'f) \<Rightarrow> 'f Writer \<Rightarrow> RecordType \<Rightarrow> bytes \<Rightarrow>
     (Status \<times> 'f Writer) option" where
  "EmitPhysicalRecord Append Flush w t data =
     (let n = length data in
      if n > 0xffff \<or> block_offset w + kHeaderSize + n > kBlockSize then None
      else
        let crc = Mask (Extend (type_crc w ! record_type_code t) data);
            buf = EncodeFixed32 crc @
              [word_of_nat n AND 0xff, word_of_nat (n div 2 ^ 8), word_of_nat (record_type_code t)];
            (s, f) =
              (case Append (dest w) buf of (s1, f1) \<Rightarrow>
                 if ok s1 then
                   (case Append f1 data of (s2, f2) \<Rightarrow> if ok s2 then Flush f2 else (s2, f2))
                 else (s1, f1))
        in Some (s, w\<lparr>dest := f, block_offset := block_offset w + (kHeaderSize + n)\<rparr>))"

text \<open>The part of the loop body that switches to a new block when no header fits; the status
  of the \<open>Append\<close> of the trailer is dropped, as in the code.\<close>

definition start_block ::
  "('f \<Rightarrow> bytes \<Rightarrow> Status \<times> 'f) \<Rightarrow> 'f Writer \<Rightarrow> 'f Writer" where
  "start_block Append w =
     (let leftover = kBlockSize - block_offset w in
      if leftover < kHeaderSize then
        (if leftover > 0
         then w\<lparr>dest := snd (Append (dest w) (replicate leftover 0)), block_offset := 0\<rparr>
         else w\<lparr>block_offset := 0\<rparr>)
      else w)"

definition fragment_type :: "bool \<Rightarrow> bool \<Rightarrow> RecordType" where
  "fragment_type begin end =
     (if begin \<and> end then kFullType
      else if begin then kFirstType
      else if end then kLastType
      else kMiddleType)"

function (sequential) AddRecord_loop ::
  "('f \<Rightarrow> bytes \<Rightarrow> Status \<times> 'f) \<Rightarrow> ('f \<Rightarrow> Status \<times> 'f) \<Rightarrow> bool \<Rightarrow> 'f Writer \<Rightarrow> bytes \<Rightarrow>
     (Status \<times> 'f Writer) option" where
  "AddRecord_loop Append Flush begin w data =
     (if block_offset w > kBlockSize then None
      else
        let w1 = start_block Append w in
        if block_offset w1 + kHeaderSize > kBlockSize then None
        else
          let avail = kBlockSize - block_offset w1 - kHeaderSize;
              fragment_length = min (length data) avail;
              type = fragment_type begin (length data = fragment_length)
          in case EmitPhysicalRecord Append Flush w1 type (take fragment_length data) of
               None \<Rightarrow> None
             | Some (s, w2) \<Rightarrow>
                 let left = drop fragment_length data in
                 if ok s \<and> length left > 0 then AddRecord_loop Append Flush False w2 left
                 else Some (s, w2))"
  by pat_completeness auto

lemma block_offset_EmitPhysicalRecord:
  "EmitPhysicalRecord Append Flush w t data = Some (s, w') \<Longrightarrow>
     block_offset w' = block_offset w + kHeaderSize + length data"
  by (auto simp: EmitPhysicalRecord_def Let_def split: if_splits prod.splits)

lemma block_offset_start_block:
  "block_offset (start_block Append w) =
     (if kBlockSize - block_offset w < kHeaderSize then 0 else block_offset w)"
  by (simp add: start_block_def Let_def)

text \<open>A full block is left behind, so the next fragment is not empty.\<close>

lemma AddRecord_progress:
  assumes "block_offset w \<le> kBlockSize"
    and "w1 = start_block Append w"
    and "block_offset w1 + kHeaderSize \<le> kBlockSize"
    and "avail = kBlockSize - block_offset w1 - kHeaderSize"
    and "EmitPhysicalRecord Append Flush w1 t (take (min (length data) avail) data) = Some (s, w2)"
    and "drop (min (length data) avail) data \<noteq> []"
  shows "block_offset w2 = kBlockSize \<and>
    (0 < avail \<or> block_offset w + kHeaderSize = kBlockSize)"
  using assms block_offset_EmitPhysicalRecord [OF assms(5)]
  by (auto simp: block_offset_start_block min_def kBlockSize_def kHeaderSize_def split: if_splits)

termination AddRecord_loop
proof (relation "measure (\<lambda>(_, _, _, w, data).
    2 * length data + (if block_offset w + kHeaderSize = kBlockSize then 1 else 0))",
    goal_cases)
  case (2 Append Flush first w data w1 avail fragment_length type p s w2 left)
  then have "block_offset w2 = kBlockSize \<and>
    (0 < avail \<or> block_offset w + kHeaderSize = kBlockSize)"
    by (intro AddRecord_progress [of w w1 Append avail Flush type data s]) auto
  with 2 show ?case
    by (auto simp: kHeaderSize_def)
qed simp

declare AddRecord_loop.simps [simp del]

definition AddRecord ::
  "('f \<Rightarrow> bytes \<Rightarrow> Status \<times> 'f) \<Rightarrow> ('f \<Rightarrow> Status \<times> 'f) \<Rightarrow> 'f Writer \<Rightarrow> bytes \<Rightarrow>
     (Status \<times> 'f Writer) option" where
  "AddRecord Append Flush w data = AddRecord_loop Append Flush True w data"

text \<open>A client that appends a sequence of records, and stops at the first error.\<close>

fun AddRecords ::
  "('f \<Rightarrow> bytes \<Rightarrow> Status \<times> 'f) \<Rightarrow> ('f \<Rightarrow> Status \<times> 'f) \<Rightarrow> 'f Writer \<Rightarrow> bytes list \<Rightarrow>
     (Status \<times> 'f Writer) option" where
  "AddRecords Append Flush w [] = Some (OK, w)"
| "AddRecords Append Flush w (r # rs) =
     (case AddRecord Append Flush w r of
        None \<Rightarrow> None
      | Some (s, w') \<Rightarrow> if ok s then AddRecords Append Flush w' rs else Some (s, w'))"

section \<open>The layout of a log file\<close>

text \<open>
  The reference description of what a log file holds: physical records, each a header and
  the payload, with zero bytes where the rest of a block is shorter than a header.
\<close>

definition type_byte :: "RecordType \<Rightarrow> u8" where
  "type_byte t = word_of_nat (record_type_code t)"

definition physical :: "RecordType \<Rightarrow> bytes \<Rightarrow> bytes" where
  "physical t data = EncodeFixed32 (Mask (Value (type_byte t # data))) @
     [word_of_nat (length data), word_of_nat (length data div 2 ^ 8), type_byte t] @ data"

definition trailer :: "nat \<Rightarrow> bytes" where
  "trailer bo = (if kBlockSize - bo < kHeaderSize then replicate (kBlockSize - bo) 0 else [])"

definition block_pos :: "nat \<Rightarrow> nat" where
  "block_pos bo = (if kBlockSize - bo < kHeaderSize then 0 else bo)"

fun layout :: "nat \<Rightarrow> (RecordType \<times> bytes) list \<Rightarrow> bytes" where
  "layout bo [] = []"
| "layout bo ((t, d) # ps) =
     trailer bo @ physical t d @ layout (block_pos bo + kHeaderSize + length d) ps"

fun layout_end :: "nat \<Rightarrow> (RecordType \<times> bytes) list \<Rightarrow> nat" where
  "layout_end bo [] = bo"
| "layout_end bo ((t, d) # ps) = layout_end (block_pos bo + kHeaderSize + length d) ps"

text \<open>The fragments a record is cut into when it is written at offset \<open>bo\<close> of a block.\<close>

function fragments :: "bool \<Rightarrow> nat \<Rightarrow> bytes \<Rightarrow> (RecordType \<times> bytes) list" where
  "fragments first bo data =
     (let avail = kBlockSize - block_pos bo - kHeaderSize in
      if length data \<le> avail then [(fragment_type first True, data)]
      else (fragment_type first False, take avail data) #
           fragments False kBlockSize (drop avail data))"
  by pat_completeness auto
termination
  by (relation "measure (\<lambda>(_, bo, data). 2 * length data + (if bo + kHeaderSize = kBlockSize then 1 else 0))")
    (auto simp: block_pos_def kBlockSize_def kHeaderSize_def)

declare fragments.simps [simp del]

fun record_fragments :: "nat \<Rightarrow> bytes list \<Rightarrow> (RecordType \<times> bytes) list" where
  "record_fragments bo [] = []"
| "record_fragments bo (r # rs) =
     (let ps = fragments True bo r in ps @ record_fragments (layout_end bo ps) rs)"

section \<open>Lemmas\<close>

lemma block_pos_bound: "bo \<le> kBlockSize \<Longrightarrow> block_pos bo + kHeaderSize \<le> kBlockSize"
  by (auto simp: block_pos_def kBlockSize_def kHeaderSize_def)

lemma layout_append: "layout bo (ps @ qs) = layout bo ps @ layout (layout_end bo ps) qs"
  by (induction bo ps rule: layout.induct) simp_all

lemma layout_end_append: "layout_end bo (ps @ qs) = layout_end (layout_end bo ps) qs"
  by (induction bo ps rule: layout_end.induct) simp_all

lemma length_physical [simp]: "length (physical t d) = kHeaderSize + length d"
  by (simp add: physical_def kHeaderSize_def)

lemma layout_end_fragments: "bo \<le> kBlockSize \<Longrightarrow> layout_end bo (fragments first bo data) \<le> kBlockSize"
proof (induction first bo data rule: fragments.induct)
  case (1 first bo data)
  then show ?case
    using block_pos_bound [of bo] by (subst fragments.simps) (auto simp: Let_def)
qed

lemma type_crc_InitTypeCrc: "InitTypeCrc ! record_type_code t = Value [type_byte t]"
proof -
  have "record_type_code t < Suc kMaxRecordType"
    by (cases t) (simp_all add: kMaxRecordType_def)
  then show ?thesis
    by (simp add: InitTypeCrc_def type_byte_def del: upt_Suc)
qed

lemma low_byte: "(word_of_nat n AND 0xff :: u8) = word_of_nat n"
proof -
  have "(0xff :: u8) = - 1"
    by simp
  then show ?thesis
    by (simp only: and.right_neutral)
qed

text \<open>What every operation of the writer keeps of its state.\<close>

definition writer_ok :: "('f \<Rightarrow> bool) \<Rightarrow> 'f Writer \<Rightarrow> bool" where
  "writer_ok good w \<longleftrightarrow> good (dest w) \<and> block_offset w \<le> kBlockSize \<and> type_crc w = InitTypeCrc"

context writable_file
begin

lemma EmitPhysicalRecord_layout:
  assumes "writer_ok good w" and "block_offset w + kHeaderSize + length data \<le> kBlockSize"
  obtains s w' where "EmitPhysicalRecord Append Flush w t data = Some (s, w')"
    and "ok s" and "writer_ok good w'"
    and "contents (dest w') = contents (dest w) @ physical t data"
    and "block_offset w' = block_offset w + kHeaderSize + length data"
proof -
  define buf where "buf = EncodeFixed32 (Mask (Value (type_byte t # data))) @
     [word_of_nat (length data), word_of_nat (length data div 2 ^ 8), type_byte t]"
  obtain s1 f1 where a1: "Append (dest w) buf = (s1, f1)" by fastforce
  obtain s2 f2 where a2: "Append f1 data = (s2, f2)" by fastforce
  obtain s3 f3 where a3: "Flush f2 = (s3, f3)" by fastforce
  have g1: "ok s1 \<and> good f1 \<and> contents f1 = contents (dest w) @ buf"
    using append_ok [OF _ _ a1] assms(1) by (simp add: writer_ok_def buf_def)
  have g2: "ok s2 \<and> good f2 \<and> contents f2 = contents f1 @ data"
    using append_ok [OF _ _ a2] g1 assms(2) by (simp add: kBlockSize_def)
  have g3: "ok s3 \<and> good f3 \<and> contents f3 = contents f2"
    using flush_ok [OF _ a3] g2 by simp
  have crc: "Extend (type_crc w ! record_type_code t) data = Value (type_byte t # data)"
    using assms(1) Value_append [of "[type_byte t]" data]
    by (simp add: writer_ok_def type_crc_InitTypeCrc)
  have "EmitPhysicalRecord Append Flush w t data =
      Some (s3, w\<lparr>dest := f3, block_offset := block_offset w + (kHeaderSize + length data)\<rparr>)"
    using assms(2) a1 a2 a3 g1 g2
    by (simp add: EmitPhysicalRecord_def Let_def crc low_byte buf_def type_byte_def
        kBlockSize_def kHeaderSize_def)
  then show ?thesis
    using that g1 g2 g3 assms by (auto simp: writer_ok_def buf_def physical_def)
qed

lemma start_block_layout:
  assumes "writer_ok good w"
  shows "writer_ok good (start_block Append w)"
    and "block_offset (start_block Append w) = block_pos (block_offset w)"
    and "contents (dest (start_block Append w)) = contents (dest w) @ trailer (block_offset w)"
  using assms append_ok [of "dest w" "replicate (kBlockSize - block_offset w) 0"]
  by (auto simp: start_block_def writer_ok_def block_pos_def trailer_def Let_def prod_eq_iff kBlockSize_def)

lemma AddRecord_loop_layout:
  assumes "writer_ok good w"
  shows "\<exists>s w'. AddRecord_loop Append Flush first w data = Some (s, w') \<and> ok s \<and>
    writer_ok good w' \<and>
    contents (dest w') = contents (dest w) @ layout (block_offset w) (fragments first (block_offset w) data) \<and>
    block_offset w' = layout_end (block_offset w) (fragments first (block_offset w) data)"
  using assms
proof (induction first "block_offset w" data arbitrary: w rule: fragments.induct)
  case (1 first data)
  let ?bo = "block_offset w" and ?w1 = "start_block Append w"
  define avail where "avail = kBlockSize - block_pos ?bo - kHeaderSize"
  have avail: "kBlockSize - (block_pos ?bo + kHeaderSize) = avail"
    by (simp add: avail_def)
  define frag where "frag = take (min (length data) avail) data"
  note w1 = start_block_layout [OF 1(2)]
  have room: "block_offset ?w1 + kHeaderSize \<le> kBlockSize" and bo: "?bo \<le> kBlockSize"
    using 1(2) block_pos_bound [of ?bo] by (simp_all add: w1 writer_ok_def)
  then have fits: "block_offset ?w1 + kHeaderSize + length frag \<le> kBlockSize"
    by (simp add: w1 avail_def frag_def)
  define t where "t = fragment_type first (length data = min (length data) avail)"
  obtain s w2 where emit: "EmitPhysicalRecord Append Flush ?w1 t frag = Some (s, w2)"
    and ok: "ok s" and w2: "writer_ok good w2"
    and c2: "contents (dest w2) = contents (dest ?w1) @ physical t frag"
    and b2: "block_offset w2 = block_offset ?w1 + kHeaderSize + length frag"
    using EmitPhysicalRecord_layout [OF w1(1) fits] .
  have step: "AddRecord_loop Append Flush first w data =
    (if length data > avail then AddRecord_loop Append Flush False w2 (drop avail data) else Some (s, w2))"
    using bo room emit [unfolded t_def frag_def] ok
    by (subst AddRecord_loop.simps) (simp add: Let_def w1 avail min_def)
  show ?case
  proof (cases "length data \<le> avail")
    case True
    then have "fragments first ?bo data = [(t, frag)]"
      by (subst fragments.simps) (simp add: Let_def avail t_def frag_def)
    with True show ?thesis
      using step ok w2 c2 b2 by (simp add: w1)
  next
    case False
    then have frags: "fragments first ?bo data = (t, frag) # fragments False kBlockSize (drop avail data)"
      by (subst fragments.simps) (simp add: Let_def avail t_def frag_def)
    have full: "block_offset w2 = kBlockSize"
      using b2 False room by (simp add: w1 frag_def avail_def)
    show ?thesis
      using 1(1) [of avail w2] False step w2 full c2 b2
      by (auto simp: frags w1 avail_def)
  qed
qed

lemma AddRecords_layout:
  assumes "writer_ok good w"
  shows "\<exists>s w'. AddRecords Append Flush w rs = Some (s, w') \<and> ok s \<and> writer_ok good w' \<and>
    contents (dest w') = contents (dest w) @ layout (block_offset w) (record_fragments (block_offset w) rs) \<and>
    block_offset w' = layout_end (block_offset w) (record_fragments (block_offset w) rs)"
  using assms
proof (induction rs arbitrary: w)
  case (Cons r rs)
  obtain s w1 where w1: "AddRecord Append Flush w r = Some (s, w1)" "ok s" "writer_ok good w1"
    "contents (dest w1) = contents (dest w) @ layout (block_offset w) (fragments True (block_offset w) r)"
    "block_offset w1 = layout_end (block_offset w) (fragments True (block_offset w) r)"
    using AddRecord_loop_layout [OF Cons.prems] unfolding AddRecord_def by blast
  then show ?case
    using Cons.IH [of w1] by (auto simp: Let_def layout_append layout_end_append)
qed simp

end

end
