(* ===== verification/Log_Reader.thy ===== *)
theory Log_Reader
  imports Log_Writer
begin

text \<open>
  \<open>log::Reader\<close> (\<^verbatim>\<open>db/log_reader.cpp\<close>).

  The reader's state is a record; the calls of \<open>Reporter::Corruption\<close> are collected in the
  field \<open>reports\<close> in the order they are made (a null reporter is \<open>reporter = False\<close>).
  \<open>ReadPhysicalRecord\<close> reads at most one block before it returns.  The loop of \<open>ReadRecord\<close>
  may run as long as the file delivers data, so it is a partial function whose value is
  \<^const>\<open>None\<close> when it does not return; for a finite file it always returns.
\<close>

section \<open>Reader\<close>

record 'f Reader =
  rfile :: 'f
  reporter :: bool
  reports :: "(u64 \<times> Status) list"
  checksum :: bool
  buffer :: bytes
  eof :: bool
  last_record_offset :: u64
  end_of_buffer_offset :: u64
  initial_offset :: u64
  resyncing :: bool

text \<open>The record types as the values of the variable \<open>record_type\<close>.\<close>

definition type_code :: "RecordType \<Rightarrow> u32" where
  "type_code t = word_of_nat (record_type_code t)"

definition kEof :: u32 where
  "kEof = word_of_nat (kMaxRecordType + 1)"

definition kBadRecord :: u32 where
  "kBadRecord = word_of_nat (kMaxRecordType + 2)"

definition Reader_new :: "'f \<Rightarrow> bool \<Rightarrow> bool \<Rightarrow> u64 \<Rightarrow> 'f Reader" where
  "Reader_new f rep chk initial =
     \<lparr>rfile = f, reporter = rep, reports = [], checksum = chk, buffer = [], eof = False,
      last_record_offset = 0, end_of_buffer_offset = 0, initial_offset = initial,
      resyncing = (initial > 0)\<rparr>"

definition ReportDrop :: "u64 \<Rightarrow> Status \<Rightarrow> 'f Reader \<Rightarrow> 'f Reader" where
  "ReportDrop n reason r =
     (if reporter r \<and>
         end_of_buffer_offset r - word_of_nat (length (buffer r)) - n \<ge> initial_offset r
      then r\<lparr>reports := reports r @ [(n, reason)]\<rparr> else r)"

definition ReportCorruption :: "u64 \<Rightarrow> bytes \<Rightarrow> 'f Reader \<Rightarrow> 'f Reader" where
  "ReportCorruption n reason r = ReportDrop n (Corruption reason []) r"

definition SkipToInitialBlock ::
  "('f \<Rightarrow> u64 \<Rightarrow> Status \<times> 'f) \<Rightarrow> 'f Reader \<Rightarrow> bool \<times> 'f Reader" where
  "SkipToInitialBlock Skip r =
     (let offset_in_block = unat (initial_offset r) mod kBlockSize;
          block_start_location = initial_offset r - word_of_nat offset_in_block;
          block_start_location =
            (if offset_in_block > kBlockSize - 6 then block_start_location + word_of_nat kBlockSize
             else block_start_location);
          r = r\<lparr>end_of_buffer_offset := block_start_location\<rparr>
      in if block_start_location > 0 then
           (case Skip (rfile r) block_start_location of (skip_status, f) \<Rightarrow>
              let r = r\<lparr>rfile := f\<rparr> in
              if \<not> ok skip_status then (False, ReportDrop block_start_location skip_status r)
              else (True, r))
         else (True, r))"

text \<open>The length and type fields of a header; \<open>type\<close> is a \<open>char\<close> widened to \<open>unsigned int\<close>,
  hence sign-extended.\<close>

definition header_length :: "bytes \<Rightarrow> nat" where
  "header_length header =
     unat (((ucast (header ! 4) :: u32) AND 0xff) OR push_bit 8 ((ucast (header ! 5) :: u32) AND 0xff))"

definition header_type :: "bytes \<Rightarrow> u32" where
  "header_type header = scast (header ! 6)"

text \<open>The part of \<open>ReadPhysicalRecord\<close> after the buffer has been filled.  The third component
  of the result is the assignment to \<open>*result\<close>, if there is one.\<close>

definition ParsePhysicalRecord :: "'f Reader \<Rightarrow> u32 \<times> 'f Reader \<times> bytes option" where
  "ParsePhysicalRecord r =
     (let header = buffer r;
          type = header_type header;
          len = header_length header
      in if kHeaderSize + len > length (buffer r) then
           let drop_size = word_of_nat (length (buffer r));
               r = r\<lparr>buffer := []\<rparr>
           in if \<not> eof r
              then (kBadRecord, ReportCorruption drop_size (str ''bad record length'') r, None)
              else (kEof, r, None)
         else if type = type_code kZeroType \<and> len = 0 then (kBadRecord, r\<lparr>buffer := []\<rparr>, None)
         else if checksum r \<and>
             Value (take (1 + len) (drop 6 header)) \<noteq> Unmask (the (DecodeFixed32 header)) then
           let drop_size = word_of_nat (length (buffer r));
               r = r\<lparr>buffer := []\<rparr>
           in (kBadRecord, ReportCorruption drop_size (str ''checksum mismatch'') r, None)
         else
           let r = r\<lparr>buffer := drop (kHeaderSize + len) (buffer r)\<rparr> in
           if end_of_buffer_offset r - word_of_nat (length (buffer r)) - word_of_nat kHeaderSize
                - word_of_nat len < initial_offset r
           then (kBadRecord, r, Some [])
           else (type, r, Some (take len (drop kHeaderSize header))))"

function ReadPhysicalRecord ::
  "('f \<Rightarrow> nat \<Rightarrow> Status \<times> bytes \<times> 'f) \<Rightarrow> 'f Reader \<Rightarrow> u32 \<times> 'f Reader \<times> bytes option" where
  "ReadPhysicalRecord Read r =
     (if length (buffer r) < kHeaderSize then
        if \<not> eof r then
          (case Read (rfile r) kBlockSize of (status, data, f) \<Rightarrow>
             let r = r\<lparr>rfile := f, buffer := data,
                       end_of_buffer_offset := end_of_buffer_offset r + word_of_nat (length data)\<rparr>
             in if \<not> ok status then
                  let r = ReportDrop (word_of_nat kBlockSize) status (r\<lparr>buffer := []\<rparr>)
                  in (kEof, r\<lparr>eof := True\<rparr>, None)
                else if length data < kBlockSize then ReadPhysicalRecord Read (r\<lparr>eof := True\<rparr>)
                else ReadPhysicalRecord Read r)
        else (kEof, r\<lparr>buffer := []\<rparr>, None)
      else ParsePhysicalRecord r)"
  by pat_completeness auto
termination
  by (relation "measure (\<lambda>(_, r). if eof r \<or> length (buffer r) \<ge> kHeaderSize then 0 else 1)")
    (auto simp: kBlockSize_def kHeaderSize_def)

declare ReadPhysicalRecord.simps [simp del]

text \<open>The local variables of \<open>ReadRecord\<close>.\<close>

record locals =
  in_fragmented_record :: bool
  prospective_record_offset :: u64
  scratch :: bytes
  fragment :: bytes

text \<open>One arm of the \<open>switch\<close>: either the loop goes on, or \<open>ReadRecord\<close> returns
  (\<open>Some record\<close> for \<open>true\<close>, \<open>None\<close> for \<open>false\<close>).\<close>

datatype 'f outcome = Continue "'f Reader" locals | Return "'f Reader" "bytes option"

definition unfinished :: "string \<Rightarrow> 'f Reader \<Rightarrow> locals \<Rightarrow> 'f Reader \<times> locals" where
  "unfinished reason r l =
     (if in_fragmented_record l then
        if scratch l = [] then (r, l\<lparr>in_fragmented_record := False\<rparr>)
        else (ReportCorruption (word_of_nat (length (scratch l))) (str reason) r, l)
      else (r, l))"

definition handle_record :: "u32 \<Rightarrow> u64 \<Rightarrow> 'f Reader \<Rightarrow> locals \<Rightarrow> 'f outcome" where
  "handle_record record_type physical_record_offset r l =
     (if record_type = type_code kFullType then
        (case unfinished ''partial record without end(1)'' r l of (r, l) \<Rightarrow>
           Return (r\<lparr>last_record_offset := physical_record_offset\<rparr>) (Some (fragment l)))
      else if record_type = type_code kFirstType then
        (case unfinished ''partial record without end(2)'' r l of (r, l) \<Rightarrow>
           Continue r (l\<lparr>prospective_record_offset := physical_record_offset,
                         scratch := fragment l, in_fragmented_record := True\<rparr>))
      else if record_type = type_code kMiddleType then
        (if \<not> in_fragmented_record l then
           Continue (ReportCorruption (word_of_nat (length (fragment l)))
                       (str ''missing start of fragmented record(1)'') r) l
         else Continue r (l\<lparr>scratch := scratch l @ fragment l\<rparr>))
      else if record_type = type_code kLastType then
        (if \<not> in_fragmented_record l then
           Continue (ReportCorruption (word_of_nat (length (fragment l)))
                       (str ''missing start of fragmented record(2)'') r) l
         else Return (r\<lparr>last_record_offset := prospective_record_offset l\<rparr>)
                (Some (scratch l @ fragment l)))
      else if record_type = kEof then Return r None
      else if record_type = kBadRecord then
        (if in_fragmented_record l then
           Continue (ReportCorruption (word_of_nat (length (scratch l)))
                       (str ''error in middle of record'') r)
             (l\<lparr>in_fragmented_record := False, scratch := []\<rparr>)
         else Continue r l)
      else
        Continue
          (ReportCorruption
             (word_of_nat (length (fragment l) + (if in_fragmented_record l then length (scratch l) else 0)))
             (str ''unknown record type '' @ decimal (unat record_type)) r)
          (l\<lparr>in_fragmented_record := False, scratch := []\<rparr>))"

partial_function (option) ReadRecord_loop ::
  "('f \<Rightarrow> nat \<Rightarrow> Status \<times> bytes \<times> 'f) \<Rightarrow> 'f Reader \<Rightarrow> locals \<Rightarrow>
     ('f Reader \<times> bytes option) option" where
  [code]: "ReadRecord_loop Read r l =
     (case ReadPhysicalRecord Read r of (record_type, r, result) \<Rightarrow>
        let l = (case result of None \<Rightarrow> l | Some d \<Rightarrow> (l\<lparr>fragment := d\<rparr>));
            physical_record_offset =
              end_of_buffer_offset r - word_of_nat (length (buffer r)) - word_of_nat kHeaderSize
                - word_of_nat (length (fragment l))
        in if resyncing r \<and> record_type = type_code kMiddleType then ReadRecord_loop Read r l
           else if resyncing r \<and> record_type = type_code kLastType then
             ReadRecord_loop Read (r\<lparr>resyncing := False\<rparr>) l
           else
             (case handle_record record_type physical_record_offset (r\<lparr>resyncing := False\<rparr>) l of
                Continue r l \<Rightarrow> ReadRecord_loop Read r l
              | Return r res \<Rightarrow> Some (r, res)))"

definition ReadRecord ::
  "('f \<Rightarrow> nat \<Rightarrow> Status \<times> bytes \<times> 'f) \<Rightarrow> ('f \<Rightarrow> u64 \<Rightarrow> Status \<times> 'f) \<Rightarrow> 'f Reader \<Rightarrow>
     ('f Reader \<times> bytes option) option" where
  "ReadRecord Read Skip r =
     (let l = \<lparr>in_fragmented_record = False, prospective_record_offset = 0, scratch = [],
               fragment = []\<rparr>
      in if last_record_offset r < initial_offset r then
           (case SkipToInitialBlock Skip r of (success, r) \<Rightarrow>
              if \<not> success then Some (r, None) else ReadRecord_loop Read r l)
         else ReadRecord_loop Read r l)"

text \<open>A client that reads records until \<open>ReadRecord\<close> returns false.\<close>

partial_function (option) ReadAll ::
  "('f \<Rightarrow> nat \<Rightarrow> Status \<times> bytes \<times> 'f) \<Rightarrow> ('f \<Rightarrow> u64 \<Rightarrow> Status \<times> 'f) \<Rightarrow> 'f Reader \<Rightarrow>
     ('f Reader \<times> bytes list) option" where
  [code]: "ReadAll Read Skip r =
     Option.bind (ReadRecord Read Skip r) (\<lambda>(r, res).
       case res of
         None \<Rightarrow> Some (r, [])
       | Some rec \<Rightarrow> Option.bind (ReadAll Read Skip r) (\<lambda>(r, recs). Some (r, rec # recs)))"

section \<open>Reading a log that was written\<close>

lemma type_code_simps [simp]:
  "type_code kZeroType = 0" "type_code kFullType = 1" "type_code kFirstType = 2"
  "type_code kMiddleType = 3" "type_code kLastType = 4"
  by (simp_all add: type_code_def)

lemma kEof_value [simp]: "kEof = 5"
  by (simp add: kEof_def kMaxRecordType_def)

lemma kBadRecord_value [simp]: "kBadRecord = 6"
  by (simp add: kBadRecord_def kMaxRecordType_def)

lemma nth_physical:
  "physical t d ! 4 = word_of_nat (length d)"
  "physical t d ! 5 = word_of_nat (length d div 256)"
  "physical t d ! 6 = type_byte t"
  by (simp_all add: physical_def nth_append)

lemma header_length_bytes:
  assumes "length h \<ge> kHeaderSize" "h ! 4 = word_of_nat n" "h ! 5 = word_of_nat (n div 256)" "n < 65536"
  shows "header_length h = n"
proof -
  have low: "unat ((ucast (h ! 4) :: u32) AND 0xff) = n mod 256"
    using assms unat_and_mask [of "ucast (h ! 4) :: u32" 8]
    by (simp add: mask_eq_exp_minus_1 unat_ucast_mod unsigned_of_nat take_bit_eq_mod)
  have high: "unat (push_bit 8 ((ucast (h ! 5) :: u32) AND 0xff)) = n div 256 * 256"
    unfolding unat_push_bit using assms unat_and_mask [of "ucast (h ! 5) :: u32" 8]
    by (simp add: mask_eq_exp_minus_1 unat_ucast_mod unsigned_of_nat take_bit_eq_mod)
  show ?thesis
    unfolding header_length_def
    by (subst unat_or_add [of _ 8]) (simp_all only: low high, simp_all)
qed

lemma header_type_byte: "h ! 6 = type_byte t \<Longrightarrow> header_type h = type_code t"
  by (cases t) (simp_all add: header_type_def type_byte_def)

text \<open>
  The bytes \<open>rest\<close> of the file from the reader's position on, when the position is at offset
  \<open>bo\<close> of a block: the buffer holds what is left of the block, the file the rest.
\<close>

definition reading ::
  "('f \<Rightarrow> bytes) \<Rightarrow> ('f \<Rightarrow> bool) \<Rightarrow> nat \<Rightarrow> bytes \<Rightarrow> 'f Reader \<Rightarrow> bool" where
  "reading remaining good bo rest r \<longleftrightarrow>
     good (rfile r) \<and> bo \<le> kBlockSize \<and>
     buffer r = take (kBlockSize - bo) rest \<and>
     remaining (rfile r) = drop (kBlockSize - bo) rest \<and>
     (eof r \<longleftrightarrow> length rest < kBlockSize - bo) \<and>
     initial_offset r = 0 \<and> \<not> resyncing r"

lemma reading_new:
  "good f \<Longrightarrow> remaining f = d \<Longrightarrow> reading remaining good kBlockSize d (Reader_new f rep chk 0)"
  by (simp add: reading_def Reader_new_def)

lemma reading_update [simp]:
  "reading remaining good bo rest (r\<lparr>resyncing := False, last_record_offset := off\<rparr>) \<longleftrightarrow>
   reading remaining good bo rest (r\<lparr>resyncing := False\<rparr>)"
  "\<not> resyncing r \<Longrightarrow> reading remaining good bo rest (r\<lparr>resyncing := False\<rparr>) \<longleftrightarrow>
   reading remaining good bo rest r"
  by (auto simp: reading_def)

lemma parse_whole:
  assumes "reading remaining good bo (physical t d @ post) r"
    and "bo + kHeaderSize + length d \<le> kBlockSize" and "t \<noteq> kZeroType"
  shows "ParsePhysicalRecord r =
      (type_code t, r\<lparr>buffer := drop (kHeaderSize + length d) (buffer r)\<rparr>, Some d)"
    and "reading remaining good (bo + kHeaderSize + length d) post
      (r\<lparr>buffer := drop (kHeaderSize + length d) (buffer r)\<rparr>)"
proof -
  let ?n = "kHeaderSize + length d"
  obtain tl where buf: "buffer r = physical t d @ tl" and tl: "tl = take (kBlockSize - bo - ?n) post"
    using assms(1,2) by (simp add: reading_def)
  have len: "header_length (buffer r) = length d"
    using assms(2) by (intro header_length_bytes)
      (simp_all add: buf nth_append nth_physical kHeaderSize_def kBlockSize_def)
  have type: "header_type (buffer r) = type_code t"
    by (rule header_type_byte) (simp add: buf nth_append nth_physical kHeaderSize_def)
  have crc: "DecodeFixed32 (buffer r) = Some (Mask (Value (type_byte t # d)))"
    by (simp add: buf physical_def)
  have data: "take (Suc (length d)) (drop 6 (buffer r)) = type_byte t # d"
    by (simp add: buf physical_def)
  have payload: "take (length d) (drop kHeaderSize (buffer r)) = d"
    by (simp add: buf physical_def kHeaderSize_def)
  have t0: "type_code t \<noteq> type_code kZeroType"
    using assms(3) by (cases t) simp_all
  have i0: "initial_offset r = 0"
    using assms(1) by (simp add: reading_def)
  show "ParsePhysicalRecord r = (type_code t, r\<lparr>buffer := drop ?n (buffer r)\<rparr>, Some d)"
    unfolding ParsePhysicalRecord_def Let_def len type crc using t0 i0
    by (simp add: data payload, simp add: buf)
  show "reading remaining good (bo + kHeaderSize + length d) post (r\<lparr>buffer := drop ?n (buffer r)\<rparr>)"
    using assms(1,2) by (auto simp: reading_def buf tl add.assoc)
qed

lemma parse_cut:
  assumes "reading remaining good bo (take k (physical t d)) r"
    and "bo + kHeaderSize + length d \<le> kBlockSize"
    and "kHeaderSize \<le> k" and "k < kHeaderSize + length d"
  shows "ParsePhysicalRecord r = (kEof, r\<lparr>buffer := []\<rparr>, None)"
proof -
  have rest: "length (take k (physical t d)) = k"
    using assms(4) by simp
  have buf: "buffer r = take k (physical t d)" and eof: "eof r"
    using assms rest by (simp_all add: reading_def)
  have "header_length (buffer r) = length d"
    using assms(2-4) by (intro header_length_bytes)
      (simp_all add: buf nth_append nth_physical kHeaderSize_def kBlockSize_def)
  then show ?thesis
    using eof assms(4) by (simp add: ParsePhysicalRecord_def Let_def buf)
qed

text \<open>The number of records that lie completely in the first \<open>k\<close> bytes of a log.\<close>

fun complete_records :: "nat \<Rightarrow> nat \<Rightarrow> bytes list \<Rightarrow> nat" where
  "complete_records k bo [] = 0"
| "complete_records k bo (r # rs) =
     (let ps = fragments True bo r; n = length (layout bo ps) in
      if n \<le> k then Suc (complete_records (k - n) (layout_end bo ps) rs) else 0)"

context sequential_file
begin

lemma refill:
  assumes "reading remaining good bo rest r"
    and "kBlockSize - bo < kHeaderSize" and "kBlockSize - bo \<le> length rest"
  obtains r' where "ReadPhysicalRecord Read r = ReadPhysicalRecord Read r'"
    and "reading remaining good 0 (drop (kBlockSize - bo) rest) r'"
    and "reports r' = reports r" and "last_record_offset r' = last_record_offset r"
proof -
  obtain s data f where read: "Read (rfile r) kBlockSize = (s, data, f)"
    by (metis prod_cases3)
  define r1 where "r1 = r\<lparr>rfile := f, buffer := data,
    end_of_buffer_offset := end_of_buffer_offset r + word_of_nat (length data)\<rparr>"
  define r' where "r' = (if length data < kBlockSize then r1\<lparr>eof := True\<rparr> else r1)"
  have r: "good (rfile r)" "length (buffer r) < kHeaderSize" "\<not> eof r"
    "remaining (rfile r) = drop (kBlockSize - bo) rest"
    using assms by (simp_all add: reading_def)
  note ok = read_ok [OF r(1) read]
  have "ReadPhysicalRecord Read r = ReadPhysicalRecord Read r'"
    using r ok read by (subst ReadPhysicalRecord.simps) (simp add: Let_def r1_def r'_def)
  moreover have "reading remaining good 0 (drop (kBlockSize - bo) rest) r'"
    using assms(1) r ok by (auto simp: reading_def r1_def r'_def)
  ultimately show ?thesis
    using that by (simp add: r'_def r1_def)
qed

lemma physical_step:
  assumes "reading remaining good bo (take k (trailer bo @ physical t d @ post)) r"
    and "block_pos bo + kHeaderSize + length d \<le> kBlockSize" and "t \<noteq> kZeroType"
    and "length (trailer bo) + kHeaderSize + length d \<le> k"
  shows "\<exists>r'. ReadPhysicalRecord Read r = (type_code t, r', Some d) \<and> reports r' = reports r \<and>
      reading remaining good (block_pos bo + kHeaderSize + length d)
        (take (k - (length (trailer bo) + kHeaderSize + length d)) post) r'"
proof -
  let ?rest = "take k (trailer bo @ physical t d @ post)"
  let ?post = "take (k - (length (trailer bo) + kHeaderSize + length d)) post"
  have rest: "?rest = trailer bo @ physical t d @ ?post"
    using assms(4) by (simp add: add.assoc)
  obtain r1 where r1: "ReadPhysicalRecord Read r = ReadPhysicalRecord Read r1"
    "reading remaining good (block_pos bo) (physical t d @ ?post) r1" "reports r1 = reports r"
  proof (cases "kBlockSize - bo < kHeaderSize")
    case True
    then have tr: "length (trailer bo) = kBlockSize - bo" "block_pos bo = 0"
      by (simp_all add: trailer_def block_pos_def)
    obtain r' where "ReadPhysicalRecord Read r = ReadPhysicalRecord Read r'"
      "reading remaining good 0 (drop (kBlockSize - bo) ?rest) r'" "reports r' = reports r"
      using refill [OF assms(1) True] tr(1) unfolding rest by auto
    then show ?thesis
      using that [of r'] tr unfolding rest by simp
  next
    case False
    then show ?thesis
      using that [of r] assms(1) unfolding rest by (simp add: trailer_def block_pos_def)
  qed
  have "length (buffer r1) \<ge> kHeaderSize"
    using r1(2) assms(2) by (simp add: reading_def)
  then show ?thesis
    using parse_whole [OF r1(2) assms(2,3)] r1(1,3)
    by (subst r1(1), subst ReadPhysicalRecord.simps) simp
qed

lemma physical_cut:
  assumes "reading remaining good bo (take k (trailer bo @ physical t d @ post)) r"
    and "block_pos bo + kHeaderSize + length d \<le> kBlockSize"
    and "k < length (trailer bo) + kHeaderSize + length d"
  shows "\<exists>r'. ReadPhysicalRecord Read r = (kEof, r', None) \<and> reports r' = reports r \<and> \<not> resyncing r'"
proof -
  let ?rest = "take k (trailer bo @ physical t d @ post)"
  have at_eof: "\<exists>r'. ReadPhysicalRecord Read r1 = (kEof, r', None) \<and> reports r' = reports r \<and> \<not> resyncing r'"
    if "reading remaining good b (take j (physical t d)) r1" "reports r1 = reports r"
      "b + kHeaderSize + length d \<le> kBlockSize" "j < kHeaderSize + length d" for b j r1
  proof (cases "j < kHeaderSize")
    case True
    then have "length (buffer r1) < kHeaderSize" "eof r1" "\<not> resyncing r1"
      using that by (simp_all add: reading_def)
    then show ?thesis
      using that by (subst ReadPhysicalRecord.simps) simp
  next
    case False
    then have "\<not> length (buffer r1) < kHeaderSize" "\<not> resyncing r1"
      using that by (simp_all add: reading_def)
    then show ?thesis
      using parse_cut [OF that(1,3) _ that(4)] False that(2)
      by (subst ReadPhysicalRecord.simps) simp
  qed
  show ?thesis
  proof (cases "k < length (trailer bo)")
    case True
    then have bo: "kBlockSize - bo < kHeaderSize" "length (trailer bo) = kBlockSize - bo"
      by (auto simp: trailer_def split: if_splits)
    then have "length (buffer r) < kHeaderSize" "eof r" "\<not> resyncing r"
      using assms(1) True by (simp_all add: reading_def)
    then show ?thesis
      by (subst ReadPhysicalRecord.simps) simp
  next
    case False
    then have rest: "?rest = trailer bo @ take (k - length (trailer bo)) (physical t d)"
      using assms(3) by simp
    show ?thesis
    proof (cases "kBlockSize - bo < kHeaderSize")
      case True
      then have tr: "length (trailer bo) = kBlockSize - bo" "block_pos bo = 0"
        by (simp_all add: trailer_def block_pos_def)
      obtain r' where "ReadPhysicalRecord Read r = ReadPhysicalRecord Read r'"
        "reading remaining good 0 (drop (kBlockSize - bo) ?rest) r'" "reports r' = reports r"
        using refill [OF assms(1) True] tr(1) unfolding rest by auto
      then show ?thesis
        using at_eof [of 0 _ r'] assms(2,3) tr False unfolding rest by simp
    next
      case no_trailer: False
      then show ?thesis
        using at_eof [of bo k r] assms unfolding rest by (simp add: trailer_def block_pos_def)
    qed
  qed
qed

lemma ReadRecord_loop_fragments:
  assumes "reading remaining good bo (take k (layout bo (fragments first bo data) @ post)) r"
    and "in_fragmented_record l \<longleftrightarrow> \<not> first"
  shows "\<exists>r' res. ReadRecord_loop Read r l = Some (r', res) \<and> reports r' = reports r \<and>
    (if length (layout bo (fragments first bo data)) \<le> k
     then res = Some ((if first then [] else scratch l) @ data) \<and>
       reading remaining good (layout_end bo (fragments first bo data))
         (take (k - length (layout bo (fragments first bo data))) post) r'
     else res = None)"
  using assms
proof (induction first bo data arbitrary: r l k rule: fragments.induct)
  case (1 first bo data)
  define avail where "avail = kBlockSize - block_pos bo - kHeaderSize"
  have avail: "kBlockSize - (block_pos bo + kHeaderSize) = avail"
    by (simp add: avail_def)
  have bo: "bo \<le> kBlockSize" and room: "block_pos bo + kHeaderSize + avail = kBlockSize"
    using 1(2) block_pos_bound [of bo] by (simp_all add: reading_def avail_def)
  define t d ps where "t = fragment_type first (length data \<le> avail)" and "d = take avail data"
    and "ps = (if length data \<le> avail then [] else fragments False kBlockSize (drop avail data))"
  define bo' where "bo' = block_pos bo + kHeaderSize + length d"
  let ?n = "length (trailer bo) + kHeaderSize + length d"
  have frags: "fragments first bo data = (t, d) # ps"
    by (subst fragments.simps) (simp add: Let_def avail t_def d_def ps_def)
  have fits: "bo' \<le> kBlockSize" and t0: "t \<noteq> kZeroType"
    using room by (simp_all add: bo'_def d_def t_def fragment_type_def)
  have r: "reading remaining good bo (take k (trailer bo @ physical t d @ (layout bo' ps @ post))) r"
    using 1(2) by (simp add: frags bo'_def)
  show ?case
  proof (cases "?n \<le> k")
    case False
    then obtain r' where "ReadPhysicalRecord Read r = (kEof, r', None)" "reports r' = reports r" "\<not> resyncing r'"
      using physical_cut [OF r] fits by (auto simp: bo'_def)
    then have "ReadRecord_loop Read r l = Some (r', None) \<and> reports r' = reports r"
      by (subst ReadRecord_loop.simps) (simp add: handle_record_def)
    with False show ?thesis
      by (auto simp: frags)
  next
    case True
    then obtain r' where r': "ReadPhysicalRecord Read r = (type_code t, r', Some d)"
      "reports r' = reports r" "reading remaining good bo' (take (k - ?n) (layout bo' ps @ post)) r'"
      using physical_step [OF r _ t0 True] fits by (auto simp: bo'_def)
    have "\<not> resyncing r'"
      using r'(3) by (simp add: reading_def)
    show ?thesis
    proof (cases "length data \<le> avail")
      case last: True
      have "\<exists>off. ReadRecord_loop Read r l =
        Some (r'\<lparr>resyncing := False, last_record_offset := off\<rparr>, Some ((if first then [] else scratch l) @ data))"
        using r'(1) 1(3) last \<open>\<not> resyncing r'\<close>
        by (subst ReadRecord_loop.simps)
          (simp add: handle_record_def Let_def t_def d_def fragment_type_def unfinished_def, blast)
      with last r' True \<open>\<not> resyncing r'\<close> show ?thesis
        by (auto simp: frags ps_def bo'_def add.assoc)
    next
      case more: False
      define acc where "acc = (if first then [] else scratch l) @ d"
      have full: "bo' = kBlockSize"
        using room more by (simp add: bo'_def d_def)
      obtain r1 l1 where step: "ReadRecord_loop Read r l = ReadRecord_loop Read r1 l1"
        and r1: "reading remaining good bo' (take (k - ?n) (layout bo' ps @ post)) r1" "reports r1 = reports r'"
        and l1: "in_fragmented_record l1" "scratch l1 = acc"
      proof
        show "ReadRecord_loop Read r l = ReadRecord_loop Read (r'\<lparr>resyncing := False\<rparr>)
          (if first then l\<lparr>fragment := d, prospective_record_offset := end_of_buffer_offset r' -
              word_of_nat (length (buffer r')) - word_of_nat kHeaderSize - word_of_nat (length d),
              scratch := acc, in_fragmented_record := True\<rparr>
           else l\<lparr>fragment := d, scratch := acc\<rparr>)"
          using r'(1) 1(3) more \<open>\<not> resyncing r'\<close>
          by (subst ReadRecord_loop.simps)
            (simp add: handle_record_def Let_def t_def fragment_type_def unfinished_def acc_def)
      qed (use r' 1(3) in \<open>auto simp: reading_def\<close>)
      have ps: "ps = fragments False kBlockSize (drop avail data)"
        using more by (simp add: ps_def)
      obtain r2 res where r2: "ReadRecord_loop Read r1 l1 = Some (r2, res)" "reports r2 = reports r1"
        "if length (layout bo' ps) \<le> k - ?n
         then res = Some (acc @ drop avail data) \<and> reading remaining good (layout_end bo' ps)
           (take (k - ?n - length (layout bo' ps)) post) r2
         else res = None"
        using 1(1) [OF avail_def more r1(1) [unfolded full ps], of l1] l1
        unfolding full ps [symmetric] if_False by auto
      have len: "length (layout bo (fragments first bo data)) = ?n + length (layout bo' ps)"
        and le: "layout_end bo (fragments first bo data) = layout_end bo' ps"
        by (simp_all add: frags bo'_def add.assoc)
      have "acc @ drop avail data = (if first then [] else scratch l) @ data"
        by (simp add: acc_def d_def)
      then show ?thesis
        unfolding len le using step r2 r1(2) r'(2) True by (auto split: if_splits)
    qed
  qed
qed

lemma ReadRecord_fragments:
  assumes "reading remaining good bo (take k (layout bo (fragments True bo data) @ post)) r"
  shows "\<exists>r' res. ReadRecord Read Skip r = Some (r', res) \<and> reports r' = reports r \<and>
    (if length (layout bo (fragments True bo data)) \<le> k
     then res = Some data \<and> reading remaining good (layout_end bo (fragments True bo data))
         (take (k - length (layout bo (fragments True bo data))) post) r'
     else res = None)"
proof -
  have "\<not> last_record_offset r < initial_offset r"
    using assms by (simp add: reading_def)
  then show ?thesis
    using ReadRecord_loop_fragments [OF assms, of "\<lparr>in_fragmented_record = False,
      prospective_record_offset = 0, scratch = [], fragment = []\<rparr>"]
    unfolding if_True append_Nil by (simp only: ReadRecord_def Let_def) simp
qed

lemma ReadRecord_end:
  assumes "reading remaining good bo [] r"
  shows "\<exists>r'. ReadRecord Read Skip r = Some (r', None) \<and> reports r' = reports r"
  using ReadRecord_fragments [of bo 0 "[]" "[]" r] assms by (auto simp: fragments.simps [of _ _ "[]"] physical_def)

lemma ReadAll_records:
  assumes "reading remaining good bo (take k (layout bo (record_fragments bo rs))) r"
  shows "\<exists>r'. ReadAll Read Skip r = Some (r', take (complete_records k bo rs) rs) \<and> reports r' = reports r"
  using assms
proof (induction rs arbitrary: bo k r)
  case Nil
  then show ?case
    using ReadRecord_end [of bo r] by (subst ReadAll.simps) auto
next
  case (Cons d rs)
  let ?ps = "fragments True bo d"
  let ?n = "length (layout bo ?ps)"
  obtain r1 res where r1: "ReadRecord Read Skip r = Some (r1, res)" "reports r1 = reports r"
    "if ?n \<le> k then res = Some d \<and> reading remaining good (layout_end bo ?ps)
        (take (k - ?n) (layout (layout_end bo ?ps) (record_fragments (layout_end bo ?ps) rs))) r1
     else res = None"
    using ReadRecord_fragments [of bo k d "layout (layout_end bo ?ps) (record_fragments (layout_end bo ?ps) rs)" r]
      Cons.prems by (auto simp: Let_def layout_append)
  show ?case
  proof (cases "?n \<le> k")
    case True
    then obtain r2 where "ReadAll Read Skip r1 =
        Some (r2, take (complete_records (k - ?n) (layout_end bo ?ps) rs) rs)" "reports r2 = reports r"
      using Cons.IH r1 by fastforce
    then show ?thesis
      using True r1 by (subst ReadAll.simps) (simp add: Let_def)
  next
    case False
    then show ?thesis
      using r1 by (subst ReadAll.simps) (simp add: Let_def)
  qed
qed

end

section \<open>Reading an arbitrary file\<close>

text \<open>The bytes a reader has not consumed; a damaged file makes it consume more, never less.\<close>

definition unread :: "('f \<Rightarrow> bytes) \<Rightarrow> 'f Reader \<Rightarrow> nat" where
  "unread remaining r = length (buffer r) + length (remaining (rfile r))"

lemma report_keeps [simp]:
  "rfile (ReportDrop n s r) = rfile r" "rfile (ReportCorruption n m r) = rfile r"
  "buffer (ReportDrop n s r) = buffer r" "buffer (ReportCorruption n m r) = buffer r"
  "eof (ReportDrop n s r) = eof r" "eof (ReportCorruption n m r) = eof r"
  by (simp_all add: ReportDrop_def ReportCorruption_def)

lemma ParsePhysicalRecord_consumes:
  assumes "ParsePhysicalRecord r = (ty, r', res)" "length (buffer r) \<ge> kHeaderSize"
  shows "rfile r' = rfile r \<and> length (buffer r') \<le> length (buffer r) \<and>
    (ty = kEof \<or> length (buffer r') < length (buffer r))"
  using assms by (auto simp: ParsePhysicalRecord_def Let_def kHeaderSize_def split: if_splits)

lemma handle_record_keeps:
  "case handle_record ty off r l of Continue r' l' \<Rightarrow> ty \<noteq> kEof \<and> rfile r' = rfile r \<and> buffer r' = buffer r
   | Return r' res \<Rightarrow> rfile r' = rfile r \<and> buffer r' = buffer r \<and> (ty = kEof \<longrightarrow> res = None)"
  by (simp add: handle_record_def unfinished_def split: prod.split)

context sequential_file
begin

lemma ReadPhysicalRecord_consumes:
  assumes "ReadPhysicalRecord Read r = (ty, r', res)" and "good (rfile r)"
  shows "good (rfile r') \<and> unread remaining r' \<le> unread remaining r \<and>
    (ty = kEof \<or> unread remaining r' < unread remaining r)"
proof -
  have parse: "good (rfile r') \<and> unread remaining r' \<le> unread remaining q \<and>
      (ty = kEof \<or> unread remaining r' < unread remaining q)"
    if "ReadPhysicalRecord Read q = (ty, r', res)" "good (rfile q)" "eof q \<or> length (buffer q) \<ge> kHeaderSize" for q
    using that ParsePhysicalRecord_consumes [of q ty r' res]
    by (subst (asm) ReadPhysicalRecord.simps) (auto simp: unread_def split: if_splits)
  show ?thesis
  proof (cases "eof r \<or> length (buffer r) \<ge> kHeaderSize")
    case True
    then show ?thesis
      using parse assms by blast
  next
    case False
    obtain s data f where read: "Read (rfile r) kBlockSize = (s, data, f)"
      by (metis prod_cases3)
    note ok = read_ok [OF assms(2) read]
    define q where "q = (if length data < kBlockSize then r\<lparr>rfile := f, buffer := data,
        end_of_buffer_offset := end_of_buffer_offset r + word_of_nat (length data), eof := True\<rparr>
      else r\<lparr>rfile := f, buffer := data,
        end_of_buffer_offset := end_of_buffer_offset r + word_of_nat (length data)\<rparr>)"
    have "ReadPhysicalRecord Read q = (ty, r', res)"
      using assms(1) False read ok
      by (subst (asm) ReadPhysicalRecord.simps) (auto simp: Let_def q_def split: if_splits)
    moreover have "good (rfile q)" "eof q \<or> length (buffer q) \<ge> kHeaderSize"
      "unread remaining q \<le> unread remaining r"
      using ok by (auto simp: q_def unread_def kBlockSize_def kHeaderSize_def)
    ultimately show ?thesis
      using parse [of q] by auto
  qed
qed

lemma ReadRecord_loop_total:
  assumes "good (rfile r)"
  shows "\<exists>r' res. ReadRecord_loop Read r l = Some (r', res) \<and> good (rfile r') \<and>
    (res = None \<or> unread remaining r' < unread remaining r)"
  using assms
proof (induction "unread remaining r" arbitrary: r l rule: less_induct)
  case less
  obtain ty r1 d where phys: "ReadPhysicalRecord Read r = (ty, r1, d)"
    by (metis prod_cases3)
  note r1 = ReadPhysicalRecord_consumes [OF phys less.prems]
  define l1 where "l1 = (case d of None \<Rightarrow> l | Some x \<Rightarrow> (l\<lparr>fragment := x\<rparr>))"
  have again: "\<exists>r' res. ReadRecord_loop Read q l' = Some (r', res) \<and> good (rfile r') \<and>
      (res = None \<or> unread remaining r' < unread remaining r)"
    if "ty \<noteq> kEof" "rfile q = rfile r1" "buffer q = buffer r1" for q l'
    using less.hyps [of q l'] r1 that by (fastforce simp: unread_def)
  show ?case
  proof (cases "resyncing r1 \<and> (ty = type_code kMiddleType \<or> ty = type_code kLastType)")
    case True
    then show ?thesis
      using again [of r1 l1] again [of "r1\<lparr>resyncing := False\<rparr>" l1] phys
      by (subst ReadRecord_loop.simps) (auto simp: Let_def l1_def)
  next
    case False
    define off where "off = end_of_buffer_offset r1 - word_of_nat (length (buffer r1)) -
      word_of_nat kHeaderSize - word_of_nat (length (fragment l1))"
    define out where "out = handle_record ty off (r1\<lparr>resyncing := False\<rparr>) l1"
    have step: "ReadRecord_loop Read r l = (case out of Continue r l \<Rightarrow> ReadRecord_loop Read r l
        | Return r res \<Rightarrow> Some (r, res))"
      using False phys by (subst ReadRecord_loop.simps) (auto simp: Let_def l1_def out_def off_def)
    show ?thesis
      using handle_record_keeps [where ty = ty and off = off and r = "r1\<lparr>resyncing := False\<rparr>" and l = l1,
        folded out_def] again r1
      unfolding step by (auto simp: unread_def split: outcome.splits)
  qed
qed

lemma ReadRecord_total:
  assumes "good (rfile r)"
  shows "\<exists>r' res. ReadRecord Read Skip r = Some (r', res) \<and> good (rfile r') \<and>
    (res = None \<or> unread remaining r' < unread remaining r)"
proof -
  have skip: "good (rfile q) \<and> unread remaining q \<le> unread remaining r"
    if "SkipToInitialBlock Skip r = (b, q)" for b q
    using that skip_ok [OF assms]
    by (auto simp: SkipToInitialBlock_def Let_def unread_def assms split: if_splits prod.splits)
  have loop: "\<exists>r' res. ReadRecord_loop Read q l = Some (r', res) \<and> good (rfile r') \<and>
    (res = None \<or> unread remaining r' < unread remaining r)"
    if "SkipToInitialBlock Skip r = (b, q)" for b q l
    using ReadRecord_loop_total [of q l] skip [OF that] by fastforce
  show ?thesis
    using loop skip ReadRecord_loop_total [OF assms] by (auto simp: ReadRecord_def Let_def split: prod.split)
qed

lemma ReadAll_total:
  "good (rfile r) \<Longrightarrow> \<exists>r' recs. ReadAll Read Skip r = Some (r', recs)"
proof (induction "unread remaining r" arbitrary: r rule: less_induct)
  case less
  obtain r1 res where r1: "ReadRecord Read Skip r = Some (r1, res)" "good (rfile r1)"
    "res = None \<or> unread remaining r1 < unread remaining r"
    using ReadRecord_total [OF less.prems] by blast
  show ?case
    using less.hyps [of r1] r1 by (subst ReadAll.simps) (auto split: option.split)
qed

end

end
