(* ===== verification/Posix_Files.thy ===== *)
theory Posix_Files
  imports Env Slice
begin

text \<open>
  The file objects of \<^verbatim>\<open>util/env_posix.cpp\<close>: \<open>Limiter\<close>, \<open>PosixSequentialFile\<close>,
  \<open>PosixRandomAccessFile\<close>, \<open>PosixMmapReadableFile\<close> and \<open>PosixWritableFile\<close>.

  The operating system is a parameter: a record of system calls over an abstract state \<open>'o\<close>
  of the system.  A failed call yields \<open>errno\<close>.  The two loops that retry after \<open>EINTR\<close> are
  partial functions, \<^const>\<open>None\<close> when the call is interrupted forever.  The locale
  \<open>posix_stream\<close> states what is relied on for one file, and the classes are proved to
  provide the interfaces of \<^verbatim>\<open>Env\<close> on that basis.
\<close>

section \<open>The operating system\<close>

datatype errno = ENOENT | EINTR | EINVAL | Errno nat

datatype open_flag = O_RDONLY | O_WRONLY | O_RDWR | O_TRUNC | O_CREAT | O_APPEND

record 'o posix =
  sys_open :: "bytes \<Rightarrow> open_flag list \<Rightarrow> 'o \<Rightarrow> (errno + int) \<times> 'o"
  sys_close :: "int \<Rightarrow> 'o \<Rightarrow> (errno + unit) \<times> 'o"
  sys_read :: "int \<Rightarrow> nat \<Rightarrow> 'o \<Rightarrow> (errno + bytes) \<times> 'o"
  sys_lseek :: "int \<Rightarrow> u64 \<Rightarrow> 'o \<Rightarrow> (errno + unit) \<times> 'o"
  sys_pread :: "int \<Rightarrow> nat \<Rightarrow> u64 \<Rightarrow> 'o \<Rightarrow> (errno + bytes) \<times> 'o"
  sys_write :: "int \<Rightarrow> bytes \<Rightarrow> 'o \<Rightarrow> (errno + nat) \<times> 'o"
  sys_fsync :: "int \<Rightarrow> 'o \<Rightarrow> (errno + unit) \<times> 'o"
  sys_munmap :: "nat \<Rightarrow> 'o \<Rightarrow> 'o"
  strerror :: "errno \<Rightarrow> bytes"

definition PosixError :: "'o posix \<Rightarrow> bytes \<Rightarrow> errno \<Rightarrow> Status" where
  "PosixError os context error_number =
     (if error_number = ENOENT then NotFound context (strerror os error_number)
      else IOError context (strerror os error_number))"

section \<open>Limiter\<close>

text \<open>The value of the atomic counter \<open>acquires_allowed_\<close>.  \<open>Acquire\<close> consists of one or two
  atomic steps, which other threads may interleave.\<close>

definition fetch_sub1 :: "int \<Rightarrow> int \<times> int" where
  "fetch_sub1 allowed = (allowed, allowed - 1)"

definition fetch_add1 :: "int \<Rightarrow> int \<times> int" where
  "fetch_add1 allowed = (allowed, allowed + 1)"

definition Acquire :: "int \<Rightarrow> bool \<times> int" where
  "Acquire allowed =
     (case fetch_sub1 allowed of (old_acquires_allowed, allowed) \<Rightarrow>
        if old_acquires_allowed > 0 then (True, allowed)
        else (False, snd (fetch_add1 allowed)))"

definition Release :: "int \<Rightarrow> int" where
  "Release allowed = snd (fetch_add1 allowed)"

section \<open>PosixSequentialFile\<close>

record PosixSequentialFile =
  seq_fd :: int
  seq_filename :: bytes

partial_function (option) PosixSequentialFile_Read ::
  "'o posix \<Rightarrow> PosixSequentialFile \<Rightarrow> nat \<Rightarrow> 'o \<Rightarrow> (Status \<times> bytes option \<times> 'o) option" where
  [code]: "PosixSequentialFile_Read os f n st =
     (case sys_read os (seq_fd f) n st of
        (Inl e, st) \<Rightarrow>
          if e = EINTR then PosixSequentialFile_Read os f n st
          else Some (PosixError os (seq_filename f) e, None, st)
      | (Inr data, st) \<Rightarrow> Some (OK, Some data, st))"

definition PosixSequentialFile_Skip ::
  "'o posix \<Rightarrow> PosixSequentialFile \<Rightarrow> u64 \<Rightarrow> 'o \<Rightarrow> Status \<times> 'o" where
  "PosixSequentialFile_Skip os f n st =
     (case sys_lseek os (seq_fd f) n st of
        (Inl e, st) \<Rightarrow> (PosixError os (seq_filename f) e, st)
      | (Inr _, st) \<Rightarrow> (OK, st))"

section \<open>PosixRandomAccessFile\<close>

record PosixRandomAccessFile =
  has_permanent_fd :: bool
  ra_fd :: int
  ra_filename :: bytes

text \<open>The constructor takes a slot of the limiter \<open>fd_limiter\<close> if there is one, and otherwise
  closes the descriptor again.\<close>

definition PosixRandomAccessFile_new ::
  "'o posix \<Rightarrow> bytes \<Rightarrow> int \<Rightarrow> int \<Rightarrow> 'o \<Rightarrow> PosixRandomAccessFile \<times> int \<times> 'o" where
  "PosixRandomAccessFile_new os filename fd fd_limiter st =
     (case Acquire fd_limiter of (has, fd_limiter) \<Rightarrow>
        (\<lparr>has_permanent_fd = has, ra_fd = (if has then fd else - 1), ra_filename = filename\<rparr>,
         fd_limiter,
         if has then st else snd (sys_close os fd st)))"

definition PosixRandomAccessFile_destroy ::
  "'o posix \<Rightarrow> PosixRandomAccessFile \<Rightarrow> int \<Rightarrow> 'o \<Rightarrow> int \<times> 'o" where
  "PosixRandomAccessFile_destroy os f fd_limiter st =
     (if has_permanent_fd f then (Release fd_limiter, snd (sys_close os (ra_fd f) st))
      else (fd_limiter, st))"

definition PosixRandomAccessFile_Read ::
  "'o posix \<Rightarrow> PosixRandomAccessFile \<Rightarrow> u64 \<Rightarrow> nat \<Rightarrow> 'o \<Rightarrow> Status \<times> bytes option \<times> 'o" where
  "PosixRandomAccessFile_Read os f offset n st =
     (let opened = (if has_permanent_fd f then (Inr (ra_fd f), st)
                    else sys_open os (ra_filename f) [O_RDONLY] st)
      in case opened of
           (Inl e, st) \<Rightarrow> (PosixError os (ra_filename f) e, None, st)
         | (Inr fd, st) \<Rightarrow>
             let (status, result, st) =
                   (case sys_pread os fd n offset st of
                      (Inl e, st) \<Rightarrow> (PosixError os (ra_filename f) e, [], st)
                    | (Inr data, st) \<Rightarrow> (OK, data, st));
                 st = (if has_permanent_fd f then st else snd (sys_close os fd st))
             in (status, Some result, st))"

section \<open>PosixMmapReadableFile\<close>

text \<open>\<open>mmap_base\<close> is the mapped region of \<open>length_\<close> bytes.  The sum \<open>offset + n\<close> is computed in
  64 bits and wraps.  \<open>None\<close>: the slice would leave the region.\<close>

record PosixMmapReadableFile =
  mmap_base :: bytes
  mmap_filename :: bytes

definition PosixMmapReadableFile_Read ::
  "'o posix \<Rightarrow> PosixMmapReadableFile \<Rightarrow> u64 \<Rightarrow> u64 \<Rightarrow> (Status \<times> bytes) option" where
  "PosixMmapReadableFile_Read os f offset n =
     (if offset + n > word_of_nat (length (mmap_base f))
      then Some (PosixError os (mmap_filename f) EINVAL, [])
      else if unat offset + unat n > length (mmap_base f) then None
      else Some (OK, take (unat n) (drop (unat offset) (mmap_base f))))"

definition PosixMmapReadableFile_destroy ::
  "'o posix \<Rightarrow> PosixMmapReadableFile \<Rightarrow> int \<Rightarrow> 'o \<Rightarrow> int \<times> 'o" where
  "PosixMmapReadableFile_destroy os f mmap_limiter st =
     (Release mmap_limiter, sys_munmap os (length (mmap_base f)) st)"

section \<open>PosixWritableFile\<close>

definition kWritableFileBufferSize :: nat where
  "kWritableFileBufferSize = 65536"

text \<open>\<open>buf\<close> is \<open>buf_[0, pos_ - 1]\<close>, so \<open>pos_\<close> is its length.\<close>

record PosixWritableFile =
  buf :: bytes
  wf_fd :: int
  is_manifest :: bool
  wf_filename :: bytes
  wf_dirname :: bytes

text \<open>\<open>rfind\<close> of the separator: what follows the last \<open>'/'\<close>, and what precedes it.\<close>

definition slash :: u8 where
  "slash = 47"

definition Basename :: "bytes \<Rightarrow> bytes" where
  "Basename fname = rev (takeWhile (\<lambda>c. c \<noteq> slash) (rev fname))"

definition Dirname :: "bytes \<Rightarrow> bytes" where
  "Dirname fname =
     (if slash \<in> set fname then rev (drop 1 (dropWhile (\<lambda>c. c \<noteq> slash) (rev fname))) else str ''.'')"

definition IsManifest :: "bytes \<Rightarrow> bool" where
  "IsManifest fname = Slice_starts_with (Basename fname) (str ''MANIFEST'')"

definition PosixWritableFile_new :: "bytes \<Rightarrow> int \<Rightarrow> PosixWritableFile" where
  "PosixWritableFile_new fname fd =
     \<lparr>buf = [], wf_fd = fd, is_manifest = IsManifest fname, wf_filename = fname,
      wf_dirname = Dirname fname\<rparr>"

partial_function (option) WriteUnbuffered ::
  "'o posix \<Rightarrow> PosixWritableFile \<Rightarrow> bytes \<Rightarrow> 'o \<Rightarrow> (Status \<times> 'o) option" where
  [code]: "WriteUnbuffered os f data st =
     (if length data > 0 then
        (case sys_write os (wf_fd f) data st of
           (Inl e, st) \<Rightarrow>
             if e = EINTR then WriteUnbuffered os f data st
             else Some (PosixError os (wf_filename f) e, st)
         | (Inr n, st) \<Rightarrow> WriteUnbuffered os f (drop n data) st)
      else Some (OK, st))"

definition FlushBuffer ::
  "'o posix \<Rightarrow> PosixWritableFile \<Rightarrow> 'o \<Rightarrow> (Status \<times> PosixWritableFile \<times> 'o) option" where
  "FlushBuffer os f st =
     (case WriteUnbuffered os f (buf f) st of
        None \<Rightarrow> None
      | Some (status, st) \<Rightarrow> Some (status, f\<lparr>buf := []\<rparr>, st))"

definition PosixWritableFile_Append ::
  "'o posix \<Rightarrow> PosixWritableFile \<Rightarrow> bytes \<Rightarrow> 'o \<Rightarrow> (Status \<times> PosixWritableFile \<times> 'o) option" where
  "PosixWritableFile_Append os f data st =
     (let copy_size = min (length data) (kWritableFileBufferSize - length (buf f));
          f = f\<lparr>buf := buf f @ take copy_size data\<rparr>;
          write_data = drop copy_size data
      in if length write_data = 0 then Some (OK, f, st)
         else
           (case FlushBuffer os f st of
              None \<Rightarrow> None
            | Some (status, f, st) \<Rightarrow>
                if \<not> ok status then Some (status, f, st)
                else if length write_data < kWritableFileBufferSize
                then Some (OK, f\<lparr>buf := write_data\<rparr>, st)
                else
                  (case WriteUnbuffered os f write_data st of
                     None \<Rightarrow> None
                   | Some (status, st) \<Rightarrow> Some (status, f, st))))"

definition PosixWritableFile_Close ::
  "'o posix \<Rightarrow> PosixWritableFile \<Rightarrow> 'o \<Rightarrow> (Status \<times> PosixWritableFile \<times> 'o) option" where
  "PosixWritableFile_Close os f st =
     (case FlushBuffer os f st of
        None \<Rightarrow> None
      | Some (status, f, st) \<Rightarrow>
          (case sys_close os (wf_fd f) st of (close_result, st) \<Rightarrow>
             let status = (case close_result of
                             Inl e \<Rightarrow> if ok status then PosixError os (wf_filename f) e else status
                           | Inr _ \<Rightarrow> status)
             in Some (status, f\<lparr>wf_fd := - 1\<rparr>, st)))"

definition PosixWritableFile_Flush ::
  "'o posix \<Rightarrow> PosixWritableFile \<Rightarrow> 'o \<Rightarrow> (Status \<times> PosixWritableFile \<times> 'o) option" where
  "PosixWritableFile_Flush os f st = FlushBuffer os f st"

definition SyncFd :: "'o posix \<Rightarrow> int \<Rightarrow> bytes \<Rightarrow> 'o \<Rightarrow> Status \<times> 'o" where
  "SyncFd os fd fd_path st =
     (case sys_fsync os fd st of
        (Inr _, st) \<Rightarrow> (OK, st)
      | (Inl e, st) \<Rightarrow> (PosixError os fd_path e, st))"

definition SyncDirIfManifest :: "'o posix \<Rightarrow> PosixWritableFile \<Rightarrow> 'o \<Rightarrow> Status \<times> 'o" where
  "SyncDirIfManifest os f st =
     (if \<not> is_manifest f then (OK, st)
      else
        case sys_open os (wf_dirname f) [O_RDONLY] st of
          (Inl e, st) \<Rightarrow> (PosixError os (wf_dirname f) e, st)
        | (Inr fd, st) \<Rightarrow>
            (case SyncFd os fd (wf_dirname f) st of (status, st) \<Rightarrow>
               (status, snd (sys_close os fd st))))"

definition PosixWritableFile_Sync ::
  "'o posix \<Rightarrow> PosixWritableFile \<Rightarrow> 'o \<Rightarrow> (Status \<times> PosixWritableFile \<times> 'o) option" where
  "PosixWritableFile_Sync os f st =
     (case SyncDirIfManifest os f st of (status, st) \<Rightarrow>
        if \<not> ok status then Some (status, f, st)
        else
          (case FlushBuffer os f st of
             None \<Rightarrow> None
           | Some (status, f, st) \<Rightarrow>
               if \<not> ok status then Some (status, f, st)
               else
                 (case SyncFd os (wf_fd f) (wf_filename f) st of (status, st) \<Rightarrow>
                    Some (status, f, st))))"

definition PosixWritableFile_destroy ::
  "'o posix \<Rightarrow> PosixWritableFile \<Rightarrow> 'o \<Rightarrow> (PosixWritableFile \<times> 'o) option" where
  "PosixWritableFile_destroy os f st =
     (if wf_fd f \<ge> 0 then
        (case PosixWritableFile_Close os f st of None \<Rightarrow> None | Some (_, f, st) \<Rightarrow> Some (f, st))
      else Some (f, st))"

section \<open>The file interfaces over the system calls\<close>

text \<open>A file object together with the state of the system, seen through the interfaces of
  \<^verbatim>\<open>Env\<close>; the case of a call that never returns is left open.\<close>

definition posix_Append ::
  "'o posix \<Rightarrow> PosixWritableFile \<times> 'o \<Rightarrow> bytes \<Rightarrow> Status \<times> PosixWritableFile \<times> 'o" where
  "posix_Append os = (\<lambda>(f, st) data. the (PosixWritableFile_Append os f data st))"

definition posix_Flush ::
  "'o posix \<Rightarrow> PosixWritableFile \<times> 'o \<Rightarrow> Status \<times> PosixWritableFile \<times> 'o" where
  "posix_Flush os = (\<lambda>(f, st). the (PosixWritableFile_Flush os f st))"

text \<open>The log reader and \<open>ReadFileToString\<close> clear the result before the call, so a call that does
  not set it leaves it empty.\<close>

definition posix_Read ::
  "'o posix \<Rightarrow> PosixSequentialFile \<times> 'o \<Rightarrow> nat \<Rightarrow> Status \<times> bytes \<times> PosixSequentialFile \<times> 'o" where
  "posix_Read os = (\<lambda>(f, st) n.
     case the (PosixSequentialFile_Read os f n st) of (s, result, st) \<Rightarrow>
       (s, case result of None \<Rightarrow> [] | Some data \<Rightarrow> data, (f, st)))"

definition posix_Skip ::
  "'o posix \<Rightarrow> PosixSequentialFile \<times> 'o \<Rightarrow> u64 \<Rightarrow> Status \<times> PosixSequentialFile \<times> 'o" where
  "posix_Skip os = (\<lambda>(f, st) n. case PosixSequentialFile_Skip os f n st of (s, st) \<Rightarrow> (s, (f, st)))"

definition stream_good :: "int \<Rightarrow> ('o \<Rightarrow> bool) \<Rightarrow> PosixWritableFile \<times> 'o \<Rightarrow> bool" where
  "stream_good fd writable = (\<lambda>(f, st).
     writable st \<and> wf_fd f = fd \<and> length (buf f) \<le> kWritableFileBufferSize)"

definition stream_contents :: "('o \<Rightarrow> bytes) \<Rightarrow> PosixWritableFile \<times> 'o \<Rightarrow> bytes" where
  "stream_contents written = (\<lambda>(f, st). written st @ buf f)"

text \<open>What is relied on of \<open>write\<close> for the descriptor \<open>fd\<close>: it writes a non-empty prefix, or is
  interrupted, but only finitely often in a row.\<close>

locale posix_writer =
  fixes os :: "'o posix" and fd :: int
    and written :: "'o \<Rightarrow> bytes" and writable :: "'o \<Rightarrow> bool" and patience :: "'o \<Rightarrow> nat"
  assumes write_progress: "writable st \<Longrightarrow> data \<noteq> [] \<Longrightarrow> sys_write os fd data st = (r, st') \<Longrightarrow>
    writable st' \<and>
    (case r of Inl e \<Rightarrow> e = EINTR \<and> patience st' < patience st \<and> written st' = written st
     | Inr n \<Rightarrow> 0 < n \<and> n \<le> length data \<and> written st' = written st @ take n data)"
begin

lemma WriteUnbuffered_ok:
  assumes "writable st" and "wf_fd f = fd"
  shows "\<exists>st'. WriteUnbuffered os f data st = Some (OK, st') \<and> writable st' \<and>
    written st' = written st @ data"
  using assms(1)
proof (induction "(length data, patience st)" arbitrary: data st rule: wf_induct_rule [OF wf_lex_prod [OF wf_less wf_less]])
  case (1 data st)
  show ?case
  proof (cases "data = []")
    case True
    with 1(2) show ?thesis
      by (subst WriteUnbuffered.simps) simp
  next
    case False
    obtain r st1 where w: "sys_write os fd data st = (r, st1)"
      by fastforce
    show ?thesis
    proof (cases r)
      case (Inl e)
      then show ?thesis
        using write_progress [OF 1(2) False w] 1(1) [of data st1] False w assms(2)
        by (subst WriteUnbuffered.simps) (auto simp: lex_prod_def)
    next
      case (Inr n)
      with write_progress [OF 1(2) False w] have n: "0 < n" "n \<le> length data" "writable st1"
        "written st1 = written st @ take n data"
        by simp_all
      with False have "((length (drop n data), patience st1), (length data, patience st)) \<in> less_than <*lex*> less_than"
        by simp
      with 1(1) [of "drop n data" st1] n show ?thesis
        using False w assms(2) Inr
        by (subst WriteUnbuffered.simps) (auto simp: lex_prod_def)
    qed
  qed
qed

lemma FlushBuffer_ok:
  assumes "stream_good fd writable (f, st)"
  shows "\<exists>st'. FlushBuffer os f st = Some (OK, f\<lparr>buf := []\<rparr>, st') \<and> writable st' \<and>
    written st' = written st @ buf f"
  using assms WriteUnbuffered_ok [of st f "buf f"] by (auto simp: FlushBuffer_def stream_good_def)

lemma PosixWritableFile_Append_ok:
  assumes "stream_good fd writable (f, st)"
  shows "\<exists>f' st'. PosixWritableFile_Append os f data st = Some (OK, f', st') \<and>
    stream_good fd writable (f', st') \<and>
    stream_contents written (f', st') = stream_contents written (f, st) @ data"
proof -
  define n where "n = min (length data) (kWritableFileBufferSize - length (buf f))"
  define f1 where "f1 = f\<lparr>buf := buf f @ take n data\<rparr>"
  have g1: "stream_good fd writable (f1, st)"
    using assms by (auto simp: f1_def stream_good_def n_def)
  show ?thesis
  proof (cases "length (drop n data) = 0")
    case True
    then show ?thesis
      using g1 by (auto simp: PosixWritableFile_Append_def Let_def n_def [symmetric] f1_def stream_contents_def)
  next
    case False
    obtain st1 where flush: "FlushBuffer os f1 st = Some (OK, f1\<lparr>buf := []\<rparr>, st1)"
      and st1: "writable st1" "written st1 = written st @ buf f @ take n data"
      using FlushBuffer_ok [OF g1] by (auto simp: f1_def)
    have fd: "wf_fd f1 = fd"
      using g1 by (simp add: stream_good_def)
    obtain st2 where direct: "WriteUnbuffered os (f1\<lparr>buf := []\<rparr>) (drop n data) st1 = Some (OK, st2)"
      and st2: "writable st2" "written st2 = written st1 @ drop n data"
      using WriteUnbuffered_ok [of st1 "f1\<lparr>buf := []\<rparr>" "drop n data"] st1(1) fd by auto
    show ?thesis
    proof (cases "length (drop n data) < kWritableFileBufferSize")
      case True
      with False have "PosixWritableFile_Append os f data st = Some (OK, f1\<lparr>buf := drop n data\<rparr>, st1)"
        using flush by (simp add: PosixWritableFile_Append_def Let_def n_def [symmetric] f1_def)
      then show ?thesis
        using True fd st1 by (simp add: stream_good_def stream_contents_def)
    next
      case big: False
      with False have "PosixWritableFile_Append os f data st = Some (OK, f1\<lparr>buf := []\<rparr>, st2)"
        using flush direct by (simp add: PosixWritableFile_Append_def Let_def n_def [symmetric] f1_def)
      then show ?thesis
        using fd st1 st2 by (simp add: stream_good_def stream_contents_def)
    qed
  qed
qed

end

text \<open>\<open>PosixWritableFile\<close> provides the interface of a writable file.\<close>

sublocale posix_writer \<subseteq> out: writable_file "posix_Append os" "posix_Flush os"
  "stream_contents written" "stream_good fd writable"
proof
  fix f s f' data
  assume good: "stream_good fd writable f" and app: "posix_Append os f data = (s, f')"
  show "ok s \<and> stream_good fd writable f' \<and>
      stream_contents written f' = stream_contents written f @ data"
    using PosixWritableFile_Append_ok [of "fst f" "snd f" data] good app
    by (auto simp: posix_Append_def split: prod.splits)
next
  fix f s f'
  assume good: "stream_good fd writable f" and flush: "posix_Flush os f = (s, f')"
  show "ok s \<and> stream_good fd writable f' \<and> stream_contents written f' = stream_contents written f"
    using FlushBuffer_ok [of "fst f" "snd f"] good flush
    by (auto simp: posix_Flush_def PosixWritableFile_Flush_def stream_good_def stream_contents_def
        split: prod.splits)
qed

text \<open>What is relied on of \<open>read\<close> and \<open>lseek\<close> for a regular file open at \<open>fd\<close>.\<close>

locale posix_reader =
  fixes os :: "'o posix" and fd :: int
    and pending :: "'o \<Rightarrow> bytes" and readable :: "'o \<Rightarrow> bool" and patience :: "'o \<Rightarrow> nat"
  assumes read_progress: "readable st \<Longrightarrow> sys_read os fd n st = (r, st') \<Longrightarrow>
    readable st' \<and>
    (case r of Inl e \<Rightarrow> e = EINTR \<and> patience st' < patience st \<and> pending st' = pending st
     | Inr data \<Rightarrow> data = take n (pending st) \<and> pending st' = drop n (pending st))"
  and seek: "readable st \<Longrightarrow> sys_lseek os fd k st = (r', st') \<Longrightarrow>
    readable st' \<and> r' = Inr () \<and> pending st' = drop (unat k) (pending st)"
begin

lemma PosixSequentialFile_Read_ok:
  assumes "readable st" and "seq_fd f = fd"
  shows "\<exists>st'. PosixSequentialFile_Read os f n st = Some (OK, Some (take n (pending st)), st') \<and>
    readable st' \<and> pending st' = drop n (pending st)"
  using assms(1)
proof (induction "patience st" arbitrary: st rule: less_induct)
  case less
  obtain r st1 where r: "sys_read os fd n st = (r, st1)"
    by fastforce
  show ?case
    using read_progress [OF less.prems r] less.hyps [of st1] r assms(2)
    by (subst PosixSequentialFile_Read.simps) (auto split: sum.splits)
qed

end

sublocale posix_reader \<subseteq> inp: sequential_file "posix_Read os" "posix_Skip os"
  "\<lambda>(f, st). pending st" "\<lambda>(f, st). readable st \<and> seq_fd f = fd"
proof
  fix f :: "PosixSequentialFile \<times> 'o" and n s data f'
  assume good: "(\<lambda>(f, st). readable st \<and> seq_fd f = fd) f" and read: "posix_Read os f n = (s, data, f')"
  show "ok s \<and> (\<lambda>(f, st). readable st \<and> seq_fd f = fd) f' \<and>
      data = take n ((\<lambda>(f, st). pending st) f) \<and>
      (\<lambda>(f, st). pending st) f' = drop n ((\<lambda>(f, st). pending st) f)"
    using PosixSequentialFile_Read_ok [of "snd f" "fst f" n] good read
    by (auto simp: posix_Read_def split: prod.splits)
next
  fix f :: "PosixSequentialFile \<times> 'o" and k s f'
  assume good: "(\<lambda>(f, st). readable st \<and> seq_fd f = fd) f" and skip: "posix_Skip os f k = (s, f')"
  show "ok s \<and> (\<lambda>(f, st). readable st \<and> seq_fd f = fd) f' \<and>
      (\<lambda>(f, st). pending st) f' = drop (unat k) ((\<lambda>(f, st). pending st) f)"
    using seek [of "snd f" k] good skip
    by (auto simp: posix_Skip_def PosixSequentialFile_Skip_def split: prod.splits sum.splits)
qed

section \<open>A file held in memory\<close>

text \<open>
  One file of a system that writes at most 4096 bytes per call and is interrupted
  \<open>interrupts\<close> times before calls succeed.  It shows that what is relied on can be met.
\<close>

record memory_file =
  stored :: bytes
  position :: nat
  interrupts :: nat

definition memory_os :: "memory_file posix" where
  "memory_os =
     \<lparr>sys_open = (\<lambda>_ _ st. (Inr 3, st)),
      sys_close = (\<lambda>_ st. (Inr (), st)),
      sys_read = (\<lambda>_ n st. if interrupts st > 0 then (Inl EINTR, st\<lparr>interrupts := interrupts st - 1\<rparr>)
         else (Inr (take n (drop (position st) (stored st))),
               st\<lparr>position := min (length (stored st)) (position st + n)\<rparr>)),
      sys_lseek = (\<lambda>_ k st. (Inr (), st\<lparr>position := position st + unat k\<rparr>)),
      sys_pread = (\<lambda>_ n k st. (Inr (take n (drop (unat k) (stored st))), st)),
      sys_write = (\<lambda>_ data st. if interrupts st > 0 then (Inl EINTR, st\<lparr>interrupts := interrupts st - 1\<rparr>)
         else let n = min (length data) 4096 in (Inr n, st\<lparr>stored := stored st @ take n data\<rparr>)),
      sys_fsync = (\<lambda>_ st. (Inr (), st)),
      sys_munmap = (\<lambda>_ st. st),
      strerror = (\<lambda>_. str ''error'')\<rparr>"

interpretation memory_out: posix_writer memory_os fd stored "\<lambda>_. True" interrupts
  by unfold_locales (auto simp: memory_os_def Let_def split: if_splits)

interpretation memory_in: posix_reader memory_os fd "\<lambda>st. drop (position st) (stored st)" "\<lambda>_. True" interrupts
  by unfold_locales (auto simp: memory_os_def add.commute min_def split: if_splits)

section \<open>The limiter under interleaving\<close>

text \<open>
  \<open>holders\<close> counts the threads whose \<open>Acquire\<close> returned true and that have not released,
  \<open>failing\<close> the threads between the two atomic operations of an \<open>Acquire\<close> that will
  return false.
\<close>

record limiter =
  allowed :: int
  holders :: nat
  failing :: nat

inductive limiter_step :: "limiter \<Rightarrow> limiter \<Rightarrow> bool" where
  acquired: "fetch_sub1 (allowed s) = (old, a) \<Longrightarrow> old > 0 \<Longrightarrow>
    limiter_step s (s\<lparr>allowed := a, holders := Suc (holders s)\<rparr>)"
| refused: "fetch_sub1 (allowed s) = (old, a) \<Longrightarrow> \<not> old > 0 \<Longrightarrow>
    limiter_step s (s\<lparr>allowed := a, failing := Suc (failing s)\<rparr>)"
| undone: "failing s = Suc n \<Longrightarrow>
    limiter_step s (s\<lparr>allowed := snd (fetch_add1 (allowed s)), failing := n\<rparr>)"
| released: "holders s = Suc n \<Longrightarrow>
    limiter_step s (s\<lparr>allowed := Release (allowed s), holders := n\<rparr>)"

definition limiter_start :: "int \<Rightarrow> limiter" where
  "limiter_start max_acquires = \<lparr>allowed = max_acquires, holders = 0, failing = 0\<rparr>"

definition limiter_inv :: "int \<Rightarrow> limiter \<Rightarrow> bool" where
  "limiter_inv max_acquires s \<longleftrightarrow>
     allowed s = max_acquires - int (holders s) - int (failing s) \<and> int (holders s) \<le> max 0 max_acquires"

lemma limiter_step_inv: "limiter_step s s' \<Longrightarrow> limiter_inv m s \<Longrightarrow> limiter_inv m s'"
  by (induction rule: limiter_step.induct)
    (auto simp: limiter_inv_def fetch_sub1_def fetch_add1_def Release_def)

lemma limiter_reachable_inv: "limiter_step\<^sup>*\<^sup>* (limiter_start m) s \<Longrightarrow> limiter_inv m s"
proof (induction rule: rtranclp_induct)
  case base
  then show ?case
    by (simp add: limiter_start_def limiter_inv_def)
next
  case (step y z)
  then show ?case
    by (blast intro: limiter_step_inv)
qed

section \<open>Properties\<close>

text \<open>C20. \<open>PosixWritableFile\<close> loses and reorders nothing: for a system whose \<open>write\<close> may write any
  non-empty prefix and may be interrupted finitely often in a row, \<open>Append\<close> returns, reports
  OK, keeps the 64 KB buffer bound and adds exactly the data to what was written or buffered;
  \<open>Flush\<close> returns OK with an empty buffer, and by then the system has written all of it.\<close>

theorem PosixWritableFile_writes_all:
  assumes "posix_writer os fd written writable patience"
    and "stream_good fd writable (f, st)"
  shows "\<exists>f1 st1 f2 st2.
    PosixWritableFile_Append os f data st = Some (OK, f1, st1) \<and>
    length (buf f1) \<le> kWritableFileBufferSize \<and>
    written st1 @ buf f1 = written st @ buf f @ data \<and>
    PosixWritableFile_Flush os f1 st1 = Some (OK, f2, st2) \<and>
    buf f2 = [] \<and> written st2 = written st @ buf f @ data"
proof -
  obtain f1 st1 where a: "PosixWritableFile_Append os f data st = Some (OK, f1, st1)"
    "stream_good fd writable (f1, st1)" "written st1 @ buf f1 = written st @ buf f @ data"
    using posix_writer.PosixWritableFile_Append_ok [OF assms, of data]
    by (auto simp: stream_contents_def)
  obtain st2 where "FlushBuffer os f1 st1 = Some (OK, f1\<lparr>buf := []\<rparr>, st2)"
    "written st2 = written st1 @ buf f1"
    using posix_writer.FlushBuffer_ok [OF assms(1) a(2)] by blast
  then show ?thesis
    using a by (auto simp: PosixWritableFile_Flush_def stream_good_def)
qed

theorem PosixWritableFile_writes_all_witness:
  "\<exists>f1 st1 f2 st2.
    PosixWritableFile_Append memory_os (PosixWritableFile_new (str ''/tmp/000005.log'') 3) (str ''abc'')
      \<lparr>stored = [], position = 0, interrupts = 2\<rparr> = Some (OK, f1, st1) \<and>
    length (buf f1) \<le> kWritableFileBufferSize \<and>
    stored st1 @ buf f1 = str ''abc'' \<and>
    PosixWritableFile_Flush memory_os f1 st1 = Some (OK, f2, st2) \<and>
    buf f2 = [] \<and> stored st2 = str ''abc''"
  using PosixWritableFile_writes_all [OF memory_out.posix_writer_axioms [of 3],
      of "PosixWritableFile_new (str ''/tmp/000005.log'') 3"
        "\<lparr>stored = [], position = 0, interrupts = 2\<rparr>" "str ''abc''"]
  by (simp add: stream_good_def PosixWritableFile_new_def)

text \<open>The limiter under every interleaving of the atomic operations of \<open>Acquire\<close> and
  \<open>Release\<close> by any number of threads: never more threads hold a resource than the limit
  allows, and when no \<open>Acquire\<close> is in progress the counter is exactly the number of free
  resources.\<close>

lemma Limiter_safe:
  assumes "0 \<le> max_acquires" and "limiter_step\<^sup>*\<^sup>* (limiter_start max_acquires) s"
  shows "int (holders s) \<le> max_acquires \<and>
    (failing s = 0 \<longrightarrow> allowed s = max_acquires - int (holders s) \<and>
       (fst (Acquire (allowed s)) \<longleftrightarrow> int (holders s) < max_acquires))"
  using limiter_reachable_inv [OF assms(2)] assms(1)
  by (auto simp: limiter_inv_def Acquire_def fetch_sub1_def)

text \<open>A mapped file as a random-access file; its data is never in the scratch buffer.\<close>

definition mmap_Read :: "'o posix \<Rightarrow> PosixMmapReadableFile \<Rightarrow> read_at" where
  "mmap_Read os f offset n =
     map_option (\<lambda>(s, data). (s, data, False)) (PosixMmapReadableFile_Read os f offset n)"

interpretation mmap_file: random_access_file "mmap_Read os" mmap_base "\<lambda>f. length (mmap_base f) < 2 ^ 64"
proof
  fix f :: PosixMmapReadableFile and offset n :: u64
  assume len: "length (mmap_base f) < 2 ^ 64" and le: "unat offset + unat n \<le> length (mmap_base f)"
  then have "unat (word_of_nat (length (mmap_base f)) :: u64) = length (mmap_base f)"
    by (simp add: unsigned_of_nat take_bit_nat_eq_self)
  moreover have "unat (offset + n) = unat offset + unat n"
    using len le by (intro unat_add_lem [THEN iffD1]) simp
  ultimately show "\<exists>scratch. mmap_Read os f offset n =
      Some (OK, take (unat n) (drop (unat offset) (mmap_base f)), scratch)"
    using le by (intro exI [of _ False]) (simp add: mmap_Read_def PosixMmapReadableFile_Read_def word_less_nat_alt)
qed

text \<open>\<open>PosixMmapReadableFile::Read\<close> returns exactly the requested bytes of the mapping, or
  the error for a request past its end, as long as \<open>offset + n\<close> does not exceed 64 bits; when
  the sum wraps around, the check passes for any file at least as long as the wrapped sum and
  the slice lies outside the mapping.\<close>

lemma PosixMmapReadableFile_Read_bounds:
  assumes "length (mmap_base f) < 2 ^ 63"
  shows "(unat offset + unat n < 2 ^ 64 \<longrightarrow>
      PosixMmapReadableFile_Read os f offset n =
        (if unat offset + unat n \<le> length (mmap_base f)
         then Some (OK, take (unat n) (drop (unat offset) (mmap_base f)))
         else Some (PosixError os (mmap_filename f) EINVAL, []))) \<and>
    (unat offset + unat n \<ge> 2 ^ 64 \<and> unat offset + unat n - 2 ^ 64 \<le> length (mmap_base f) \<longrightarrow>
      PosixMmapReadableFile_Read os f offset n = None)"
proof -
  have sum: "unat (offset + n) = (if unat offset + unat n < 2 ^ 64 then unat offset + unat n
      else unat offset + unat n - 2 ^ 64)"
    using unat_bound64 [of offset] unat_bound64 [of n] by (auto simp: unat_word_ariths mod_if)
  have len: "unat (word_of_nat (length (mmap_base f)) :: u64) = length (mmap_base f)"
    using assms by (simp add: unsigned_of_nat take_bit_nat_eq_self)
  show ?thesis
    using assms by (auto simp: PosixMmapReadableFile_Read_def word_less_nat_alt sum len)
qed

end
