(* ===== verification/Log.thy ===== *)
theory Log
  imports Log_Reader Posix_Files
begin

text \<open>
  The log as a whole: what the reader returns from a file the writer produced, complete or
  cut off by a crash, through the file interfaces and through the POSIX file classes.
\<close>

section \<open>Lemmas\<close>

lemma trailer_start [simp]: "trailer kBlockSize = []" "trailer 0 = []"
  by (simp_all add: trailer_def kBlockSize_def kHeaderSize_def)

lemma block_pos_start [simp]: "block_pos kBlockSize = 0" "block_pos 0 = 0"
  by (simp_all add: block_pos_def kBlockSize_def kHeaderSize_def)

text \<open>A log that starts at a block boundary: the end of a block and the start of the next are
  the same place.\<close>

lemma fragments_boundary: "fragments first kBlockSize d = fragments first 0 d"
  by (subst (1 2) fragments.simps) simp

lemma layout_boundary: "layout kBlockSize (p # ps) = layout 0 (p # ps)"
  by (cases p) simp

lemma layout_end_boundary: "layout_end kBlockSize (p # ps) = layout_end 0 (p # ps)"
  by (cases p) simp

lemma fragments_not_Nil: "\<exists>p ps. fragments first bo d = p # ps"
  by (subst fragments.simps) (simp add: Let_def)

lemma log_boundary:
  "layout kBlockSize (record_fragments kBlockSize rs) = layout 0 (record_fragments 0 rs)"
  "complete_records k kBlockSize rs = complete_records k 0 rs"
proof -
  show "layout kBlockSize (record_fragments kBlockSize rs) = layout 0 (record_fragments 0 rs)"
  proof (cases rs)
    case (Cons r rs)
    then show ?thesis
      using fragments_not_Nil [of True 0 r]
      by (auto simp: Let_def fragments_boundary layout_boundary layout_end_boundary)
  qed simp
  show "complete_records k kBlockSize rs = complete_records k 0 rs"
  proof (cases rs)
    case (Cons r rs)
    then show ?thesis
      using fragments_not_Nil [of True 0 r]
      by (auto simp: Let_def fragments_boundary layout_boundary layout_end_boundary)
  qed simp
qed

lemma complete_records_le: "complete_records k bo rs \<le> length rs"
  by (induction k bo rs rule: complete_records.induct) (simp_all add: Let_def)

lemma complete_records_iff:
  "i \<le> length rs \<Longrightarrow>
    i \<le> complete_records k bo rs \<longleftrightarrow> i = 0 \<or> length (layout bo (record_fragments bo (take i rs))) \<le> k"
proof (induction k bo rs arbitrary: i rule: complete_records.induct)
  case (2 k bo r rs)
  let ?ps = "fragments True bo r"
  show ?case
  proof (cases i)
    case (Suc j)
    then show ?thesis
      using 2(1) [OF refl refl, of j] 2(2)
      by (cases "j = 0") (auto simp: Let_def layout_append)
  qed simp
qed simp

lemma writer_ok_new: "good f \<Longrightarrow> writer_ok good (Writer_new f)"
  by (simp add: writer_ok_def Writer_new_def)

lemma AddRecords_Some:
  assumes "writable_file Append Flush contents good" "good f" "contents f = []"
    and "AddRecords Append Flush (Writer_new f) rs = Some (s, w)"
  shows "ok s \<and> good (dest w) \<and> contents (dest w) = layout 0 (record_fragments 0 rs)"
  using writable_file.AddRecords_layout [OF assms(1) writer_ok_new, of f rs] assms(2-4)
  by (auto simp: Writer_new_def writer_ok_def)

lemma reports_Reader_new [simp]: "reports (Reader_new g rep chk initial) = []"
  by (simp add: Reader_new_def)

section \<open>Properties\<close>

text \<open>C1. The log survives a crash.  Records are added one after the other to an empty file;
  the file is then cut off after any number \<open>k\<close> of bytes.  Reading it back, with or without
  checksum verification, returns exactly the records that were completely written within
  those \<open>k\<close> bytes, in order and unchanged, then reports the end of the file; no corruption is
  reported for the incomplete tail.\<close>

theorem log_crash_recovery:
  assumes "writable_file Append Flush contents good"
    and "sequential_file Read Skip remaining good'"
    and "good f" and "contents f = []"
    and "AddRecords Append Flush (Writer_new f) rs = Some (s, w)"
    and "good' g" and "remaining g = take k (contents (dest w))"
  shows "\<exists>n r'. ReadAll Read Skip (Reader_new g rep chk 0) = Some (r', take n rs) \<and> reports r' = [] \<and>
    n \<le> length rs \<and>
    (\<forall>i s' w'. i \<le> length rs \<and> 0 < i \<and> AddRecords Append Flush (Writer_new f) (take i rs) = Some (s', w') \<longrightarrow>
       (i \<le> n \<longleftrightarrow> length (contents (dest w')) \<le> k))"
proof -
  have w: "contents (dest w) = layout 0 (record_fragments 0 rs)"
    using AddRecords_Some [OF assms(1,3,4,5)] by simp
  define n where "n = complete_records k 0 rs"
  have read: "reading remaining good' kBlockSize (take k (layout kBlockSize (record_fragments kBlockSize rs)))
      (Reader_new g rep chk 0)"
    using assms(6,7) w by (intro reading_new) (simp_all add: log_boundary)
  obtain r' where "ReadAll Read Skip (Reader_new g rep chk 0) = Some (r', take n rs)" "reports r' = []"
    using sequential_file.ReadAll_records [OF assms(2) read] unfolding log_boundary n_def by auto
  moreover have "i \<le> n \<longleftrightarrow> length (contents (dest w')) \<le> k"
    if "i \<le> length rs" "0 < i" "AddRecords Append Flush (Writer_new f) (take i rs) = Some (s', w')" for i s' w'
    using AddRecords_Some [OF assms(1,3,4) that(3)] complete_records_iff [OF that(1), of k 0] that(2)
    by (simp add: n_def)
  ultimately show ?thesis
    using complete_records_le [of k 0 rs] unfolding n_def by blast
qed

text \<open>The witness: two records, the second longer than a block, written to and read from the
  file in memory through the POSIX file classes.\<close>

definition sample_records :: "bytes list" where
  "sample_records = [str ''abc'', replicate 40000 1]"

definition sample_file :: "PosixWritableFile \<times> memory_file" where
  "sample_file = (PosixWritableFile_new (str ''000003.log'') 3, \<lparr>stored = [], position = 0, interrupts = 1\<rparr>)"

definition sample_input :: "bytes \<Rightarrow> PosixSequentialFile \<times> memory_file" where
  "sample_input d = (\<lparr>seq_fd = 4, seq_filename = str ''000003.log''\<rparr>, \<lparr>stored = d, position = 0, interrupts = 1\<rparr>)"

lemma sample_written:
  "\<exists>s w. AddRecords (posix_Append memory_os) (posix_Flush memory_os) (Writer_new sample_file) sample_records = Some (s, w)"
  using writable_file.AddRecords_layout [OF memory_out.out.writable_file_axioms [of 3] writer_ok_new,
      of sample_file sample_records]
  by (auto simp: sample_file_def stream_good_def PosixWritableFile_new_def)

theorem log_crash_recovery_witness:
  "\<exists>s w n r'. AddRecords (posix_Append memory_os) (posix_Flush memory_os) (Writer_new sample_file) sample_records =
       Some (s, w) \<and>
     ReadAll (posix_Read memory_os) (posix_Skip memory_os)
       (Reader_new (sample_input (take 20 (stream_contents stored (dest w)))) True True 0) =
       Some (r', take n sample_records) \<and> reports r' = []"
proof -
  obtain s w where w: "AddRecords (posix_Append memory_os) (posix_Flush memory_os) (Writer_new sample_file)
      sample_records = Some (s, w)"
    using sample_written by blast
  show ?thesis
    using log_crash_recovery [OF memory_out.out.writable_file_axioms [of 3]
        memory_in.inp.sequential_file_axioms [of 4] _ _ w,
        of "sample_input (take 20 (stream_contents stored (dest w)))" 20 True True] w
    by (auto simp: sample_input_def sample_file_def stream_good_def stream_contents_def PosixWritableFile_new_def)
qed

text \<open>C2. The log round trip: on a file that accepts data, adding records never fails an
  assertion and reports OK each time, and reading the whole file returns the same records
  in the same order without a report of corruption.\<close>

theorem log_roundtrip:
  assumes "writable_file Append Flush contents good"
    and "sequential_file Read Skip remaining good'"
    and "good f" and "contents f = []"
    and "\<And>d. good' (open_file d) \<and> remaining (open_file d) = d"
  shows "\<exists>s w r'. AddRecords Append Flush (Writer_new f) rs = Some (s, w) \<and> ok s \<and>
    block_offset w \<le> kBlockSize \<and>
    ReadAll Read Skip (Reader_new (open_file (contents (dest w))) rep chk 0) = Some (r', rs) \<and>
    reports r' = []"
proof -
  obtain s w where w: "AddRecords Append Flush (Writer_new f) rs = Some (s, w)" "ok s" "writer_ok good w"
    using writable_file.AddRecords_layout [OF assms(1) writer_ok_new, of f rs] assms(3) by blast
  then have c: "contents (dest w) = layout 0 (record_fragments 0 rs)"
    using AddRecords_Some [OF assms(1,3,4)] by blast
  let ?k = "length (contents (dest w))"
  have "complete_records ?k kBlockSize rs = length rs"
    using complete_records_iff [of "length rs" rs ?k 0] complete_records_le [of ?k 0 rs] c
    by (simp add: log_boundary)
  moreover have read: "reading remaining good' kBlockSize
      (take ?k (layout kBlockSize (record_fragments kBlockSize rs)))
      (Reader_new (open_file (contents (dest w))) rep chk 0)"
    using assms(5) c by (intro reading_new) (simp_all add: log_boundary)
  ultimately show ?thesis
    using sequential_file.ReadAll_records [OF assms(2) read] w by (auto simp: writer_ok_def)
qed

theorem log_roundtrip_witness:
  "\<exists>s w r'. AddRecords (posix_Append memory_os) (posix_Flush memory_os) (Writer_new sample_file) sample_records =
       Some (s, w) \<and> ok s \<and> block_offset w \<le> kBlockSize \<and>
     ReadAll (posix_Read memory_os) (posix_Skip memory_os)
       (Reader_new (sample_input (stream_contents stored (dest w))) True True 0) = Some (r', sample_records) \<and>
     reports r' = []"
  by (rule log_roundtrip [OF memory_out.out.writable_file_axioms [of 3]
        memory_in.inp.sequential_file_axioms [of 4]])
    (simp_all add: sample_input_def sample_file_def stream_good_def stream_contents_def PosixWritableFile_new_def)

text \<open>C8. Reading terminates on every file, however damaged, and from every initial offset:
  \<open>ReadRecord\<close> returns, and so does reading until the end; each record returned consumes part
  of the file.\<close>

theorem ReadRecord_terminates:
  assumes "sequential_file Read Skip remaining good" and "good (rfile r)"
  shows "\<exists>r' res. ReadRecord Read Skip r = Some (r', res) \<and>
      (res \<noteq> None \<longrightarrow> unread remaining r' < unread remaining r) \<and>
      (\<exists>r'' recs. ReadAll Read Skip r = Some (r'', recs))"
  using sequential_file.ReadRecord_total [OF assms] sequential_file.ReadAll_total [OF assms] by blast

theorem ReadRecord_terminates_witness:
  "\<exists>r' res. ReadRecord (posix_Read memory_os) (posix_Skip memory_os)
      (Reader_new (sample_input (replicate 100 7)) True True 50) = Some (r', res)"
  using ReadRecord_terminates [OF memory_in.inp.sequential_file_axioms [of 4],
      of "Reader_new (sample_input (replicate 100 7)) True True 50"]
  by (auto simp: Reader_new_def sample_input_def)

end
