(* ===== verification/Bloom.thy ===== *)
theory Bloom
  imports Coding
begin

text \<open>
  The hash function (\<^verbatim>\<open>util/hash.cpp\<close>), the \<open>FilterPolicy\<close> interface
  (\<^verbatim>\<open>include/leveldb/filter_policy.h\<close>) as a locale, and the bloom filter
  (\<^verbatim>\<open>util/bloom.cpp\<close>) that implements it.
\<close>

unbundle bit_operations_syntax

section \<open>Hash\<close>

definition hash_m :: u32 where
  "hash_m = 0xc6a4a793"

definition hash_r :: nat where
  "hash_r = 24"

text \<open>The loop that picks up four bytes at a time, and the \<open>switch\<close> with its cases falling
  through.\<close>

fun Hash_loop :: "u32 \<Rightarrow> bytes \<Rightarrow> u32" where
  "Hash_loop h (a # b # c # d # data) =
     (let w = the (DecodeFixed32 [a, b, c, d]);
          h = h + w;
          h = h * hash_m;
          h = h XOR drop_bit 16 h
      in Hash_loop h data)"
| "Hash_loop h [a, b, c] =
     (let h = h + push_bit 16 (ucast c);
          h = h + push_bit 8 (ucast b);
          h = h + ucast a;
          h = h * hash_m
      in h XOR drop_bit hash_r h)"
| "Hash_loop h [a, b] =
     (let h = h + push_bit 8 (ucast b);
          h = h + ucast a;
          h = h * hash_m
      in h XOR drop_bit hash_r h)"
| "Hash_loop h [a] =
     (let h = h + ucast a;
          h = h * hash_m
      in h XOR drop_bit hash_r h)"
| "Hash_loop h [] = h"

definition Hash :: "bytes \<Rightarrow> u32 \<Rightarrow> u32" where
  "Hash data seed = Hash_loop (seed XOR (word_of_nat (length data) * hash_m)) data"

section \<open>The filter policy interface\<close>

text \<open>
  \<open>CreateFilter\<close> leaves the initial contents of the destination alone and appends a filter
  for which \<open>KeyMayMatch\<close> is true of every key of the list.  The number of keys is passed
  as an \<open>int\<close>, hence the bound.
\<close>

locale filter_policy =
  fixes CreateFilter :: "bytes list \<Rightarrow> bytes \<Rightarrow> bytes"
    and KeyMayMatch :: "bytes \<Rightarrow> bytes \<Rightarrow> bool"
    and valid :: "bytes \<Rightarrow> bool"
  assumes create_appends: "list_all valid keys \<Longrightarrow> length keys < 2 ^ 31 \<Longrightarrow>
      \<exists>filter. CreateFilter keys dst = dst @ filter \<and> (\<forall>key \<in> set keys. KeyMayMatch key filter)"

section \<open>The bloom filter\<close>

record BloomFilterPolicy =
  bits_per_key :: nat
  num_probes :: nat

text \<open>
  \<open>k_\<close> is \<open>static_cast<size_t>(bits_per_key * 0.69)\<close> clamped to 1..30.  Below 44 the product
  with the double nearest to 0.69 truncates to the same number as the exact one, and from 44
  on the clamp applies.
\<close>

definition BloomFilterPolicy_new :: "nat \<Rightarrow> BloomFilterPolicy" where
  "BloomFilterPolicy_new bits =
     (let k = bits * 69 div 100;
          k = (if k < 1 then 1 else k);
          k = (if k > 30 then 30 else k)
      in \<lparr>bits_per_key = bits, num_probes = k\<rparr>)"

definition Bloom_Name :: bytes where
  "Bloom_Name = str ''leveldb.BuiltinBloomFilter2''"

definition BloomHash :: "bytes \<Rightarrow> u32" where
  "BloomHash key = Hash key 0xbc9f1d34"

definition bloom_delta :: "u32 \<Rightarrow> u32" where
  "bloom_delta h = drop_bit 17 h OR push_bit 15 h"

text \<open>\<open>array[bitpos / 8] |= (1 << (bitpos % 8))\<close>.\<close>

definition set_bit_at :: "nat \<Rightarrow> bytes \<Rightarrow> bytes" where
  "set_bit_at bitpos array =
     array[bitpos div 8 := (array ! (bitpos div 8)) OR push_bit (bitpos mod 8) 1]"

fun add_probes :: "nat \<Rightarrow> nat \<Rightarrow> u32 \<Rightarrow> u32 \<Rightarrow> bytes \<Rightarrow> bytes" where
  "add_probes bits 0 h delta array = array"
| "add_probes bits (Suc j) h delta array =
     (let bitpos = unat h mod bits
      in add_probes bits j (h + delta) delta (set_bit_at bitpos array))"

definition bloom_add :: "nat \<Rightarrow> nat \<Rightarrow> bytes \<Rightarrow> bytes \<Rightarrow> bytes" where
  "bloom_add bits k key array =
     (let h = BloomHash key in add_probes bits k h (bloom_delta h) array)"

definition Bloom_CreateFilter :: "BloomFilterPolicy \<Rightarrow> bytes list \<Rightarrow> bytes \<Rightarrow> bytes" where
  "Bloom_CreateFilter p keys dst =
     (let n = length keys;
          bits = n * bits_per_key p;
          bits = (if bits < 64 then 64 else bits);
          bytes = (bits + 7) div 8;
          bits = bytes * 8;
          array = replicate bytes 0
      in dst @ fold (bloom_add bits (num_probes p)) keys array @ [word_of_nat (num_probes p)])"

fun check_probes :: "nat \<Rightarrow> nat \<Rightarrow> u32 \<Rightarrow> u32 \<Rightarrow> bytes \<Rightarrow> bool" where
  "check_probes bits 0 h delta array = True"
| "check_probes bits (Suc j) h delta array =
     (let bitpos = unat h mod bits
      in if (array ! (bitpos div 8)) AND push_bit (bitpos mod 8) 1 = 0 then False
         else check_probes bits j (h + delta) delta array)"

text \<open>The number of probes is stored in a \<open>char\<close>, which is sign-extended when it is read.\<close>

definition Bloom_KeyMayMatch :: "bytes \<Rightarrow> bytes \<Rightarrow> bool" where
  "Bloom_KeyMayMatch key bloom_filter =
     (let len = length bloom_filter in
      if len < 2 then False
      else
        let bits = (len - 1) * 8;
            k = unat (scast (bloom_filter ! (len - 1)) :: u64)
        in if k > 30 then True
           else let h = BloomHash key in check_probes bits k h (bloom_delta h) bloom_filter)"

section \<open>Lemmas\<close>

lemma length_set_bit_at [simp]: "length (set_bit_at p array) = length array"
  by (simp add: set_bit_at_def)

lemma length_add_probes [simp]: "length (add_probes bits j h delta array) = length array"
  by (induction bits j h delta array rule: add_probes.induct) (simp_all add: Let_def)

lemma length_bloom_add [simp]: "length (bloom_add bits j key array) = length array"
  by (simp add: bloom_add_def Let_def)

definition bit_at :: "nat \<Rightarrow> bytes \<Rightarrow> bool" where
  "bit_at p array \<longleftrightarrow> bit (array ! (p div 8)) (p mod 8)"

lemma bit_test: "(b :: u8) AND push_bit (p mod 8) 1 = 0 \<longleftrightarrow> \<not> bit b (p mod 8)"
  by (simp add: push_bit_eq_mult and_exp_eq_0_iff_not_bit)

lemma bit_at_set_bit_at:
  assumes "p < 8 * length array" "q < 8 * length array"
  shows "bit_at q (set_bit_at p array) \<longleftrightarrow> q = p \<or> bit_at q array"
proof (cases "q div 8 = p div 8")
  case True
  then have "q mod 8 = p mod 8 \<longleftrightarrow> q = p"
    by (metis div_mult_mod_eq)
  moreover have "p div 8 < length array"
    using assms by (simp add: less_mult_imp_div_less mult.commute)
  ultimately show ?thesis
    using True by (auto simp: bit_at_def set_bit_at_def bit_simps)
next
  case False
  then show ?thesis
    by (auto simp: bit_at_def set_bit_at_def)
qed

lemma add_probes_keeps:
  assumes "bits = 8 * length array" "0 < bits" "q < bits" "bit_at q array"
  shows "bit_at q (add_probes bits j h delta array)"
  using assms
  by (induction bits j h delta array rule: add_probes.induct) (simp_all add: Let_def bit_at_set_bit_at)

lemma check_probes_add_probes:
  assumes "bits = 8 * length array" "0 < bits"
    and "\<And>q. q < bits \<Longrightarrow> bit_at q (add_probes bits j h delta array) \<Longrightarrow> bit_at q final"
  shows "check_probes bits j h delta final"
  using assms
proof (induction bits j h delta array rule: add_probes.induct)
  case (2 bits j h delta array)
  let ?p = "unat h mod bits"
  have p: "?p < bits"
    using 2(3) by simp
  then have "bit_at ?p final"
    using 2(2-4) by (intro 2(4)) (simp_all add: Let_def add_probes_keeps bit_at_set_bit_at)
  moreover have "check_probes bits j (h + delta) delta final"
    using 2 by (simp add: Let_def)
  ultimately show ?case
    unfolding check_probes.simps Let_def bit_test bit_at_def by simp
qed simp

lemma fold_bloom_add_keeps:
  assumes "bits = 8 * length array" "0 < bits" "q < bits" "bit_at q array"
  shows "bit_at q (fold (bloom_add bits j) keys array)"
  using assms
proof (induction keys arbitrary: array)
  case (Cons a keys)
  have "bit_at q (bloom_add bits j a array)"
    using Cons.prems by (simp add: bloom_add_def Let_def add_probes_keeps)
  then show ?case
    using Cons.IH [of "bloom_add bits j a array"] Cons.prems by simp
qed simp

lemma check_fold_bloom_add:
  assumes "bits = 8 * length array" "0 < bits" "key \<in> set keys"
    and "\<And>q. q < bits \<Longrightarrow> bit_at q (fold (bloom_add bits j) keys array) \<Longrightarrow> bit_at q final"
  shows "check_probes bits j (BloomHash key) (bloom_delta (BloomHash key)) final"
  using assms
proof (induction keys arbitrary: array)
  case (Cons a keys)
  show ?case
  proof (cases "key = a")
    case True
    have "bit_at q final" if "q < bits" "bit_at q (add_probes bits j (BloomHash a) (bloom_delta (BloomHash a)) array)" for q
      using that Cons.prems(1,2) fold_bloom_add_keeps [of bits "bloom_add bits j a array" q j keys]
      by (intro Cons.prems(4)) (simp_all add: bloom_add_def [of _ _ a] Let_def)
    then show ?thesis
      using True check_probes_add_probes [OF Cons.prems(1,2)] by blast
  next
    case False
    then show ?thesis
      using Cons.prems by (intro Cons.IH [of "bloom_add bits j a array"]) simp_all
  qed
qed simp

lemma bit_at_prefix: "q < 8 * length array \<Longrightarrow> bit_at q (array @ rest) \<longleftrightarrow> bit_at q array"
  by (simp add: bit_at_def nth_append less_mult_imp_div_less mult.commute)

lemma length_fold_bloom_add [simp]: "length (fold (bloom_add bits j) keys array) = length array"
  by (induction keys arbitrary: array) simp_all

lemma num_probes_new: "0 < num_probes (BloomFilterPolicy_new b) \<and> num_probes (BloomFilterPolicy_new b) \<le> 30"
  by (simp add: BloomFilterPolicy_new_def Let_def)

lemma stored_probes: "k \<le> 30 \<Longrightarrow> unat (scast (word_of_nat k :: u8) :: u64) = k"
proof -
  assume "k \<le> 30"
  then have "k \<in> set [0..<31]"
    by simp
  then show ?thesis
    unfolding upt_conv_Cons_Cons by (simp add: upt_rec) (elim disjE; simp)
qed

lemma Bloom_no_false_negative:
  assumes "num_probes p \<le> 30" and "key \<in> set keys"
  shows "\<exists>filter. Bloom_CreateFilter p keys dst = dst @ filter \<and> Bloom_KeyMayMatch key filter"
proof -
  define n where "n = ((if length keys * bits_per_key p < 64 then 64 else length keys * bits_per_key p) + 7) div 8"
  define array where "array = fold (bloom_add (n * 8) (num_probes p)) keys (replicate n 0)"
  have n: "0 < n"
    by (auto simp: n_def)
  have filter: "Bloom_CreateFilter p keys dst = dst @ array @ [word_of_nat (num_probes p)]"
    by (simp add: Bloom_CreateFilter_def Let_def n_def array_def)
  have len: "length array = n"
    by (simp add: array_def)
  have "check_probes (n * 8) (num_probes p) (BloomHash key) (bloom_delta (BloomHash key))
      (array @ [word_of_nat (num_probes p)])"
    by (rule check_fold_bloom_add [of _ "replicate n 0" _ keys])
      (use n assms(2) len in \<open>auto simp: array_def [symmetric] bit_at_prefix\<close>)
  then have "Bloom_KeyMayMatch key (array @ [word_of_nat (num_probes p)])"
    using n len assms(1) by (simp add: Bloom_KeyMayMatch_def Let_def stored_probes nth_append)
  with filter show ?thesis
    by blast
qed

text \<open>The filter of no keys is all zero, and at least one probe is made.\<close>

lemma Bloom_empty: "\<not> Bloom_KeyMayMatch key (Bloom_CreateFilter (BloomFilterPolicy_new bits) [] [])"
proof -
  obtain j where j: "num_probes (BloomFilterPolicy_new bits) = Suc j" "Suc j \<le> 30"
    using num_probes_new [of bits] by (cases "num_probes (BloomFilterPolicy_new bits)") auto
  have "unat (BloomHash key) mod 64 div 8 < 8"
    by simp
  then have "\<not> check_probes 64 (Suc j) (BloomHash key) delta (replicate 8 0 @ xs)" for delta xs
    by (simp add: Let_def nth_append)
  then show ?thesis
    using j stored_probes [of "Suc j"] unfolding Bloom_CreateFilter_def j(1)
    by (simp add: Bloom_KeyMayMatch_def Let_def nth_append del: of_nat_Suc check_probes.simps)
qed

interpretation bloom: filter_policy "Bloom_CreateFilter (BloomFilterPolicy_new bits)" Bloom_KeyMayMatch "\<lambda>_. True"
proof
  fix keys dst
  show "\<exists>filter. Bloom_CreateFilter (BloomFilterPolicy_new bits) keys dst = dst @ filter \<and>
      (\<forall>key \<in> set keys. Bloom_KeyMayMatch key filter)"
  proof -
    obtain filter where filter: "Bloom_CreateFilter (BloomFilterPolicy_new bits) keys dst = dst @ filter"
      by (simp add: Bloom_CreateFilter_def Let_def)
    have "Bloom_KeyMayMatch key filter" if "key \<in> set keys" for key
      using Bloom_no_false_negative [OF conjunct2 [OF num_probes_new [of bits]] that, of dst] filter
      by auto
    with filter show ?thesis
      by blast
  qed
qed

section \<open>Properties\<close>

text \<open>C21. The bloom filter has no false negatives: for any number of bits per key and any
  list of keys, \<open>CreateFilter\<close> appends a filter to the destination for which \<open>KeyMayMatch\<close> is
  true of every key of the list; with an empty list of keys the filter matches nothing.\<close>

theorem Bloom_complete:
  assumes "length keys < 2 ^ 31"
  shows "(\<exists>filter. Bloom_CreateFilter (BloomFilterPolicy_new bits) keys dst = dst @ filter \<and>
      (\<forall>key \<in> set keys. Bloom_KeyMayMatch key filter)) \<and>
    (\<forall>key. \<not> Bloom_KeyMayMatch key (Bloom_CreateFilter (BloomFilterPolicy_new bits) [] []))"
  using bloom.create_appends [of keys bits dst] Bloom_empty assms by (simp add: list_all_iff)

theorem Bloom_complete_witness:
  "(\<exists>filter. Bloom_CreateFilter (BloomFilterPolicy_new 10) [str ''hello'', str ''world''] (str ''x'') =
        str ''x'' @ filter \<and>
      (\<forall>key \<in> set [str ''hello'', str ''world'']. Bloom_KeyMayMatch key filter)) \<and>
    (\<forall>key. \<not> Bloom_KeyMayMatch key (Bloom_CreateFilter (BloomFilterPolicy_new 10) [] []))"
  by (rule Bloom_complete) simp

text \<open>The hash function on the test vectors of \<^verbatim>\<open>util/hash_test.cpp\<close>.\<close>

lemma Hash_vectors:
  "Hash [] 0xbc9f1d34 = 0xbc9f1d34 \<and>
   Hash [0x62] 0xbc9f1d34 = 0xef1345c4 \<and>
   Hash [0xc3, 0x97] 0xbc9f1d34 = 0x5b663814 \<and>
   Hash [0xe2, 0x99, 0xa5] 0xbc9f1d34 = 0x323c078f \<and>
   Hash [0xe1, 0x80, 0xb9, 0x32] 0xbc9f1d34 = 0xed21633a"
  by code_simp

end
