(* ===== verification/Logging.thy ===== *)
theory Logging
  imports Slice
begin

text \<open>
  Printing and parsing of numbers and strings (\<^verbatim>\<open>util/logging.cpp\<close>).
\<close>

section \<open>Operations\<close>

definition AppendNumberTo :: "bytes \<Rightarrow> u64 \<Rightarrow> bytes" where
  "AppendNumberTo dst num = dst @ decimal (unat num)"

text \<open>\<open>%02x\<close>.\<close>

definition hex_digit :: "nat \<Rightarrow> u8" where
  "hex_digit d = (if d < 10 then 48 + word_of_nat d else 87 + word_of_nat d)"

definition escape_byte :: "u8 \<Rightarrow> bytes" where
  "escape_byte c =
     (if c \<ge> 32 \<and> c \<le> 126 then [c]
      else [92, 120, hex_digit (unat c div 16), hex_digit (unat c mod 16)])"

definition AppendEscapedStringTo :: "bytes \<Rightarrow> bytes \<Rightarrow> bytes" where
  "AppendEscapedStringTo dst val = fold (\<lambda>c dst. dst @ escape_byte c) val dst"

definition NumberToString :: "u64 \<Rightarrow> bytes" where
  "NumberToString num = AppendNumberTo [] num"

definition EscapeString :: "bytes \<Rightarrow> bytes" where
  "EscapeString val = AppendEscapedStringTo [] val"

definition is_digit :: "u8 \<Rightarrow> bool" where
  "is_digit c \<longleftrightarrow> c \<ge> 48 \<and> c \<le> 57"

text \<open>
  The result is the returned boolean, the assignment to \<open>*val\<close> if it is reached, and the
  remaining input.
\<close>

fun ConsumeDecimalNumber_loop :: "u64 \<Rightarrow> nat \<Rightarrow> bytes \<Rightarrow> bool \<times> u64 option \<times> bytes" where
  "ConsumeDecimalNumber_loop v digits [] = (digits > 0, Some v, [])"
| "ConsumeDecimalNumber_loop v digits (c # input) =
     (if is_digit c then
        let delta = unat (c - 48);
            kMaxUint64 = NOT (0 :: u64)
        in if v > kMaxUint64 div 10 \<or> v = kMaxUint64 div 10 \<and> delta > unat (kMaxUint64 mod 10)
           then (False, None, c # input)
           else ConsumeDecimalNumber_loop (v * 10 + word_of_nat delta) (digits + 1) input
      else (digits > 0, Some v, c # input))"

definition ConsumeDecimalNumber :: "bytes \<Rightarrow> bool \<times> u64 option \<times> bytes" where
  "ConsumeDecimalNumber input = ConsumeDecimalNumber_loop 0 0 input"

section \<open>Lemmas\<close>

text \<open>The number a string of digits stands for.\<close>

fun digits_value :: "nat \<Rightarrow> bytes \<Rightarrow> nat" where
  "digits_value v [] = v"
| "digits_value v (c # ds) = digits_value (v * 10 + (unat c - 48)) ds"

lemma digits_value_append: "digits_value v (a @ b) = digits_value (digits_value v a) b"
  by (induction v a rule: digits_value.induct) simp_all

lemma digits_value_ge: "v \<le> digits_value v ds"
proof (induction v ds rule: digits_value.induct)
  case (2 v c ds)
  have "v \<le> v * 10 + (unat c - 48)"
    by simp
  with 2 show ?case
    by (simp only: digits_value.simps)
qed simp

lemma digit_range: "is_digit c \<Longrightarrow> 48 \<le> unat c \<and> unat c \<le> 57"
  by (simp add: is_digit_def word_le_nat_alt)

lemma unat_digit: "is_digit c \<Longrightarrow> unat (c - 48) = unat c - 48 \<and> unat c - 48 < 10"
  using digit_range [of c] by (auto simp: unat_sub_if')

lemma max_div_10: "NOT (0 :: u64) div 10 = 1844674407370955161" "NOT (0 :: u64) mod 10 = 5"
  by simp_all

text \<open>The overflow test is exact.\<close>

lemma consume_step:
  assumes "is_digit c"
  shows "(v > NOT 0 div 10 \<or> v = NOT 0 div 10 \<and> unat (c - 48) > unat (NOT 0 mod 10 :: u64)) \<longleftrightarrow>
      unat v * 10 + (unat c - 48) \<ge> 2 ^ 64"
    and "unat v * 10 + (unat c - 48) < 2 ^ 64 \<Longrightarrow>
      unat (v * 10 + word_of_nat (unat (c - 48)) :: u64) = unat v * 10 + (unat c - 48)"
proof -
  define d where "d = unat c - 48"
  have d: "unat (c - 48) = d" "d < 10"
    using unat_digit [OF assms] by (simp_all add: d_def)
  have "v > NOT 0 div 10 \<longleftrightarrow> unat v > 1844674407370955161"
    "v = NOT 0 div 10 \<longleftrightarrow> unat v = 1844674407370955161"
    by (simp_all add: max_div_10 word_less_nat_alt word_unat_eq_iff)
  then show "(v > NOT 0 div 10 \<or> v = NOT 0 div 10 \<and> unat (c - 48) > unat (NOT 0 mod 10 :: u64)) \<longleftrightarrow>
      unat v * 10 + (unat c - 48) \<ge> 2 ^ 64"
    using d unfolding max_div_10 d_def [symmetric] by auto
  assume "unat v * 10 + (unat c - 48) < 2 ^ 64"
  then show "unat (v * 10 + word_of_nat (unat (c - 48)) :: u64) = unat v * 10 + (unat c - 48)"
    using d unfolding d_def [symmetric] d(1)
    by (simp add: unat_word_ariths unsigned_of_nat take_bit_nat_eq_self)
qed

lemma ConsumeDecimalNumber_loop_spec:
  "ConsumeDecimalNumber_loop v n input =
     (let ds = takeWhile is_digit input in
      if digits_value (unat v) ds < 2 ^ 64
      then (n + length ds > 0, Some (word_of_nat (digits_value (unat v) ds)), dropWhile is_digit input)
      else (False, None, snd (snd (ConsumeDecimalNumber_loop v n input))))"
proof (induction v n input rule: ConsumeDecimalNumber_loop.induct)
  case (2 v n c input)
  show ?case
  proof (cases "is_digit c")
    case True
    show ?thesis
    proof (cases "unat v * 10 + (unat c - 48) < 2 ^ 64")
      case fits: True
      then have small: "\<not> (v > NOT 0 div 10 \<or> v = NOT 0 div 10 \<and> unat (c - 48) > unat (NOT 0 mod 10 :: u64))"
        using consume_step(1) [OF True, of v] by simp
      then have step: "ConsumeDecimalNumber_loop v n (c # input) =
          ConsumeDecimalNumber_loop (v * 10 + word_of_nat (unat (c - 48))) (n + 1) input"
        by (simp only: ConsumeDecimalNumber_loop.simps True if_True if_False Let_def)
      note IH = 2 [OF True refl refl small]
      show ?thesis
        unfolding step by (subst IH) (simp only: consume_step(2) [OF True fits], simp add: True Let_def)
    next
      case False
      then have "digits_value (unat v) (takeWhile is_digit (c # input)) \<ge> 2 ^ 64"
        using True digits_value_ge [of "unat v * 10 + (unat c - 48)" "takeWhile is_digit input"] by simp
      then show ?thesis
        using True False consume_step(1) [OF True, of v] by (simp add: Let_def)
    qed
  next
    case False
    then show ?thesis
      using unat_bound64 [of v] by simp
  qed
next
  case (1 v n)
  then show ?case
    using unat_bound64 [of v] by simp
qed

lemma digit_char: "d < 10 \<Longrightarrow> is_digit (48 + word_of_nat d) \<and> unat (48 + word_of_nat d :: u8) = 48 + d"
  by (simp add: is_digit_def word_le_nat_alt unat_word_ariths unsigned_of_nat take_bit_nat_eq_self)

lemma decimal_digits: "list_all is_digit (decimal n)"
  by (induction n rule: decimal.induct) (subst decimal.simps, simp add: digit_char)

lemma digits_value_decimal: "digits_value 0 (decimal n) = n"
proof (induction n rule: decimal.induct)
  case (1 n)
  then show ?case
    by (subst decimal.simps) (simp add: digits_value_append digit_char)
qed

lemma decimal_not_Nil [simp]: "decimal n \<noteq> []"
  by (subst decimal.simps) simp

lemma length_decimal: "n < 10 ^ Suc k \<Longrightarrow> length (decimal n) \<le> Suc k"
proof (induction k arbitrary: n)
  case 0
  then show ?case
    by (subst decimal.simps) simp
next
  case (Suc k)
  then show ?case
    by (subst decimal.simps) (simp add: div_less_iff_less_mult)
qed

lemma digits_value_zeros: "digits_value 0 (replicate k 48 @ ds) = digits_value 0 ds"
  by (induction k) simp_all

lemma ConsumeDecimalNumber_digits:
  assumes "list_all is_digit ds" "ds \<noteq> []" "digits_value 0 ds = unat v"
    and "rest = [] \<or> \<not> is_digit (hd rest)"
  shows "ConsumeDecimalNumber (ds @ rest) = (True, Some v, rest)"
proof -
  have tw: "takeWhile is_digit (ds @ rest) = ds" and dw: "dropWhile is_digit (ds @ rest) = rest"
    using assms(1,4) by (cases rest; simp add: list_all_iff)+
  show ?thesis
    unfolding ConsumeDecimalNumber_def
    by (subst ConsumeDecimalNumber_loop_spec) (use assms unat_bound64 [of v] in \<open>simp add: tw dw\<close>)
qed

lemma escape_byte_printable: "c \<in> set (escape_byte b) \<Longrightarrow> 32 \<le> c \<and> c \<le> 126"
proof -
  have "hex_digit d \<in> {48..57} \<union> {97..102}" if "d < 16" for d
  proof -
    have "d \<in> set [0..<16]"
      using that by simp
    then show ?thesis
      by (simp add: upt_rec hex_digit_def) (elim disjE; simp)
  qed
  from this [of "unat b div 16"] this [of "unat b mod 16"] unat_bound8 [of b]
  show "c \<in> set (escape_byte b) \<Longrightarrow> 32 \<le> c \<and> c \<le> 126"
    by (auto simp: escape_byte_def less_mult_imp_div_less split: if_splits elim: order_trans [rotated] order_trans)
qed

lemma AppendEscapedStringTo_concat: "AppendEscapedStringTo dst val = dst @ concat (map escape_byte val)"
  unfolding AppendEscapedStringTo_def by (induction val arbitrary: dst) simp_all

section \<open>Properties\<close>

text \<open>\<open>ConsumeDecimalNumber\<close> on every input: it succeeds exactly when the input starts with a
  digit and the number written by the longest run of digits fits in 64 bits; it then stores
  that number and leaves the input after the run.  It never wraps around.\<close>

lemma ConsumeDecimalNumber_correct:
  "let ds = takeWhile is_digit input; (success, val, rest) = ConsumeDecimalNumber input in
     (success \<longleftrightarrow> ds \<noteq> [] \<and> digits_value 0 ds < 2 ^ 64) \<and>
     (if success then val = Some (word_of_nat (digits_value 0 ds)) \<and> rest = dropWhile is_digit input
      else val = None \<or> ds = [])"
  unfolding ConsumeDecimalNumber_def
  by (subst ConsumeDecimalNumber_loop_spec) (simp add: Let_def)

text \<open>Numbers round trip: what \<open>AppendNumberTo\<close> prints, \<open>ConsumeDecimalNumber\<close> reads back,
  leaving what follows, when that does not start with a digit.\<close>

lemma number_roundtrip:
  assumes "rest = [] \<or> \<not> is_digit (hd rest)"
  shows "ConsumeDecimalNumber (AppendNumberTo [] num @ rest) = (True, Some num, rest)"
  using ConsumeDecimalNumber_digits [OF decimal_digits decimal_not_Nil digits_value_decimal assms]
  by (simp add: AppendNumberTo_def)

text \<open>\<open>EscapeString\<close> yields printable ASCII only, at most four characters per byte, and is
  the identity on printable strings.\<close>

lemma EscapeString_printable:
  "(\<forall>c. c \<in> set (EscapeString val) \<longrightarrow> 32 \<le> c \<and> c \<le> 126) \<and>
   length (EscapeString val) \<le> 4 * length val \<and>
   (list_all (\<lambda>c. 32 \<le> c \<and> c \<le> 126) val \<longrightarrow> EscapeString val = val)"
proof -
  have esc: "EscapeString val = concat (map escape_byte val)"
    by (simp add: EscapeString_def AppendEscapedStringTo_concat)
  have "length (concat (map escape_byte val)) \<le> 4 * length val"
    by (induction val) (auto simp: escape_byte_def)
  moreover have "list_all (\<lambda>c. 32 \<le> c \<and> c \<le> 126) val \<longrightarrow> concat (map escape_byte val) = val"
    by (induction val) (auto simp: escape_byte_def)
  ultimately show ?thesis
    unfolding esc using escape_byte_printable by auto
qed

end
