(* ===== verification/Dbformat.thy ===== *)
theory Dbformat
  imports Comparator Bloom Logging
begin

text \<open>
  Internal keys (\<^verbatim>\<open>db/dbformat.h\<close>, \<^verbatim>\<open>db/dbformat.cpp\<close>): a user key followed by eight bytes
  that pack a sequence number and a value type.  The comparator and the filter policy for
  internal keys are built from those for user keys.

  A failed assertion is \<^const>\<open>None\<close>.
\<close>

unbundle bit_operations_syntax

section \<open>Keys\<close>

datatype ValueType = kTypeDeletion | kTypeValue

fun type_number :: "ValueType \<Rightarrow> u64" where
  "type_number kTypeDeletion = 0"
| "type_number kTypeValue = 1"

definition kValueTypeForSeek :: ValueType where
  "kValueTypeForSeek = kTypeValue"

definition kMaxSequenceNumber :: u64 where
  "kMaxSequenceNumber = push_bit 56 1 - 1"

record ParsedInternalKey =
  user_key :: bytes
  sequence :: u64
  value_type :: ValueType

definition InternalKeyEncodingLength :: "ParsedInternalKey \<Rightarrow> nat" where
  "InternalKeyEncodingLength key = length (user_key key) + 8"

definition PackSequenceAndType :: "u64 \<Rightarrow> ValueType \<Rightarrow> u64 option" where
  "PackSequenceAndType seq t =
     (if seq \<le> kMaxSequenceNumber \<and> type_number t \<le> type_number kValueTypeForSeek
      then Some (push_bit 8 seq OR type_number t) else None)"

definition AppendInternalKey :: "bytes \<Rightarrow> ParsedInternalKey \<Rightarrow> bytes option" where
  "AppendInternalKey result key =
     (case PackSequenceAndType (sequence key) (value_type key) of
        None \<Rightarrow> None
      | Some packed \<Rightarrow> Some (PutFixed64 (result @ user_key key) packed))"

definition ExtractUserKey :: "bytes \<Rightarrow> bytes option" where
  "ExtractUserKey internal_key =
     (if length internal_key \<ge> 8 then Some (take (length internal_key - 8) internal_key) else None)"

text \<open>The last eight bytes of an internal key.\<close>

definition key_tag :: "bytes \<Rightarrow> u64 option" where
  "key_tag internal_key = DecodeFixed64 (drop (length internal_key - 8) internal_key)"

text \<open>The value of \<open>static_cast<ValueType>(c)\<close>, \<open>None\<close> when \<open>c\<close> is no enumerator.\<close>

definition value_type_of :: "u8 \<Rightarrow> ValueType option" where
  "value_type_of c = (if c = 0 then Some kTypeDeletion else if c = 1 then Some kTypeValue else None)"

definition ExtractValueType :: "bytes \<Rightarrow> ValueType option" where
  "ExtractValueType internal_key =
     (if length internal_key \<ge> 8 then
        (case key_tag internal_key of None \<Rightarrow> None | Some num \<Rightarrow> value_type_of (ucast (num AND 0xff)))
      else None)"

definition ParseInternalKey :: "bytes \<Rightarrow> ParsedInternalKey option" where
  "ParseInternalKey internal_key =
     (let n = length internal_key in
      if n < 8 then None
      else
        (case key_tag internal_key of
           None \<Rightarrow> None
         | Some num \<Rightarrow>
             (case value_type_of (ucast (num AND 0xff)) of
                None \<Rightarrow> None
              | Some t \<Rightarrow> Some \<lparr>user_key = take (n - 8) internal_key, sequence = drop_bit 8 num, value_type = t\<rparr>)))"

definition ParsedInternalKey_DebugString :: "ParsedInternalKey \<Rightarrow> bytes" where
  "ParsedInternalKey_DebugString key =
     [39] @ EscapeString (user_key key) @ [39] @ str '' @ '' @ decimal (unat (sequence key)) @ str '' : '' @
     decimal (unat (type_number (value_type key)))"

section \<open>InternalKey\<close>

text \<open>An \<open>InternalKey\<close> object is its string \<open>rep_\<close>.\<close>

definition InternalKey_new :: "bytes \<Rightarrow> u64 \<Rightarrow> ValueType \<Rightarrow> bytes option" where
  "InternalKey_new ukey s t = AppendInternalKey [] \<lparr>user_key = ukey, sequence = s, value_type = t\<rparr>"

definition InternalKey_Encode :: "bytes \<Rightarrow> bytes option" where
  "InternalKey_Encode rep = (if rep \<noteq> [] then Some rep else None)"

definition InternalKey_DebugString :: "bytes \<Rightarrow> bytes" where
  "InternalKey_DebugString rep =
     (case ParseInternalKey rep of
        Some parsed \<Rightarrow> ParsedInternalKey_DebugString parsed
      | None \<Rightarrow> str ''(bad)'' @ EscapeString rep)"

section \<open>InternalKeyComparator\<close>

definition InternalKey_Compare :: "(bytes \<Rightarrow> bytes \<Rightarrow> int) \<Rightarrow> bytes \<Rightarrow> bytes \<Rightarrow> int option" where
  "InternalKey_Compare user_cmp akey bkey =
     (case (ExtractUserKey akey, ExtractUserKey bkey) of
        (Some au, Some bu) \<Rightarrow>
          let r = user_cmp au bu in
          if r = 0 then
            (case (key_tag akey, key_tag bkey) of
               (Some anum, Some bnum) \<Rightarrow>
                 Some (if anum > bnum then - 1 else if anum < bnum then 1 else r)
             | _ \<Rightarrow> None)
          else Some r
      | _ \<Rightarrow> None)"

text \<open>The key for seeking: the largest tag.\<close>

definition seek_tag :: u64 where
  "seek_tag = push_bit 8 kMaxSequenceNumber OR type_number kValueTypeForSeek"

definition InternalKey_FindShortestSeparator ::
  "(bytes \<Rightarrow> bytes \<Rightarrow> int) \<Rightarrow> (bytes \<Rightarrow> bytes \<Rightarrow> bytes) \<Rightarrow> bytes \<Rightarrow> bytes \<Rightarrow> bytes option" where
  "InternalKey_FindShortestSeparator user_cmp user_separator start limit =
     (case (ExtractUserKey start, ExtractUserKey limit) of
        (Some user_start, Some user_limit) \<Rightarrow>
          let tmp = user_separator user_start user_limit in
          if length tmp < length user_start \<and> user_cmp user_start tmp < 0 then
            (case PackSequenceAndType kMaxSequenceNumber kValueTypeForSeek of
               None \<Rightarrow> None
             | Some packed \<Rightarrow>
                 let tmp = PutFixed64 tmp packed in
                 (case (InternalKey_Compare user_cmp start tmp, InternalKey_Compare user_cmp tmp limit) of
                    (Some c1, Some c2) \<Rightarrow> if c1 < 0 \<and> c2 < 0 then Some tmp else None
                  | _ \<Rightarrow> None))
          else Some start
      | _ \<Rightarrow> None)"

definition InternalKey_FindShortSuccessor ::
  "(bytes \<Rightarrow> bytes \<Rightarrow> int) \<Rightarrow> (bytes \<Rightarrow> bytes) \<Rightarrow> bytes \<Rightarrow> bytes option" where
  "InternalKey_FindShortSuccessor user_cmp user_successor key =
     (case ExtractUserKey key of
        Some ukey \<Rightarrow>
          let tmp = user_successor ukey in
          if length tmp < length ukey \<and> user_cmp ukey tmp < 0 then
            (case PackSequenceAndType kMaxSequenceNumber kValueTypeForSeek of
               None \<Rightarrow> None
             | Some packed \<Rightarrow>
                 let tmp = PutFixed64 tmp packed in
                 (case InternalKey_Compare user_cmp key tmp of
                    Some c \<Rightarrow> if c < 0 then Some tmp else None
                  | None \<Rightarrow> None))
          else Some key
      | None \<Rightarrow> None)"

section \<open>InternalFilterPolicy\<close>

definition InternalFilter_CreateFilter ::
  "(bytes list \<Rightarrow> bytes \<Rightarrow> bytes) \<Rightarrow> bytes list \<Rightarrow> bytes \<Rightarrow> bytes option" where
  "InternalFilter_CreateFilter user_create keys dst =
     (if list_all (\<lambda>key. ExtractUserKey key \<noteq> None) keys
      then Some (user_create (map (\<lambda>key. the (ExtractUserKey key)) keys) dst) else None)"

definition InternalFilter_KeyMayMatch ::
  "(bytes \<Rightarrow> bytes \<Rightarrow> bool) \<Rightarrow> bytes \<Rightarrow> bytes \<Rightarrow> bool option" where
  "InternalFilter_KeyMayMatch user_match key f =
     (case ExtractUserKey key of None \<Rightarrow> None | Some ukey \<Rightarrow> Some (user_match ukey f))"

section \<open>LookupKey\<close>

text \<open>\<open>start_\<close> is the array up to \<open>end_\<close>, \<open>kstart\<close> the offset of \<open>kstart_\<close> in it.\<close>

record LookupKey =
  lk_start :: bytes
  lk_kstart :: nat

definition LookupKey_new :: "bytes \<Rightarrow> u64 \<Rightarrow> LookupKey option" where
  "LookupKey_new ukey s =
     (let usize = length ukey;
          needed = usize + 13;
          klength = EncodeVarint32 (word_of_nat (usize + 8))
      in case PackSequenceAndType s kValueTypeForSeek of
           None \<Rightarrow> None
         | Some packed \<Rightarrow>
             let dst = klength @ ukey @ EncodeFixed64 packed in
             if length dst > needed then None
             else Some \<lparr>lk_start = dst, lk_kstart = length klength\<rparr>)"

definition memtable_key :: "LookupKey \<Rightarrow> bytes" where
  "memtable_key l = lk_start l"

definition internal_key :: "LookupKey \<Rightarrow> bytes" where
  "internal_key l = drop (lk_kstart l) (lk_start l)"

definition lookup_user_key :: "LookupKey \<Rightarrow> bytes" where
  "lookup_user_key l = take (length (lk_start l) - lk_kstart l - 8) (drop (lk_kstart l) (lk_start l))"

section \<open>Internal keys as numbers and user keys\<close>

definition internal_key_of :: "bytes \<Rightarrow> u64 \<Rightarrow> bytes" where
  "internal_key_of ukey tag = ukey @ EncodeFixed64 tag"

lemma ExtractUserKey_of [simp]: "ExtractUserKey (internal_key_of u t) = Some u"
  by (simp add: ExtractUserKey_def internal_key_of_def)

lemma key_tag_of [simp]: "key_tag (internal_key_of u t) = Some t"
  using DecodeFixed64_append [of t "[]"] by (simp add: key_tag_def internal_key_of_def)

lemma length_internal_key_of [simp]: "length (internal_key_of u t) = length u + 8"
  by (simp add: internal_key_of_def)

lemma PutFixed64_internal_key: "PutFixed64 u t = internal_key_of u t"
  by (simp add: PutFixed64_def internal_key_of_def)

lemma internal_key_cases:
  assumes "length k \<ge> 8"
  obtains u t where "k = internal_key_of u t"
proof -
  have "length (drop (length k - 8) k) = 8"
    using assms by simp
  then obtain t where "drop (length k - 8) k = EncodeFixed64 t"
    using EncodeFixed64_surj by blast
  then show ?thesis
    using that [of "take (length k - 8) k" t] by (metis append_take_drop_id internal_key_of_def)
qed

lemma unat_kMaxSequenceNumber: "unat kMaxSequenceNumber = 2 ^ 56 - 1"
  by (simp add: kMaxSequenceNumber_def)

lemma pack_tag:
  assumes "seq \<le> kMaxSequenceNumber"
  shows "unat (push_bit 8 seq OR type_number t) = unat seq * 256 + unat (type_number t)"
proof -
  have "unat seq < 2 ^ 56"
    using assms unat_kMaxSequenceNumber by (simp add: word_le_nat_alt)
  then have "unat (push_bit 8 seq) = unat seq * 256"
    by (simp add: unat_simps)
  then show ?thesis
    using unat_or_add [of "type_number t" 8 "push_bit 8 seq"]
    by (cases t) (simp_all add: or.commute)
qed

lemma PackSequenceAndType_Some:
  assumes "seq \<le> kMaxSequenceNumber"
  obtains tag where "PackSequenceAndType seq t = Some tag" and "unat tag = unat seq * 256 + unat (type_number t)"
  using that assms pack_tag [OF assms, of t]
  by (cases t) (auto simp: PackSequenceAndType_def kValueTypeForSeek_def)

lemma seek_tag: "PackSequenceAndType kMaxSequenceNumber kValueTypeForSeek = Some seek_tag"
  by (simp add: PackSequenceAndType_def seek_tag_def)

lemma InternalKey_Compare_of:
  "InternalKey_Compare cmp (internal_key_of u s) (internal_key_of v t) =
     Some (if cmp u v = 0 then if s > t then - 1 else if s < t then 1 else 0 else cmp u v)"
  by (simp add: InternalKey_Compare_def Let_def)

section \<open>The comparator of internal keys\<close>

text \<open>The operations in the form of the interface; outside their preconditions the values are
  left open.\<close>

definition icmp :: "(bytes \<Rightarrow> bytes \<Rightarrow> int) \<Rightarrow> bytes \<Rightarrow> bytes \<Rightarrow> int" where
  "icmp user_cmp a b = the (InternalKey_Compare user_cmp a b)"

definition iseparator ::
  "(bytes \<Rightarrow> bytes \<Rightarrow> int) \<Rightarrow> (bytes \<Rightarrow> bytes \<Rightarrow> bytes) \<Rightarrow> bytes \<Rightarrow> bytes \<Rightarrow> bytes" where
  "iseparator user_cmp user_sep start limit =
     the (InternalKey_FindShortestSeparator user_cmp user_sep start limit)"

definition isuccessor :: "(bytes \<Rightarrow> bytes \<Rightarrow> int) \<Rightarrow> (bytes \<Rightarrow> bytes) \<Rightarrow> bytes \<Rightarrow> bytes" where
  "isuccessor user_cmp user_succ key = the (InternalKey_FindShortSuccessor user_cmp user_succ key)"

definition ivalid :: "(bytes \<Rightarrow> bool) \<Rightarrow> bytes \<Rightarrow> bool" where
  "ivalid user_valid k \<longleftrightarrow> length k \<ge> 8 \<and> user_valid (take (length k - 8) k)"

lemma ivalid_of [simp]: "ivalid v (internal_key_of u t) \<longleftrightarrow> v u"
  by (simp add: ivalid_def internal_key_of_def)

lemma icmp_of [simp]: "icmp cmp (internal_key_of u s) (internal_key_of v t) =
     (if cmp u v = 0 then if s > t then - 1 else if s < t then 1 else 0 else cmp u v)"
  by (simp add: icmp_def InternalKey_Compare_of)

lemma ivalid_cases:
  assumes "ivalid v k"
  obtains u t where "k = internal_key_of u t" and "v u"
  using assms internal_key_cases [of k] by (metis ivalid_def ivalid_of)

text \<open>A user comparator that leaves a key alone when the limit equals it, which the calls with
  two versions of one user key rely on.\<close>

locale user_comparator = comparator cmp valid separator successor
  for cmp valid separator successor +
  assumes separator_same: "valid a \<Longrightarrow> valid b \<Longrightarrow> cmp a b = 0 \<Longrightarrow> separator a b = a"
begin

lemma FindShortestSeparator_of:
  assumes "valid u" "valid v" "icmp cmp (internal_key_of u s) (internal_key_of v t) < 0"
  shows "InternalKey_FindShortestSeparator cmp separator (internal_key_of u s) (internal_key_of v t) =
    Some (if length (separator u v) < length u \<and> cmp u (separator u v) < 0
          then internal_key_of (separator u v) seek_tag else internal_key_of u s)"
proof (cases "length (separator u v) < length u \<and> cmp u (separator u v) < 0")
  case True
  then have "cmp u v \<noteq> 0"
    using separator_same [OF assms(1,2)] cmp_refl [OF assms(1)] by auto
  with assms(3) have "cmp (separator u v) v < 0"
    using separator_less [OF assms(1,2)] by simp
  with True show ?thesis
    by (simp add: InternalKey_FindShortestSeparator_def seek_tag Let_def PutFixed64_internal_key
        InternalKey_Compare_of)
next
  case False
  then show ?thesis
    by (auto simp: InternalKey_FindShortestSeparator_def Let_def)
qed

lemma FindShortSuccessor_of:
  assumes "valid u"
  shows "InternalKey_FindShortSuccessor cmp successor (internal_key_of u s) =
    Some (if length (successor u) < length u \<and> cmp u (successor u) < 0
          then internal_key_of (successor u) seek_tag else internal_key_of u s)"
  by (auto simp: InternalKey_FindShortSuccessor_def seek_tag Let_def PutFixed64_internal_key
      InternalKey_Compare_of)

end

sublocale user_comparator \<subseteq> internal: comparator "icmp cmp" "ivalid valid" "iseparator cmp separator"
  "isuccessor cmp successor"
proof
  fix a b c
  show "icmp cmp a a = 0" if "ivalid valid a"
    using that by (auto elim!: ivalid_cases simp: cmp_refl)
  show "icmp cmp b a < 0 \<longleftrightarrow> 0 < icmp cmp a b" if v: "ivalid valid a" "ivalid valid b"
  proof -
    obtain u s where a: "a = internal_key_of u s" "valid u"
      using v(1) by (rule ivalid_cases)
    obtain w t where b: "b = internal_key_of w t" "valid w"
      using v(2) by (rule ivalid_cases)
    show ?thesis
      unfolding a(1) b(1) icmp_of using cmp_swap [OF a(2) b(2)] cmp_swap [OF b(2) a(2)] by auto
  qed
  show "icmp cmp a c \<le> 0" if v: "ivalid valid a" "ivalid valid b" "ivalid valid c"
    and le: "icmp cmp a b \<le> 0" "icmp cmp b c \<le> 0"
  proof -
    obtain u s where a: "a = internal_key_of u s" "valid u"
      using v(1) by (rule ivalid_cases)
    obtain w t where b: "b = internal_key_of w t" "valid w"
      using v(2) by (rule ivalid_cases)
    obtain x r where c: "c = internal_key_of x r" "valid x"
      using v(3) by (rule ivalid_cases)
    have user: "cmp u w \<le> 0" "cmp w x \<le> 0"
      using le unfolding a b c icmp_of by (auto split: if_splits)
    have "cmp u x \<le> 0"
      using cmp_trans [OF a(2) b(2) c(2) user] .
    moreover have "cmp u w = 0 \<and> cmp w x = 0" if "cmp u x = 0"
      using cmp_less_le_trans [OF a(2) b(2) c(2)] cmp_le_less_trans [OF a(2) b(2) c(2)] user that
      by force
    ultimately show ?thesis
      using le unfolding a b c icmp_of by (auto split: if_splits)
  qed
next
  fix start limit
  assume v: "ivalid valid start" "ivalid valid limit" and less: "icmp cmp start limit < 0"
  obtain u s where start: "start = internal_key_of u s" "valid u"
    using v(1) by (rule ivalid_cases)
  obtain w t where limit: "limit = internal_key_of w t" "valid w"
    using v(2) by (rule ivalid_cases)
  note u = start(2) limit(2) and [simp] = start(1) limit(1)
  let ?short = "length (separator u w) < length u \<and> cmp u (separator u w) < 0"
  have sep: "iseparator cmp separator start limit =
      (if ?short then internal_key_of (separator u w) seek_tag else start)"
    using FindShortestSeparator_of [OF u] less by (simp add: iseparator_def)
  have "cmp u w < 0" if ?short
    using that less separator_same [OF u] by (auto split: if_splits)
  then show "ivalid valid (iseparator cmp separator start limit)"
    and "icmp cmp start (iseparator cmp separator start limit) \<le> 0"
    and "icmp cmp (iseparator cmp separator start limit) limit < 0"
    using u less separator_valid [OF u] separator_less [OF u] cmp_refl [OF u(1)]
    unfolding sep by auto
next
  fix key
  assume v: "ivalid valid key"
  then obtain u s where [simp]: "key = internal_key_of u s" and u: "valid u"
    by (rule ivalid_cases)
  show "ivalid valid (isuccessor cmp successor key)"
    and "icmp cmp key (isuccessor cmp successor key) \<le> 0"
    using FindShortSuccessor_of [OF u, of s] successor_valid [OF u] u cmp_refl [OF u]
    by (auto simp: isuccessor_def)
qed

text \<open>The shortened keys are not longer.\<close>

context user_comparator
begin

lemma iseparator_short:
  assumes "ivalid valid a" and "ivalid valid b" and less: "icmp cmp a b < 0"
  shows "length (iseparator cmp separator a b) \<le> length a"
proof -
  obtain u s where a: "a = internal_key_of u s" "valid u"
    using assms(1) by (rule ivalid_cases)
  obtain w t where b: "b = internal_key_of w t" "valid w"
    using assms(2) by (rule ivalid_cases)
  show ?thesis
    using FindShortestSeparator_of [OF a(2) b(2), of s t] less by (auto simp: iseparator_def a b internal_key_of_def)
qed

lemma isuccessor_short:
  assumes "ivalid valid a"
  shows "length (isuccessor cmp successor a) \<le> length a"
proof -
  obtain u s where a: "a = internal_key_of u s" "valid u"
    using assms by (rule ivalid_cases)
  show ?thesis
    using FindShortSuccessor_of [OF a(2), of s] by (auto simp: isuccessor_def a internal_key_of_def)
qed

end

interpretation bytewise_user: user_comparator Bytewise_Compare "\<lambda>_. True"
  Bytewise_FindShortestSeparator Bytewise_FindShortSuccessor
proof
  fix a b
  have "Bytewise_FindShortestSeparator a a = a"
    using separator_cases [of a a] by auto
  then show "Bytewise_Compare a b = 0 \<Longrightarrow> Bytewise_FindShortestSeparator a b = a"
    by (simp add: Bytewise_eq)
qed

section \<open>The filter policy of internal keys\<close>

lemma ExtractUserKey_Some: "length k \<ge> 8 \<Longrightarrow> ExtractUserKey k = Some (take (length k - 8) k)"
  by (simp add: ExtractUserKey_def)

text \<open>A filter policy that is used for user keys.\<close>

locale user_filter_policy = filter_policy CreateFilter KeyMayMatch valid
  for CreateFilter KeyMayMatch valid

sublocale user_filter_policy \<subseteq> internal_filter: filter_policy
  "\<lambda>keys dst. the (InternalFilter_CreateFilter CreateFilter keys dst)"
  "\<lambda>key f. the (InternalFilter_KeyMayMatch KeyMayMatch key f)" "ivalid valid"
proof
  fix keys dst
  assume v: "list_all (ivalid valid) keys" and n: "length keys < 2 ^ 31"
  define user where "user = map (\<lambda>k. take (length k - 8) k) keys"
  have len: "list_all (\<lambda>k. length k \<ge> 8) keys" and uv: "list_all valid user"
    using v by (auto simp: list_all_iff ivalid_def user_def)
  then have "map (\<lambda>key. the (ExtractUserKey key)) keys = user"
    by (auto simp: list_all_iff user_def ExtractUserKey_Some)
  with len have create: "InternalFilter_CreateFilter CreateFilter keys dst = Some (CreateFilter user dst)"
    by (auto simp: InternalFilter_CreateFilter_def list_all_iff ExtractUserKey_Some)
  obtain f where "CreateFilter user dst = dst @ f" "\<forall>key \<in> set user. KeyMayMatch key f"
    using create_appends [OF uv, of dst] n by (auto simp: user_def)
  then show "\<exists>filter. the (InternalFilter_CreateFilter CreateFilter keys dst) = dst @ filter \<and>
      (\<forall>key\<in>set keys. the (InternalFilter_KeyMayMatch KeyMayMatch key filter))"
    using len by (auto simp: create user_def list_all_iff InternalFilter_KeyMayMatch_def ExtractUserKey_Some)
qed

interpretation bloom_user: user_filter_policy "Bloom_CreateFilter (BloomFilterPolicy_new bits)"
  Bloom_KeyMayMatch "\<lambda>_. True"
  by unfold_locales

section \<open>Properties\<close>

lemma type_of_tag:
  assumes "unat tag = unat seq * 256 + unat (type_number t)"
  shows "value_type_of (ucast (tag AND 0xff)) = Some t" and "drop_bit 8 tag = seq"
proof -
  have small: "unat (type_number t) < 2"
    by (cases t) simp_all
  have "unat (ucast tag :: u8) = unat (type_number t)"
    unfolding unat_ucast_mod assms using small by simp
  then have "(ucast tag :: u8) = (if t = kTypeDeletion then 0 else 1)"
    by (cases t) (simp_all add: word_unat_eq_iff)
  then show "value_type_of (ucast (tag AND 0xff)) = Some t"
    unfolding and_0xff by (cases t) (simp_all add: value_type_of_def)
  have "unat (drop_bit 8 tag) = unat seq"
    unfolding unat_drop_bit assms using small by simp
  then show "drop_bit 8 tag = seq"
    by (simp add: word_unat_eq_iff)
qed

lemma AppendInternalKey_tag:
  assumes "sequence key \<le> kMaxSequenceNumber"
  obtains tag where "AppendInternalKey result key = Some (result @ internal_key_of (user_key key) tag)"
    and "unat tag = unat (sequence key) * 256 + unat (type_number (value_type key))"
proof -
  obtain tag where "PackSequenceAndType (sequence key) (value_type key) = Some tag"
    and "unat tag = unat (sequence key) * 256 + unat (type_number (value_type key))"
    using PackSequenceAndType_Some [OF assms] .
  then show ?thesis
    using that by (simp add: AppendInternalKey_def PutFixed64_def internal_key_of_def)
qed

text \<open>Internal keys round trip: for a sequence number of at most 56 bits, \<open>AppendInternalKey\<close>
  extends the result by \<open>InternalKeyEncodingLength\<close> bytes that \<open>ParseInternalKey\<close>,
  \<open>ExtractUserKey\<close> and \<open>ExtractValueType\<close> read back.\<close>

lemma internal_key_roundtrip:
  assumes "sequence key \<le> kMaxSequenceNumber"
  shows "\<exists>enc. AppendInternalKey result key = Some (result @ enc) \<and>
    length enc = InternalKeyEncodingLength key \<and>
    ParseInternalKey enc = Some key \<and>
    ExtractUserKey enc = Some (user_key key) \<and>
    ExtractValueType enc = Some (value_type key)"
proof -
  obtain tag where "AppendInternalKey result key = Some (result @ internal_key_of (user_key key) tag)"
    and tag: "unat tag = unat (sequence key) * 256 + unat (type_number (value_type key))"
    using AppendInternalKey_tag [OF assms] .
  moreover have "take (length (user_key key)) (internal_key_of (user_key key) tag) = user_key key"
    by (simp add: internal_key_of_def)
  ultimately show ?thesis
    using type_of_tag [OF tag]
    by (simp add: InternalKeyEncodingLength_def ParseInternalKey_def ExtractValueType_def Let_def)
qed

text \<open>C25. The order of internal keys: by user key, then by decreasing sequence number, then by
  decreasing type; so the first of the entries for a user key at or after a lookup key with
  sequence number \<open>s\<close> is the newest one that is not newer than \<open>s\<close>.\<close>

theorem InternalKey_order:
  assumes "sequence a \<le> kMaxSequenceNumber" and "sequence b \<le> kMaxSequenceNumber"
    and "AppendInternalKey [] a = Some x" and "AppendInternalKey [] b = Some y"
  shows "\<exists>r. InternalKey_Compare Bytewise_Compare x y = Some r \<and>
    (r < 0 \<longleftrightarrow> user_key a < user_key b \<or>
       user_key a = user_key b \<and>
         (sequence a > sequence b \<or>
          sequence a = sequence b \<and> type_number (value_type a) > type_number (value_type b))) \<and>
    (r = 0 \<longleftrightarrow> a = b)"
proof -
  obtain s where x: "x = internal_key_of (user_key a) s"
    and s: "unat s = unat (sequence a) * 256 + unat (type_number (value_type a))"
    using AppendInternalKey_tag [OF assms(1), of "[]"] assms(3) by auto
  obtain t where y: "y = internal_key_of (user_key b) t"
    and t: "unat t = unat (sequence b) * 256 + unat (type_number (value_type b))"
    using AppendInternalKey_tag [OF assms(2), of "[]"] assms(4) by auto
  have bound: "unat (type_number ty) < 2" for ty
    by (cases ty) simp_all
  have less: "s > t \<longleftrightarrow> sequence a > sequence b \<or>
      sequence a = sequence b \<and> type_number (value_type a) > type_number (value_type b)"
    using bound [of "value_type a"] bound [of "value_type b"] s t
    by (auto simp: word_less_nat_alt word_unat_eq_iff)
  have inj: "unat (type_number p) = unat (type_number q) \<longleftrightarrow> p = q" for p q
    by (cases p; cases q) simp_all
  have "unat s = unat t \<longleftrightarrow> unat (sequence a) = unat (sequence b) \<and>
      unat (type_number (value_type a)) = unat (type_number (value_type b))"
    unfolding s t using bound [of "value_type a"] bound [of "value_type b"] by presburger
  then have eq: "s = t \<longleftrightarrow> sequence a = sequence b \<and> value_type a = value_type b"
    by (simp add: word_unat_eq_iff inj)
  have ab: "a = b \<longleftrightarrow> user_key a = user_key b \<and> s = t"
    unfolding eq by auto
  show ?thesis
    unfolding x y InternalKey_Compare_of ab less [symmetric]
    by (auto simp: Bytewise_less Bytewise_eq not_less_iff_gr_or_eq)
qed

theorem InternalKey_order_witness:
  "\<exists>x y r. AppendInternalKey [] \<lparr>user_key = str ''k'', sequence = 7, value_type = kTypeValue\<rparr> = Some x \<and>
     AppendInternalKey [] \<lparr>user_key = str ''k'', sequence = 5, value_type = kTypeDeletion\<rparr> = Some y \<and>
     InternalKey_Compare Bytewise_Compare x y = Some r \<and> r < 0"
proof -
  let ?a = "\<lparr>user_key = str ''k'', sequence = 7, value_type = kTypeValue\<rparr>"
  let ?b = "\<lparr>user_key = str ''k'', sequence = 5, value_type = kTypeDeletion\<rparr>"
  have max: "sequence ?a \<le> kMaxSequenceNumber" "sequence ?b \<le> kMaxSequenceNumber"
    by (simp_all add: kMaxSequenceNumber_def)
  obtain x y where "AppendInternalKey [] ?a = Some x" "AppendInternalKey [] ?b = Some y"
    using AppendInternalKey_tag [OF max(1)] AppendInternalKey_tag [OF max(2)] by metis
  with InternalKey_order [OF max this] show ?thesis
    by auto
qed

text \<open>C26. Shortened internal keys: for internal keys in order, the assertions of
  \<open>InternalKeyComparator::FindShortestSeparator\<close> and \<open>FindShortSuccessor\<close> hold, the separator
  lies in \<open>[start, limit)\<close> in the internal order and the successor is at or after the key, and
  neither is longer than the key it replaces.\<close>

theorem InternalKey_separator:
  assumes "length start \<ge> 8" and "length limit \<ge> 8"
    and "InternalKey_Compare Bytewise_Compare start limit = Some c" and "c < 0"
  shows "\<exists>sep succ c1 c2 c3.
    InternalKey_FindShortestSeparator Bytewise_Compare Bytewise_FindShortestSeparator start limit = Some sep \<and>
    InternalKey_Compare Bytewise_Compare start sep = Some c1 \<and> c1 \<le> 0 \<and>
    InternalKey_Compare Bytewise_Compare sep limit = Some c2 \<and> c2 < 0 \<and>
    length sep \<le> length start \<and>
    InternalKey_FindShortSuccessor Bytewise_Compare Bytewise_FindShortSuccessor start = Some succ \<and>
    InternalKey_Compare Bytewise_Compare start succ = Some c3 \<and> c3 \<le> 0 \<and>
    length succ \<le> length start"
proof -
  obtain u s where start: "start = internal_key_of u s"
    using internal_key_cases [OF assms(1)] .
  obtain v t where limit: "limit = internal_key_of v t"
    using internal_key_cases [OF assms(2)] .
  have less: "icmp Bytewise_Compare start limit < 0"
    using assms(3,4) by (simp add: icmp_def)
  have valid: "ivalid (\<lambda>_. True) start" "ivalid (\<lambda>_. True) limit"
    by (simp_all add: start limit)
  note sep = bytewise_user.FindShortestSeparator_of [OF TrueI TrueI less [unfolded start limit], folded start limit]
  note succ = bytewise_user.FindShortSuccessor_of [OF TrueI, of u s, folded start]
  show ?thesis
    using bytewise_user.internal.separator_ge [OF valid less]
      bytewise_user.internal.separator_less [OF valid less]
      bytewise_user.internal.successor_ge [OF valid(1)]
    unfolding iseparator_def isuccessor_def sep succ
    by (auto simp: start limit InternalKey_Compare_of split: if_splits)
qed

theorem InternalKey_separator_witness:
  "\<exists>sep. InternalKey_FindShortestSeparator Bytewise_Compare Bytewise_FindShortestSeparator
      (internal_key_of (str ''abcdefg'') 256) (internal_key_of (str ''hello'') 1) = Some sep"
  using InternalKey_separator [of "internal_key_of (str ''abcdefg'') 256" "internal_key_of (str ''hello'') 1" "- 1"]
  by (auto simp: InternalKey_Compare_of str_def Bytewise_Compare_def Slice_compare_def)

text \<open>A \<open>LookupKey\<close> fits the space reserved for it, and its three views are the length-prefixed
  memtable key, the internal key with the given sequence number and the type for seeking, and
  the user key.\<close>

lemma LookupKey_correct:
  assumes "s \<le> kMaxSequenceNumber" and "length ukey + 8 < 2 ^ 32"
  shows "\<exists>lk ikey. LookupKey_new ukey s = Some lk \<and>
    AppendInternalKey [] \<lparr>user_key = ukey, sequence = s, value_type = kValueTypeForSeek\<rparr> = Some ikey \<and>
    internal_key lk = ikey \<and>
    lookup_user_key lk = ukey \<and>
    GetLengthPrefixedSlice (memtable_key lk) = (Some ikey, []) \<and>
    length (memtable_key lk) \<le> length ukey + 13"
proof -
  obtain tag where tag: "PackSequenceAndType s kValueTypeForSeek = Some tag"
    using PackSequenceAndType_Some [OF assms(1)] by blast
  let ?k = "EncodeVarint32 (word_of_nat (length ukey + 8))"
  have n: "unat (word_of_nat (length ukey + 8) :: u32) = length ukey + 8"
    using assms(2) by (simp add: unsigned_of_nat take_bit_nat_eq_self del: of_nat_add)
  have "length ?k \<le> 5"
    by (rule length_EncodeVarint32)
  then have "LookupKey_new ukey s = Some \<lparr>lk_start = ?k @ ukey @ EncodeFixed64 tag, lk_kstart = length ?k\<rparr>"
    by (simp add: LookupKey_new_def Let_def tag del: of_nat_add)
  moreover have "AppendInternalKey [] \<lparr>user_key = ukey, sequence = s, value_type = kValueTypeForSeek\<rparr> =
      Some (ukey @ EncodeFixed64 tag)"
    by (simp add: AppendInternalKey_def tag PutFixed64_def)
  moreover have "GetLengthPrefixedSlice (?k @ ukey @ EncodeFixed64 tag) = (Some (ukey @ EncodeFixed64 tag), [])"
    by (simp add: GetLengthPrefixedSlice_def n del: of_nat_add)
  ultimately show ?thesis
    using \<open>length ?k \<le> 5\<close>
    by (simp add: internal_key_def lookup_user_key_def memtable_key_def)
qed

end
