(* ===== verification/Random_Gen.thy ===== *)
theory Random_Gen
  imports Prelude
begin

text \<open>
  The pseudo-random generator \<open>Random\<close> (\<^verbatim>\<open>util/random.h\<close>).  Its state is the word \<open>seed_\<close>.
\<close>

unbundle bit_operations_syntax

definition Random_new :: "u32 \<Rightarrow> u32" where
  "Random_new s = s AND 0x7fffffff"

definition random_M :: u32 where
  "random_M = 2147483647"

definition random_A :: u64 where
  "random_A = 16807"

text \<open>The value returned and the new seed.\<close>

definition Random_Next :: "u32 \<Rightarrow> u32 \<times> u32" where
  "Random_Next seed =
     (let product = (ucast seed :: u64) * random_A;
          seed = (ucast (drop_bit 31 product + (product AND ucast random_M)) :: u32);
          seed = (if seed > random_M then seed - random_M else seed)
      in (seed, seed))"

definition Uniform :: "u32 \<Rightarrow> u32 \<Rightarrow> u32 \<times> u32" where
  "Uniform n seed = (case Random_Next seed of (v, seed) \<Rightarrow> (v mod n, seed))"

definition OneIn :: "u32 \<Rightarrow> u32 \<Rightarrow> bool \<times> u32" where
  "OneIn n seed = (case Random_Next seed of (v, seed) \<Rightarrow> (v mod n = 0, seed))"

definition Skewed :: "u32 \<Rightarrow> u32 \<Rightarrow> u32 \<times> u32" where
  "Skewed max_log seed =
     (case Uniform (max_log + 1) seed of (base, seed) \<Rightarrow> Uniform (push_bit (unat base) 1) seed)"

section \<open>Lemmas\<close>

text \<open>The reduction \<open>((x << 31) + y) % M\<close> by adding the halves.\<close>

lemma mersenne_fold: "(p :: nat) mod 2147483647 = (p div 2147483648 + p mod 2147483648) mod 2147483647"
proof -
  have "p = p div 2147483648 + p mod 2147483648 + 2147483647 * (p div 2147483648)"
    using mult_div_mod_eq [of 2147483648 p] by linarith
  then show ?thesis
    by (metis mod_mult_self2)
qed

lemma unat_product: "unat s \<le> 2147483647 \<Longrightarrow> unat ((ucast s :: u64) * random_A) = unat (s :: u32) * 16807"
  by (simp add: random_A_def unat_word_ariths unat_ucast_mod)

lemma Random_Next_value:
  assumes "unat s \<le> 2147483647"
  defines "p \<equiv> unat s * 16807"
  defines "q \<equiv> p div 2147483648 + p mod 2147483648"
  shows "Random_Next s = (word_of_nat (if q > 2147483647 then q - 2147483647 else q),
    word_of_nat (if q > 2147483647 then q - 2147483647 else q))" and "q < 2 ^ 32"
proof -
  let ?P = "(ucast s :: u64) * random_A"
  have P: "unat ?P = p"
    using unat_product [OF assms(1)] by (simp add: p_def)
  have p: "p \<le> 2147483647 * 16807"
    using assms(1) by (simp add: p_def)
  then show q: "q < 2 ^ 32"
    by (simp add: q_def)
  have mask: "(ucast random_M :: u64) = mask 31"
    by (simp add: random_M_def mask_eq_exp_minus_1)
  have "unat (drop_bit 31 ?P + (?P AND ucast random_M)) =
      (unat (drop_bit 31 ?P) + unat (?P AND mask 31)) mod 2 ^ 64"
    unfolding mask by (rule trans [OF unat_word_ariths(1)]) simp
  also have "\<dots> = q"
    unfolding unat_drop_bit unat_and_mask P using q by (simp add: q_def)
  finally have "unat (drop_bit 31 ?P + (?P AND ucast random_M)) = q" .
  then have sum: "ucast (drop_bit 31 ?P + (?P AND ucast random_M)) = (word_of_nat q :: u32)"
    by (metis of_nat_unat)
  have uq: "unat (word_of_nat q :: u32) = q"
    using q by (simp add: unsigned_of_nat take_bit_nat_eq_self)
  have "(word_of_nat q :: u32) > random_M \<longleftrightarrow> q > 2147483647"
    unfolding word_less_nat_alt uq by (simp add: random_M_def)
  moreover have "(word_of_nat q :: u32) - random_M = word_of_nat (q - 2147483647)" if "q > 2147483647"
    using that by (simp add: random_M_def)
  ultimately show "Random_Next s = (word_of_nat (if q > 2147483647 then q - 2147483647 else q),
    word_of_nat (if q > 2147483647 then q - 2147483647 else q))"
    unfolding Random_Next_def Let_def sum by auto
qed

section \<open>The generator is exact\<close>

text \<open>\<open>Random::Next\<close> computes the multiplicative congruential step exactly: from a seed in
  1..M-1 the new seed is \<open>seed * 16807 mod (2^31 - 1)\<close>, again in 1..M-1, so the sequence never
  degenerates.  The constructor admits the seeds 0 and M as well, and both are fixed points.\<close>

lemma Random_Next_correct:
  assumes "0 < unat s" and "unat s < 2147483647"
  shows "fst (Random_Next s) = snd (Random_Next s) \<and>
    unat (snd (Random_Next s)) = unat s * 16807 mod 2147483647 \<and>
    0 < unat (snd (Random_Next s)) \<and> unat (snd (Random_Next s)) < 2147483647 \<and>
    Random_Next (Random_new 0) = (0, 0) \<and>
    Random_Next (Random_new random_M) = (random_M, random_M)"
proof -
  define p where "p = unat s * 16807"
  define q where "q = p div 2147483648 + p mod 2147483648"
  define v where "v = (if q > 2147483647 then q - 2147483647 else q)"
  have next_s: "Random_Next s = (word_of_nat v, word_of_nat v)"
    using Random_Next_value(1) [of s] assms(2) by (simp add: v_def q_def p_def)
  have "coprime (2147483647 :: nat) 16807"
    by (simp add: coprime_iff_gcd_eq_1 gcd_non_0_nat)
  then have "2147483647 dvd p \<longleftrightarrow> 2147483647 dvd unat s"
    unfolding p_def by (rule coprime_dvd_mult_left_iff)
  then have "\<not> 2147483647 dvd p"
    using assms nat_dvd_not_less by blast
  then have mod: "p mod 2147483647 \<noteq> 0"
    by (rule contrapos_nn) (rule mod_0_imp_dvd)
  have fold: "q mod 2147483647 = p mod 2147483647"
    unfolding q_def by (rule mersenne_fold [symmetric])
  have "p \<le> 2147483647 * 16807"
    using assms(2) by (simp add: p_def)
  then have "q < 2 * 2147483647"
    by (simp add: q_def)
  moreover have "q \<noteq> 2147483647"
    using mod fold by auto
  ultimately have v: "v = p mod 2147483647"
    unfolding v_def fold [symmetric] by (auto simp: le_mod_geq)
  then have "v < 2147483647"
    by simp
  then have uv: "unat (word_of_nat v :: u32) = v"
    by (simp add: unsigned_of_nat take_bit_nat_eq_self)
  have "Random_Next (Random_new 0) = (0, 0)" "Random_Next (Random_new random_M) = (random_M, random_M)"
    by (simp_all add: Random_new_def random_M_def Random_Next_def random_A_def)
  then show ?thesis
    using v mod uv unfolding next_s by (simp add: p_def)
qed

end
