(* ===== verification/Skiplist.thy ===== *)
theory Skiplist
  imports Comparator Random_Gen
begin

text \<open>
  The skip list (\<^verbatim>\<open>db/skiplist.h\<close>) on an explicit store of nodes.

  The nodes live in a list; a pointer is an index into it, the null pointer is \<^const>\<open>None\<close>,
  the head is node 0, and a new node is put at the end of the store (that the arena hands out
  fresh memory is shown in \<^verbatim>\<open>Arena\<close>).  Each node has its array \<open>next_\<close> of links, one per
  level.  An access outside the store or outside a node's array, an uninitialised entry of
  \<open>prev\<close> and a failed assertion all yield \<^const>\<open>None\<close>; so does a search that never ends, since
  the searches are partial functions.  That none of this happens is part of what is proved.

  The invariant says that every level is the chain of those nodes, in the order of the keys,
  that are high enough; \<open>Insert\<close> is then insertion into a sorted list.
\<close>

section \<open>Data\<close>

definition kMaxHeight :: nat where
  "kMaxHeight = 12"

record 'k Node =
  key :: 'k
  next_links :: "nat option list"

record 'k SkipList =
  nodes :: "'k Node list"
  max_height :: nat
  rnd :: u32

definition head :: nat where
  "head = 0"

section \<open>Operations\<close>

definition Node_at :: "'k SkipList \<Rightarrow> nat \<Rightarrow> 'k Node option" where
  "Node_at sl x = (if x < length (nodes sl) then Some (nodes sl ! x) else None)"

text \<open>\<open>x->Next(n)\<close> and \<open>x->SetNext(n, y)\<close>; the variants without barrier do the same to the
  store.\<close>

definition Next :: "'k SkipList \<Rightarrow> nat \<Rightarrow> nat \<Rightarrow> nat option option" where
  "Next sl x n =
     (case Node_at sl x of
        None \<Rightarrow> None
      | Some node \<Rightarrow> if n < length (next_links node) then Some (next_links node ! n) else None)"

definition SetNext :: "'k SkipList \<Rightarrow> nat \<Rightarrow> nat \<Rightarrow> nat option \<Rightarrow> 'k SkipList option" where
  "SetNext sl x n y =
     (case Node_at sl x of
        None \<Rightarrow> None
      | Some node \<Rightarrow>
          if n < length (next_links node) then
            Some (sl\<lparr>nodes := (nodes sl)[x := node\<lparr>next_links := (next_links node)[n := y]\<rparr>]\<rparr>)
          else None)"

text \<open>The links of a new node are uninitialised memory; \<open>garbage\<close> stands for what is there.\<close>

definition NewNode :: "nat option \<Rightarrow> 'k SkipList \<Rightarrow> 'k \<Rightarrow> nat \<Rightarrow> nat \<times> 'k SkipList" where
  "NewNode garbage sl k height =
     (length (nodes sl),
      sl\<lparr>nodes := nodes sl @ [\<lparr>key = k, next_links = replicate height garbage\<rparr>]\<rparr>)"

definition SkipList_new :: "'k \<Rightarrow> 'k SkipList" where
  "SkipList_new any_key =
     \<lparr>nodes = [\<lparr>key = any_key, next_links = replicate kMaxHeight None\<rparr>], max_height = 1,
      rnd = Random_new 0xdeadbeef\<rparr>"

definition kBranching :: u32 where
  "kBranching = 4"

function RandomHeight_loop :: "nat \<Rightarrow> u32 \<Rightarrow> nat \<times> u32" where
  "RandomHeight_loop height seed =
     (if height < kMaxHeight then
        (case Random_Next seed of (r, seed) \<Rightarrow>
           if r mod kBranching = 0 then RandomHeight_loop (height + 1) seed else (height, seed))
      else (height, seed))"
  by pat_completeness auto
termination
  by (relation "measure (\<lambda>(height, _). kMaxHeight - height)") auto

declare RandomHeight_loop.simps [simp del]

definition RandomHeight :: "u32 \<Rightarrow> nat \<times> u32" where
  "RandomHeight seed = RandomHeight_loop 1 seed"

definition KeyIsAfterNode :: "('k \<Rightarrow> 'k \<Rightarrow> int) \<Rightarrow> 'k SkipList \<Rightarrow> 'k \<Rightarrow> nat option \<Rightarrow> bool option" where
  "KeyIsAfterNode cmp sl k n =
     (case n of
        None \<Rightarrow> Some False
      | Some x \<Rightarrow> (case Node_at sl x of None \<Rightarrow> None | Some node \<Rightarrow> Some (cmp (key node) k < 0)))"

text \<open>\<open>prev\<close> is the array the caller passes, \<open>[]\<close> for a null pointer; entries that have not been
  written are \<^const>\<open>None\<close>.\<close>

partial_function (option) FindGreaterOrEqual_loop ::
  "('k \<Rightarrow> 'k \<Rightarrow> int) \<Rightarrow> 'k SkipList \<Rightarrow> 'k \<Rightarrow> nat \<Rightarrow> nat \<Rightarrow> nat option list \<Rightarrow>
     (nat option \<times> nat option list) option" where
  [code]: "FindGreaterOrEqual_loop cmp sl k x level prev =
     (case Next sl x level of
        None \<Rightarrow> None
      | Some nxt \<Rightarrow>
          (case KeyIsAfterNode cmp sl k nxt of
             None \<Rightarrow> None
           | Some after \<Rightarrow>
               if after then FindGreaterOrEqual_loop cmp sl k (the nxt) level prev
               else
                 let prev = prev[level := Some x] in
                 if level = 0 then Some (nxt, prev)
                 else FindGreaterOrEqual_loop cmp sl k x (level - 1) prev))"

definition FindGreaterOrEqual ::
  "('k \<Rightarrow> 'k \<Rightarrow> int) \<Rightarrow> 'k SkipList \<Rightarrow> 'k \<Rightarrow> nat option list \<Rightarrow>
     (nat option \<times> nat option list) option" where
  "FindGreaterOrEqual cmp sl k prev =
     FindGreaterOrEqual_loop cmp sl k head (max_height sl - 1) prev"

partial_function (option) FindLessThan_loop ::
  "('k \<Rightarrow> 'k \<Rightarrow> int) \<Rightarrow> 'k SkipList \<Rightarrow> 'k \<Rightarrow> nat \<Rightarrow> nat \<Rightarrow> nat option" where
  [code]: "FindLessThan_loop cmp sl k x level =
     (case Node_at sl x of
        None \<Rightarrow> None
      | Some node \<Rightarrow>
          if \<not> (x = head \<or> cmp (key node) k < 0) then None
          else
            (case Next sl x level of
               None \<Rightarrow> None
             | Some None \<Rightarrow> if level = 0 then Some x else FindLessThan_loop cmp sl k x (level - 1)
             | Some (Some nxt) \<Rightarrow>
                 (case Node_at sl nxt of
                    None \<Rightarrow> None
                  | Some nn \<Rightarrow>
                      if cmp (key nn) k \<ge> 0 then
                        (if level = 0 then Some x else FindLessThan_loop cmp sl k x (level - 1))
                      else FindLessThan_loop cmp sl k nxt level)))"

definition FindLessThan :: "('k \<Rightarrow> 'k \<Rightarrow> int) \<Rightarrow> 'k SkipList \<Rightarrow> 'k \<Rightarrow> nat option" where
  "FindLessThan cmp sl k = FindLessThan_loop cmp sl k head (max_height sl - 1)"

partial_function (option) FindLast_loop :: "'k SkipList \<Rightarrow> nat \<Rightarrow> nat \<Rightarrow> nat option" where
  [code]: "FindLast_loop sl x level =
     (case Next sl x level of
        None \<Rightarrow> None
      | Some None \<Rightarrow> if level = 0 then Some x else FindLast_loop sl x (level - 1)
      | Some (Some nxt) \<Rightarrow> FindLast_loop sl nxt level)"

definition FindLast :: "'k SkipList \<Rightarrow> nat option" where
  "FindLast sl = FindLast_loop sl head (max_height sl - 1)"

text \<open>The loop of \<open>Insert\<close> that splices the node \<open>x\<close> in at the levels from \<open>i\<close> on.\<close>

fun Insert_link :: "nat \<Rightarrow> nat option list \<Rightarrow> nat list \<Rightarrow> 'k SkipList \<Rightarrow> 'k SkipList option" where
  "Insert_link x prev [] sl = Some sl"
| "Insert_link x prev (i # levels) sl =
     (if i < length prev then
        (case prev ! i of
           None \<Rightarrow> None
         | Some p \<Rightarrow>
             (case Next sl p i of
                None \<Rightarrow> None
              | Some nxt \<Rightarrow>
                  (case SetNext sl x i nxt of
                     None \<Rightarrow> None
                   | Some sl \<Rightarrow>
                       (case SetNext sl p i (Some x) of
                          None \<Rightarrow> None
                        | Some sl \<Rightarrow> Insert_link x prev levels sl))))
      else None)"

definition Insert ::
  "('k \<Rightarrow> 'k \<Rightarrow> int) \<Rightarrow> nat option \<Rightarrow> 'k SkipList \<Rightarrow> 'k \<Rightarrow> 'k SkipList option" where
  "Insert cmp garbage sl k =
     (case FindGreaterOrEqual cmp sl k (replicate kMaxHeight None) of
        None \<Rightarrow> None
      | Some (x, prev) \<Rightarrow>
          if (case x of None \<Rightarrow> False
              | Some a \<Rightarrow> (case Node_at sl a of None \<Rightarrow> True | Some node \<Rightarrow> cmp k (key node) = 0))
          then None
          else
            (case RandomHeight (rnd sl) of (height, seed) \<Rightarrow>
               let sl = sl\<lparr>rnd := seed\<rparr>;
                   (prev, sl) =
                     (if height > max_height sl then
                        (fold (\<lambda>i prev. prev[i := Some head]) [max_height sl..<height] prev,
                         sl\<lparr>max_height := height\<rparr>)
                      else (prev, sl));
                   (x, sl) = NewNode garbage sl k height
               in Insert_link x prev [0..<height] sl))"

definition Contains :: "('k \<Rightarrow> 'k \<Rightarrow> int) \<Rightarrow> 'k SkipList \<Rightarrow> 'k \<Rightarrow> bool option" where
  "Contains cmp sl k =
     (case FindGreaterOrEqual cmp sl k [] of
        None \<Rightarrow> None
      | Some (None, _) \<Rightarrow> Some False
      | Some (Some x, _) \<Rightarrow>
          (case Node_at sl x of None \<Rightarrow> None | Some node \<Rightarrow> Some (cmp k (key node) = 0)))"

section \<open>Iterator\<close>

text \<open>An iterator is its pointer \<open>node_\<close>.\<close>

definition Iterator_new :: "nat option" where
  "Iterator_new = None"

definition Iter_Valid :: "nat option \<Rightarrow> bool" where
  "Iter_Valid it \<longleftrightarrow> it \<noteq> None"

definition Iter_key :: "'k SkipList \<Rightarrow> nat option \<Rightarrow> 'k option" where
  "Iter_key sl it =
     (case it of None \<Rightarrow> None | Some x \<Rightarrow> (case Node_at sl x of None \<Rightarrow> None | Some n \<Rightarrow> Some (key n)))"

definition Iter_Next :: "'k SkipList \<Rightarrow> nat option \<Rightarrow> nat option option" where
  "Iter_Next sl it = (case it of None \<Rightarrow> None | Some x \<Rightarrow> Next sl x 0)"

definition not_head :: "nat \<Rightarrow> nat option" where
  "not_head x = (if x = head then None else Some x)"

definition Iter_Prev :: "('k \<Rightarrow> 'k \<Rightarrow> int) \<Rightarrow> 'k SkipList \<Rightarrow> nat option \<Rightarrow> nat option option" where
  "Iter_Prev cmp sl it =
     (case Iter_key sl it of
        None \<Rightarrow> None
      | Some k \<Rightarrow> map_option not_head (FindLessThan cmp sl k))"

definition Iter_Seek :: "('k \<Rightarrow> 'k \<Rightarrow> int) \<Rightarrow> 'k SkipList \<Rightarrow> 'k \<Rightarrow> nat option option" where
  "Iter_Seek cmp sl target = map_option fst (FindGreaterOrEqual cmp sl target [])"

definition Iter_SeekToFirst :: "'k SkipList \<Rightarrow> nat option option" where
  "Iter_SeekToFirst sl = Next sl head 0"

definition Iter_SeekToLast :: "'k SkipList \<Rightarrow> nat option option" where
  "Iter_SeekToLast sl = map_option not_head (FindLast sl)"

section \<open>The store\<close>

lemma Node_at_Some: "x < length (nodes sl) \<Longrightarrow> Node_at sl x = Some (nodes sl ! x)"
  by (simp add: Node_at_def)

definition node_key :: "'k SkipList \<Rightarrow> nat \<Rightarrow> 'k" where
  "node_key sl x = key (nodes sl ! x)"

definition height_of :: "'k SkipList \<Rightarrow> nat \<Rightarrow> nat" where
  "height_of sl x = length (next_links (nodes sl ! x))"

text \<open>What an update of the links leaves alone.\<close>

definition same_shape :: "'k SkipList \<Rightarrow> 'k SkipList \<Rightarrow> bool" where
  "same_shape sl sl' \<longleftrightarrow>
     length (nodes sl') = length (nodes sl) \<and> max_height sl' = max_height sl \<and> rnd sl' = rnd sl \<and>
     node_key sl' = node_key sl \<and> height_of sl' = height_of sl"

lemma same_shape_refl [simp]: "same_shape sl sl"
  by (simp add: same_shape_def)

lemma same_shape_trans: "same_shape a b \<Longrightarrow> same_shape b c \<Longrightarrow> same_shape a c"
  by (simp add: same_shape_def)

lemma SetNext_ok:
  assumes "x < length (nodes sl)" and "n < height_of sl x"
  obtains sl' where "SetNext sl x n y = Some sl'" and "same_shape sl sl'"
    and "\<And>a l. Next sl' a l = (if a = x \<and> l = n then Some y else Next sl a l)"
proof -
  let ?sl' = "sl\<lparr>nodes := (nodes sl)[x := (nodes sl ! x)\<lparr>next_links := (next_links (nodes sl ! x))[n := y]\<rparr>]\<rparr>"
  have "SetNext sl x n y = Some ?sl'"
    using assms by (simp add: SetNext_def Node_at_Some height_of_def)
  moreover have "same_shape sl ?sl'"
    using assms(1) by (auto simp: same_shape_def node_key_def height_of_def fun_eq_iff nth_list_update)
  moreover have "Next ?sl' a l = (if a = x \<and> l = n then Some y else Next sl a l)" for a l
    using assms by (auto simp: Next_def Node_at_def height_of_def nth_list_update)
  ultimately show ?thesis
    using that by blast
qed

lemma Insert_link_ok:
  assumes "x < length (nodes sl)" and "\<forall>i \<in> set levels. i < height_of sl x"
    and "\<forall>i \<in> set levels. i < length prev \<and> prev ! i = Some (p i) \<and> p i \<noteq> x \<and>
      p i < length (nodes sl) \<and> i < height_of sl (p i)"
    and "distinct levels"
  shows "\<exists>sl'. Insert_link x prev levels sl = Some sl' \<and> same_shape sl sl' \<and>
    (\<forall>a l. Next sl' a l =
       (if l \<in> set levels then if a = x then Next sl (p l) l else if a = p l then Some (Some x) else Next sl a l
        else Next sl a l))"
  using assms
proof (induction levels arbitrary: sl)
  case (Cons i levels)
  from Cons.prems have p: "i < length prev" "prev ! i = Some (p i)" "p i \<noteq> x" "p i < length (nodes sl)"
    "i < height_of sl (p i)" and x: "x < length (nodes sl)" "i < height_of sl x"
    by simp_all
  obtain nxt where nxt: "Next sl (p i) i = Some nxt"
    using p by (simp add: Next_def Node_at_Some height_of_def)
  obtain sl1 where sl1: "SetNext sl x i nxt = Some sl1" "same_shape sl sl1"
    "\<And>a l. Next sl1 a l = (if a = x \<and> l = i then Some nxt else Next sl a l)"
    using SetNext_ok [OF x] by blast
  have "p i < length (nodes sl1)" "i < height_of sl1 (p i)"
    using p sl1(2) by (simp_all add: same_shape_def)
  then obtain sl2 where sl2: "SetNext sl1 (p i) i (Some x) = Some sl2" "same_shape sl1 sl2"
    "\<And>a l. Next sl2 a l = (if a = p i \<and> l = i then Some (Some x) else Next sl1 a l)"
    using SetNext_ok by blast
  have shape: "same_shape sl sl2"
    using sl1(2) sl2(2) by (rule same_shape_trans)
  have "\<exists>sl'. Insert_link x prev levels sl2 = Some sl' \<and> same_shape sl2 sl' \<and>
    (\<forall>a l. Next sl' a l =
       (if l \<in> set levels then if a = x then Next sl2 (p l) l else if a = p l then Some (Some x) else Next sl2 a l
        else Next sl2 a l))"
    by (rule Cons.IH) (use Cons.prems shape in \<open>auto simp: same_shape_def\<close>)
  then obtain sl' where sl': "Insert_link x prev levels sl2 = Some sl'" "same_shape sl2 sl'"
    "\<And>a l. Next sl' a l =
       (if l \<in> set levels then if a = x then Next sl2 (p l) l else if a = p l then Some (Some x) else Next sl2 a l
        else Next sl2 a l)"
    by blast
  have "Insert_link x prev (i # levels) sl = Some sl'"
    using p nxt sl1(1) sl2(1) sl'(1) by simp
  moreover have "same_shape sl sl'"
    using shape sl'(2) by (rule same_shape_trans)
  moreover have "Next sl' a l =
       (if l \<in> set (i # levels) then if a = x then Next sl (p l) l else if a = p l then Some (Some x) else Next sl a l
        else Next sl a l)" for a l
    using Cons.prems(4) p(3) nxt by (auto simp: sl'(3) sl2(3) sl1(3))
  ultimately show ?case
    by blast
qed simp

section \<open>Chains\<close>

definition first :: "'a list \<Rightarrow> 'a option \<Rightarrow> 'a option" where
  "first xs e = (case xs of [] \<Rightarrow> e | x # _ \<Rightarrow> Some x)"

lemma first_simps [simp]: "first [] e = e" "first (x # xs) e = Some x"
  by (simp_all add: first_def)

lemma first_append: "first (xs @ ys) e = first xs (first ys e)"
  by (cases xs) simp_all

text \<open>\<open>lseg sl l xs e\<close>: at level \<open>l\<close> the nodes \<open>xs\<close> are linked one to the next and the last to \<open>e\<close>.\<close>

fun lseg :: "'k SkipList \<Rightarrow> nat \<Rightarrow> nat list \<Rightarrow> nat option \<Rightarrow> bool" where
  "lseg sl l [] e = True"
| "lseg sl l (x # xs) e = (Next sl x l = Some (first xs e) \<and> lseg sl l xs e)"

lemma lseg_append: "lseg sl l (xs @ ys) e \<longleftrightarrow> lseg sl l xs (first ys e) \<and> lseg sl l ys e"
  by (induction xs) (auto simp: first_append)

lemma lseg_cong: "(\<And>x. x \<in> set xs \<Longrightarrow> Next sl' x l = Next sl x l) \<Longrightarrow> lseg sl' l xs e = lseg sl l xs e"
  by (induction xs) auto

definition level :: "'k SkipList \<Rightarrow> nat \<Rightarrow> nat list \<Rightarrow> nat list" where
  "level sl l xs = filter (\<lambda>x. l < height_of sl x) xs"

lemma level_append [simp]: "level sl l (xs @ ys) = level sl l xs @ level sl l ys"
  by (simp add: level_def)

lemma level_simps [simp]:
  "level sl l [] = []"
  "level sl l (x # xs) = (if l < height_of sl x then x # level sl l xs else level sl l xs)"
  by (simp_all add: level_def)

lemma level_subset: "set (level sl l xs) \<subseteq> set xs"
  by (auto simp: level_def)

text \<open>The invariant; \<open>order\<close> is the list of the nodes in the order of their keys.\<close>

definition skiplist_inv ::
  "('k \<Rightarrow> 'k \<Rightarrow> int) \<Rightarrow> ('k \<Rightarrow> bool) \<Rightarrow> 'k SkipList \<Rightarrow> nat list \<Rightarrow> bool" where
  "skiplist_inv cmp valid sl order \<longleftrightarrow>
     distinct order \<and> set order = {x. 0 < x \<and> x < length (nodes sl)} \<and> nodes sl \<noteq> [] \<and>
     (\<forall>x \<in> set order. valid (node_key sl x)) \<and>
     sorted_wrt (\<lambda>x y. cmp (node_key sl x) (node_key sl y) < 0) order \<and>
     1 \<le> max_height sl \<and> max_height sl \<le> kMaxHeight \<and> height_of sl head = kMaxHeight \<and>
     (\<forall>x \<in> set order. 1 \<le> height_of sl x \<and> height_of sl x \<le> max_height sl) \<and>
     (\<forall>l < kMaxHeight. lseg sl l (head # level sl l order) None)"

lemma skiplist_inv_new: "skiplist_inv cmp valid (SkipList_new k) []"
  by (auto simp: skiplist_inv_def SkipList_new_def kMaxHeight_def height_of_def head_def level_def Next_def Node_at_def)

lemma inv_heights:
  assumes "skiplist_inv cmp valid sl order" and "x \<in> set order"
  shows "1 \<le> height_of sl x" and "height_of sl x \<le> max_height sl"
  using assms unfolding skiplist_inv_def by blast+

lemma inv_sorted:
  assumes "skiplist_inv cmp valid sl order"
  shows "sorted_wrt (\<lambda>x y. cmp (node_key sl x) (node_key sl y) < 0) order"
    and "x \<in> set order \<Longrightarrow> valid (node_key sl x)"
  using assms unfolding skiplist_inv_def by blast+

lemma inv_store:
  assumes "skiplist_inv cmp valid sl order"
  shows "x \<in> set order \<Longrightarrow> x < length (nodes sl)" and "head \<notin> set order"
    and "l < kMaxHeight \<Longrightarrow> lseg sl l (head # level sl l order) None"
proof -
  have *: "set order = {x. 0 < x \<and> x < length (nodes sl)}"
    "\<forall>l < kMaxHeight. lseg sl l (head # level sl l order) None"
    using assms unfolding skiplist_inv_def by blast+
  then show "x \<in> set order \<Longrightarrow> x < length (nodes sl)" "head \<notin> set order"
    "l < kMaxHeight \<Longrightarrow> lseg sl l (head # level sl l order) None"
    by (simp_all add: head_def)
qed

lemma level_high:
  assumes "skiplist_inv cmp valid sl order" and "max_height sl \<le> l" and "set xs \<subseteq> set order"
  shows "level sl l xs = []"
  unfolding level_def filter_empty_conv
  using inv_heights(2) [OF assms(1)] assms(2,3) by (meson le_trans linorder_not_le subsetD)

lemma level_0:
  assumes "skiplist_inv cmp valid sl order" and "set xs \<subseteq> set order"
  shows "level sl 0 xs = xs"
  unfolding level_def
  by (rule filter_True) (use inv_heights(1) [OF assms(1)] assms(2) in \<open>auto simp: Suc_le_eq\<close>)

section \<open>Searching\<close>

text \<open>
  The searches walk along a level while the next node satisfies a condition and go down one
  level otherwise.  \<open>A @ B\<close> splits the list at the place that is searched for.
\<close>

locale skiplist_search = key_order cmp valid
  for cmp :: "'k \<Rightarrow> 'k \<Rightarrow> int" and valid :: "'k \<Rightarrow> bool" +
  fixes sl :: "'k SkipList" and A B :: "nat list"
  assumes inv: "skiplist_inv cmp valid sl (A @ B)"
begin

lemma in_store: "x = head \<or> x \<in> set (A @ B) \<Longrightarrow> x < length (nodes sl)"
  using inv by (auto simp: skiplist_inv_def head_def)

lemma Node_at_member: "x = head \<or> x \<in> set (A @ B) \<Longrightarrow> Node_at sl x = Some (nodes sl ! x)"
  by (rule Node_at_Some) (rule in_store)

lemma next_in:
  assumes "l < kMaxHeight" and "level sl l A = P @ y # Q"
  shows "Next sl (last (head # P)) l = Some (Some y)"
proof -
  have "lseg sl l (head # P @ y # Q @ level sl l B) None"
    using inv assms by (auto simp: skiplist_inv_def)
  then have "lseg sl l (butlast (head # P) @ last (head # P) # y # Q @ level sl l B) None"
    by (metis append_Cons append_butlast_last_id append_assoc append_Nil list.distinct(1))
  then show ?thesis
    by (simp add: lseg_append)
qed

lemma next_out:
  assumes "l < kMaxHeight"
  shows "Next sl (last (head # level sl l A)) l = Some (first (level sl l B) None)"
proof -
  have "lseg sl l ((head # level sl l A) @ level sl l B) None"
    using inv assms by (simp add: skiplist_inv_def)
  moreover have "head # level sl l A = butlast (head # level sl l A) @ [last (head # level sl l A)]"
    by simp
  ultimately show ?thesis
    by (metis first_simps(1) lseg.simps(2) lseg_append)
qed

lemma descend:
  obtains P Q where "level sl l A = P @ Q" and "last (head # level sl (Suc l) A) = last (head # P)"
proof (cases "level sl (Suc l) A = []")
  case True
  then show ?thesis
    using that [of "[]" "level sl l A"] by simp
next
  case False
  then have "last (level sl (Suc l) A) \<in> set (level sl l A)"
    using last_in_set [OF False] by (auto simp: level_def)
  then obtain P Q where "level sl l A = (P @ [last (level sl (Suc l) A)]) @ Q"
    by (metis append_assoc append_Cons append_Nil in_set_conv_decomp)
  then show ?thesis
    using that [of "P @ [last (level sl (Suc l) A)]" Q] False by simp
qed

text \<open>Induction along the path of a search: what holds at a node of \<open>A\<close> on level \<open>l\<close> follows from the
  next node of the level, and at the end of \<open>A\<close> from the level below.\<close>

lemma search_induct [consumes 2, case_names walk down bottom]:
  assumes "l < kMaxHeight" and "level sl l A = P @ Q"
    and "\<And>l P y Q. l < kMaxHeight \<Longrightarrow> level sl l A = P @ y # Q \<Longrightarrow> R l y \<Longrightarrow> R l (last (head # P))"
    and "\<And>l. Suc l < kMaxHeight \<Longrightarrow> R l (last (head # level sl (Suc l) A)) \<Longrightarrow>
      R (Suc l) (last (head # level sl (Suc l) A))"
    and "R 0 (last (head # level sl 0 A))"
  shows "R l (last (head # P))"
  using assms(1,2)
proof (induction l arbitrary: P Q)
  case 0
  then show ?case
  proof (induction Q arbitrary: P)
    case (Cons y Q)
    then show ?case
      using assms(3) [of 0 P y Q] Cons.IH [of "P @ [y]"] by simp
  qed (use assms(5) in simp)
next
  case (Suc l)
  from Suc.prems show ?case
  proof (induction Q arbitrary: P)
    case Nil
    obtain P' Q' where *: "level sl l A = P' @ Q'" "last (head # level sl (Suc l) A) = last (head # P')"
      by (rule descend)
    have "R l (last (head # P'))"
      using Suc.IH [OF _ *(1)] Suc.prems by simp
    then show ?case
      using assms(4) [of l] Suc.prems Nil *(2) by simp
  next
    case (Cons y Q)
    then show ?case
      using assms(3) [of "Suc l" P y Q] Cons.IH [of "P @ [y]"] by simp
  qed
qed

lemma mem_level: "level sl l A = P @ y # Q \<Longrightarrow> y \<in> set A"
  using level_subset [of sl l A] by auto

lemma first_level_B: "first (level sl l B) None = Some y \<Longrightarrow> y \<in> set B"
  using level_subset [of sl l B] by (cases "level sl l B") auto

lemma last_level_A: "last (head # level sl l A) = head \<or> last (head # level sl l A) \<in> set A"
  using level_subset [of sl l A] by (cases "level sl l A" rule: rev_cases) auto

lemma FindGreaterOrEqual_loop_result:
  assumes below: "\<And>a. a \<in> set A \<Longrightarrow> cmp (node_key sl a) k < 0"
    and above: "\<And>b. b \<in> set B \<Longrightarrow> \<not> cmp (node_key sl b) k < 0"
    and l: "l < kMaxHeight" and P: "level sl l A = P @ Q"
  shows "\<forall>prev. \<exists>prev'. FindGreaterOrEqual_loop cmp sl k (last (head # P)) l prev = Some (first B None, prev') \<and>
    length prev' = length prev \<and>
    (\<forall>j < length prev. prev' ! j = (if j \<le> l then Some (last (head # level sl j A)) else prev ! j))"
  using l P
proof (induction rule: search_induct)
  case (walk l P y Q)
  have "y \<in> set A"
    using walk(2) by (rule mem_level)
  then have "KeyIsAfterNode cmp sl k (Some y) = Some True"
    using below Node_at_member [of y] by (simp add: KeyIsAfterNode_def node_key_def)
  then have "FindGreaterOrEqual_loop cmp sl k (last (head # P)) l prev = FindGreaterOrEqual_loop cmp sl k y l prev" for prev
    using next_in [OF walk(1,2)] by (subst FindGreaterOrEqual_loop.simps) simp
  then show ?case
    using walk(3) by simp
next
  case (down l)
  let ?x = "last (head # level sl (Suc l) A)"
  have "KeyIsAfterNode cmp sl k (first (level sl (Suc l) B) None) = Some False"
    using above first_level_B [of "Suc l"] Node_at_member
    by (auto simp: KeyIsAfterNode_def node_key_def split: option.split)
  then have step: "FindGreaterOrEqual_loop cmp sl k ?x (Suc l) prev =
      FindGreaterOrEqual_loop cmp sl k ?x l (prev[Suc l := Some ?x])" for prev
    using next_out [OF down(1)] by (subst FindGreaterOrEqual_loop.simps) (simp add: Let_def del: last.simps)
  show ?case
  proof
    fix prev
    obtain prev' where "FindGreaterOrEqual_loop cmp sl k ?x l (prev[Suc l := Some ?x]) = Some (first B None, prev')"
      "length prev' = length prev"
      "\<forall>j < length prev. prev' ! j = (if j \<le> l then Some (last (head # level sl j A)) else prev[Suc l := Some ?x] ! j)"
      using down(2) by (metis length_list_update)
    then show "\<exists>prev'. FindGreaterOrEqual_loop cmp sl k ?x (Suc l) prev = Some (first B None, prev') \<and>
      length prev' = length prev \<and>
      (\<forall>j < length prev. prev' ! j = (if j \<le> Suc l then Some (last (head # level sl j A)) else prev ! j))"
      unfolding step by (intro exI [of _ prev']) (auto simp: nth_list_update le_Suc_eq simp del: last.simps)
  qed
next
  case bottom
  let ?x = "last (head # level sl 0 A)"
  have B: "level sl 0 B = B"
    using level_0 [OF inv] by simp
  then have "KeyIsAfterNode cmp sl k (first B None) = Some False"
    using above first_level_B [of 0] Node_at_member
    by (auto simp: KeyIsAfterNode_def node_key_def split: option.split)
  then have "FindGreaterOrEqual_loop cmp sl k ?x 0 prev = Some (first B None, prev[0 := Some ?x])" for prev
    using next_out [of 0] B
    by (subst FindGreaterOrEqual_loop.simps) (simp add: Let_def kMaxHeight_def del: last.simps)
  then show ?case
    by (auto simp: nth_list_update simp del: last.simps)
qed

lemma FindGreaterOrEqual_result:
  assumes "\<And>a. a \<in> set A \<Longrightarrow> cmp (node_key sl a) k < 0"
    and "\<And>b. b \<in> set B \<Longrightarrow> \<not> cmp (node_key sl b) k < 0"
  obtains prev' where "FindGreaterOrEqual cmp sl k prev = Some (first B None, prev')"
    and "length prev' = length prev"
    and "\<And>j. j < length prev \<Longrightarrow>
      prev' ! j = (if j < max_height sl then Some (last (head # level sl j A)) else prev ! j)"
proof -
  have h: "1 \<le> max_height sl" "max_height sl \<le> kMaxHeight"
    using inv by (simp_all add: skiplist_inv_def)
  then have "max_height sl - 1 < kMaxHeight"
    by simp
  from FindGreaterOrEqual_loop_result [OF assms this, of "[]" "level sl (max_height sl - 1) A"]
  obtain prev' where "FindGreaterOrEqual_loop cmp sl k head (max_height sl - 1) prev = Some (first B None, prev')"
    "length prev' = length prev"
    "\<forall>j < length prev. prev' ! j = (if j \<le> max_height sl - 1 then Some (last (head # level sl j A)) else prev ! j)"
    by auto
  moreover have "j \<le> max_height sl - 1 \<longleftrightarrow> j < max_height sl" for j
    using h by auto
  ultimately show ?thesis
    using that [of prev'] by (simp add: FindGreaterOrEqual_def del: last.simps)
qed

lemma FindLessThan_result:
  assumes below: "\<And>a. a \<in> set A \<Longrightarrow> cmp (node_key sl a) k < 0"
    and above: "\<And>b. b \<in> set B \<Longrightarrow> \<not> cmp (node_key sl b) k < 0"
  shows "FindLessThan cmp sl k = Some (last (head # A))"
proof -
  have above': "0 \<le> cmp (key (nodes sl ! b)) k" if "b \<in> set B" for b
    using above [OF that] by (simp add: node_key_def)
  have A: "level sl 0 A = A" and B: "level sl 0 B = B"
    using level_0 [OF inv] by simp_all
  have here: "Node_at sl x = Some (nodes sl ! x)" "x = head \<or> cmp (key (nodes sl ! x)) k < 0"
    if "x = head \<or> x \<in> set A" for x
    using that below [of x] Node_at_member [of x] by (auto simp: node_key_def)
  have "FindLessThan_loop cmp sl k (last (head # P)) l = Some (last (head # A))"
    if "l < kMaxHeight" "level sl l A = P @ Q" for l P Q
    using that
  proof (induction rule: search_induct)
    case (walk l P y Q)
    have y: "y \<in> set A"
      using walk(2) by (rule mem_level)
    have "last (head # P) = head \<or> last (head # P) \<in> set A"
      using walk(2) level_subset [of sl l A] by (cases P rule: rev_cases) auto
    then show ?case
      using walk(3) here [of "last (head # P)"] here [of y] y below [OF y] next_in [OF walk(1,2)]
      by (subst FindLessThan_loop.simps) (simp add: node_key_def del: last.simps)
  next
    case (down l)
    let ?x = "last (head # level sl (Suc l) A)"
    show ?case
      using down(2) here [OF last_level_A, of "Suc l"] next_out [OF down(1)] above' first_level_B [of "Suc l"] Node_at_member
      by (subst FindLessThan_loop.simps) (auto simp: node_key_def simp del: last.simps split: option.split)
  next
    case bottom
    show ?case
      using here [OF last_level_A, of 0] next_out [of 0] above' first_level_B [of 0] Node_at_member
      by (subst FindLessThan_loop.simps) (auto simp: node_key_def A B kMaxHeight_def simp del: last.simps split: option.split)
  qed
  from this [of "max_height sl - 1" "[]" "level sl (max_height sl - 1) A"] show ?thesis
    using inv by (auto simp: FindLessThan_def skiplist_inv_def)
qed

lemma FindLast_result:
  assumes "B = []"
  shows "FindLast sl = Some (last (head # A))"
proof -
  have A: "level sl 0 A = A"
    using level_0 [OF inv] by simp
  have none: "first (level sl l B) None = None" for l
    using assms by (simp add: level_def)
  have "FindLast_loop sl (last (head # P)) l = Some (last (head # A))"
    if "l < kMaxHeight" "level sl l A = P @ Q" for l P Q
    using that
  proof (induction rule: search_induct)
    case (walk l P y Q)
    then show ?case
      using next_in [OF walk(1,2)] by (subst FindLast_loop.simps) simp
  next
    case (down l)
    then show ?case
      using next_out [OF down(1)] none by (subst FindLast_loop.simps) (simp del: last.simps)
  next
    case bottom
    show ?case
      using next_out [of 0] none by (subst FindLast_loop.simps) (simp add: A kMaxHeight_def del: last.simps)
  qed
  from this [of "max_height sl - 1" "[]" "level sl (max_height sl - 1) A"] show ?thesis
    using inv by (auto simp: FindLast_def skiplist_inv_def)
qed

end

section \<open>Insertion\<close>

lemma RandomHeight_bounds: "1 \<le> fst (RandomHeight seed)" "fst (RandomHeight seed) \<le> kMaxHeight"
proof -
  have "h \<le> kMaxHeight \<Longrightarrow> h \<le> fst (RandomHeight_loop h seed) \<and> fst (RandomHeight_loop h seed) \<le> kMaxHeight" for h
  proof (induction h seed rule: RandomHeight_loop.induct)
    case (1 h seed)
    obtain r s where r: "Random_Next seed = (r, s)"
      by fastforce
    show ?case
      by (subst (1 2) RandomHeight_loop.simps, cases "r mod kBranching = 0")
        (use 1(1) [OF _ r [symmetric]] 1(2) r in \<open>auto simp: mod_eq_0_iff_dvd\<close>)
  qed
  from this [of 1] show "1 \<le> fst (RandomHeight seed)" "fst (RandomHeight seed) \<le> kMaxHeight"
    by (simp_all add: RandomHeight_def kMaxHeight_def)
qed

lemma fold_prev_head:
  "length (fold (\<lambda>i prev. prev[i := Some head]) is prev) = length prev"
  "j < length prev \<Longrightarrow> fold (\<lambda>i prev. prev[i := Some head]) is prev ! j = (if j \<in> set is then Some head else prev ! j)"
  by (induction "is" arbitrary: prev) (auto simp: nth_list_update)

text \<open>Splicing a new node into a chain.\<close>

lemma lseg_splice:
  assumes "lseg sl l (P @ S) e" and "P \<noteq> []" and "distinct (P @ S)" and "n \<notin> set (P @ S)"
    and links: "\<And>a. a \<in> set (P @ n # S) \<Longrightarrow>
      Next sl' a l = (if a = n then Next sl (last P) l else if a = last P then Some (Some n) else Next sl a l)"
  shows "lseg sl' l (P @ n # S) e"
proof -
  obtain P' p where P: "P = P' @ [p]"
    using assms(2) by (cases P rule: rev_cases) auto
  have "Next sl' a l = Next sl a l" if "a \<in> set P' \<union> set S" for a
    using links [of a] that assms(3,4) by (auto simp: P)
  then have "lseg sl' l P' (Some p) = lseg sl l P' (Some p)" "lseg sl' l S e = lseg sl l S e"
    by (auto intro!: lseg_cong)
  then show ?thesis
    using assms(1,4) links [of p] links [of n] by (auto simp: P lseg_append)
qed

context skiplist_search
begin

text \<open>The state after the new node has been linked at all its levels satisfies the invariant.\<close>

lemma inv_spliced:
  fixes sl' :: "'k SkipList"
  defines "n \<equiv> length (nodes sl)"
  assumes k: "valid k" "\<And>a. a \<in> set A \<Longrightarrow> cmp (node_key sl a) k < 0" "\<And>b. b \<in> set B \<Longrightarrow> cmp k (node_key sl b) < 0"
    and len: "length (nodes sl') = Suc n"
    and keys: "node_key sl' n = k" "\<And>x. x < n \<Longrightarrow> node_key sl' x = node_key sl x"
    and heights: "height_of sl' n = h" "\<And>x. x < n \<Longrightarrow> height_of sl' x = height_of sl x"
    and h: "1 \<le> h" "h \<le> kMaxHeight" "max_height sl' = max h (max_height sl)"
    and links: "\<And>a l. a \<le> n \<Longrightarrow> l < kMaxHeight \<Longrightarrow> l < h \<or> a < n \<Longrightarrow> Next sl' a l =
      (if l < h then if a = n then Next sl (last (head # level sl l A)) l
         else if a = last (head # level sl l A) then Some (Some n) else Next sl a l
       else Next sl a l)"
  shows "skiplist_inv cmp valid sl' (A @ n # B)"
proof -
  note inv' = inv [unfolded skiplist_inv_def]
  have old: "x < n" if "x \<in> set A \<or> x \<in> set B \<or> x = head" for x
    using in_store that by (auto simp: n_def)
  have lvl: "level sl' l xs = level sl l xs" if "set xs \<subseteq> set A \<union> set B" for l xs
    unfolding level_def using that heights(2) old by (intro filter_cong) auto
  have sorted: "sorted_wrt (\<lambda>x y. cmp (node_key sl' x) (node_key sl' y) < 0) (A @ n # B)"
  proof -
    have "sorted_wrt (\<lambda>x y. cmp (node_key sl' x) (node_key sl' y) < 0) (A @ B)"
      by (rule sorted_wrt_mono_rel [of _ "\<lambda>x y. cmp (node_key sl x) (node_key sl y) < 0"])
        (use inv' old keys(2) in auto)
    then show ?thesis
      using k(2,3) keys old by (auto simp: sorted_wrt_append)
  qed
  have chain: "lseg sl' l (head # level sl' l (A @ n # B)) None" if l: "l < kMaxHeight" for l
  proof (cases "l < h")
    case True
    have "lseg sl' l ((head # level sl l A) @ n # level sl l B) None"
    proof (rule lseg_splice)
      show "lseg sl l ((head # level sl l A) @ level sl l B) None"
        using inv' l by simp
      have "set (level sl l (A @ B)) \<subseteq> set (A @ B)"
        by (rule level_subset)
      moreover have "distinct (level sl l (A @ B))" "head \<notin> set (A @ B)"
        using inv' by (auto simp: level_def head_def)
      ultimately show "distinct ((head # level sl l A) @ level sl l B)"
        and "n \<notin> set ((head # level sl l A) @ level sl l B)"
        using old by auto
      fix a
      assume "a \<in> set ((head # level sl l A) @ n # level sl l B)"
      then have "a \<le> n"
        using old level_subset [of sl l A] level_subset [of sl l B] by (auto intro: less_imp_le)
      then show "Next sl' a l = (if a = n then Next sl (last (head # level sl l A)) l
          else if a = last (head # level sl l A) then Some (Some n) else Next sl a l)"
        using links [of a l] True l by simp
    qed simp
    then show ?thesis
      using True heights(1) by (simp add: lvl)
  next
    case False
    have "lseg sl' l (head # level sl l A @ level sl l B) None = lseg sl l (head # level sl l A @ level sl l B) None"
    proof (rule lseg_cong)
      fix x
      assume "x \<in> set (head # level sl l A @ level sl l B)"
      then have "x < n"
        using old level_subset [of sl l A] level_subset [of sl l B] by auto
      then show "Next sl' x l = Next sl x l"
        using links [of x l] False l by simp
    qed
    moreover have "lseg sl l (head # level sl l A @ level sl l B) None"
      using inv' l by simp
    ultimately show ?thesis
      using False heights(1) by (simp add: lvl)
  qed
  have valid_old: "\<forall>x \<in> set (A @ B). valid (node_key sl x)"
    and heights_old: "\<forall>x \<in> set (A @ B). 1 \<le> height_of sl x \<and> height_of sl x \<le> max_height sl"
    and head_old: "height_of sl head = kMaxHeight"
    and max_old: "1 \<le> max_height sl" "max_height sl \<le> kMaxHeight"
    and set_old: "set (A @ B) = {x. 0 < x \<and> x < n}" "distinct (A @ B)" "0 < n"
    using inv' by (simp_all add: n_def)
  have "set (A @ n # B) = insert n (set (A @ B))"
    by auto
  then have "set (A @ n # B) = {x. 0 < x \<and> x < length (nodes sl')}" "distinct (A @ n # B)"
    using set_old old len by (auto simp: less_Suc_eq)
  moreover have "\<forall>x \<in> set (A @ n # B). valid (node_key sl' x)"
    using valid_old old keys k(1) by auto
  moreover have "\<forall>x \<in> set (A @ n # B). 1 \<le> height_of sl' x \<and> height_of sl' x \<le> max_height sl'"
    using heights_old old heights h by (auto simp: le_max_iff_disj)
  moreover have "height_of sl' head = kMaxHeight"
    using head_old old heights by auto
  moreover have "1 \<le> max_height sl'" "max_height sl' \<le> kMaxHeight" "nodes sl' \<noteq> []"
    using max_old h len by auto
  ultimately show ?thesis
    unfolding skiplist_inv_def using sorted chain by blast
qed

lemma Insert_ok:
  assumes k: "valid k" "\<And>a. a \<in> set A \<Longrightarrow> cmp (node_key sl a) k < 0" "\<And>b. b \<in> set B \<Longrightarrow> cmp k (node_key sl b) < 0"
  shows "\<exists>sl'. Insert cmp garbage sl k = Some sl' \<and> skiplist_inv cmp valid sl' (A @ length (nodes sl) # B) \<and>
    node_key sl' (length (nodes sl)) = k \<and> (\<forall>x < length (nodes sl). node_key sl' x = node_key sl x)"
proof -
  define n where "n = length (nodes sl)"
  obtain h seed where h: "RandomHeight (rnd sl) = (h, seed)"
    by fastforce
  have hb: "1 \<le> h" "h \<le> kMaxHeight"
    using RandomHeight_bounds [of "rnd sl"] h by simp_all
  have valid_old: "valid (node_key sl x)" if "x \<in> set A \<union> set B" for x
    using inv that by (auto simp: skiplist_inv_def)
  have above: "\<not> cmp (node_key sl b) k < 0" if "b \<in> set B" for b
    using k(1) k(3) [OF that] valid_old that cmp_swap [of k "node_key sl b"] by auto
  let ?none = "replicate kMaxHeight (None :: nat option)"
  obtain prev where find: "FindGreaterOrEqual cmp sl k ?none = Some (first B None, prev)"
    and plen: "length prev = length ?none"
    and prev: "\<And>j. j < length ?none \<Longrightarrow>
      prev ! j = (if j < max_height sl then Some (last (head # level sl j A)) else ?none ! j)"
    using FindGreaterOrEqual_result [OF k(2) above, where prev = ?none] by blast
  have fresh: "\<not> (case first B None of None \<Rightarrow> False
      | Some a \<Rightarrow> (case Node_at sl a of None \<Rightarrow> True | Some node \<Rightarrow> cmp k (key node) = 0))"
  proof (cases B)
    case (Cons b bs)
    then have "cmp k (node_key sl b) < 0" "Node_at sl b = Some (nodes sl ! b)"
      using k(3) [of b] Node_at_member [of b] by simp_all
    then show ?thesis
      using Cons by (simp add: node_key_def)
  qed simp
  define prev' where "prev' = (if h > max_height sl
    then fold (\<lambda>i prev. prev[i := Some head]) [max_height sl..<h] prev else prev)"
  define sl1 where "sl1 = sl\<lparr>rnd := seed, max_height := max h (max_height sl),
    nodes := nodes sl @ [\<lparr>key = k, next_links = replicate h garbage\<rparr>]\<rparr>"
  have insert: "Insert cmp garbage sl k = Insert_link n prev' [0..<h] sl1"
    using find fresh h
    by (auto simp: Insert_def prev'_def sl1_def NewNode_def n_def Let_def max_def)
  have old: "x < n" if "x = head \<or> x \<in> set A \<or> x \<in> set B" for x
    using in_store [of x] that by (auto simp: n_def)
  have pred: "last (head # level sl j A) = head \<or> last (head # level sl j A) \<in> set A" for j
    by (rule last_level_A)
  have prev'_j: "j < length prev' \<and> prev' ! j = Some (last (head # level sl j A))" if "j < h" for j
  proof -
    have "level sl j A = []" if "\<not> j < max_height sl"
      using level_high [OF inv, of j A] that by simp
    then show ?thesis
      using that hb plen prev [of j] by (auto simp: prev'_def fold_prev_head)
  qed
  have keys1: "node_key sl1 n = k" "\<And>x. x < n \<Longrightarrow> node_key sl1 x = node_key sl x"
    and heights1: "height_of sl1 n = h" "\<And>x. x < n \<Longrightarrow> height_of sl1 x = height_of sl x"
    and next1: "\<And>x l. x < n \<Longrightarrow> Next sl1 x l = Next sl x l"
    by (simp_all add: sl1_def node_key_def height_of_def n_def nth_append Next_def Node_at_def)
  have tall: "j < height_of sl (last (head # level sl j A))" if "j < kMaxHeight" for j
  proof (cases "level sl j A = []")
    case True
    then show ?thesis
      using inv that by (simp add: skiplist_inv_def)
  next
    case False
    then show ?thesis
      using last_in_set [OF False] by (auto simp: level_def)
  qed
  have "\<exists>sl'. Insert_link n prev' [0..<h] sl1 = Some sl' \<and> same_shape sl1 sl' \<and>
    (\<forall>a l. Next sl' a l = (if l \<in> set [0..<h]
       then if a = n then Next sl1 (last (head # level sl l A)) l
         else if a = last (head # level sl l A) then Some (Some n) else Next sl1 a l
       else Next sl1 a l))"
  proof (rule Insert_link_ok)
    show "n < length (nodes sl1)"
      by (simp add: sl1_def n_def)
    show "\<forall>i\<in>set [0..<h]. i < length prev' \<and> prev' ! i = Some (last (head # level sl i A)) \<and>
        last (head # level sl i A) \<noteq> n \<and> last (head # level sl i A) < length (nodes sl1) \<and>
        i < height_of sl1 (last (head # level sl i A))"
    proof
      fix i
      assume "i \<in> set [0..<h]"
      then have i: "i < h" "i < kMaxHeight"
        using hb by auto
      have "last (head # level sl i A) < n"
        using old pred by blast
      then show "i < length prev' \<and> prev' ! i = Some (last (head # level sl i A)) \<and>
        last (head # level sl i A) \<noteq> n \<and> last (head # level sl i A) < length (nodes sl1) \<and>
        i < height_of sl1 (last (head # level sl i A))"
        using prev'_j [OF i(1)] tall [OF i(2)] heights1(2)
        by (simp add: sl1_def n_def del: last.simps)
    qed
  qed (use heights1 in auto)
  then obtain sl' where sl': "Insert_link n prev' [0..<h] sl1 = Some sl'" "same_shape sl1 sl'"
    and links: "\<And>a l. Next sl' a l = (if l < h
       then if a = n then Next sl1 (last (head # level sl l A)) l
         else if a = last (head # level sl l A) then Some (Some n) else Next sl1 a l
       else Next sl1 a l)"
    by auto
  have "skiplist_inv cmp valid sl' (A @ length (nodes sl) # B)"
  proof (rule inv_spliced [where h = h and k = k])
    fix a l
    assume "a \<le> length (nodes sl)" "l < kMaxHeight" "l < h \<or> a < length (nodes sl)"
    moreover have "last (head # level sl l A) < n"
      using old pred by blast
    ultimately show "Next sl' a l = (if l < h
        then if a = length (nodes sl) then Next sl (last (head # level sl l A)) l
          else if a = last (head # level sl l A) then Some (Some (length (nodes sl))) else Next sl a l
        else Next sl a l)"
      using links [of a l] next1 by (auto simp: n_def [symmetric] simp del: last.simps)
  qed (use k hb sl'(2) keys1 heights1 in \<open>simp_all add: same_shape_def n_def [symmetric], simp_all add: sl1_def n_def\<close>)
  moreover have "node_key sl' n = k" "\<And>x. x < n \<Longrightarrow> node_key sl' x = node_key sl x"
    using sl'(2) keys1 by (simp_all add: same_shape_def)
  ultimately show ?thesis
    using insert sl'(1) by (auto simp: n_def)
qed

end

section \<open>The skip list as a sorted list\<close>

text \<open>The abstract value: the keys in order.\<close>

definition represents ::
  "('k \<Rightarrow> 'k \<Rightarrow> int) \<Rightarrow> ('k \<Rightarrow> bool) \<Rightarrow> 'k SkipList \<Rightarrow> 'k list \<Rightarrow> bool" where
  "represents cmp valid sl ks \<longleftrightarrow> (\<exists>order. skiplist_inv cmp valid sl order \<and> map (node_key sl) order = ks)"

definition insert_sorted :: "('k \<Rightarrow> 'k \<Rightarrow> int) \<Rightarrow> 'k \<Rightarrow> 'k list \<Rightarrow> 'k list" where
  "insert_sorted cmp k ks =
     takeWhile (\<lambda>x. cmp x k < 0) ks @ k # dropWhile (\<lambda>x. cmp x k < 0) ks"

text \<open>An iterator at position \<open>i\<close>; past the end it is not valid.\<close>

definition iter_at ::
  "('k \<Rightarrow> 'k \<Rightarrow> int) \<Rightarrow> ('k \<Rightarrow> bool) \<Rightarrow> 'k SkipList \<Rightarrow> 'k list \<Rightarrow> nat option \<Rightarrow> nat \<Rightarrow> bool" where
  "iter_at cmp valid sl ks it i \<longleftrightarrow>
     (\<exists>order. skiplist_inv cmp valid sl order \<and> map (node_key sl) order = ks \<and> i \<le> length ks \<and>
        it = (if i < length ks then Some (order ! i) else None))"

lemma represents_new: "represents cmp valid (SkipList_new k) []"
  unfolding represents_def using skiplist_inv_new by fastforce

context key_order
begin

lemma split_below:
  assumes "sorted_wrt (\<lambda>x y. cmp (f x) (f y) < 0) xs" and "valid k" "\<And>x. x \<in> set xs \<Longrightarrow> valid (f x)"
  defines "A \<equiv> takeWhile (\<lambda>x. cmp (f x) k < 0) xs" and "B \<equiv> dropWhile (\<lambda>x. cmp (f x) k < 0) xs"
  shows "a \<in> set A \<Longrightarrow> cmp (f a) k < 0" and "b \<in> set B \<Longrightarrow> \<not> cmp (f b) k < 0"
proof -
  show "cmp (f a) k < 0" if "a \<in> set A"
    using that by (auto simp: A_def dest: set_takeWhileD)
  show "\<not> cmp (f b) k < 0" if b: "b \<in> set B"
  proof (cases B)
    case (Cons c C)
    have c: "\<not> cmp (f c) k < 0"
      using Cons hd_dropWhile [of "\<lambda>x. cmp (f x) k < 0" xs] by (simp add: B_def)
    have "sorted_wrt (\<lambda>x y. cmp (f x) (f y) < 0) (A @ B)" "set B \<subseteq> set xs"
      using assms(1) by (auto simp: A_def B_def dest: set_dropWhileD)
    then have "b = c \<or> cmp (f c) (f b) < 0" "valid (f b)" "valid (f c)"
      using b Cons assms(3) by (auto simp: sorted_wrt_append)
    then show ?thesis
      using c cmp_less_trans [of "f c" "f b" k] assms(2) by auto
  qed (use b in simp)
qed

lemma represents_split:
  assumes "represents cmp valid sl ks" and "valid k"
  obtains A B where "skiplist_search cmp valid sl A B"
    and "map (node_key sl) A = takeWhile (\<lambda>x. cmp x k < 0) ks"
    and "map (node_key sl) B = dropWhile (\<lambda>x. cmp x k < 0) ks"
    and "\<And>a. a \<in> set A \<Longrightarrow> cmp (node_key sl a) k < 0"
    and "\<And>b. b \<in> set B \<Longrightarrow> \<not> cmp (node_key sl b) k < 0"
proof -
  obtain order where inv: "skiplist_inv cmp valid sl order" and ks: "map (node_key sl) order = ks"
    using assms(1) by (auto simp: represents_def)
  define A where "A = takeWhile (\<lambda>x. cmp (node_key sl x) k < 0) order"
  define B where "B = dropWhile (\<lambda>x. cmp (node_key sl x) k < 0) order"
  have AB: "order = A @ B"
    by (simp add: A_def B_def)
  have "skiplist_search cmp valid sl A B"
    by unfold_locales (use inv AB in simp)
  moreover have "map (node_key sl) A = takeWhile (\<lambda>x. cmp x k < 0) ks"
    "map (node_key sl) B = dropWhile (\<lambda>x. cmp x k < 0) ks"
    by (simp_all add: A_def B_def ks [symmetric] takeWhile_map dropWhile_map comp_def)
  moreover have "cmp (node_key sl a) k < 0" if "a \<in> set A" for a
    using split_below(1) [OF inv_sorted(1) [OF inv] assms(2) inv_sorted(2) [OF inv]] that
    unfolding A_def by blast
  moreover have "\<not> cmp (node_key sl b) k < 0" if "b \<in> set B" for b
    using split_below(2) [OF inv_sorted(1) [OF inv] assms(2) inv_sorted(2) [OF inv]] that
    unfolding B_def by blast
  ultimately show ?thesis
    using that by blast
qed

lemma represents_valid: "represents cmp valid sl ks \<Longrightarrow> x \<in> set ks \<Longrightarrow> valid x"
  by (auto simp: represents_def skiplist_inv_def)

lemma represents_sorted: "represents cmp valid sl ks \<Longrightarrow> sorted_wrt (\<lambda>x y. cmp x y < 0) ks"
  by (auto simp: represents_def skiplist_inv_def sorted_wrt_map)

lemma Insert_represents:
  assumes rep: "represents cmp valid sl ks" and k: "valid k" and new: "\<And>x. x \<in> set ks \<Longrightarrow> cmp x k \<noteq> 0"
  shows "\<exists>sl'. Insert cmp garbage sl k = Some sl' \<and> represents cmp valid sl' (insert_sorted cmp k ks)"
proof -
  obtain A B where search: "skiplist_search cmp valid sl A B"
    and A: "map (node_key sl) A = takeWhile (\<lambda>x. cmp x k < 0) ks"
    and B: "map (node_key sl) B = dropWhile (\<lambda>x. cmp x k < 0) ks"
    and below: "\<And>a. a \<in> set A \<Longrightarrow> cmp (node_key sl a) k < 0"
    and above: "\<And>b. b \<in> set B \<Longrightarrow> \<not> cmp (node_key sl b) k < 0"
    using represents_split [OF rep k] by blast
  have greater: "cmp k (node_key sl b) < 0" if "b \<in> set B" for b
  proof -
    have "node_key sl b \<in> set (map (node_key sl) B)"
      using that by simp
    then have "node_key sl b \<in> set ks"
      unfolding B by (auto dest: set_dropWhileD)
    then show ?thesis
      using above [OF that] new represents_valid [OF rep] cmp_swap [of "node_key sl b" k] k
      by (metis linorder_neqE_linordered_idom)
  qed
  obtain sl' where sl': "Insert cmp garbage sl k = Some sl'"
    "skiplist_inv cmp valid sl' (A @ length (nodes sl) # B)"
    "node_key sl' (length (nodes sl)) = k" "\<forall>x < length (nodes sl). node_key sl' x = node_key sl x"
    using skiplist_search.Insert_ok [OF search k below greater] by blast
  have old: "x < length (nodes sl)" if "x \<in> set A \<or> x \<in> set B" for x
    using skiplist_search.in_store [OF search, of x] that by auto
  have "map (node_key sl') (A @ length (nodes sl) # B) = map (node_key sl) A @ k # map (node_key sl) B"
    using sl'(3,4) old by auto
  also have "\<dots> = insert_sorted cmp k ks"
    by (simp add: A B insert_sorted_def)
  finally show ?thesis
    using sl'(1,2) by (auto simp: represents_def)
qed

lemma FindGreaterOrEqual_represents:
  assumes "represents cmp valid sl ks" and "valid k"
  obtains A B prev where "skiplist_inv cmp valid sl (A @ B)"
    and "map (node_key sl) A = takeWhile (\<lambda>x. cmp x k < 0) ks"
    and "map (node_key sl) B = dropWhile (\<lambda>x. cmp x k < 0) ks"
    and "FindGreaterOrEqual cmp sl k [] = Some (first B None, prev)"
    and "FindLessThan cmp sl k = Some (last (head # A))"
proof -
  obtain A B where search: "skiplist_search cmp valid sl A B"
    and AB: "map (node_key sl) A = takeWhile (\<lambda>x. cmp x k < 0) ks"
      "map (node_key sl) B = dropWhile (\<lambda>x. cmp x k < 0) ks"
    and below: "\<And>a. a \<in> set A \<Longrightarrow> cmp (node_key sl a) k < 0"
    and above: "\<And>b. b \<in> set B \<Longrightarrow> \<not> cmp (node_key sl b) k < 0"
    using represents_split [OF assms] by blast
  obtain prev where "FindGreaterOrEqual cmp sl k [] = Some (first B None, prev)"
    using skiplist_search.FindGreaterOrEqual_result [OF search below above, where prev = "[]"] by blast
  then show ?thesis
    using that [OF _ AB] skiplist_search.inv [OF search] skiplist_search.FindLessThan_result [OF search below above]
    by blast
qed

lemma Contains_represents:
  assumes rep: "represents cmp valid sl ks" and k: "valid k"
  shows "Contains cmp sl k = Some (\<exists>x \<in> set ks. cmp k x = 0)"
proof -
  obtain A B prev where inv: "skiplist_inv cmp valid sl (A @ B)"
    and A: "map (node_key sl) A = takeWhile (\<lambda>x. cmp x k < 0) ks"
    and B: "map (node_key sl) B = dropWhile (\<lambda>x. cmp x k < 0) ks"
    and find: "FindGreaterOrEqual cmp sl k [] = Some (first B None, prev)"
    by (rule FindGreaterOrEqual_represents [OF assms])
  have ks: "ks = map (node_key sl) A @ map (node_key sl) B"
    by (simp add: A B)
  have left: "cmp k x \<noteq> 0" if "x \<in> set (map (node_key sl) A)" for x
  proof -
    have "cmp x k < 0"
      using that unfolding A by (auto dest: set_takeWhileD)
    moreover have "valid x"
      using that represents_valid [OF rep] by (auto simp: ks)
    ultimately show ?thesis
      using cmp_swap [of k x] k by auto
  qed
  show ?thesis
  proof (cases B)
    case Nil
    then show ?thesis
      using find left by (auto simp: Contains_def ks)
  next
    case (Cons b bs)
    have sorted: "sorted_wrt (\<lambda>x y. cmp x y < 0) (map (node_key sl) B)"
      using represents_sorted [OF rep] by (simp add: ks sorted_wrt_append)
    have vb: "valid (node_key sl b)"
      using represents_valid [OF rep] by (simp add: ks Cons)
    have "\<not> cmp (node_key sl b) k < 0"
      using hd_dropWhile [of "\<lambda>x. cmp x k < 0" ks] B Cons by (metis list.distinct(1) list.sel(1) list.simps(9))
    then have kb: "cmp k (node_key sl b) \<le> 0"
      using vb k by (simp add: cmp_le_iff)
    have right: "cmp k x \<noteq> 0" if "x \<in> set (map (node_key sl) bs)" for x
    proof -
      have "cmp (node_key sl b) x < 0" "valid x"
        using sorted that represents_valid [OF rep] by (auto simp: Cons ks)
      then have "cmp k x < 0"
        using kb vb k cmp_le_less_trans by blast
      then show ?thesis
        by simp
    qed
    have "Node_at sl b = Some (nodes sl ! b)"
      using inv_store(1) [OF inv, of b] Cons by (simp add: Node_at_Some)
    then show ?thesis
      using find left right by (auto simp: Contains_def ks Cons node_key_def)
  qed
qed

lemma Insert_duplicate:
  assumes rep: "represents cmp valid sl ks" and k: "valid k" and dup: "\<exists>x \<in> set ks. cmp k x = 0"
  shows "Insert cmp garbage sl k = None"
proof -
  obtain A B where search: "skiplist_search cmp valid sl A B"
    and "map (node_key sl) A = takeWhile (\<lambda>x. cmp x k < 0) ks"
    and "map (node_key sl) B = dropWhile (\<lambda>x. cmp x k < 0) ks"
    and below: "\<And>a. a \<in> set A \<Longrightarrow> cmp (node_key sl a) k < 0"
    and above: "\<And>b. b \<in> set B \<Longrightarrow> \<not> cmp (node_key sl b) k < 0"
    using represents_split [OF rep k] by blast
  note find = skiplist_search.FindGreaterOrEqual_result [OF search below above]
  obtain p1 where 1: "FindGreaterOrEqual cmp sl k [] = Some (first B None, p1)"
    using find [where prev = "[]"] by blast
  obtain p2 where 2: "FindGreaterOrEqual cmp sl k (replicate kMaxHeight None) = Some (first B None, p2)"
    using find [where prev = "replicate kMaxHeight None"] by blast
  have "Contains cmp sl k = Some True"
    using Contains_represents [OF rep k] dup by simp
  then obtain x node where "first B None = Some x" "Node_at sl x = Some node" "cmp k (key node) = 0"
    unfolding Contains_def 1 by (auto split: option.splits)
  then show ?thesis
    by (simp add: Insert_def 2)
qed

text \<open>The iterator.\<close>

lemma iter_atE:
  assumes "iter_at cmp valid sl ks it i"
  obtains order where "skiplist_inv cmp valid sl order" and "map (node_key sl) order = ks"
    and "i \<le> length ks" and "it = (if i < length ks then Some (order ! i) else None)"
    and "length order = length ks"
  using assms by (auto simp: iter_at_def)

lemma inv_first_level: "skiplist_inv cmp valid sl order \<Longrightarrow> lseg sl 0 (head # order) None"
  using inv_store(3) [of cmp valid sl order 0] level_0 [of cmp valid sl order order] by (simp add: kMaxHeight_def)

lemma Iter_key_at:
  assumes "iter_at cmp valid sl ks it i"
  shows "Iter_Valid it \<longleftrightarrow> i < length ks" and "i < length ks \<Longrightarrow> Iter_key sl it = Some (ks ! i)"
proof -
  obtain order where inv: "skiplist_inv cmp valid sl order" and ks: "map (node_key sl) order = ks"
    and it: "it = (if i < length ks then Some (order ! i) else None)" and len: "length order = length ks"
    using assms by (rule iter_atE)
  show "Iter_Valid it \<longleftrightarrow> i < length ks"
    by (simp add: it Iter_Valid_def)
  assume i: "i < length ks"
  have "order ! i < length (nodes sl)"
    using inv_store(1) [OF inv] i len by simp
  moreover have "ks ! i = node_key sl (order ! i)"
    using i unfolding ks [symmetric] by simp
  ultimately show "Iter_key sl it = Some (ks ! i)"
    using i by (simp add: it Iter_key_def Node_at_Some node_key_def)
qed

lemma Iter_Next_at:
  assumes "iter_at cmp valid sl ks it i" and "i < length ks"
  shows "\<exists>it'. Iter_Next sl it = Some it' \<and> iter_at cmp valid sl ks it' (Suc i)"
proof -
  obtain order where inv: "skiplist_inv cmp valid sl order" and ks: "map (node_key sl) order = ks"
    and it: "it = (if i < length ks then Some (order ! i) else None)" and len: "length order = length ks"
    using assms(1) by (rule iter_atE)
  have "head # order = (head # take i order) @ order ! i # drop (Suc i) order"
    using assms(2) len by (simp add: id_take_nth_drop [symmetric])
  then have "Next sl (order ! i) 0 = Some (first (drop (Suc i) order) None)"
    using inv_first_level [OF inv] by (metis lseg.simps(2) lseg_append)
  also have "first (drop (Suc i) order) None = (if Suc i < length ks then Some (order ! Suc i) else None)"
    using len by (cases "Suc i < length ks") (simp_all add: Cons_nth_drop_Suc [symmetric])
  finally show ?thesis
    using assms(2) inv ks len by (auto simp: it Iter_Next_def iter_at_def)
qed

lemma Iter_SeekToFirst_at:
  assumes "represents cmp valid sl ks"
  shows "\<exists>it. Iter_SeekToFirst sl = Some it \<and> iter_at cmp valid sl ks it 0"
proof -
  obtain order where inv: "skiplist_inv cmp valid sl order" and ks: "map (node_key sl) order = ks"
    using assms by (auto simp: represents_def)
  have "Next sl head 0 = Some (first order None)"
    using inv_first_level [OF inv] by simp
  then show ?thesis
    using inv ks by (cases order) (auto simp: Iter_SeekToFirst_def iter_at_def)
qed

lemma last_head_order:
  assumes "skiplist_inv cmp valid sl (A @ B)"
  shows "not_head (last (head # A)) = (if A = [] then None else Some (last A))"
proof -
  have "head \<notin> set A"
    using inv_store(2) [OF assms] by simp
  then show ?thesis
    by (cases A rule: rev_cases) (auto simp: not_head_def)
qed

lemma Iter_SeekToLast_at:
  assumes "represents cmp valid sl ks"
  shows "\<exists>it. Iter_SeekToLast sl = Some it \<and> iter_at cmp valid sl ks it (length ks - 1)"
proof -
  obtain order where inv: "skiplist_inv cmp valid sl order" and ks: "map (node_key sl) order = ks"
    using assms by (auto simp: represents_def)
  have "skiplist_search cmp valid sl order []"
    by unfold_locales (use inv in simp)
  then have "Iter_SeekToLast sl = Some (not_head (last (head # order)))"
    by (simp add: Iter_SeekToLast_def skiplist_search.FindLast_result)
  also have "not_head (last (head # order)) = (if order = [] then None else Some (last order))"
    using last_head_order [of sl order "[]"] inv by simp
  finally show ?thesis
    using inv ks by (auto simp: iter_at_def last_conv_nth)
qed

lemma Iter_Seek_at:
  assumes "represents cmp valid sl ks" and "valid k"
  shows "\<exists>it. Iter_Seek cmp sl k = Some it \<and>
    iter_at cmp valid sl ks it (length (takeWhile (\<lambda>x. cmp x k < 0) ks))"
proof -
  obtain A B prev where inv: "skiplist_inv cmp valid sl (A @ B)"
    and A: "map (node_key sl) A = takeWhile (\<lambda>x. cmp x k < 0) ks"
    and B: "map (node_key sl) B = dropWhile (\<lambda>x. cmp x k < 0) ks"
    and find: "FindGreaterOrEqual cmp sl k [] = Some (first B None, prev)"
    by (rule FindGreaterOrEqual_represents [OF assms])
  have len: "length (takeWhile (\<lambda>x. cmp x k < 0) ks) = length A" and ks: "map (node_key sl) (A @ B) = ks"
    by (simp_all add: A [symmetric]) (simp add: A B)
  have "first B None = (if length A < length ks then Some ((A @ B) ! length A) else None)"
    unfolding ks [symmetric] by (cases B) simp_all
  then show ?thesis
    using inv ks find unfolding len by (auto simp: Iter_Seek_def iter_at_def)
qed

lemma Iter_Prev_at:
  assumes it: "iter_at cmp valid sl ks it i" and i: "i < length ks"
  shows "\<exists>it'. Iter_Prev cmp sl it = Some it' \<and>
    iter_at cmp valid sl ks it' (if i = 0 then length ks else i - 1)"
proof -
  have rep: "represents cmp valid sl ks"
    using it by (auto simp: iter_at_def represents_def)
  have v: "valid (ks ! i)"
    using represents_valid [OF rep] i by simp
  obtain A B where inv: "skiplist_inv cmp valid sl (A @ B)"
    and A: "map (node_key sl) A = takeWhile (\<lambda>x. cmp x (ks ! i) < 0) ks"
    and B: "map (node_key sl) B = dropWhile (\<lambda>x. cmp x (ks ! i) < 0) ks"
    and find: "FindLessThan cmp sl (ks ! i) = Some (last (head # A))"
    using FindGreaterOrEqual_represents [OF rep v] by blast
  have ks: "map (node_key sl) (A @ B) = ks"
    by (simp add: A B)
  have "takeWhile (\<lambda>x. cmp x (ks ! i) < 0) ks = take i ks"
  proof (rule takeWhile_eq_take_P_nth)
    show "cmp (ks ! j) (ks ! i) < 0" if "j < i" "j < length ks" for j
      using represents_sorted [OF rep] that i by (simp add: sorted_wrt_iff_nth_less)
    show "\<not> cmp (ks ! i) (ks ! i) < 0" if "i < length ks"
      using cmp_refl [OF v] by simp
  qed
  then have len: "length A = i"
    using A i by (metis length_map length_take min.absorb4)
  have "Iter_Prev cmp sl it = Some (if A = [] then None else Some (last A))"
    using Iter_key_at(2) [OF it i] find last_head_order [OF inv] by (simp add: Iter_Prev_def del: last.simps)
  moreover have "iter_at cmp valid sl ks (if A = [] then None else Some (last A)) (if i = 0 then length ks else i - 1)"
    unfolding iter_at_def using inv ks len i
    by (intro exI [of _ "A @ B"]) (auto simp: last_conv_nth nth_append less_imp_diff_less)
  ultimately show ?thesis
    by blast
qed

end

section \<open>The list over the built-in comparator\<close>

text \<open>The state from which every search of a newly constructed list starts.\<close>

interpretation empty_list: skiplist_search Bytewise_Compare "\<lambda>_. True" "SkipList_new any_key" "[]" "[]"
  by (simp add: skiplist_search.intro skiplist_search_axioms.intro skiplist_inv_new bytewise.key_order_axioms)

text \<open>C7. Insertion refines insertion into a sorted list: for every comparator that orders the
  keys and every list that represents the sorted keys \<open>ks\<close>, inserting a key that is not there
  succeeds and represents the keys with \<open>k\<close> at its place, whatever is in the fresh memory and
  whatever height is drawn; inserting a key that is there fails the assertion.\<close>

theorem skiplist_Insert_refines:
  assumes "key_order cmp valid" and "represents cmp valid sl ks" and "valid k"
  shows "if \<exists>x \<in> set ks. cmp k x = 0 then Insert cmp garbage sl k = None
    else \<exists>sl'. Insert cmp garbage sl k = Some sl' \<and> represents cmp valid sl' (insert_sorted cmp k ks)"
proof -
  have "cmp x k \<noteq> 0" if "\<not> (\<exists>x \<in> set ks. cmp k x = 0)" "x \<in> set ks" for x
  proof -
    have "valid x"
      using key_order.represents_valid [OF assms(1,2) that(2)] .
    moreover have "cmp k x \<noteq> 0"
      using that by blast
    ultimately show ?thesis
      using key_order.cmp_swap [OF assms(1), of k x] key_order.cmp_swap [OF assms(1), of x k] assms(3) by auto
  qed
  then show ?thesis
    using key_order.Insert_represents [OF assms] key_order.Insert_duplicate [OF assms] by auto
qed

theorem skiplist_Insert_refines_witness:
  "\<exists>sl'. Insert Bytewise_Compare None (SkipList_new []) [7] = Some sl' \<and>
     represents Bytewise_Compare (\<lambda>_. True) sl' [[7]]"
  using skiplist_Insert_refines [OF bytewise.key_order_axioms represents_new, of "[7]" None "[]"]
  by (simp add: insert_sorted_def)

text \<open>C29. The searches and the iterator on a list that represents the keys \<open>ks\<close>:
  \<open>Contains\<close> decides membership; \<open>Seek\<close> stops at the first key that is not below its target,
  \<open>SeekToFirst\<close> and \<open>SeekToLast\<close> at the ends; at position \<open>i\<close> the iterator yields the \<open>i\<close>-th
  key, \<open>Next\<close> moves to the following and \<open>Prev\<close> to the preceding one or out of the list.\<close>

theorem skiplist_iterator_correct:
  assumes "key_order cmp valid" and "represents cmp valid sl ks" and "valid k"
  shows "Contains cmp sl k = Some (\<exists>x \<in> set ks. cmp k x = 0) \<and>
    (\<exists>it. Iter_Seek cmp sl k = Some it \<and>
       iter_at cmp valid sl ks it (length (takeWhile (\<lambda>x. cmp x k < 0) ks))) \<and>
    (\<exists>it. Iter_SeekToFirst sl = Some it \<and> iter_at cmp valid sl ks it 0) \<and>
    (\<exists>it. Iter_SeekToLast sl = Some it \<and> iter_at cmp valid sl ks it (length ks - 1)) \<and>
    (\<forall>it i. iter_at cmp valid sl ks it i \<longrightarrow>
       (Iter_Valid it \<longleftrightarrow> i < length ks) \<and>
       (i < length ks \<longrightarrow>
          Iter_key sl it = Some (ks ! i) \<and>
          (\<exists>it'. Iter_Next sl it = Some it' \<and> iter_at cmp valid sl ks it' (Suc i)) \<and>
          (\<exists>it'. Iter_Prev cmp sl it = Some it' \<and>
             iter_at cmp valid sl ks it' (if i = 0 then length ks else i - 1))))"
  using key_order.Contains_represents [OF assms] key_order.Iter_Seek_at [OF assms]
    key_order.Iter_SeekToFirst_at [OF assms(1,2)] key_order.Iter_SeekToLast_at [OF assms(1,2)]
    key_order.Iter_key_at [OF assms(1)] key_order.Iter_Next_at [OF assms(1)] key_order.Iter_Prev_at [OF assms(1)]
  by blast

theorem skiplist_iterator_correct_witness:
  "\<exists>sl it. Insert Bytewise_Compare None (SkipList_new []) [7] = Some sl \<and>
     Contains Bytewise_Compare sl [7] = Some True \<and>
     Iter_SeekToFirst sl = Some it \<and> Iter_Valid it \<and> Iter_key sl it = Some [7]"
proof -
  obtain sl where sl: "Insert Bytewise_Compare None (SkipList_new []) [7] = Some sl"
    and rep: "represents Bytewise_Compare (\<lambda>_. True) sl [[7]]"
    using bytewise.Insert_represents [OF represents_new, of "[7]" None "[]"] by (auto simp: insert_sorted_def)
  from skiplist_iterator_correct [OF bytewise.key_order_axioms rep, of "[7]"]
  show ?thesis
    using sl by (auto simp: bytewise.cmp_refl)
qed

end
