(* ===== verification/Arena.thy ===== *)
theory Arena
  imports Prelude
begin

text \<open>
  The arena allocator (\<^verbatim>\<open>util/arena.h\<close>, \<^verbatim>\<open>util/arena.cpp\<close>).

  Addresses are natural numbers, 0 the null pointer; \<open>size_t\<close> sums that may wrap are taken
  modulo \<open>2 ^ 64\<close>.  An operation calls \<open>new char[n]\<close> at most once; the address that this call
  returns is the argument \<open>fresh\<close>, and \<open>new_ok\<close> is what the language promises of it: the array
  overlaps no array that is still allocated and is aligned for every fundamental type.  With
  each pointer of \<open>blocks_\<close> the model keeps the size of its array, which only the run-time
  system knows.  A failed assertion is \<^const>\<open>None\<close>.
\<close>

unbundle bit_operations_syntax

section \<open>State and operations\<close>

definition kBlockSize :: nat where
  "kBlockSize = 4096"

record Arena =
  alloc_ptr :: nat
  alloc_bytes_remaining :: nat
  blocks :: "(nat \<times> nat) list"
  blocks_memory :: nat

definition Arena_new :: Arena where
  "Arena_new = \<lparr>alloc_ptr = 0, alloc_bytes_remaining = 0, blocks = [], blocks_memory = 0\<rparr>"

text \<open>The destructor: the arrays it deletes, in order.\<close>

definition Arena_delete :: "Arena \<Rightarrow> nat list" where
  "Arena_delete a = map (\<lambda>i. fst (blocks a ! i)) [0..<length (blocks a)]"

definition MemoryUsage :: "nat \<Rightarrow> Arena \<Rightarrow> nat" where
  "MemoryUsage capacity a = (blocks_memory a + capacity * 8) mod 2 ^ 64"

definition AllocateNewBlock :: "nat \<Rightarrow> nat \<Rightarrow> Arena \<Rightarrow> nat \<times> Arena" where
  "AllocateNewBlock fresh block_bytes a =
     (fresh, a\<lparr>blocks_memory := (blocks_memory a + block_bytes) mod 2 ^ 64,
               blocks := blocks a @ [(fresh, block_bytes)]\<rparr>)"

definition AllocateFallback :: "nat \<Rightarrow> nat \<Rightarrow> Arena \<Rightarrow> nat \<times> Arena" where
  "AllocateFallback fresh bytes a =
     (if bytes > kBlockSize div 4 then AllocateNewBlock fresh bytes a
      else
        let (p, a) = AllocateNewBlock fresh kBlockSize a;
            a = a\<lparr>alloc_ptr := p, alloc_bytes_remaining := kBlockSize\<rparr>;
            result = alloc_ptr a
        in (result, a\<lparr>alloc_ptr := alloc_ptr a + bytes,
                      alloc_bytes_remaining := alloc_bytes_remaining a - bytes\<rparr>))"

definition Allocate :: "nat \<Rightarrow> nat \<Rightarrow> Arena \<Rightarrow> (nat \<times> Arena) option" where
  "Allocate fresh bytes a =
     (if \<not> bytes > 0 then None
      else if bytes \<le> alloc_bytes_remaining a then
        Some (alloc_ptr a, a\<lparr>alloc_ptr := alloc_ptr a + bytes,
                             alloc_bytes_remaining := alloc_bytes_remaining a - bytes\<rparr>)
      else Some (AllocateFallback fresh bytes a))"

definition align :: nat where
  "align = 8"

definition AllocateAligned :: "nat \<Rightarrow> nat \<Rightarrow> Arena \<Rightarrow> (nat \<times> Arena) option" where
  "AllocateAligned fresh bytes a =
     (if align AND (align - 1) \<noteq> 0 then None
      else
        let current_mod = alloc_ptr a AND (align - 1);
            slop = (if current_mod = 0 then 0 else align - current_mod);
            needed = (bytes + slop) mod 2 ^ 64;
            (result, a) =
              (if needed \<le> alloc_bytes_remaining a then
                 (alloc_ptr a + slop, a\<lparr>alloc_ptr := alloc_ptr a + needed,
                    alloc_bytes_remaining := alloc_bytes_remaining a - needed\<rparr>)
               else AllocateFallback fresh bytes a)
        in if result AND (align - 1) = 0 then Some (result, a) else None)"

section \<open>The interface\<close>

text \<open>The bytes of a region, given by its address and its length.\<close>

definition region :: "nat \<times> nat \<Rightarrow> nat set" where
  "region r = {fst r ..< fst r + snd r}"

definition disjoint_regions :: "(nat \<times> nat) list \<Rightarrow> bool" where
  "disjoint_regions rs \<longleftrightarrow> sorted_wrt (\<lambda>r s. region r \<inter> region s = {}) rs"

text \<open>
  What the skip list and the memtable rely on: memory that has been handed out stays theirs.
  \<open>owned a rs\<close> says that the regions \<open>rs\<close> have been handed out by the allocator in state \<open>a\<close>.
\<close>

locale allocator =
  fixes alloc :: "nat \<Rightarrow> nat \<Rightarrow> 'a \<Rightarrow> (nat \<times> 'a) option"
    and owned :: "'a \<Rightarrow> (nat \<times> nat) list \<Rightarrow> bool"
    and grant :: "'a \<Rightarrow> nat \<Rightarrow> nat \<Rightarrow> bool"
  assumes owned_disjoint: "owned a rs \<Longrightarrow> disjoint_regions rs"
    and alloc_owned: "owned a rs \<Longrightarrow> 0 < n \<Longrightarrow> n < 2 ^ 63 \<Longrightarrow> grant a fresh n \<Longrightarrow>
      \<exists>p a'. alloc fresh n a = Some (p, a') \<and> owned a' ((p, n) # rs)"
begin

lemma alloc_disjoint:
  assumes "owned a rs" and "0 < n" and "n < 2 ^ 63" and "grant a fresh n"
  obtains p a' where "alloc fresh n a = Some (p, a')" and "owned a' ((p, n) # rs)"
    and "\<And>r. r \<in> set rs \<Longrightarrow> region (p, n) \<inter> region r = {}"
  using alloc_owned [OF assms] owned_disjoint by (fastforce simp: disjoint_regions_def)

end

section \<open>The invariant\<close>

text \<open>The free part of the current block and the regions handed out do not overlap and lie
  inside blocks; the blocks do not overlap.\<close>

definition inside_block :: "Arena \<Rightarrow> nat \<times> nat \<Rightarrow> bool" where
  "inside_block a r \<longleftrightarrow> region r = {} \<or> (\<exists>b \<in> set (blocks a). region r \<subseteq> region b)"

definition free_region :: "Arena \<Rightarrow> nat \<times> nat" where
  "free_region a = (alloc_ptr a, alloc_bytes_remaining a)"

definition arena_inv :: "Arena \<Rightarrow> (nat \<times> nat) list \<Rightarrow> bool" where
  "arena_inv a rs \<longleftrightarrow>
     disjoint_regions (free_region a # rs) \<and> list_all (inside_block a) (free_region a # rs) \<and>
     disjoint_regions (blocks a) \<and> blocks_memory a = sum_list (map snd (blocks a)) mod 2 ^ 64 \<and>
     alloc_bytes_remaining a \<le> kBlockSize"

definition new_ok :: "Arena \<Rightarrow> nat \<Rightarrow> nat \<Rightarrow> bool" where
  "new_ok a fresh n \<longleftrightarrow>
     fresh mod 8 = 0 \<and>
     list_all (\<lambda>b. region (fresh, if n > kBlockSize div 4 then n else kBlockSize) \<inter> region b = {}) (blocks a)"

lemma inside_block_update [simp]:
  "inside_block (a\<lparr>alloc_ptr := p, alloc_bytes_remaining := n\<rparr>) = inside_block a"
  by (simp add: inside_block_def fun_eq_iff)

lemma free_region_update [simp]: "free_region (a\<lparr>alloc_ptr := p, alloc_bytes_remaining := n\<rparr>) = (p, n)"
  by (simp add: free_region_def)

lemma region_0 [simp]: "region (p, 0) = {}"
  by (simp add: region_def)

lemma disjoint_regions_Cons:
  "disjoint_regions (r # rs) \<longleftrightarrow> (\<forall>s \<in> set rs. region r \<inter> region s = {}) \<and> disjoint_regions rs"
  by (simp add: disjoint_regions_def)

lemma arena_inv_new: "arena_inv Arena_new []"
  by (simp add: arena_inv_def Arena_new_def disjoint_regions_def inside_block_def free_region_def)

text \<open>Cutting a region off the free part.\<close>

lemma arena_inv_cut:
  assumes inv: "arena_inv a rs" and n: "k + n \<le> alloc_bytes_remaining a"
  shows "arena_inv (a\<lparr>alloc_ptr := alloc_ptr a + (n + k), alloc_bytes_remaining := alloc_bytes_remaining a - (n + k)\<rparr>)
    ((alloc_ptr a + k, n) # rs)"
proof -
  let ?free = "free_region a" and ?new = "(alloc_ptr a + k, n)"
    and ?rest = "(alloc_ptr a + (n + k), alloc_bytes_remaining a - (n + k))"
  have sub: "region ?new \<subseteq> region ?free" "region ?rest \<subseteq> region ?free"
    using n by (auto simp: region_def free_region_def)
  have "region ?rest \<inter> region ?new = {}"
    by (auto simp: region_def)
  then have "disjoint_regions (?rest # ?new # rs)"
    using inv sub unfolding arena_inv_def disjoint_regions_Cons by (simp, blast)
  moreover have "inside_block a ?rest" "inside_block a ?new"
    using inv sub unfolding arena_inv_def inside_block_def by (simp, blast)+
  moreover have "alloc_bytes_remaining a - (n + k) \<le> kBlockSize"
    using inv by (simp add: arena_inv_def le_diff_conv)
  ultimately show ?thesis
    using inv by (simp add: arena_inv_def)
qed

text \<open>A new block.\<close>

lemma disjoint_regions_snoc:
  "disjoint_regions (bs @ [b]) \<longleftrightarrow> disjoint_regions bs \<and> (\<forall>c \<in> set bs. region c \<inter> region b = {})"
  by (simp add: disjoint_regions_def sorted_wrt_append)

lemma inside_block_new: "inside_block a r \<Longrightarrow> inside_block (snd (AllocateNewBlock fresh n a)) r"
  by (auto simp: inside_block_def AllocateNewBlock_def)

lemma new_block_disjoint:
  assumes "inside_block a r" and "\<forall>b \<in> set (blocks a). region (fresh, n) \<inter> region b = {}"
  shows "region (fresh, n) \<inter> region r = {}"
  using assms by (auto simp: inside_block_def)

lemma arena_inv_new_block:
  assumes inv: "arena_inv a rs" and new: "\<forall>b \<in> set (blocks a). region (fresh, n) \<inter> region b = {}"
  shows "arena_inv (snd (AllocateNewBlock fresh n a)) ((fresh, n) # rs)"
proof -
  let ?a = "snd (AllocateNewBlock fresh n a)"
  have free: "free_region ?a = free_region a"
    by (simp add: AllocateNewBlock_def free_region_def)
  have ins: "list_all (inside_block a) (free_region a # rs)"
    using inv by (simp add: arena_inv_def)
  have "disjoint_regions (free_region ?a # (fresh, n) # rs)"
    using inv new_block_disjoint [OF _ new] ins unfolding free arena_inv_def disjoint_regions_Cons list_all_iff
    by (auto simp: Int_commute)
  moreover have "list_all (inside_block ?a) (free_region ?a # (fresh, n) # rs)"
    using ins inside_block_new unfolding free by (auto simp: list_all_iff inside_block_def AllocateNewBlock_def)
  moreover have "disjoint_regions (blocks ?a)"
    using inv new by (auto simp: arena_inv_def AllocateNewBlock_def disjoint_regions_snoc Int_commute)
  ultimately show ?thesis
    using inv by (simp add: arena_inv_def AllocateNewBlock_def mod_add_left_eq)
qed

lemma arena_inv_switch:
  assumes "arena_inv a (r # rs)" and "snd r \<le> kBlockSize"
  shows "arena_inv (a\<lparr>alloc_ptr := fst r, alloc_bytes_remaining := snd r\<rparr>) rs"
  using assms by (simp add: arena_inv_def disjoint_regions_Cons)

lemma AllocateFallback_inv:
  assumes inv: "arena_inv a rs" and new: "new_ok a fresh n"
  shows "arena_inv (snd (AllocateFallback fresh n a)) ((fresh, n) # rs)"
    and "fst (AllocateFallback fresh n a) = fresh"
proof -
  let ?n = "if n > kBlockSize div 4 then n else kBlockSize"
  have *: "arena_inv (snd (AllocateNewBlock fresh ?n a)) ((fresh, ?n) # rs)"
    by (rule arena_inv_new_block [OF inv]) (use new in \<open>simp add: new_ok_def list_all_iff\<close>)
  show "arena_inv (snd (AllocateFallback fresh n a)) ((fresh, n) # rs)"
  proof (cases "n > kBlockSize div 4")
    case False
    let ?a = "snd (AllocateNewBlock fresh kBlockSize a)\<lparr>alloc_ptr := fresh, alloc_bytes_remaining := kBlockSize\<rparr>"
    have "arena_inv ?a rs"
      using arena_inv_switch [of _ "(fresh, kBlockSize)"] * False by simp
    from arena_inv_cut [OF this, of 0 n] show ?thesis
      using False by (simp add: AllocateFallback_def AllocateNewBlock_def kBlockSize_def)
  qed (use * in \<open>simp add: AllocateFallback_def\<close>)
  show "fst (AllocateFallback fresh n a) = fresh"
    by (simp add: AllocateFallback_def AllocateNewBlock_def)
qed

lemma and_align: "n AND (align - 1) = n mod 8"
proof -
  have "n AND (align - 1) = take_bit 3 n"
    by (simp add: align_def take_bit_eq_mask mask_eq_exp_minus_1)
  then show ?thesis
    by (simp add: take_bit_eq_mod)
qed

lemma Allocate_inv:
  assumes "arena_inv a rs" and "0 < n" and "new_ok a fresh n"
  shows "\<exists>p a'. Allocate fresh n a = Some (p, a') \<and> arena_inv a' ((p, n) # rs)"
  using AllocateFallback_inv [OF assms(1,3)] arena_inv_cut [OF assms(1), of 0 n] assms(2)
  by (cases "n \<le> alloc_bytes_remaining a") (auto simp: Allocate_def prod_eq_iff)

lemma AllocateAligned_inv:
  assumes inv: "arena_inv a rs" and n: "n < 2 ^ 63" and new: "new_ok a fresh n"
  shows "\<exists>p a'. AllocateAligned fresh n a = Some (p, a') \<and> arena_inv a' ((p, n) # rs) \<and> p mod 8 = 0"
proof -
  define slop where "slop = (if alloc_ptr a mod 8 = 0 then 0 else 8 - alloc_ptr a mod 8)"
  have slop: "slop < 8" "(alloc_ptr a + slop) mod 8 = 0"
    unfolding slop_def by presburger+
  then have needed: "(n + slop) mod 2 ^ 64 = n + slop"
    using n by simp
  have slop': "(if alloc_ptr a mod 8 = 0 then 0 else align - alloc_ptr a mod 8) = slop"
    by (simp add: slop_def align_def)
  have unfold: "AllocateAligned fresh n a =
     (let (result, a) = (if n + slop \<le> alloc_bytes_remaining a then
                 (alloc_ptr a + slop, a\<lparr>alloc_ptr := alloc_ptr a + (n + slop),
                    alloc_bytes_remaining := alloc_bytes_remaining a - (n + slop)\<rparr>)
               else AllocateFallback fresh n a)
      in if result mod 8 = 0 then Some (result, a) else None)"
    unfolding AllocateAligned_def Let_def and_align slop' needed
    by (simp add: align_def)
  show ?thesis
  proof (cases "n + slop \<le> alloc_bytes_remaining a")
    case True
    then show ?thesis
      using arena_inv_cut [OF inv, of slop n] slop by (simp add: unfold add.commute)
  next
    case False
    then show ?thesis
      using AllocateFallback_inv [OF inv new] new by (auto simp: unfold new_ok_def split: prod.split)
  qed
qed

interpretation arena: allocator Allocate arena_inv new_ok
  by unfold_locales (use Allocate_inv in \<open>auto simp: arena_inv_def disjoint_regions_Cons\<close>)

interpretation arena_aligned: allocator AllocateAligned arena_inv new_ok
  by unfold_locales (use AllocateAligned_inv in \<open>fastforce simp: arena_inv_def disjoint_regions_Cons\<close>)+

text \<open>C30. The arena is safe: whatever addresses \<open>new\<close> returns, an allocation succeeds, the region
  it hands out overlaps none of the regions handed out before and lies inside a block of the
  arena, and the account of the memory in blocks is exact; \<open>AllocateAligned\<close> moreover returns an
  address that is a multiple of eight.\<close>

theorem arena_safe:
  assumes "arena_inv a rs" and "0 < n" and "n < 2 ^ 63" and "new_ok a fresh n"
  shows "(\<exists>p a'. Allocate fresh n a = Some (p, a') \<and> arena_inv a' ((p, n) # rs) \<and>
      (\<forall>r \<in> set rs. region (p, n) \<inter> region r = {}) \<and> (\<exists>b \<in> set (blocks a'). region (p, n) \<subseteq> region b)) \<and>
    (\<exists>p a'. AllocateAligned fresh n a = Some (p, a') \<and> arena_inv a' ((p, n) # rs) \<and>
      (\<forall>r \<in> set rs. region (p, n) \<inter> region r = {}) \<and> (\<exists>b \<in> set (blocks a'). region (p, n) \<subseteq> region b) \<and>
      p mod 8 = 0)"
proof -
  have inside: "\<exists>b \<in> set (blocks a'). region (p, n) \<subseteq> region b" if "arena_inv a' ((p, n) # rs)" for a' p
    using that assms(2) by (auto simp: arena_inv_def inside_block_def region_def)
  have 1: "\<exists>p a'. Allocate fresh n a = Some (p, a') \<and> arena_inv a' ((p, n) # rs) \<and>
      (\<forall>r \<in> set rs. region (p, n) \<inter> region r = {})"
    using arena.alloc_disjoint [OF assms] by metis
  have 2: "\<exists>p a'. AllocateAligned fresh n a = Some (p, a') \<and> arena_inv a' ((p, n) # rs) \<and>
      (\<forall>r \<in> set rs. region (p, n) \<inter> region r = {})"
    using arena_aligned.alloc_disjoint [OF assms] by metis
  show ?thesis
    using 1 2 inside AllocateAligned_inv [OF assms(1,3,4)] by fastforce
qed

theorem arena_safe_witness:
  "\<exists>p a'. AllocateAligned 8192 100 (snd (the (Allocate 4096 13 Arena_new))) = Some (p, a') \<and>
     arena_inv a' [(p, 100), (4096, 13)] \<and> p mod 8 = 0"
proof -
  let ?a = "snd (the (Allocate 4096 13 Arena_new))"
  have "new_ok Arena_new 4096 13"
    by (simp add: new_ok_def Arena_new_def)
  then have "arena_inv ?a [(4096, 13)]"
    using Allocate_inv [OF arena_inv_new, of 13 4096]
    by (auto simp: Allocate_def AllocateFallback_def AllocateNewBlock_def Arena_new_def kBlockSize_def)
  moreover have "new_ok ?a 8192 100"
    by (simp add: new_ok_def Allocate_def AllocateFallback_def AllocateNewBlock_def Arena_new_def kBlockSize_def
        region_def)
  ultimately show ?thesis
    using arena_safe [of ?a "[(4096, 13)]" 100 8192] by auto
qed

text \<open>The destructor frees every block once.\<close>

lemma Arena_delete_blocks: "Arena_delete a = map fst (blocks a)"
  unfolding Arena_delete_def by (subst (3) map_nth [symmetric]) (simp add: o_def)

end
