(* ===== verification/Iterators.thy ===== *)
theory Iterators
  imports Comparator Status
begin

text \<open>
  The \<open>Iterator\<close> interface (\<^verbatim>\<open>include/leveldb/iterator.h\<close>), its base class and the empty iterators
  (\<^verbatim>\<open>table/iterator.cpp\<close>) and the caching wrapper (\<^verbatim>\<open>table/iterator_wrapper.h\<close>).

  A class that implements the interface is a record of its virtual functions on the state \<open>'s\<close>
  of its objects; an operation yields \<^const>\<open>None\<close> when an assertion fails.  What the comments of
  the interface promise is the locale \<open>iterator\<close>: an iterator is at a position in a list of
  pairs sorted by key, and one past the last stands for "not valid".
\<close>

section \<open>The interface\<close>

record 's Iterator =
  it_Valid :: "'s \<Rightarrow> bool"
  it_SeekToFirst :: "'s \<Rightarrow> 's option"
  it_SeekToLast :: "'s \<Rightarrow> 's option"
  it_Seek :: "bytes \<Rightarrow> 's \<Rightarrow> 's option"
  it_Next :: "'s \<Rightarrow> 's option"
  it_Prev :: "'s \<Rightarrow> 's option"
  it_key :: "'s \<Rightarrow> bytes option"
  it_value :: "'s \<Rightarrow> bytes option"
  it_status :: "'s \<Rightarrow> Status"

section \<open>Cleanup functions\<close>

text \<open>\<open>cleanup_\<close> is the embedded node; the further nodes hang off it.  A registered triple is an
  action \<open>'c\<close>, and deleting the iterator runs the actions in the order of the list below.\<close>

record 'c Cleanup =
  cleanup_function :: "'c option"
  cleanup_next :: "'c list"

definition Iterator_base :: "'c Cleanup" where
  "Iterator_base = \<lparr>cleanup_function = None, cleanup_next = []\<rparr>"

definition RegisterCleanup :: "'c \<Rightarrow> 'c Cleanup \<Rightarrow> 'c Cleanup" where
  "RegisterCleanup func c =
     (if cleanup_function c = None then c\<lparr>cleanup_function := Some func\<rparr>
      else c\<lparr>cleanup_next := func # cleanup_next c\<rparr>)"

fun run_next :: "'c list \<Rightarrow> 'c list" where
  "run_next [] = []"
| "run_next (c # next) = c # run_next next"

definition Iterator_delete :: "'c Cleanup \<Rightarrow> 'c list" where
  "Iterator_delete c =
     (case cleanup_function c of None \<Rightarrow> [] | Some f \<Rightarrow> f # run_next (cleanup_next c))"

section \<open>Empty iterators\<close>

definition EmptyIterator :: "Status Iterator" where
  "EmptyIterator =
     \<lparr>it_Valid = (\<lambda>_. False), it_SeekToFirst = Some, it_SeekToLast = Some, it_Seek = (\<lambda>_. Some),
      it_Next = (\<lambda>_. None), it_Prev = (\<lambda>_. None), it_key = (\<lambda>_. None), it_value = (\<lambda>_. None),
      it_status = (\<lambda>s. s)\<rparr>"

definition NewEmptyIterator :: Status where
  "NewEmptyIterator = OK"

definition NewErrorIterator :: "Status \<Rightarrow> Status" where
  "NewErrorIterator s = s"

section \<open>IteratorWrapper\<close>

record 's IteratorWrapper =
  witer :: "'s option"
  wvalid :: bool
  wkey :: bytes

definition Wrapper_null :: "'s IteratorWrapper" where
  "Wrapper_null = \<lparr>witer = None, wvalid = False, wkey = []\<rparr>"

text \<open>\<open>Update()\<close> after the underlying iterator has become \<open>s\<close>.\<close>

definition Wrapper_Update :: "'s Iterator \<Rightarrow> 's \<Rightarrow> 's IteratorWrapper \<Rightarrow> 's IteratorWrapper option" where
  "Wrapper_Update ops s w =
     (if it_Valid ops s then
        (case it_key ops s of
           None \<Rightarrow> None
         | Some k \<Rightarrow> Some \<lparr>witer = Some s, wvalid = True, wkey = k\<rparr>)
      else Some (w\<lparr>witer := Some s, wvalid := False\<rparr>))"

definition Wrapper_Set :: "'s Iterator \<Rightarrow> 's option \<Rightarrow> 's IteratorWrapper \<Rightarrow> 's IteratorWrapper option" where
  "Wrapper_Set ops it w =
     (case it of
        None \<Rightarrow> Some (w\<lparr>witer := None, wvalid := False\<rparr>)
      | Some s \<Rightarrow> Wrapper_Update ops s w)"

definition Wrapper_new :: "'s Iterator \<Rightarrow> 's option \<Rightarrow> 's IteratorWrapper option" where
  "Wrapper_new ops it = Wrapper_Set ops it Wrapper_null"

definition Wrapper_Valid :: "'s IteratorWrapper \<Rightarrow> bool" where
  "Wrapper_Valid w = wvalid w"

definition Wrapper_key :: "'s IteratorWrapper \<Rightarrow> bytes option" where
  "Wrapper_key w = (if wvalid w then Some (wkey w) else None)"

definition Wrapper_value :: "'s Iterator \<Rightarrow> 's IteratorWrapper \<Rightarrow> bytes option" where
  "Wrapper_value ops w = (if wvalid w then Option.bind (witer w) (it_value ops) else None)"

definition Wrapper_status :: "'s Iterator \<Rightarrow> 's IteratorWrapper \<Rightarrow> Status option" where
  "Wrapper_status ops w = map_option (it_status ops) (witer w)"

text \<open>\<open>Next\<close>, \<open>Prev\<close>, \<open>Seek\<close>, \<open>SeekToFirst\<close> and \<open>SeekToLast\<close> move the underlying iterator and update.\<close>

definition Wrapper_move ::
  "'s Iterator \<Rightarrow> ('s \<Rightarrow> 's option) \<Rightarrow> 's IteratorWrapper \<Rightarrow> 's IteratorWrapper option" where
  "Wrapper_move ops f w =
     (case witer w of
        None \<Rightarrow> None
      | Some s \<Rightarrow> (case f s of None \<Rightarrow> None | Some s' \<Rightarrow> Wrapper_Update ops s' w))"

definition Wrapper_Next :: "'s Iterator \<Rightarrow> 's IteratorWrapper \<Rightarrow> 's IteratorWrapper option" where
  "Wrapper_Next ops w = Wrapper_move ops (it_Next ops) w"

definition Wrapper_Prev :: "'s Iterator \<Rightarrow> 's IteratorWrapper \<Rightarrow> 's IteratorWrapper option" where
  "Wrapper_Prev ops w = Wrapper_move ops (it_Prev ops) w"

definition Wrapper_Seek :: "'s Iterator \<Rightarrow> bytes \<Rightarrow> 's IteratorWrapper \<Rightarrow> 's IteratorWrapper option" where
  "Wrapper_Seek ops k w = Wrapper_move ops (it_Seek ops k) w"

definition Wrapper_SeekToFirst :: "'s Iterator \<Rightarrow> 's IteratorWrapper \<Rightarrow> 's IteratorWrapper option" where
  "Wrapper_SeekToFirst ops w = Wrapper_move ops (it_SeekToFirst ops) w"

definition Wrapper_SeekToLast :: "'s Iterator \<Rightarrow> 's IteratorWrapper \<Rightarrow> 's IteratorWrapper option" where
  "Wrapper_SeekToLast ops w = Wrapper_move ops (it_SeekToLast ops) w"

text \<open>The wrapper in the form of the interface (for a wrapper that holds an iterator).\<close>

definition WrapperIterator :: "'s Iterator \<Rightarrow> 's IteratorWrapper Iterator" where
  "WrapperIterator ops =
     \<lparr>it_Valid = Wrapper_Valid, it_SeekToFirst = Wrapper_SeekToFirst ops, it_SeekToLast = Wrapper_SeekToLast ops,
      it_Seek = Wrapper_Seek ops, it_Next = Wrapper_Next ops, it_Prev = Wrapper_Prev ops,
      it_key = Wrapper_key, it_value = Wrapper_value ops,
      it_status = (\<lambda>w. case Wrapper_status ops w of Some s \<Rightarrow> s | None \<Rightarrow> OK)\<rparr>"

section \<open>The contract\<close>

text \<open>The number of entries before the first key that is not below \<open>k\<close>, and the position before
  position \<open>i\<close>, one past the end when there is none.\<close>

definition seek_pos :: "('k \<Rightarrow> 'k \<Rightarrow> int) \<Rightarrow> 'k \<Rightarrow> ('k \<times> 'v) list \<Rightarrow> nat" where
  "seek_pos cmp k kvs = length (takeWhile (\<lambda>kv. cmp (fst kv) k < 0) kvs)"

definition prev_pos :: "nat \<Rightarrow> 'a list \<Rightarrow> nat" where
  "prev_pos i kvs = (if i = 0 then length kvs else i - 1)"

definition sorted_keys :: "('k \<Rightarrow> 'k \<Rightarrow> int) \<Rightarrow> ('k \<Rightarrow> bool) \<Rightarrow> ('k \<times> 'v) list \<Rightarrow> bool" where
  "sorted_keys cmp valid kvs \<longleftrightarrow>
     sorted_wrt (\<lambda>a b. cmp (fst a) (fst b) < 0) kvs \<and> list_all (\<lambda>kv. valid (fst kv)) kvs"

text \<open>\<open>at s kvs i\<close>: the iterator \<open>s\<close> yields the pairs \<open>kvs\<close> and stands at position \<open>i\<close>.\<close>

locale iterator = key_order cmp valid
  for cmp :: "bytes \<Rightarrow> bytes \<Rightarrow> int" and valid :: "bytes \<Rightarrow> bool" +
  fixes ops :: "'s Iterator" and at :: "'s \<Rightarrow> (bytes \<times> bytes) list \<Rightarrow> nat \<Rightarrow> bool"
  assumes at_sorted: "at s kvs i \<Longrightarrow> sorted_keys cmp valid kvs"
    and at_le: "at s kvs i \<Longrightarrow> i \<le> length kvs"
    and Valid_at: "at s kvs i \<Longrightarrow> it_Valid ops s \<longleftrightarrow> i < length kvs"
    and key_at: "at s kvs i \<Longrightarrow> i < length kvs \<Longrightarrow> it_key ops s = Some (fst (kvs ! i))"
    and value_at: "at s kvs i \<Longrightarrow> i < length kvs \<Longrightarrow> it_value ops s = Some (snd (kvs ! i))"
    and SeekToFirst_at: "at s kvs i \<Longrightarrow> \<exists>s'. it_SeekToFirst ops s = Some s' \<and> at s' kvs 0"
    and SeekToLast_at: "at s kvs i \<Longrightarrow> \<exists>s'. it_SeekToLast ops s = Some s' \<and> at s' kvs (length kvs - 1)"
    and Seek_at: "at s kvs i \<Longrightarrow> valid k \<Longrightarrow> \<exists>s'. it_Seek ops k s = Some s' \<and> at s' kvs (seek_pos cmp k kvs)"
    and Next_at: "at s kvs i \<Longrightarrow> i < length kvs \<Longrightarrow> \<exists>s'. it_Next ops s = Some s' \<and> at s' kvs (Suc i)"
    and Prev_at: "at s kvs i \<Longrightarrow> i < length kvs \<Longrightarrow> \<exists>s'. it_Prev ops s = Some s' \<and> at s' kvs (prev_pos i kvs)"
    and status_at: "at s kvs i \<Longrightarrow> it_status ops s = OK"

text \<open>A client that scans from the current position, at most \<open>n\<close> entries.\<close>

fun scan :: "'s Iterator \<Rightarrow> nat \<Rightarrow> 's \<Rightarrow> (bytes \<times> bytes) list option" where
  "scan ops 0 s = Some []"
| "scan ops (Suc n) s =
     (if it_Valid ops s then
        (case (it_key ops s, it_value ops s, it_Next ops s) of
           (Some k, Some v, Some s') \<Rightarrow> map_option (Cons (k, v)) (scan ops n s')
         | _ \<Rightarrow> None)
      else Some [])"

context iterator
begin

lemma scan_at: "at s kvs i \<Longrightarrow> scan ops n s = Some (take n (drop i kvs))"
proof (induction n arbitrary: s i)
  case (Suc n)
  show ?case
  proof (cases "i < length kvs")
    case True
    obtain s' where "it_Next ops s = Some s'" "at s' kvs (Suc i)"
      using Next_at [OF Suc.prems True] by blast
    then show ?thesis
      using True Valid_at [OF Suc.prems] key_at [OF Suc.prems True] value_at [OF Suc.prems True] Suc.IH [of s' "Suc i"]
      by (simp add: drop_Suc_nth)
  qed (use Valid_at [OF Suc.prems] in simp)
qed simp

text \<open>Seeking a key and reading the entry there is looking the key up.\<close>

lemma seek_pos_hit:
  assumes "sorted_keys cmp valid kvs" and "i < length kvs" and "cmp (fst (kvs ! i)) k = 0" and "valid k"
  shows "seek_pos cmp k kvs = i"
proof -
  have sorted: "sorted_wrt (\<lambda>a b. cmp (fst a) (fst b) < 0) kvs" and vk: "\<And>j. j < length kvs \<Longrightarrow> valid (fst (kvs ! j))"
    using assms(1) by (auto simp: sorted_keys_def list_all_length)
  have "cmp (fst (kvs ! j)) k < 0" if "j < i" for j
    using sorted_wrt_nth_less [OF sorted that assms(2)] cmp_less_le_trans [of "fst (kvs ! j)" "fst (kvs ! i)" k]
      vk assms that by simp
  then have "takeWhile (\<lambda>kv. cmp (fst kv) k < 0) kvs = take i kvs"
    using assms(3) by (intro takeWhile_eq_take_P_nth) simp_all
  then show ?thesis
    using assms(2) by (simp add: seek_pos_def)
qed

end

section \<open>Implementations\<close>

text \<open>The wrapper behaves as the iterator it wraps.\<close>

definition wrapper_at ::
  "'s Iterator \<Rightarrow> ('s \<Rightarrow> (bytes \<times> bytes) list \<Rightarrow> nat \<Rightarrow> bool) \<Rightarrow> 's IteratorWrapper \<Rightarrow> (bytes \<times> bytes) list \<Rightarrow> nat \<Rightarrow> bool" where
  "wrapper_at ops at w kvs i \<longleftrightarrow>
     (\<exists>s. witer w = Some s \<and> at s kvs i \<and> wvalid w = it_Valid ops s \<and> (wvalid w \<longrightarrow> it_key ops s = Some (wkey w)))"

context iterator
begin

lemma Wrapper_Update_at:
  assumes "at s kvs i"
  shows "\<exists>w'. Wrapper_Update ops s w = Some w' \<and> wrapper_at ops at w' kvs i"
  using assms Valid_at [OF assms] key_at [OF assms] by (auto simp: Wrapper_Update_def wrapper_at_def)

lemma Wrapper_move_at:
  assumes "wrapper_at ops at w kvs i" and "\<And>s. at s kvs i \<Longrightarrow> \<exists>s'. f s = Some s' \<and> at s' kvs j"
  shows "\<exists>w'. Wrapper_move ops f w = Some w' \<and> wrapper_at ops at w' kvs j"
proof -
  obtain s where s: "witer w = Some s" "at s kvs i"
    using assms(1) by (auto simp: wrapper_at_def)
  obtain s' where "f s = Some s'" "at s' kvs j"
    using assms(2) s(2) by blast
  then show ?thesis
    using s(1) Wrapper_Update_at [of s' kvs j w] by (simp add: Wrapper_move_def)
qed

lemma wrapped: "iterator cmp valid (WrapperIterator ops) (wrapper_at ops at)"
proof
  fix w kvs i k
  assume w: "wrapper_at ops at w kvs i"
  then obtain s where s: "witer w = Some s" "at s kvs i" "wvalid w = it_Valid ops s" "wvalid w \<longrightarrow> it_key ops s = Some (wkey w)"
    by (auto simp: wrapper_at_def)
  show "sorted_keys cmp valid kvs" "i \<le> length kvs"
    using at_sorted at_le s(2) by blast+
  show "it_Valid (WrapperIterator ops) w \<longleftrightarrow> i < length kvs" "it_status (WrapperIterator ops) w = OK"
    using Valid_at [OF s(2)] s status_at [OF s(2)]
    by (simp_all add: WrapperIterator_def Wrapper_Valid_def Wrapper_status_def)
  show "it_key (WrapperIterator ops) w = Some (fst (kvs ! i))"
    "it_value (WrapperIterator ops) w = Some (snd (kvs ! i))"
    "\<exists>s'. it_Next (WrapperIterator ops) w = Some s' \<and> wrapper_at ops at s' kvs (Suc i)"
    "\<exists>s'. it_Prev (WrapperIterator ops) w = Some s' \<and> wrapper_at ops at s' kvs (prev_pos i kvs)" if i: "i < length kvs"
    using Valid_at [OF s(2)] key_at [OF s(2) i] value_at [OF s(2) i] s i
      Wrapper_move_at [OF w Next_at] Wrapper_move_at [OF w Prev_at]
    by (simp_all add: WrapperIterator_def Wrapper_key_def Wrapper_value_def Wrapper_Next_def Wrapper_Prev_def)
  show "\<exists>s'. it_SeekToFirst (WrapperIterator ops) w = Some s' \<and> wrapper_at ops at s' kvs 0"
    "\<exists>s'. it_SeekToLast (WrapperIterator ops) w = Some s' \<and> wrapper_at ops at s' kvs (length kvs - 1)"
    using Wrapper_move_at [OF w SeekToFirst_at] Wrapper_move_at [OF w SeekToLast_at]
    by (simp_all add: WrapperIterator_def Wrapper_SeekToFirst_def Wrapper_SeekToLast_def)
  show "\<exists>s'. it_Seek (WrapperIterator ops) k w = Some s' \<and> wrapper_at ops at s' kvs (seek_pos cmp k kvs)" if "valid k"
    using Wrapper_move_at [OF w Seek_at [OF _ that]] by (simp add: WrapperIterator_def Wrapper_Seek_def)
qed

end

text \<open>The empty iterator yields nothing.\<close>

interpretation empty_iterator: iterator Bytewise_Compare "\<lambda>_. True" EmptyIterator
  "\<lambda>s kvs i. s = NewEmptyIterator \<and> kvs = [] \<and> i = 0"
  by unfold_locales
    (auto simp: EmptyIterator_def NewEmptyIterator_def sorted_keys_def seek_pos_def)

text \<open>Deleting an iterator runs every registered function once: the first one registered first,
  then the others, the latest first.\<close>

lemma RegisterCleanup_order:
  "Iterator_delete (fold RegisterCleanup fs Iterator_base) =
     (case fs of [] \<Rightarrow> [] | f # fs \<Rightarrow> f # rev fs)"
proof -
  have run: "run_next cs = cs" for cs :: "'a list"
    by (induction cs) simp_all
  have "fold RegisterCleanup fs \<lparr>cleanup_function = Some f, cleanup_next = cs\<rparr> =
      \<lparr>cleanup_function = Some f, cleanup_next = rev fs @ cs\<rparr>" for f :: 'a and fs cs
    by (induction fs arbitrary: cs) (simp_all add: RegisterCleanup_def)
  then show ?thesis
    by (cases fs) (simp_all add: Iterator_delete_def Iterator_base_def RegisterCleanup_def run)
qed

end
