(* ===== verification/Memtable.thy ===== *)
theory Memtable
  imports Dbformat Skiplist Arena Status Iterators
begin

text \<open>
  The memtable (\<^verbatim>\<open>db/memtable.h\<close>, \<^verbatim>\<open>db/memtable.cpp\<close>): entries encoded into one buffer each,
  kept in a skip list under the order of their internal keys.

  A skip-list key is a pointer to an entry; here it is the entry's bytes, which nothing writes
  to after \<open>Add\<close> has stored them (the arena hands out disjoint regions).  \<open>Add\<close> takes memory from
  the arena twice, for the entry and for the node of the skip list.
\<close>

unbundle bit_operations_syntax

section \<open>Entries\<close>

text \<open>The file's own \<open>GetLengthPrefixedSlice(data)\<close>: the slice and the memory behind it; \<^const>\<open>None\<close>
  when the varint is bad or the slice is not inside the memory at \<open>data\<close>.\<close>

definition entry_slice :: "bytes \<Rightarrow> (bytes \<times> bytes) option" where
  "entry_slice data =
     (case GetVarint32Ptr (take 5 data) of
        None \<Rightarrow> None
      | Some (len, rest) \<Rightarrow>
          let p = drop (length (take 5 data) - length rest) data in
          if unat len \<le> length p then Some (take (unat len) p, drop (unat len) p) else None)"

definition KeyComparator :: "(bytes \<Rightarrow> bytes \<Rightarrow> int) \<Rightarrow> bytes \<Rightarrow> bytes \<Rightarrow> int option" where
  "KeyComparator user_cmp aptr bptr =
     (case (entry_slice aptr, entry_slice bptr) of
        (Some (a, _), Some (b, _)) \<Rightarrow> InternalKey_Compare user_cmp a b
      | _ \<Rightarrow> None)"

text \<open>The comparison the skip list calls; its value is left open where the function above fails.\<close>

definition mcmp :: "(bytes \<Rightarrow> bytes \<Rightarrow> int) \<Rightarrow> bytes \<Rightarrow> bytes \<Rightarrow> int" where
  "mcmp user_cmp a b = the (KeyComparator user_cmp a b)"

definition EncodeKey :: "bytes \<Rightarrow> bytes" where
  "EncodeKey target = PutVarint32 [] (word_of_nat (length target)) @ target"

section \<open>The table\<close>

record MemTable =
  refs :: int
  mem_arena :: Arena
  table :: "bytes SkipList"

text \<open>\<open>sizeof(Node) + sizeof(std::atomic<Node*>) * (height - 1)\<close>, with pointers of eight bytes.\<close>

definition node_bytes :: "nat \<Rightarrow> nat" where
  "node_bytes height = 16 + 8 * (height - 1)"

definition MemTable_new :: "nat \<Rightarrow> MemTable option" where
  "MemTable_new fresh =
     (case AllocateAligned fresh (node_bytes kMaxHeight) Arena_new of
        None \<Rightarrow> None
      | Some (_, a) \<Rightarrow> Some \<lparr>refs = 0, mem_arena = a, table = SkipList_new []\<rparr>)"

definition MemTable_Ref :: "MemTable \<Rightarrow> MemTable" where
  "MemTable_Ref m = m\<lparr>refs := refs m + 1\<rparr>"

text \<open>The destructor, and \<open>Unref\<close>: \<open>Some None\<close> when the table has been deleted.\<close>

definition MemTable_delete :: "MemTable \<Rightarrow> unit option" where
  "MemTable_delete m = (if refs m = 0 then Some () else None)"

definition MemTable_Unref :: "MemTable \<Rightarrow> MemTable option option" where
  "MemTable_Unref m =
     (let m = m\<lparr>refs := refs m - 1\<rparr> in
      if \<not> refs m \<ge> 0 then None
      else if refs m \<le> 0 then map_option (\<lambda>_. None) (MemTable_delete m)
      else Some (Some m))"

definition ApproximateMemoryUsage :: "nat \<Rightarrow> MemTable \<Rightarrow> nat" where
  "ApproximateMemoryUsage capacity m = MemoryUsage capacity (mem_arena m)"

text \<open>The buffer that \<open>Add\<close> fills, and its length as computed beforehand.\<close>

definition Add_encoded_len :: "bytes \<Rightarrow> bytes \<Rightarrow> nat" where
  "Add_encoded_len k v =
     (let internal_key_size = length k + 8; val_size = length v in
      VarintLength (word_of_nat internal_key_size) + internal_key_size +
      VarintLength (word_of_nat val_size) + val_size)"

definition Add_buf :: "u64 \<Rightarrow> ValueType \<Rightarrow> bytes \<Rightarrow> bytes \<Rightarrow> bytes" where
  "Add_buf s t k v =
     EncodeVarint32 (word_of_nat (length k + 8)) @ k @
     EncodeFixed64 (push_bit 8 s OR type_number t) @
     EncodeVarint32 (word_of_nat (length v)) @ v"

definition MemTable_Add ::
  "(bytes \<Rightarrow> bytes \<Rightarrow> int) \<Rightarrow> nat option \<Rightarrow> nat \<Rightarrow> nat \<Rightarrow> MemTable \<Rightarrow>
     u64 \<Rightarrow> ValueType \<Rightarrow> bytes \<Rightarrow> bytes \<Rightarrow> MemTable option" where
  "MemTable_Add user_cmp garbage fresh fresh' m s t k v =
     (let encoded_len = Add_encoded_len k v in
      case Allocate fresh encoded_len (mem_arena m) of
        None \<Rightarrow> None
      | Some (_, a) \<Rightarrow>
          let buf = Add_buf s t k v in
          if length buf \<noteq> encoded_len then None
          else
            (case Insert (mcmp user_cmp) garbage (table m) buf of
               None \<Rightarrow> None
             | Some tab \<Rightarrow>
                 (case AllocateAligned fresh' (node_bytes (fst (RandomHeight (rnd (table m))))) a of
                    None \<Rightarrow> None
                  | Some (_, a) \<Rightarrow> Some (m\<lparr>mem_arena := a, table := tab\<rparr>))))"

text \<open>Which of its exits \<open>Get\<close> takes: no entry of the key, a value, or a deletion.\<close>

datatype GetExit = GetMissing | GetValue bytes | GetDeletion

definition MemTable_Get_exit ::
  "(bytes \<Rightarrow> bytes \<Rightarrow> int) \<Rightarrow> MemTable \<Rightarrow> LookupKey \<Rightarrow> GetExit option" where
  "MemTable_Get_exit user_cmp m lk =
     (let memkey = memtable_key lk in
      case Iter_Seek (mcmp user_cmp) (table m) memkey of
        None \<Rightarrow> None
      | Some iter \<Rightarrow>
          if \<not> Iter_Valid iter then Some GetMissing
          else
            (case Iter_key (table m) iter of
               None \<Rightarrow> None
             | Some e \<Rightarrow>
                 (case GetVarint32Ptr (take 5 e) of
                    None \<Rightarrow> None
                  | Some (key_length, rest) \<Rightarrow>
                      let key_ptr = drop (length (take 5 e) - length rest) e;
                          n = unat key_length
                      in
                      if n < 8 \<or> length key_ptr < n then None
                      else if user_cmp (take (n - 8) key_ptr) (lookup_user_key lk) = 0 then
                        (case DecodeFixed64 (drop (n - 8) key_ptr) of
                           None \<Rightarrow> None
                         | Some tag \<Rightarrow>
                             (case value_type_of (ucast (tag AND 0xff)) of
                                Some kTypeValue \<Rightarrow>
                                  (case entry_slice (drop n key_ptr) of
                                     None \<Rightarrow> None
                                   | Some (v, _) \<Rightarrow> Some (GetValue v))
                              | Some kTypeDeletion \<Rightarrow> Some GetDeletion
                              | None \<Rightarrow> Some GetMissing))
                      else Some GetMissing)))"

text \<open>The result with \<open>*value\<close> and \<open>*s\<close> after the call.  The exit for a deletion constructs \<open>Status::NotFound(Slice())\<close>; what that
  call does to the heap is \<^const>\<open>Status_new\<close>, whose failure is the failure of \<open>Get\<close>.\<close>

definition MemTable_Get ::
  "(bytes \<Rightarrow> bytes \<Rightarrow> int) \<Rightarrow> MemTable \<Rightarrow> LookupKey \<Rightarrow> bytes \<Rightarrow> Status \<Rightarrow> (bool \<times> bytes \<times> Status) option" where
  "MemTable_Get user_cmp m lk value s =
     (case MemTable_Get_exit user_cmp m lk of
        None \<Rightarrow> None
      | Some GetMissing \<Rightarrow> Some (False, value, s)
      | Some (GetValue v) \<Rightarrow> Some (True, v, s)
      | Some GetDeletion \<Rightarrow> map_option (\<lambda>_. (True, value, NotFound [] [])) (Status_new kNotFound [] []))"

section \<open>The iterator\<close>

text \<open>A \<open>MemTableIterator\<close> is its skip-list iterator; \<open>tmp_\<close> only lives during \<open>Seek\<close>.\<close>

definition MemIter_Valid :: "nat option \<Rightarrow> bool" where
  "MemIter_Valid it = Iter_Valid it"

definition MemIter_Seek ::
  "(bytes \<Rightarrow> bytes \<Rightarrow> int) \<Rightarrow> MemTable \<Rightarrow> bytes \<Rightarrow> nat option option" where
  "MemIter_Seek user_cmp m k = Iter_Seek (mcmp user_cmp) (table m) (EncodeKey k)"

definition MemIter_SeekToFirst :: "MemTable \<Rightarrow> nat option option" where
  "MemIter_SeekToFirst m = Iter_SeekToFirst (table m)"

definition MemIter_SeekToLast :: "MemTable \<Rightarrow> nat option option" where
  "MemIter_SeekToLast m = Iter_SeekToLast (table m)"

definition MemIter_Next :: "MemTable \<Rightarrow> nat option \<Rightarrow> nat option option" where
  "MemIter_Next m it = Iter_Next (table m) it"

definition MemIter_Prev ::
  "(bytes \<Rightarrow> bytes \<Rightarrow> int) \<Rightarrow> MemTable \<Rightarrow> nat option \<Rightarrow> nat option option" where
  "MemIter_Prev user_cmp m it = Iter_Prev (mcmp user_cmp) (table m) it"

definition MemIter_key :: "MemTable \<Rightarrow> nat option \<Rightarrow> bytes option" where
  "MemIter_key m it =
     (case Iter_key (table m) it of None \<Rightarrow> None | Some e \<Rightarrow> map_option fst (entry_slice e))"

definition MemIter_value :: "MemTable \<Rightarrow> nat option \<Rightarrow> bytes option" where
  "MemIter_value m it =
     (case Iter_key (table m) it of
        None \<Rightarrow> None
      | Some e \<Rightarrow>
          (case entry_slice e of
             None \<Rightarrow> None
           | Some (_, rest) \<Rightarrow> map_option fst (entry_slice rest)))"

definition MemTableIterator :: "(bytes \<Rightarrow> bytes \<Rightarrow> int) \<Rightarrow> (MemTable \<times> nat option) Iterator" where
  "MemTableIterator user_cmp =
     \<lparr>it_Valid = (\<lambda>(m, it). MemIter_Valid it),
      it_SeekToFirst = (\<lambda>(m, it). map_option (Pair m) (MemIter_SeekToFirst m)),
      it_SeekToLast = (\<lambda>(m, it). map_option (Pair m) (MemIter_SeekToLast m)),
      it_Seek = (\<lambda>k (m, it). map_option (Pair m) (MemIter_Seek user_cmp m k)),
      it_Next = (\<lambda>(m, it). map_option (Pair m) (MemIter_Next m it)),
      it_Prev = (\<lambda>(m, it). map_option (Pair m) (MemIter_Prev user_cmp m it)),
      it_key = (\<lambda>(m, it). MemIter_key m it),
      it_value = (\<lambda>(m, it). MemIter_value m it),
      it_status = (\<lambda>_. OK)\<rparr>"

definition MemTable_NewIterator :: "MemTable \<Rightarrow> MemTable \<times> nat option" where
  "MemTable_NewIterator m = (m, Iterator_new)"

section \<open>Entries as internal keys and values\<close>

lemma GetVarint32Ptr_take5:
  "GetVarint32Ptr (take 5 (EncodeVarint32 v @ rest)) = Some (v, take (5 - length (EncodeVarint32 v)) rest)"
proof -
  have "take 5 (EncodeVarint32 v @ rest) = EncodeVarint32 v @ take (5 - length (EncodeVarint32 v)) rest"
    using length_EncodeVarint32 [of v] by simp
  then show ?thesis
    by (simp only: GetVarint32Ptr_varint)
qed

lemma take5_skip:
  "drop (length (take 5 (EncodeVarint32 v @ rest)) - length (take (5 - length (EncodeVarint32 v)) rest))
     (EncodeVarint32 v @ rest) = rest"
proof -
  have "length (take 5 (EncodeVarint32 v @ rest)) - length (take (5 - length (EncodeVarint32 v)) rest) =
      length (EncodeVarint32 v)"
    using length_EncodeVarint32 [of v] by auto
  then show ?thesis
    by (simp only:) simp
qed

lemma unat_word_of_nat32: "n < 2 ^ 32 \<Longrightarrow> unat (word_of_nat n :: u32) = n"
  by (simp add: unsigned_of_nat take_bit_nat_eq_self)

lemma entry_slice_varint:
  assumes "length x < 2 ^ 32"
  shows "entry_slice (EncodeVarint32 (word_of_nat (length x)) @ x @ rest) = Some (x, rest)"
  unfolding entry_slice_def GetVarint32Ptr_take5 option.case prod.case Let_def take5_skip
    unat_word_of_nat32 [OF assms]
  by simp

text \<open>An operation that has been added.\<close>

datatype MemOp = MemOp (op_seq: u64) (op_type: ValueType) (op_key: bytes) (op_value: bytes)

definition op_ok :: "(bytes \<Rightarrow> bool) \<Rightarrow> MemOp \<Rightarrow> bool" where
  "op_ok valid p \<longleftrightarrow> op_seq p \<le> kMaxSequenceNumber \<and> valid (op_key p) \<and>
     length (op_key p) + 8 < 2 ^ 32 \<and> length (op_value p) < 2 ^ 32"

definition op_tag :: "MemOp \<Rightarrow> u64" where
  "op_tag p = push_bit 8 (op_seq p) OR type_number (op_type p)"

definition op_ikey :: "MemOp \<Rightarrow> bytes" where
  "op_ikey p = internal_key_of (op_key p) (op_tag p)"

definition entry_of :: "MemOp \<Rightarrow> bytes" where
  "entry_of p = Add_buf (op_seq p) (op_type p) (op_key p) (op_value p)"

lemma entry_of_eq:
  "entry_of p = EncodeVarint32 (word_of_nat (length (op_ikey p))) @ op_ikey p @
     EncodeVarint32 (word_of_nat (length (op_value p))) @ op_value p"
  by (simp add: entry_of_def Add_buf_def op_ikey_def op_tag_def internal_key_of_def)

lemma entry_slice_of:
  assumes "op_ok valid p"
  shows "entry_slice (entry_of p) =
    Some (op_ikey p, EncodeVarint32 (word_of_nat (length (op_value p))) @ op_value p)"
  using assms entry_slice_varint [of "op_ikey p"] by (simp add: entry_of_eq op_ok_def op_ikey_def)

lemma entry_slice_value:
  assumes "op_ok valid p"
  shows "entry_slice (EncodeVarint32 (word_of_nat (length (op_value p))) @ op_value p) = Some (op_value p, [])"
  using assms entry_slice_varint [of "op_value p" "[]"] by (simp add: op_ok_def)

lemma entry_slice_EncodeKey:
  "length k < 2 ^ 32 \<Longrightarrow> entry_slice (EncodeKey k) = Some (k, [])"
  using entry_slice_varint [of k "[]"] by (simp add: EncodeKey_def PutVarint32_def)

text \<open>The buffer is as long as computed: \<open>VarintLength\<close> works on 64 bits, \<open>EncodeVarint32\<close> on 32.\<close>

lemma VarintLength_32:
  assumes "n < 2 ^ 32"
  shows "VarintLength (word_of_nat n) = length (EncodeVarint32 (word_of_nat n))"
proof -
  have "(word_of_nat n :: u64) = ucast (word_of_nat n :: u32)"
    using assms by (simp add: word_unat_eq_iff unat_ucast_mod unsigned_of_nat take_bit_nat_eq_self)
  then show ?thesis
    by (simp add: VarintLength_eq EncodeVarint32_EncodeVarint64)
qed

section \<open>The order of the entries\<close>

definition mkey :: "bytes \<Rightarrow> bytes" where
  "mkey e = fst (the (entry_slice e))"

definition mvalid :: "(bytes \<Rightarrow> bool) \<Rightarrow> bytes \<Rightarrow> bool" where
  "mvalid valid e \<longleftrightarrow> (case entry_slice e of None \<Rightarrow> False | Some (k, _) \<Rightarrow> ivalid valid k)"

lemma mvalid_mkey: "mvalid valid e \<Longrightarrow> ivalid valid (mkey e)"
  by (auto simp: mvalid_def mkey_def split: option.splits)

lemma mcmp_mkey: "mvalid valid a \<Longrightarrow> mvalid valid b \<Longrightarrow> mcmp cmp a b = icmp cmp (mkey a) (mkey b)"
  by (auto simp: mvalid_def mkey_def mcmp_def KeyComparator_def icmp_def split: option.splits)

sublocale user_comparator \<subseteq> mem: key_order "mcmp cmp" "mvalid valid"
  by (rule key_order_image [OF internal.key_order_axioms mvalid_mkey mcmp_mkey])

lemma entry_of_valid:
  assumes "op_ok valid p"
  shows "mvalid valid (entry_of p)" and "mkey (entry_of p) = op_ikey p"
  using assms by (simp_all add: mvalid_def mkey_def entry_slice_of op_ikey_def op_ok_def)

lemma entry_of_inject:
  assumes "op_ok valid p" and "op_ok valid q" and "entry_of p = entry_of q"
  shows "op_key p = op_key q" and "op_tag p = op_tag q" and "op_value p = op_value q"
proof -
  have ikey: "op_ikey p = op_ikey q"
    and val: "EncodeVarint32 (word_of_nat (length (op_value p))) @ op_value p =
      EncodeVarint32 (word_of_nat (length (op_value q))) @ op_value q"
    using entry_slice_of [OF assms(1)] entry_slice_of [OF assms(2)] assms(3) by simp_all
  show "op_key p = op_key q"
    using arg_cong [OF ikey, of ExtractUserKey] by (simp add: op_ikey_def)
  show "op_tag p = op_tag q"
    using arg_cong [OF ikey, of key_tag] by (simp add: op_ikey_def)
  show "op_value p = op_value q"
    using arg_cong [OF val, of entry_slice] entry_slice_value [OF assms(1)] entry_slice_value [OF assms(2)]
    by simp
qed

lemma op_tag_unat:
  assumes "op_ok valid p"
  shows "unat (op_tag p) = unat (op_seq p) * 256 + unat (type_number (op_type p))"
  using assms by (simp add: op_tag_def op_ok_def pack_tag)

lemma op_tag_inject:
  assumes "op_ok valid p" and "op_ok valid q" and "op_tag p = op_tag q"
  shows "op_seq p = op_seq q" and "op_type p = op_type q"
proof -
  note p = type_of_tag [OF op_tag_unat [OF assms(1)]] and q = type_of_tag [OF op_tag_unat [OF assms(2)]]
  show "op_seq p = op_seq q" "op_type p = op_type q"
    using p q unfolding assms(3) by (simp_all only: option.inject)
qed

text \<open>A lookup key as an entry without value.\<close>

lemma LookupKey_entry:
  assumes "LookupKey_new ukey s = Some lk" and "length ukey + 8 < 2 ^ 32"
  obtains tag where "unat tag = unat s * 256 + 1" and "mkey (memtable_key lk) = internal_key_of ukey tag"
    and "valid ukey \<Longrightarrow> mvalid valid (memtable_key lk)" and "lookup_user_key lk = ukey"
proof -
  obtain tag where tag: "PackSequenceAndType s kValueTypeForSeek = Some tag"
    and lk: "lk = \<lparr>lk_start = EncodeVarint32 (word_of_nat (length ukey + 8)) @ ukey @ EncodeFixed64 tag,
      lk_kstart = length (EncodeVarint32 (word_of_nat (length ukey + 8)))\<rparr>"
    using assms(1) by (auto simp: LookupKey_new_def Let_def split: option.splits if_splits simp del: of_nat_add)
  have s: "s \<le> kMaxSequenceNumber" and "tag = push_bit 8 s OR type_number kTypeValue"
    using tag by (auto simp: PackSequenceAndType_def kValueTypeForSeek_def split: if_splits)
  then have "unat tag = unat s * 256 + 1"
    using pack_tag [OF s, of kTypeValue] by simp
  moreover have "entry_slice (memtable_key lk) = Some (internal_key_of ukey tag, [])"
    using entry_slice_varint [of "internal_key_of ukey tag" "[]"] assms(2)
    by (simp add: lk memtable_key_def internal_key_of_def del: of_nat_add)
  moreover have "lookup_user_key lk = ukey"
    by (simp add: lk lookup_user_key_def)
  ultimately show ?thesis
    using that by (simp add: mkey_def mvalid_def)
qed

section \<open>Adding\<close>

text \<open>The table holds the entries of the operations \<open>ops\<close>, in the order of the internal keys,
  and the arena owns its memory.\<close>

definition mem_represents ::
  "(bytes \<Rightarrow> bytes \<Rightarrow> int) \<Rightarrow> (bytes \<Rightarrow> bool) \<Rightarrow> MemTable \<Rightarrow> MemOp list \<Rightarrow> bool" where
  "mem_represents cmp valid m ops \<longleftrightarrow>
     list_all (op_ok valid) ops \<and> (\<exists>rs. arena_inv (mem_arena m) rs) \<and>
     (\<exists>es. represents (mcmp cmp) (mvalid valid) (table m) es \<and> set es = entry_of ` set ops)"

text \<open>What \<open>new\<close> promises for the two allocations of \<open>Add\<close>.\<close>

definition Add_new_ok :: "MemTable \<Rightarrow> bytes \<Rightarrow> bytes \<Rightarrow> nat \<Rightarrow> nat \<Rightarrow> bool" where
  "Add_new_ok m k v fresh fresh' \<longleftrightarrow>
     new_ok (mem_arena m) fresh (Add_encoded_len k v) \<and>
     (case Allocate fresh (Add_encoded_len k v) (mem_arena m) of
        None \<Rightarrow> True
      | Some (_, a) \<Rightarrow> new_ok a fresh' (node_bytes (fst (RandomHeight (rnd (table m))))))"

lemma Add_buf_length:
  assumes "length k + 8 < 2 ^ 32" and "length v < 2 ^ 32"
  shows "length (Add_buf s t k v) = Add_encoded_len k v" and "Add_encoded_len k v < 2 ^ 63"
    and "0 < Add_encoded_len k v"
proof -
  show "length (Add_buf s t k v) = Add_encoded_len k v"
    using assms by (simp add: Add_buf_def Add_encoded_len_def Let_def VarintLength_32 del: of_nat_add)
  show "Add_encoded_len k v < 2 ^ 63"
    using assms length_EncodeVarint32 [of "word_of_nat (length k + 8)"] length_EncodeVarint32 [of "word_of_nat (length v)"]
    by (simp add: Add_encoded_len_def Let_def VarintLength_32 del: of_nat_add)
  show "0 < Add_encoded_len k v"
    by (simp add: Add_encoded_len_def Let_def)
qed

lemma mem_represents_new:
  assumes "fresh mod 8 = 0"
  shows "\<exists>m. MemTable_new fresh = Some m \<and> mem_represents cmp valid m [] \<and> refs m = 0"
proof -
  have "new_ok Arena_new fresh (node_bytes kMaxHeight)"
    using assms by (simp add: new_ok_def Arena_new_def)
  moreover have "node_bytes kMaxHeight < 2 ^ 63"
    by (simp add: node_bytes_def kMaxHeight_def)
  ultimately obtain p a where "AllocateAligned fresh (node_bytes kMaxHeight) Arena_new = Some (p, a)"
    "arena_inv a [(p, node_bytes kMaxHeight)]"
    using AllocateAligned_inv [OF arena_inv_new] by blast
  then show ?thesis
    using represents_new [of "mcmp cmp" "mvalid valid" "[]"] by (auto simp: MemTable_new_def mem_represents_def)
qed

lemma set_insert_sorted: "set (insert_sorted cmp k ks) = insert k (set ks)"
  unfolding insert_sorted_def by (metis Un_insert_right list.set(2) set_append takeWhile_dropWhile_id)

context user_comparator
begin

lemma mcmp_ops:
  assumes "op_ok valid p" and "op_ok valid q"
  shows "mcmp cmp (entry_of p) (entry_of q) = icmp cmp (op_ikey p) (op_ikey q)"
  using mcmp_mkey [of valid "entry_of p" "entry_of q"] entry_of_valid [OF assms(1)] entry_of_valid [OF assms(2)]
  by simp

lemma MemTable_Add_represents:
  assumes rep: "mem_represents cmp valid m ops" and ok: "op_ok valid (MemOp s t k v)"
    and new: "Add_new_ok m k v fresh fresh'"
    and fresh_key: "\<And>p. p \<in> set ops \<Longrightarrow> \<not> (cmp (op_key p) k = 0 \<and> op_seq p = s \<and> op_type p = t)"
  shows "\<exists>m'. MemTable_Add cmp garbage fresh fresh' m s t k v = Some m' \<and>
    mem_represents cmp valid m' (MemOp s t k v # ops) \<and> refs m' = refs m"
proof -
  let ?p = "MemOp s t k v"
  obtain rs es where inv: "arena_inv (mem_arena m) rs"
    and es: "represents (mcmp cmp) (mvalid valid) (table m) es" "set es = entry_of ` set ops"
    and ops: "\<And>q. q \<in> set ops \<Longrightarrow> op_ok valid q"
    using rep by (auto simp: mem_represents_def list_all_iff)
  have k: "length k + 8 < 2 ^ 32" and v: "length v < 2 ^ 32"
    using ok by (simp_all add: op_ok_def)
  note len = Add_buf_length [OF k v]
  obtain p1 a1 where a1: "Allocate fresh (Add_encoded_len k v) (mem_arena m) = Some (p1, a1)"
    "arena_inv a1 ((p1, Add_encoded_len k v) # rs)"
    using Allocate_inv [OF inv len(3)] new unfolding Add_new_ok_def by blast
  have "node_bytes (fst (RandomHeight (rnd (table m)))) < 2 ^ 63"
    using RandomHeight_bounds(2) [of "rnd (table m)"] by (simp add: node_bytes_def kMaxHeight_def)
  moreover have "new_ok a1 fresh' (node_bytes (fst (RandomHeight (rnd (table m)))))"
    using new by (simp add: Add_new_ok_def a1)
  ultimately obtain p2 a2 where a2: "AllocateAligned fresh' (node_bytes (fst (RandomHeight (rnd (table m))))) a1 =
      Some (p2, a2)" "\<exists>rs. arena_inv a2 rs"
    using AllocateAligned_inv [OF a1(2)] by blast
  have "mcmp cmp e (entry_of ?p) \<noteq> 0" if e: "e \<in> set es" for e
  proof -
    obtain q where q: "q \<in> set ops" "e = entry_of q" "op_ok valid q"
      using e es(2) ops by blast
    have "op_tag q = op_tag ?p \<Longrightarrow> op_seq q = s \<and> op_type q = t"
      using op_tag_inject [OF q(3) ok] by simp
    then show ?thesis
      using fresh_key [OF q(1)] by (auto simp: q(2) mcmp_ops [OF q(3) ok] op_ikey_def)
  qed
  then obtain sl where "Insert (mcmp cmp) garbage (table m) (entry_of ?p) = Some sl"
    "represents (mcmp cmp) (mvalid valid) sl (insert_sorted (mcmp cmp) (entry_of ?p) es)"
    using mem.Insert_represents [OF es(1) entry_of_valid(1) [OF ok]] by blast
  then show ?thesis
    using a1(1) a2 len(1) ok ops es(2)
    by (auto simp: MemTable_Add_def Let_def mem_represents_def entry_of_def list_all_iff set_insert_sorted)
qed

end

section \<open>Looking up\<close>

text \<open>What \<open>Get\<close> answers when its search has stopped at the entry of an operation.\<close>

definition op_exit :: "MemOp \<Rightarrow> GetExit" where
  "op_exit p = (case op_type p of kTypeValue \<Rightarrow> GetValue (op_value p) | kTypeDeletion \<Rightarrow> GetDeletion)"

lemma MemTable_Get_at:
  assumes ok: "op_ok valid p" and seek: "Iter_Seek (mcmp cmp) (table m) (memtable_key lk) = Some it"
    and it: "Iter_Valid it" "Iter_key (table m) it = Some (entry_of p)"
  shows "MemTable_Get_exit cmp m lk =
    Some (if cmp (op_key p) (lookup_user_key lk) = 0 then op_exit p else GetMissing)"
proof -
  let ?n = "length (op_ikey p)"
  let ?val = "EncodeVarint32 (word_of_nat (length (op_value p))) @ op_value p"
  have n: "?n = length (op_key p) + 8"
    by (simp add: op_ikey_def)
  then have u: "unat (word_of_nat ?n :: u32) = ?n"
    using ok by (intro unat_word_of_nat32) (simp add: op_ok_def)
  have decode: "DecodeFixed64 (drop (?n - 8) (op_ikey p @ ?val)) = Some (op_tag p)"
    by (simp add: op_ikey_def internal_key_of_def)
  have user: "take (?n - 8) (op_ikey p @ ?val) = op_key p"
    by (simp add: op_ikey_def internal_key_of_def)
  show ?thesis
    unfolding MemTable_Get_exit_def Let_def seek option.case it(2) entry_of_eq GetVarint32Ptr_take5 prod.case take5_skip
      u decode user
    using it(1) type_of_tag(1) [OF op_tag_unat [OF ok]] n entry_slice_value [OF ok]
    by (simp add: op_exit_def split: ValueType.split)
qed

definition visible :: "(bytes \<Rightarrow> bytes \<Rightarrow> int) \<Rightarrow> bytes \<Rightarrow> u64 \<Rightarrow> MemOp \<Rightarrow> bool" where
  "visible cmp ukey s p \<longleftrightarrow> cmp (op_key p) ukey = 0 \<and> op_seq p \<le> s"

context user_comparator
begin

lemma below_lookup_key:
  assumes p: "op_ok valid p" and lk: "LookupKey_new ukey s = Some lk" and u: "length ukey + 8 < 2 ^ 32" "valid ukey"
  shows "mcmp cmp (entry_of p) (memtable_key lk) < 0 \<longleftrightarrow>
    cmp (op_key p) ukey < 0 \<or> cmp (op_key p) ukey = 0 \<and> s < op_seq p"
proof -
  obtain tag where tag: "unat tag = unat s * 256 + 1" and key: "mkey (memtable_key lk) = internal_key_of ukey tag"
    and v: "mvalid valid (memtable_key lk)"
    using LookupKey_entry [OF lk u(1), of valid] u(2) by blast
  have "mcmp cmp (entry_of p) (memtable_key lk) = icmp cmp (op_ikey p) (internal_key_of ukey tag)"
    using mcmp_mkey [OF entry_of_valid(1) [OF p] v] by (simp add: entry_of_valid [OF p] key)
  moreover have "op_tag p > tag \<longleftrightarrow> s < op_seq p"
    using op_tag_unat [OF p] tag by (cases "op_type p") (auto simp: word_less_nat_alt)
  ultimately show ?thesis
    by (auto simp: op_ikey_def)
qed

lemma MemTable_Get_represents:
  assumes rep: "mem_represents cmp valid m ops" and lk: "LookupKey_new ukey s = Some lk"
    and u: "length ukey + 8 < 2 ^ 32" "valid ukey"
  shows "(\<forall>p \<in> set ops. \<not> visible cmp ukey s p) \<Longrightarrow> MemTable_Get_exit cmp m lk = Some GetMissing"
    and "\<lbrakk>p \<in> set ops; visible cmp ukey s p; \<forall>q \<in> set ops. visible cmp ukey s q \<longrightarrow> op_tag q \<le> op_tag p\<rbrakk> \<Longrightarrow>
      MemTable_Get_exit cmp m lk = Some (op_exit p)"
proof -
  obtain es where es: "represents (mcmp cmp) (mvalid valid) (table m) es" "set es = entry_of ` set ops"
    and ops: "\<And>q. q \<in> set ops \<Longrightarrow> op_ok valid q"
    using rep by (auto simp: mem_represents_def list_all_iff)
  have "mvalid valid (memtable_key lk) \<and> lookup_user_key lk = ukey"
    by (rule LookupKey_entry [OF lk u(1), of valid]) (use u(2) in blast)
  then have v: "mvalid valid (memtable_key lk)" and lku: "lookup_user_key lk = ukey"
    by simp_all
  define i where "i = length (takeWhile (\<lambda>x. mcmp cmp x (memtable_key lk) < 0) es)"
  obtain it where seek: "Iter_Seek (mcmp cmp) (table m) (memtable_key lk) = Some it"
    and it: "iter_at (mcmp cmp) (mvalid valid) (table m) es it i"
    using mem.Iter_Seek_at [OF es(1) v] by (auto simp: i_def)
  note below = below_lookup_key [OF _ lk u]
  have visible_above: "\<exists>j. i \<le> j \<and> j < length es \<and> es ! j = entry_of q" if q: "q \<in> set ops" "visible cmp ukey s q" for q
  proof -
    obtain j where j: "j < length es" "es ! j = entry_of q"
      using q(1) es(2) by (metis imageI in_set_conv_nth)
    have "\<not> mcmp cmp (es ! j) (memtable_key lk) < 0"
      using q(2) below [OF ops [OF q(1)]] by (auto simp: j visible_def)
    then have "i \<le> j"
      unfolding i_def using j(1) by (metis (no_types, lifting) linorder_not_le nth_mem set_takeWhileD takeWhile_nth)
    with j show ?thesis
      by blast
  qed
  have miss: "MemTable_Get_exit cmp m lk = Some GetMissing" if "\<not> i < length es"
    using mem.Iter_key_at(1) [OF it] that seek by (simp add: MemTable_Get_exit_def)
  have hit: "\<exists>p0 \<in> set ops. es ! i = entry_of p0 \<and>
      MemTable_Get_exit cmp m lk = Some (if cmp (op_key p0) ukey = 0 then op_exit p0 else GetMissing) \<and>
      \<not> cmp (op_key p0) ukey < 0 \<and> (cmp (op_key p0) ukey = 0 \<longrightarrow> op_seq p0 \<le> s)"
    if i: "i < length es"
  proof -
    obtain p0 where p0: "p0 \<in> set ops" "es ! i = entry_of p0"
      using i es(2) by (metis imageE nth_mem)
    have "\<not> mcmp cmp (entry_of p0) (memtable_key lk) < 0"
      using nth_length_takeWhile [of "\<lambda>x. mcmp cmp x (memtable_key lk) < 0" es] i p0(2) by (simp add: i_def)
    then show ?thesis
      using p0 below [OF ops [OF p0(1)]] MemTable_Get_at [OF ops [OF p0(1)] seek] mem.Iter_key_at [OF it] i
      by (auto simp: lku)
  qed
  have newest: "cmp (op_key p0) ukey = 0 \<and> op_tag q \<le> op_tag p0 \<and> (op_tag q = op_tag p0 \<longrightarrow> entry_of q = entry_of p0)"
    if p0: "p0 \<in> set ops" "es ! i = entry_of p0" "\<not> cmp (op_key p0) ukey < 0"
      and q: "q \<in> set ops" "visible cmp ukey s q" for p0 q
  proof -
    obtain j where j: "i \<le> j" "j < length es" "es ! j = entry_of q"
      using visible_above [OF q] by blast
    have vp: "valid (op_key p0)" and vq: "valid (op_key q)"
      using ops [OF p0(1)] ops [OF q(1)] by (simp_all add: op_ok_def)
    have less: "icmp cmp (op_ikey p0) (op_ikey q) < 0" if "i \<noteq> j"
      using sorted_wrt_nth_less [OF mem.represents_sorted [OF es(1)], of i j] that j p0(2)
      by (simp add: mcmp_ops [OF ops [OF p0(1)] ops [OF q(1)]])
    have same: "op_key p0 = op_key q \<and> op_tag p0 = op_tag q" if "i = j"
      using that j(3) p0(2) entry_of_inject [OF ops [OF p0(1)] ops [OF q(1)]] by simp
    have "cmp (op_key p0) (op_key q) \<le> 0"
      using less same cmp_refl [OF vp] by (cases "i = j") (auto simp: op_ikey_def split: if_splits)
    moreover have q0: "cmp (op_key q) ukey = 0"
      using q(2) by (simp add: visible_def)
    ultimately have 0: "cmp (op_key p0) ukey = 0"
      using cmp_trans [OF vp vq u(2)] p0(3) by simp
    then have "cmp (op_key p0) (op_key q) = 0"
      using q0 cmp_trans [OF vp u(2) vq] cmp_trans [OF vq u(2) vp] cmp_ge_iff [OF vq u(2)] cmp_ge_iff [OF vp u(2)]
        cmp_ge_iff [OF vp vq] by simp
    then show ?thesis
      using 0 less same j p0(2) by (cases "i = j") (auto simp: op_ikey_def not_less split: if_splits)
  qed
  show "MemTable_Get_exit cmp m lk = Some GetMissing" if none: "\<forall>p \<in> set ops. \<not> visible cmp ukey s p"
    using miss hit none by (cases "i < length es") (auto simp: visible_def)
  show "MemTable_Get_exit cmp m lk = Some (op_exit p)"
    if p: "p \<in> set ops" "visible cmp ukey s p" and max: "\<forall>q \<in> set ops. visible cmp ukey s q \<longrightarrow> op_tag q \<le> op_tag p"
  proof -
    have "i < length es"
      using visible_above [OF p] by auto
    then obtain p0 where p0: "p0 \<in> set ops" "es ! i = entry_of p0" "\<not> cmp (op_key p0) ukey < 0"
        "cmp (op_key p0) ukey = 0 \<longrightarrow> op_seq p0 \<le> s"
      and get: "MemTable_Get_exit cmp m lk = Some (if cmp (op_key p0) ukey = 0 then op_exit p0 else GetMissing)"
      using hit by blast
    note new = newest [OF p0(1-3) p]
    then have "op_tag p0 \<le> op_tag p"
      using max p0(1,4) by (simp add: visible_def)
    then have eq: "op_tag p = op_tag p0" "entry_of p = entry_of p0"
      using new by auto
    have "op_type p = op_type p0" "op_value p = op_value p0"
      using op_tag_inject(2) [OF ops [OF p(1)] ops [OF p0(1)] eq(1)]
        entry_of_inject(3) [OF ops [OF p(1)] ops [OF p0(1)] eq(2)] by simp_all
    then show ?thesis
      using get new by (cases "op_type p0") (simp_all add: op_exit_def)
  qed
qed

end

section \<open>Iterating\<close>

text \<open>\<open>EncodeKey\<close> stores the length in 32 bits.\<close>

definition mem_valid :: "(bytes \<Rightarrow> bool) \<Rightarrow> bytes \<Rightarrow> bool" where
  "mem_valid valid k \<longleftrightarrow> ivalid valid k \<and> length k < 2 ^ 32"

definition op_pair :: "MemOp \<Rightarrow> bytes \<times> bytes" where
  "op_pair p = (op_ikey p, op_value p)"

definition mem_at ::
  "(bytes \<Rightarrow> bytes \<Rightarrow> int) \<Rightarrow> (bytes \<Rightarrow> bool) \<Rightarrow> MemTable \<times> nat option \<Rightarrow> (bytes \<times> bytes) list \<Rightarrow> nat \<Rightarrow> bool" where
  "mem_at cmp valid s kvs i \<longleftrightarrow>
     (\<exists>ps. list_all (op_ok valid) ps \<and> kvs = map op_pair ps \<and>
        iter_at (mcmp cmp) (mvalid valid) (table (fst s)) (map entry_of ps) (snd s) i)"

lemma iter_at_represents: "iter_at cmp valid sl ks it i \<Longrightarrow> represents cmp valid sl ks"
  by (auto simp: iter_at_def represents_def)

lemma iter_at_le: "iter_at cmp valid sl ks it i \<Longrightarrow> i \<le> length ks"
  by (auto simp: iter_at_def)

lemma op_ikey_valid: "op_ok valid p \<Longrightarrow> mem_valid valid (op_ikey p)"
  by (simp add: mem_valid_def op_ok_def op_ikey_def)

lemma MemIter_at_entry:
  assumes "op_ok valid p" and "Iter_key (table m) it = Some (entry_of p)"
  shows "MemIter_key m it = Some (op_ikey p)" and "MemIter_value m it = Some (op_value p)"
  using assms by (simp_all add: MemIter_key_def MemIter_value_def entry_slice_of entry_slice_value)

context user_comparator
begin

lemma mem_at_sorted: "mem_at cmp valid s kvs i \<Longrightarrow> sorted_keys (icmp cmp) (mem_valid valid) kvs"
proof -
  assume "mem_at cmp valid s kvs i"
  then obtain ps where ps: "list_all (op_ok valid) ps" "kvs = map op_pair ps"
    and it: "iter_at (mcmp cmp) (mvalid valid) (table (fst s)) (map entry_of ps) (snd s) i"
    by (auto simp: mem_at_def)
  have "sorted_wrt (\<lambda>p q. mcmp cmp (entry_of p) (entry_of q) < 0) ps"
    using mem.represents_sorted [OF iter_at_represents [OF it]] by (simp add: sorted_wrt_map)
  then have "sorted_wrt (\<lambda>p q. icmp cmp (op_ikey p) (op_ikey q) < 0) ps"
    by (rule sorted_wrt_mono_rel [rotated]) (use ps(1) in \<open>simp add: list_all_iff mcmp_ops\<close>)
  then show ?thesis
    using ps op_ikey_valid by (auto simp: sorted_keys_def sorted_wrt_map list_all_iff op_pair_def)
qed

lemma mem_seek_pos:
  assumes "list_all (op_ok valid) ps" and k: "mem_valid valid k"
  shows "length (takeWhile (\<lambda>x. mcmp cmp x (EncodeKey k) < 0) (map entry_of ps)) =
    seek_pos (icmp cmp) k (map op_pair ps)"
proof -
  have "entry_slice (EncodeKey k) = Some (k, [])"
    using k by (simp add: mem_valid_def entry_slice_EncodeKey)
  then have v: "mvalid valid (EncodeKey k)" and mk: "mkey (EncodeKey k) = k"
    using k by (simp_all add: mvalid_def mkey_def mem_valid_def)
  have "mcmp cmp (entry_of p) (EncodeKey k) = icmp cmp (op_ikey p) k" if "p \<in> set ps" for p
    using that assms(1) mcmp_mkey [OF entry_of_valid(1) v] by (simp add: list_all_iff mk entry_of_valid)
  then have "takeWhile ((\<lambda>x. mcmp cmp x (EncodeKey k) < 0) \<circ> entry_of) ps =
      takeWhile ((\<lambda>kv. icmp cmp (fst kv) k < 0) \<circ> op_pair) ps"
    by (intro takeWhile_cong) (simp_all add: op_pair_def)
  then show ?thesis
    by (simp add: seek_pos_def takeWhile_map)
qed

lemma mem_valid_order: "key_order (icmp cmp) (mem_valid valid)"
  by (rule key_order_image [OF internal.key_order_axioms, where f = id]) (simp_all add: mem_valid_def)

end

sublocale user_comparator \<subseteq> mem_iter: iterator "icmp cmp" "mem_valid valid" "MemTableIterator cmp" "mem_at cmp valid"
proof (rule iterator.intro)
  show "key_order (icmp cmp) (mem_valid valid)"
    by (rule mem_valid_order)
  show "iterator_axioms (icmp cmp) (mem_valid valid) (MemTableIterator cmp) (mem_at cmp valid)"
  proof
    fix s kvs i k
    assume at: "mem_at cmp valid s kvs i"
    obtain m x where s: "s = (m, x)"
      by (cases s)
    obtain ps where ps: "list_all (op_ok valid) ps" "kvs = map op_pair ps"
      and it: "iter_at (mcmp cmp) (mvalid valid) (table m) (map entry_of ps) x i"
      using at by (auto simp: mem_at_def s)
    have at': "mem_at cmp valid (m, y) kvs j"
      if "iter_at (mcmp cmp) (mvalid valid) (table m) (map entry_of ps) y j" for y j
      using that ps by (auto simp: mem_at_def)
    note rep = iter_at_represents [OF it] and op = MemTableIterator_def s
    show "sorted_keys (icmp cmp) (mem_valid valid) kvs"
      using at by (rule mem_at_sorted)
    show "i \<le> length kvs"
      using iter_at_le [OF it] by (simp add: ps)
    show "it_Valid (MemTableIterator cmp) s \<longleftrightarrow> i < length kvs" "it_status (MemTableIterator cmp) s = OK"
      using mem.Iter_key_at(1) [OF it] by (simp_all add: op MemIter_Valid_def ps)
    show "it_key (MemTableIterator cmp) s = Some (fst (kvs ! i))"
      "it_value (MemTableIterator cmp) s = Some (snd (kvs ! i))" if "i < length kvs"
      using that ps mem.Iter_key_at(2) [OF it] MemIter_at_entry [of valid "ps ! i" m x]
      by (simp_all add: op list_all_length op_pair_def)
    show "\<exists>s'. it_SeekToFirst (MemTableIterator cmp) s = Some s' \<and> mem_at cmp valid s' kvs 0"
      "\<exists>s'. it_SeekToLast (MemTableIterator cmp) s = Some s' \<and> mem_at cmp valid s' kvs (length kvs - 1)"
      using mem.Iter_SeekToFirst_at [OF rep] mem.Iter_SeekToLast_at [OF rep] at'
      by (auto simp: op MemIter_SeekToFirst_def MemIter_SeekToLast_def ps(2))
    show "\<exists>s'. it_Seek (MemTableIterator cmp) k s = Some s' \<and> mem_at cmp valid s' kvs (seek_pos (icmp cmp) k kvs)"
      if k: "mem_valid valid k"
    proof -
      have "mvalid valid (EncodeKey k)"
        using k by (simp add: mvalid_def mem_valid_def entry_slice_EncodeKey)
      then show ?thesis
        using mem.Iter_Seek_at [OF rep, of "EncodeKey k"] at'
        unfolding mem_seek_pos [OF ps(1) k] ps(2) [symmetric] by (auto simp: op MemIter_Seek_def)
    qed
    show "\<exists>s'. it_Next (MemTableIterator cmp) s = Some s' \<and> mem_at cmp valid s' kvs (Suc i)"
      "\<exists>s'. it_Prev (MemTableIterator cmp) s = Some s' \<and> mem_at cmp valid s' kvs (prev_pos i kvs)"
      if "i < length kvs"
      using that mem.Iter_Next_at [OF it] mem.Iter_Prev_at [OF it] at'
      by (auto simp: op MemIter_Next_def MemIter_Prev_def ps(2) prev_pos_def)
  qed
qed

context user_comparator
begin

lemma mem_iterator: "iterator (icmp cmp) (mem_valid valid) (MemTableIterator cmp) (mem_at cmp valid)"
  by (rule mem_iter.iterator_axioms)

end

section \<open>Properties\<close>

text \<open>C6. A memtable answers a lookup with the newest visible operation: for a table that holds
  the operations \<open>ops\<close>, looking up a user key at sequence number \<open>s\<close> finds nothing when no
  operation on the key has a sequence number of at most \<open>s\<close>.  Otherwise it goes by the one with the
  largest sequence number (and type): it returns the value, and for a deletion it takes the exit
  for deleted keys, where the construction of \<open>Status::NotFound(Slice())\<close> writes outside its heap array.\<close>

theorem MemTable_Get_newest:
  assumes "user_comparator cmp valid separator successor" and "mem_represents cmp valid m ops"
    and "LookupKey_new ukey s = Some lk" and "length ukey + 8 < 2 ^ 32" and "valid ukey"
  shows "if \<forall>p \<in> set ops. \<not> visible cmp ukey s p
    then MemTable_Get cmp m lk value st = Some (False, value, st)
    else \<exists>p \<in> set ops. visible cmp ukey s p \<and>
      (\<forall>q \<in> set ops. visible cmp ukey s q \<longrightarrow> op_tag q \<le> op_tag p) \<and>
      (case op_type p of
         kTypeValue \<Rightarrow> MemTable_Get cmp m lk value st = Some (True, op_value p, st)
       | kTypeDeletion \<Rightarrow> MemTable_Get_exit cmp m lk = Some GetDeletion \<and> MemTable_Get cmp m lk value st = None)"
proof (cases "\<forall>p \<in> set ops. \<not> visible cmp ukey s p")
  case True
  then show ?thesis
    using user_comparator.MemTable_Get_represents(1) [OF assms] by (simp add: MemTable_Get_def)
next
  case False
  let ?V = "{p \<in> set ops. visible cmp ukey s p}"
  have "Max (op_tag ` ?V) \<in> op_tag ` ?V"
    using False by (intro Max_in) auto
  then obtain p where p: "p \<in> ?V" "Max (op_tag ` ?V) = op_tag p"
    by (rule imageE) (rule that)
  have "\<forall>q \<in> set ops. visible cmp ukey s q \<longrightarrow> op_tag q \<le> op_tag p"
    unfolding p(2) [symmetric] by (intro ballI impI Max_ge) simp_all
  moreover from this have "MemTable_Get_exit cmp m lk = Some (op_exit p)"
    using p(1) by (intro user_comparator.MemTable_Get_represents(2) [OF assms]) simp_all
  then have "case op_type p of
      kTypeValue \<Rightarrow> MemTable_Get cmp m lk value st = Some (True, op_value p, st)
    | kTypeDeletion \<Rightarrow> MemTable_Get_exit cmp m lk = Some GetDeletion \<and> MemTable_Get cmp m lk value st = None"
    using Status_new_overflow [of "[]" "[]" kNotFound]
    by (simp add: MemTable_Get_def op_exit_def length_status_message split: ValueType.split)
  ultimately show ?thesis
    unfolding if_not_P [OF False] using p(1) by blast
qed

text \<open>A small table: one block of the arena, one entry.\<close>

lemma example_new:
  obtains m where "MemTable_new 4096 = Some m" and "blocks (mem_arena m) = [(4096, 4096)]"
    and "alloc_bytes_remaining (mem_arena m) = 3992" and "mem_represents cmp valid m []"
proof -
  obtain m where m: "MemTable_new 4096 = Some m" "mem_represents cmp valid m []"
    using mem_represents_new [of 4096] by auto
  moreover have "AllocateAligned 4096 104 Arena_new =
      Some (4096, \<lparr>alloc_ptr = 4200, alloc_bytes_remaining = 3992, blocks = [(4096, 4096)], blocks_memory = 4096\<rparr>)"
    unfolding AllocateAligned_def and_align
    by (simp add: align_def Arena_new_def AllocateFallback_def AllocateNewBlock_def kBlockSize_def Let_def)
  ultimately show ?thesis
    using that [of m] by (simp add: MemTable_new_def node_bytes_def kMaxHeight_def)
      (metis MemTable.select_convs(2) Arena.select_convs(2,3))
qed

lemma example_Add_new_ok:
  assumes "blocks (mem_arena m) = [(4096, 4096)]" and "alloc_bytes_remaining (mem_arena m) = 3992"
    and "length k < 100" and "length v < 100"
  shows "Add_new_ok m k v 8192 8192"
proof -
  have len: "0 < Add_encoded_len k v" "Add_encoded_len k v \<le> 1024"
    using assms(3,4) length_EncodeVarint32 [of "word_of_nat (length k + 8)"] length_EncodeVarint32 [of "word_of_nat (length v)"]
    by (simp_all add: Add_encoded_len_def Let_def VarintLength_32 del: of_nat_add)
  have node: "node_bytes (fst (RandomHeight x)) \<le> 1024" for x
    using RandomHeight_bounds(2) [of x] by (simp add: node_bytes_def kMaxHeight_def)
  have "new_ok a 8192 n" if "n \<le> 1024" "blocks a = [(4096, 4096)]" for a n
    using that by (simp add: new_ok_def kBlockSize_def region_def)
  then show ?thesis
    using assms(1,2) len node by (simp add: Add_new_ok_def Allocate_def)
qed

lemma example_Add:
  obtains m m' where "MemTable_new 4096 = Some m"
    and "MemTable_Add Bytewise_Compare None 8192 8192 m 5 kTypeValue (str ''k'') (str ''v'') = Some m'"
    and "mem_represents Bytewise_Compare (\<lambda>_. True) m' [MemOp 5 kTypeValue (str ''k'') (str ''v'')]"
proof -
  obtain m where m: "MemTable_new 4096 = Some m" "blocks (mem_arena m) = [(4096, 4096)]"
    "alloc_bytes_remaining (mem_arena m) = 3992" "mem_represents Bytewise_Compare (\<lambda>_. True) m []"
    by (rule example_new)
  have "op_ok (\<lambda>_. True) (MemOp 5 kTypeValue (str ''k'') (str ''v''))"
    by (simp add: op_ok_def kMaxSequenceNumber_def)
  from bytewise_user.MemTable_Add_represents [OF m(4) this example_Add_new_ok [OF m(2,3)]] show thesis
    using that m(1) by auto
qed

theorem MemTable_Get_newest_witness:
  "\<exists>m m' lk. MemTable_new 4096 = Some m \<and>
     MemTable_Add Bytewise_Compare None 8192 8192 m 5 kTypeValue (str ''k'') (str ''v'') = Some m' \<and>
     LookupKey_new (str ''k'') 7 = Some lk \<and>
     MemTable_Get Bytewise_Compare m' lk [] OK = Some (True, str ''v'', OK)"
proof -
  let ?p = "MemOp 5 kTypeValue (str ''k'') (str ''v'')"
  obtain m m' where m: "MemTable_new 4096 = Some m"
    and m': "MemTable_Add Bytewise_Compare None 8192 8192 m 5 kTypeValue (str ''k'') (str ''v'') = Some m'"
    and rep: "mem_represents Bytewise_Compare (\<lambda>_. True) m' [?p]"
    by (rule example_Add)
  obtain lk where lk: "LookupKey_new (str ''k'') 7 = Some lk"
    by (simp add: LookupKey_new_def PackSequenceAndType_def kMaxSequenceNumber_def kValueTypeForSeek_def Let_def
        EncodeVarint32_def)
  have "visible Bytewise_Compare (str ''k'') 7 ?p"
    by (simp add: visible_def Bytewise_eq)
  then have "MemTable_Get Bytewise_Compare m' lk [] OK = Some (True, str ''v'', OK)"
    using MemTable_Get_newest [OF bytewise_user.user_comparator_axioms rep lk, of "[]" OK] by simp
  with m m' lk show ?thesis
    by blast
qed

text \<open>C27. Adding an operation to a memtable: the assertion on the length of the entry holds, the
  allocations succeed, and the table then holds the operation and all earlier ones, provided no
  operation with the same user key, sequence number and type is there.\<close>

theorem MemTable_Add_correct:
  assumes "user_comparator cmp valid separator successor" and "mem_represents cmp valid m ops"
    and "op_ok valid (MemOp s t k v)" and "Add_new_ok m k v fresh fresh'"
    and "list_all (\<lambda>p. \<not> (cmp (op_key p) k = 0 \<and> op_seq p = s \<and> op_type p = t)) ops"
  shows "\<exists>m'. MemTable_Add cmp garbage fresh fresh' m s t k v = Some m' \<and>
    mem_represents cmp valid m' (MemOp s t k v # ops)"
  using user_comparator.MemTable_Add_represents [OF assms(1-4)] assms(5) by (auto simp: list_all_iff)

theorem MemTable_Add_correct_witness:
  "\<exists>m m'. MemTable_new 4096 = Some m \<and>
     MemTable_Add Bytewise_Compare None 8192 8192 m 5 kTypeValue (str ''k'') (str ''v'') = Some m' \<and>
     mem_represents Bytewise_Compare (\<lambda>_. True) m' [MemOp 5 kTypeValue (str ''k'') (str ''v'')]"
proof -
  obtain m where m: "MemTable_new 4096 = Some m" "blocks (mem_arena m) = [(4096, 4096)]"
    "alloc_bytes_remaining (mem_arena m) = 3992" "mem_represents Bytewise_Compare (\<lambda>_. True) m []"
    by (rule example_new)
  have ok: "op_ok (\<lambda>_. True) (MemOp 5 kTypeValue (str ''k'') (str ''v''))"
    by (simp add: op_ok_def kMaxSequenceNumber_def)
  from MemTable_Add_correct [OF bytewise_user.user_comparator_axioms m(4) ok example_Add_new_ok [OF m(2,3)]]
  show ?thesis
    using m(1) by auto
qed

lemma mem_at_NewIterator:
  assumes "mem_represents cmp valid m ops"
  obtains kvs where "mem_at cmp valid (MemTable_NewIterator m) kvs (length kvs)" and "set kvs = op_pair ` set ops"
proof -
  obtain es where es: "represents (mcmp cmp) (mvalid valid) (table m) es" "set es = entry_of ` set ops"
    and ops: "list_all (op_ok valid) ops"
    using assms by (auto simp: mem_represents_def)
  have "\<exists>ps. es = map entry_of ps \<and> set ps \<subseteq> set ops"
  proof -
    have "es \<in> lists (entry_of ` set ops)"
      using es(2) by (simp add: in_lists_conv_set)
    then show ?thesis
      unfolding lists_image by auto
  qed
  then obtain ps where ps: "es = map entry_of ps" "set ps \<subseteq> set ops"
    by blast
  have sub: "op_pair ` set ops \<subseteq> op_pair ` set ps"
  proof (rule image_subsetI)
    fix q
    assume q: "q \<in> set ops"
    then obtain p where p: "p \<in> set ps" "entry_of q = entry_of p"
      using es(2) ps(1) by (metis imageE imageI list.set_map)
    then have "op_pair q = op_pair p"
      using q entry_of_inject [of valid q p] ops ps(2) by (auto simp: op_pair_def op_ikey_def list_all_iff)
    with p(1) show "op_pair q \<in> op_pair ` set ps"
      by simp
  qed
  have "op_pair ` set ps = op_pair ` set ops"
    using sub image_mono [OF ps(2), of op_pair] by (rule equalityI [rotated])
  moreover have "mem_at cmp valid (MemTable_NewIterator m) (map op_pair ps) (length (map op_pair ps))"
    using es(1) ps ops
    by (auto simp: mem_at_def MemTable_NewIterator_def Iterator_new_def iter_at_def represents_def list_all_iff
        intro!: exI [of _ ps])
  ultimately show ?thesis
    using that [of "map op_pair ps"] by simp
qed

text \<open>C28. Iterating over a memtable from its first entry yields the internal key and the value of
  every operation that was added, in the order of the internal keys.\<close>

theorem MemTable_scan:
  assumes "user_comparator cmp valid separator successor" and "mem_represents cmp valid m ops"
  shows "\<exists>kvs s. it_SeekToFirst (MemTableIterator cmp) (MemTable_NewIterator m) = Some s \<and>
    set kvs = op_pair ` set ops \<and> sorted_keys (icmp cmp) (mem_valid valid) kvs \<and>
    scan (MemTableIterator cmp) (length kvs) s = Some kvs"
proof -
  obtain kvs where at: "mem_at cmp valid (MemTable_NewIterator m) kvs (length kvs)" and kvs: "set kvs = op_pair ` set ops"
    using mem_at_NewIterator [OF assms(2)] .
  note it = user_comparator.mem_iterator [OF assms(1)]
  obtain s where "it_SeekToFirst (MemTableIterator cmp) (MemTable_NewIterator m) = Some s" "mem_at cmp valid s kvs 0"
    using iterator.SeekToFirst_at [OF it at] by blast
  then show ?thesis
    using kvs iterator.at_sorted [OF it at] iterator.scan_at [OF it, of s kvs 0 "length kvs"] by auto
qed

theorem MemTable_scan_witness:
  "\<exists>m m' s kvs. MemTable_new 4096 = Some m \<and>
     MemTable_Add Bytewise_Compare None 8192 8192 m 5 kTypeValue (str ''k'') (str ''v'') = Some m' \<and>
     it_SeekToFirst (MemTableIterator Bytewise_Compare) (MemTable_NewIterator m') = Some s \<and>
     scan (MemTableIterator Bytewise_Compare) (length kvs) s = Some kvs \<and> snd ` set kvs = {str ''v''}"
proof -
  let ?p = "MemOp 5 kTypeValue (str ''k'') (str ''v'')"
  obtain m m' where m: "MemTable_new 4096 = Some m"
    "MemTable_Add Bytewise_Compare None 8192 8192 m 5 kTypeValue (str ''k'') (str ''v'') = Some m'"
    "mem_represents Bytewise_Compare (\<lambda>_. True) m' [?p]"
    by (rule example_Add)
  obtain kvs s where s: "it_SeekToFirst (MemTableIterator Bytewise_Compare) (MemTable_NewIterator m') = Some s"
    and kvs: "set kvs = op_pair ` set [?p]" "scan (MemTableIterator Bytewise_Compare) (length kvs) s = Some kvs"
    using MemTable_scan [OF bytewise_user.user_comparator_axioms m(3)] by blast
  have "snd ` set kvs = {str ''v''}"
    unfolding kvs(1) by (simp add: op_pair_def)
  with m(1,2) s kvs(2) show ?thesis
    by blast
qed

end
