(* ===== verification/Merger.thy ===== *)
theory Merger
  imports Iterators
begin

text \<open>
  The merging iterator (\<^verbatim>\<open>table/merger.cpp\<close>) over children that satisfy the contract of
  \<open>Iterators\<close>.  The pointer \<open>current_\<close> is an index into \<open>children_\<close>.  The result: the merging
  iterator itself satisfies the contract, for the sorted union of what the children yield, when
  no key occurs in two children.
\<close>

section \<open>Operations\<close>

datatype Direction = kForward | kReverse

record 's MergingIterator =
  children :: "'s IteratorWrapper list"
  current :: "nat option"
  direction :: Direction

text \<open>A loop over the children, each given with its index.\<close>

fun for_children :: "(nat \<Rightarrow> 'w \<Rightarrow> 'w option) \<Rightarrow> nat \<Rightarrow> 'w list \<Rightarrow> 'w list option" where
  "for_children f i [] = Some []"
| "for_children f i (w # ws) =
     (case f i w of None \<Rightarrow> None | Some w' \<Rightarrow> map_option (Cons w') (for_children f (Suc i) ws))"

definition MergingIterator_new :: "'s Iterator \<Rightarrow> 's list \<Rightarrow> 's MergingIterator option" where
  "MergingIterator_new ops its =
     map_option (\<lambda>cs. \<lparr>children = cs, current = None, direction = kForward\<rparr>)
       (for_children (\<lambda>i w. Wrapper_Set ops (Some (its ! i)) w) 0 (replicate (length its) Wrapper_null))"

text \<open>The loops of \<open>FindSmallest\<close> and \<open>FindLargest\<close>; \<open>key()\<close> is only called on valid children.\<close>

fun FindSmallest_loop ::
  "(bytes \<Rightarrow> bytes \<Rightarrow> int) \<Rightarrow> 's IteratorWrapper list \<Rightarrow> nat list \<Rightarrow> nat option \<Rightarrow> nat option" where
  "FindSmallest_loop cmp cs [] smallest = smallest"
| "FindSmallest_loop cmp cs (i # is) smallest =
     FindSmallest_loop cmp cs is
       (if Wrapper_Valid (cs ! i) then
          (case smallest of
             None \<Rightarrow> Some i
           | Some j \<Rightarrow> if cmp (wkey (cs ! i)) (wkey (cs ! j)) < 0 then Some i else smallest)
        else smallest)"

definition FindSmallest ::
  "(bytes \<Rightarrow> bytes \<Rightarrow> int) \<Rightarrow> 's MergingIterator \<Rightarrow> 's MergingIterator" where
  "FindSmallest cmp m =
     m\<lparr>current := FindSmallest_loop cmp (children m) [0..<length (children m)] None\<rparr>"

fun FindLargest_loop ::
  "(bytes \<Rightarrow> bytes \<Rightarrow> int) \<Rightarrow> 's IteratorWrapper list \<Rightarrow> nat list \<Rightarrow> nat option \<Rightarrow> nat option" where
  "FindLargest_loop cmp cs [] largest = largest"
| "FindLargest_loop cmp cs (i # is) largest =
     FindLargest_loop cmp cs is
       (if Wrapper_Valid (cs ! i) then
          (case largest of
             None \<Rightarrow> Some i
           | Some j \<Rightarrow> if cmp (wkey (cs ! i)) (wkey (cs ! j)) > 0 then Some i else largest)
        else largest)"

definition FindLargest ::
  "(bytes \<Rightarrow> bytes \<Rightarrow> int) \<Rightarrow> 's MergingIterator \<Rightarrow> 's MergingIterator" where
  "FindLargest cmp m =
     m\<lparr>current := FindLargest_loop cmp (children m) (rev [0..<length (children m)]) None\<rparr>"

definition Merging_Valid :: "'s MergingIterator \<Rightarrow> bool" where
  "Merging_Valid m \<longleftrightarrow> current m \<noteq> None"

definition Merging_SeekToFirst ::
  "(bytes \<Rightarrow> bytes \<Rightarrow> int) \<Rightarrow> 's Iterator \<Rightarrow> 's MergingIterator \<Rightarrow> 's MergingIterator option" where
  "Merging_SeekToFirst cmp ops m =
     (case for_children (\<lambda>_. Wrapper_SeekToFirst ops) 0 (children m) of
        None \<Rightarrow> None
      | Some cs \<Rightarrow> Some ((FindSmallest cmp (m\<lparr>children := cs\<rparr>))\<lparr>direction := kForward\<rparr>))"

definition Merging_SeekToLast ::
  "(bytes \<Rightarrow> bytes \<Rightarrow> int) \<Rightarrow> 's Iterator \<Rightarrow> 's MergingIterator \<Rightarrow> 's MergingIterator option" where
  "Merging_SeekToLast cmp ops m =
     (case for_children (\<lambda>_. Wrapper_SeekToLast ops) 0 (children m) of
        None \<Rightarrow> None
      | Some cs \<Rightarrow> Some ((FindLargest cmp (m\<lparr>children := cs\<rparr>))\<lparr>direction := kReverse\<rparr>))"

definition Merging_Seek ::
  "(bytes \<Rightarrow> bytes \<Rightarrow> int) \<Rightarrow> 's Iterator \<Rightarrow> bytes \<Rightarrow> 's MergingIterator \<Rightarrow> 's MergingIterator option" where
  "Merging_Seek cmp ops target m =
     (case for_children (\<lambda>_. Wrapper_Seek ops target) 0 (children m) of
        None \<Rightarrow> None
      | Some cs \<Rightarrow> Some ((FindSmallest cmp (m\<lparr>children := cs\<rparr>))\<lparr>direction := kForward\<rparr>))"

text \<open>Moving a child that is not current past \<open>key()\<close>, and before it.\<close>

definition position_after ::
  "(bytes \<Rightarrow> bytes \<Rightarrow> int) \<Rightarrow> 's Iterator \<Rightarrow> bytes \<Rightarrow> 's IteratorWrapper \<Rightarrow> 's IteratorWrapper option" where
  "position_after cmp ops k child =
     (case Wrapper_Seek ops k child of
        None \<Rightarrow> None
      | Some child \<Rightarrow>
          if Wrapper_Valid child \<and> cmp k (wkey child) = 0 then Wrapper_Next ops child else Some child)"

definition position_before ::
  "'s Iterator \<Rightarrow> bytes \<Rightarrow> 's IteratorWrapper \<Rightarrow> 's IteratorWrapper option" where
  "position_before ops k child =
     (case Wrapper_Seek ops k child of
        None \<Rightarrow> None
      | Some child \<Rightarrow>
          if Wrapper_Valid child then Wrapper_Prev ops child else Wrapper_SeekToLast ops child)"

definition Merging_key :: "'s MergingIterator \<Rightarrow> bytes option" where
  "Merging_key m = (case current m of None \<Rightarrow> None | Some c \<Rightarrow> Wrapper_key (children m ! c))"

definition Merging_value :: "'s Iterator \<Rightarrow> 's MergingIterator \<Rightarrow> bytes option" where
  "Merging_value ops m = (case current m of None \<Rightarrow> None | Some c \<Rightarrow> Wrapper_value ops (children m ! c))"

definition Merging_Next ::
  "(bytes \<Rightarrow> bytes \<Rightarrow> int) \<Rightarrow> 's Iterator \<Rightarrow> 's MergingIterator \<Rightarrow> 's MergingIterator option" where
  "Merging_Next cmp ops m =
     (case (current m, Merging_key m) of
        (Some c, Some k) \<Rightarrow>
          (case (if direction m \<noteq> kForward then
                   for_children (\<lambda>i child. if i \<noteq> c then position_after cmp ops k child else Some child)
                     0 (children m)
                 else Some (children m)) of
             None \<Rightarrow> None
           | Some cs \<Rightarrow>
               (case Wrapper_Next ops (cs ! c) of
                  None \<Rightarrow> None
                | Some w \<Rightarrow> Some (FindSmallest cmp (m\<lparr>children := cs[c := w], direction := kForward\<rparr>))))
      | _ \<Rightarrow> None)"

definition Merging_Prev ::
  "(bytes \<Rightarrow> bytes \<Rightarrow> int) \<Rightarrow> 's Iterator \<Rightarrow> 's MergingIterator \<Rightarrow> 's MergingIterator option" where
  "Merging_Prev cmp ops m =
     (case (current m, Merging_key m) of
        (Some c, Some k) \<Rightarrow>
          (case (if direction m \<noteq> kReverse then
                   for_children (\<lambda>i child. if i \<noteq> c then position_before ops k child else Some child)
                     0 (children m)
                 else Some (children m)) of
             None \<Rightarrow> None
           | Some cs \<Rightarrow>
               (case Wrapper_Prev ops (cs ! c) of
                  None \<Rightarrow> None
                | Some w \<Rightarrow> Some (FindLargest cmp (m\<lparr>children := cs[c := w], direction := kReverse\<rparr>))))
      | _ \<Rightarrow> None)"

text \<open>The loop of \<open>status()\<close>: the first status that is not ok, else the last one.\<close>

fun Merging_status_loop :: "'s Iterator \<Rightarrow> 's IteratorWrapper list \<Rightarrow> Status \<Rightarrow> Status" where
  "Merging_status_loop ops [] status = status"
| "Merging_status_loop ops (w # ws) status =
     (let status = it_status (WrapperIterator ops) w in
      if \<not> Status.ok status then status else Merging_status_loop ops ws status)"

definition Merging_status :: "'s Iterator \<Rightarrow> 's MergingIterator \<Rightarrow> Status" where
  "Merging_status ops m = Merging_status_loop ops (children m) OK"

definition MergingIterator :: "(bytes \<Rightarrow> bytes \<Rightarrow> int) \<Rightarrow> 's Iterator \<Rightarrow> 's MergingIterator Iterator" where
  "MergingIterator cmp ops =
     \<lparr>it_Valid = Merging_Valid, it_SeekToFirst = Merging_SeekToFirst cmp ops,
      it_SeekToLast = Merging_SeekToLast cmp ops, it_Seek = Merging_Seek cmp ops,
      it_Next = Merging_Next cmp ops, it_Prev = Merging_Prev cmp ops,
      it_key = Merging_key, it_value = Merging_value ops, it_status = Merging_status ops\<rparr>"

text \<open>\<open>NewMergingIterator\<close>: the empty iterator, the only child, or a merging iterator.\<close>

datatype 's Merged = Merged_empty Status | Merged_single 's | Merged_many "'s MergingIterator"

definition NewMergingIterator :: "'s Iterator \<Rightarrow> 's list \<Rightarrow> 's Merged option" where
  "NewMergingIterator ops its =
     (if length its = 0 then Some (Merged_empty NewEmptyIterator)
      else if length its = 1 then Some (Merged_single (its ! 0))
      else map_option Merged_many (MergingIterator_new ops its))"

section \<open>Positions in the union\<close>

text \<open>\<open>lower kvs j c\<close>: the number of entries of the child \<open>c\<close> among the first \<open>j\<close> entries of the union.\<close>

definition lower :: "'a list \<Rightarrow> nat \<Rightarrow> 'a list \<Rightarrow> nat" where
  "lower kvs j c = length (takeWhile (\<lambda>x. x \<in> set (take j kvs)) c)"

text \<open>\<open>c\<close> is a part of \<open>kvs\<close> in the same order.\<close>

definition part_of :: "'a list \<Rightarrow> 'a list \<Rightarrow> bool" where
  "part_of c kvs \<longleftrightarrow> set c \<subseteq> set kvs \<and>
     (\<forall>p q i j. p < q \<longrightarrow> q < length c \<longrightarrow> i < length kvs \<longrightarrow> j < length kvs \<longrightarrow>
        c ! p = kvs ! i \<longrightarrow> c ! q = kvs ! j \<longrightarrow> i < j)"

lemma lower_0 [simp]: "lower kvs 0 c = 0"
  by (simp add: lower_def) (cases c; simp)

lemma lower_all: "part_of c kvs \<Longrightarrow> lower kvs (length kvs) c = length c"
  unfolding lower_def part_of_def by (simp add: takeWhile_eq_all_conv [THEN iffD2] subset_iff)

lemma lower_le: "lower kvs j c \<le> length c"
  by (simp add: lower_def length_takeWhile_le)

lemma lower_below: "p < lower kvs j c \<Longrightarrow> c ! p \<in> set (take j kvs)"
  unfolding lower_def by (metis (no_types, lifting) nth_mem set_takeWhileD takeWhile_nth)

lemma lower_above: "lower kvs j c < length c \<Longrightarrow> c ! lower kvs j c \<notin> set (take j kvs)"
  unfolding lower_def by (rule nth_length_takeWhile)

lemma lower_other: "j < length kvs \<Longrightarrow> kvs ! j \<notin> set c \<Longrightarrow> lower kvs (Suc j) c = lower kvs j c"
  unfolding lower_def by (rule arg_cong [of _ _ length], rule takeWhile_cong) (auto simp: take_Suc_conv_app_nth)

lemma lower_this:
  assumes part: "part_of c kvs" and dist: "distinct kvs" and j: "j < length kvs" "kvs ! j \<in> set c"
  shows "lower kvs j c < length c" and "c ! lower kvs j c = kvs ! j" and "lower kvs (Suc j) c = Suc (lower kvs j c)"
proof -
  obtain p where p: "p < length c" "c ! p = kvs ! j"
    using j(2) by (metis in_set_conv_nth)
  have below: "c ! q \<in> set (take j kvs)" if "q < p" for q
  proof -
    have "c ! q \<in> set kvs"
      using part [unfolded part_of_def, THEN conjunct1] that p(1) by (simp add: subset_iff)
    then obtain i where i: "i < length kvs" "c ! q = kvs ! i"
      by (metis in_set_conv_nth)
    have "i < j"
      using part [unfolded part_of_def, THEN conjunct2, rule_format, OF that p(1) i(1) j(1) i(2) p(2)] .
    then show ?thesis
      using i j(1) by (metis in_set_conv_nth length_take min.absorb4 nth_take)
  qed
  have out: "c ! p \<notin> set (take j kvs)"
  proof
    assume "c ! p \<in> set (take j kvs)"
    then obtain i where i: "i < j" "kvs ! i = kvs ! j"
      by (auto simp: in_set_conv_nth p(2))
    then show False
      using dist j(1) nth_eq_iff_index_eq [OF dist, of i j] by simp
  qed
  have take: "takeWhile (\<lambda>x. x \<in> set (take j kvs)) c = take p c"
    using below out p(1) by (intro takeWhile_eq_take_P_nth) simp_all
  then have lower: "lower kvs j c = p"
    using p(1) by (simp add: lower_def)
  show "lower kvs j c < length c" "c ! lower kvs j c = kvs ! j"
    using p by (simp_all add: lower)
  have "takeWhile (\<lambda>x. x \<in> set (take (Suc j) kvs)) c = take (Suc p) c"
  proof (rule takeWhile_eq_take_P_nth)
    show "c ! q \<in> set (take (Suc j) kvs)" if "q < Suc p" "q < length c" for q
      using that below [of q] p(2) j(1) by (auto simp: less_Suc_eq take_Suc_conv_app_nth)
    show "c ! Suc p \<notin> set (take (Suc j) kvs)" if q: "Suc p < length c"
    proof
      assume "c ! Suc p \<in> set (take (Suc j) kvs)"
      then obtain i where i: "i < Suc j" "i < length kvs" "c ! Suc p = kvs ! i"
        by (auto simp: in_set_conv_nth)
      have "j < i"
        using part [unfolded part_of_def, THEN conjunct2, rule_format, OF lessI q j(1) i(2) p(2) i(3)] .
      with i(1) show False
        by simp
    qed
  qed
  then show "lower kvs (Suc j) c = Suc (lower kvs j c)"
    unfolding lower using p(1) by (simp add: lower_def)
qed

section \<open>Loops over the children\<close>

lemma for_children_ok:
  assumes "\<And>i. i < length ws \<Longrightarrow> \<exists>w'. f (n + i) (ws ! i) = Some w' \<and> P i w'"
  shows "\<exists>ws'. for_children f n ws = Some ws' \<and> length ws' = length ws \<and> (\<forall>i < length ws. P i (ws' ! i))"
  using assms
proof (induction ws arbitrary: n P)
  case (Cons w ws)
  obtain w' where w': "f n w = Some w'" "P 0 w'"
    using Cons.prems [of 0] by auto
  have "\<exists>w'. f (Suc n + i) (ws ! i) = Some w' \<and> P (Suc i) w'" if "i < length ws" for i
    using Cons.prems [of "Suc i"] that by simp
  from Cons.IH [of "Suc n" "\<lambda>i. P (Suc i)", OF this]
  obtain ws' where "for_children f (Suc n) ws = Some ws'" "length ws' = length ws" "\<forall>i < length ws. P (Suc i) (ws' ! i)"
    by blast
  then show ?case
    using w' by (auto simp: nth_Cons split: nat.split)
qed simp

text \<open>Both searches keep the best valid child so far.\<close>

fun pick :: "(bytes \<Rightarrow> bytes \<Rightarrow> bool) \<Rightarrow> 's IteratorWrapper list \<Rightarrow> nat list \<Rightarrow> nat option \<Rightarrow> nat option" where
  "pick better cs [] best = best"
| "pick better cs (i # is) best =
     pick better cs is
       (if Wrapper_Valid (cs ! i) then
          (case best of
             None \<Rightarrow> Some i
           | Some j \<Rightarrow> if better (wkey (cs ! i)) (wkey (cs ! j)) then Some i else best)
        else best)"

lemma FindSmallest_loop_pick: "FindSmallest_loop cmp cs is best = pick (\<lambda>a b. cmp a b < 0) cs is best"
  by (induction "is" arbitrary: best) simp_all

lemma FindLargest_loop_pick: "FindLargest_loop cmp cs is best = pick (\<lambda>a b. cmp a b > 0) cs is best"
  by (induction "is" arbitrary: best) simp_all

definition candidates :: "'s IteratorWrapper list \<Rightarrow> nat list \<Rightarrow> nat option \<Rightarrow> nat set" where
  "candidates cs is best = {i \<in> set is. Wrapper_Valid (cs ! i)} \<union> set_option best"

definition best_of :: "(bytes \<Rightarrow> bytes \<Rightarrow> bool) \<Rightarrow> 's IteratorWrapper list \<Rightarrow> nat set \<Rightarrow> nat option \<Rightarrow> bool" where
  "best_of better cs C r \<longleftrightarrow>
     (case r of None \<Rightarrow> C = {}
      | Some c \<Rightarrow> c \<in> C \<and> (\<forall>i \<in> C. \<not> better (wkey (cs ! i)) (wkey (cs ! c))))"

lemma pick_best:
  assumes trans: "\<And>a b c. a \<in> K \<Longrightarrow> b \<in> K \<Longrightarrow> c \<in> K \<Longrightarrow> better a b \<Longrightarrow> better b c \<Longrightarrow> better a c"
    and neg: "\<And>a b c. a \<in> K \<Longrightarrow> b \<in> K \<Longrightarrow> c \<in> K \<Longrightarrow> better a c \<Longrightarrow> better a b \<or> better b c"
    and irrefl: "\<And>a. a \<in> K \<Longrightarrow> \<not> better a a"
    and "\<And>i. i \<in> candidates cs is best \<Longrightarrow> wkey (cs ! i) \<in> K"
  shows "best_of better cs (candidates cs is best) (pick better cs is best)"
  using assms(4)
proof (induction "is" arbitrary: best)
  case Nil
  then show ?case
    using irrefl by (cases best) (auto simp: best_of_def candidates_def)
next
  case (Cons i "is")
  define upd where "upd = (if Wrapper_Valid (cs ! i) then
          (case best of
             None \<Rightarrow> Some i
           | Some j \<Rightarrow> if better (wkey (cs ! i)) (wkey (cs ! j)) then Some i else best)
        else best)"
  let ?C = "candidates cs (i # is) best" and ?D = "candidates cs is upd" and ?k = "\<lambda>i. wkey (cs ! i)"
  have sub: "?D \<subseteq> ?C"
    by (auto simp: candidates_def upd_def split: if_splits option.splits)
  have IH: "best_of better cs ?D (pick better cs is upd)"
    by (rule Cons.IH) (use Cons.prems sub in blast)
  have beaten: "x \<in> ?D \<or> (\<exists>y \<in> ?D. better (?k y) (?k x) \<or> \<not> better (?k x) (?k y))" if "x \<in> ?C" for x
    using that by (auto simp: candidates_def upd_def split: if_splits option.splits)
  have "\<not> better (?k x) (?k c)" if x: "x \<in> ?C" and c: "c \<in> ?D" "\<forall>y \<in> ?D. \<not> better (?k y) (?k c)" for x c
  proof
    assume xc: "better (?k x) (?k c)"
    have cC: "c \<in> ?C"
      using c(1) sub by blast
    then obtain y where y: "y \<in> ?D" "better (?k y) (?k x) \<or> \<not> better (?k x) (?k y)"
      using beaten [OF x] xc c(2) by blast
    have keys: "?k x \<in> K" "?k y \<in> K" "?k c \<in> K"
      using Cons.prems x y(1) cC sub by blast+
    show False
      using y(2) trans [OF keys(2,1,3)] neg [OF keys(1,2,3) xc] xc c(2) y(1) by blast
  qed
  moreover have "?C = {}" if "?D = {}"
    using beaten that by blast
  ultimately show ?case
    using IH sub by (auto simp: best_of_def upd_def [symmetric] split: option.splits)
qed

section \<open>The invariant\<close>

text \<open>\<open>kss\<close> is what the children yield; the union \<open>kvs\<close> of it has no key twice.\<close>

definition union_of :: "(bytes \<times> bytes) list list \<Rightarrow> (bytes \<times> bytes) list \<Rightarrow> bool" where
  "union_of kss kvs \<longleftrightarrow>
     set kvs = \<Union> (set ` set kss) \<and>
     (\<forall>c d. c < length kss \<longrightarrow> d < length kss \<longrightarrow> c \<noteq> d \<longrightarrow> set (kss ! c) \<inter> set (kss ! d) = {})"

text \<open>Every child \<open>c\<close> stands at position \<open>pos c\<close> of what it yields.\<close>

definition children_at ::
  "'s Iterator \<Rightarrow> ('s \<Rightarrow> (bytes \<times> bytes) list \<Rightarrow> nat \<Rightarrow> bool) \<Rightarrow> 's IteratorWrapper list \<Rightarrow>
     (bytes \<times> bytes) list list \<Rightarrow> ((bytes \<times> bytes) list \<Rightarrow> nat) \<Rightarrow> bool" where
  "children_at ops at cs kss pos \<longleftrightarrow>
     length cs = length kss \<and> (\<forall>c < length kss. wrapper_at ops at (cs ! c) (kss ! c) (pos (kss ! c)))"

definition merge_at ::
  "(bytes \<Rightarrow> bytes \<Rightarrow> int) \<Rightarrow> (bytes \<Rightarrow> bool) \<Rightarrow> 's Iterator \<Rightarrow> ('s \<Rightarrow> (bytes \<times> bytes) list \<Rightarrow> nat \<Rightarrow> bool) \<Rightarrow>
     's MergingIterator \<Rightarrow> (bytes \<times> bytes) list \<Rightarrow> nat \<Rightarrow> bool" where
  "merge_at cmp valid ops at m kvs i \<longleftrightarrow>
     sorted_keys cmp valid kvs \<and> i \<le> length kvs \<and>
     (\<exists>kss. union_of kss kvs \<and> length (children m) = length kss \<and>
        (if i < length kvs then
           (\<exists>c < length kss. current m = Some c \<and> kvs ! i \<in> set (kss ! c)) \<and>
           (direction m = kForward \<and> children_at ops at (children m) kss (lower kvs i) \<or>
            direction m = kReverse \<and> children_at ops at (children m) kss (\<lambda>c. prev_pos (lower kvs (Suc i) c) c))
         else current m = None \<and> (\<forall>c < length kss. \<exists>p. wrapper_at ops at (children m ! c) (kss ! c) p)))"

context iterator
begin

lemma sorted_index:
  assumes "sorted_keys cmp valid kvs" and "i < length kvs" and "j < length kvs"
  shows "cmp (fst (kvs ! i)) (fst (kvs ! j)) < 0 \<longleftrightarrow> i < j" and "cmp (fst (kvs ! i)) (fst (kvs ! j)) = 0 \<longleftrightarrow> i = j"
    and "cmp (fst (kvs ! i)) (fst (kvs ! j)) > 0 \<longleftrightarrow> j < i"
proof -
  have sorted: "sorted_wrt (\<lambda>a b. cmp (fst a) (fst b) < 0) kvs"
    and v: "valid (fst (kvs ! i))" "valid (fst (kvs ! j))"
    using assms by (auto simp: sorted_keys_def list_all_length)
  note less = sorted_wrt_nth_less [OF sorted]
  consider "i < j" | "i = j" | "j < i"
    by linarith
  then show "cmp (fst (kvs ! i)) (fst (kvs ! j)) < 0 \<longleftrightarrow> i < j" "cmp (fst (kvs ! i)) (fst (kvs ! j)) = 0 \<longleftrightarrow> i = j"
    "cmp (fst (kvs ! i)) (fst (kvs ! j)) > 0 \<longleftrightarrow> j < i"
    using less [of i j] less [of j i] cmp_refl [OF v(1)] cmp_swap [OF v] assms(2,3) by (cases, simp_all)+
qed

lemma sorted_keys_distinct: "sorted_keys cmp valid kvs \<Longrightarrow> distinct kvs"
  unfolding distinct_conv_nth using sorted_index(2) by metis

lemma sorted_part_of:
  assumes "sorted_keys cmp valid kvs" and "sorted_keys cmp valid c" and "set c \<subseteq> set kvs"
  shows "part_of c kvs"
  unfolding part_of_def
proof (intro conjI allI impI)
  fix p q i j
  assume pq: "p < q" "q < length c" and ij: "i < length kvs" "j < length kvs" "c ! p = kvs ! i" "c ! q = kvs ! j"
  then have "cmp (fst (kvs ! i)) (fst (kvs ! j)) < 0"
    using sorted_index(1) [OF assms(2), of p q] by simp
  then show "i < j"
    using sorted_index(1) [OF assms(1) ij(1,2)] by simp
qed (rule assms(3))

lemma children_at_cong:
  "(\<And>c. c \<in> set kss \<Longrightarrow> pos c = pos' c) \<Longrightarrow> children_at ops at cs kss pos \<longleftrightarrow> children_at ops at cs kss pos'"
  unfolding children_at_def by auto

lemma wrapper_at_key:
  assumes "wrapper_at ops at w c p"
  shows "Wrapper_Valid w \<longleftrightarrow> p < length c" and "p < length c \<Longrightarrow> wkey w = fst (c ! p)"
    and "p < length c \<Longrightarrow> Wrapper_value ops w = Some (snd (c ! p))" and "p \<le> length c" and "sorted_keys cmp valid c"
  using assms Valid_at key_at value_at at_le at_sorted by (fastforce simp: wrapper_at_def Wrapper_Valid_def Wrapper_value_def)+

lemma weak_order:
  assumes "valid a" "valid b" "valid c"
  shows "cmp a c < 0 \<Longrightarrow> cmp a b < 0 \<or> cmp b c < 0" and "cmp a c > 0 \<Longrightarrow> cmp a b > 0 \<or> cmp b c > 0"
    and "cmp a b > 0 \<Longrightarrow> cmp b c > 0 \<Longrightarrow> cmp a c > 0"
  using assms cmp_trans [of c b a] cmp_trans [of a b c] cmp_less_trans [of c b a]
    cmp_swap [of a b] cmp_swap [of b c] cmp_swap [of a c] cmp_ge_iff [of a b] cmp_ge_iff [of b c] cmp_ge_iff [of a c]
  by (auto simp: not_less)

lemma pick_best_valid:
  assumes "better = (\<lambda>a b. cmp a b < 0) \<or> better = (\<lambda>a b. cmp a b > 0)"
    and "\<And>i. i \<in> candidates cs is best \<Longrightarrow> valid (wkey (cs ! i))"
  shows "best_of better cs (candidates cs is best) (pick better cs is best)"
proof (rule pick_best [where K = "{k. valid k}"])
  show "better a c" if "a \<in> {k. valid k}" "b \<in> {k. valid k}" "c \<in> {k. valid k}" "better a b" "better b c" for a b c
    using assms(1) that cmp_less_trans weak_order(3) by blast
  show "better a b \<or> better b c" if "a \<in> {k. valid k}" "b \<in> {k. valid k}" "c \<in> {k. valid k}" "better a c" for a b c
    using assms(1) that weak_order(1,2) by blast
  show "\<not> better a a" if "a \<in> {k. valid k}" for a
    using assms(1) that cmp_refl by auto
qed (use assms(2) in simp)

lemma children_candidates:
  assumes "children_at ops at cs kss pos" and "set is = {..<length cs}"
  shows "candidates cs is None = {c. c < length kss \<and> pos (kss ! c) < length (kss ! c)}"
    and "c \<in> candidates cs is None \<Longrightarrow> wkey (cs ! c) = fst (kss ! c ! pos (kss ! c))"
    and "c \<in> candidates cs is None \<Longrightarrow> valid (wkey (cs ! c))"
proof -
  have at: "wrapper_at ops at (cs ! c) (kss ! c) (pos (kss ! c))" if "c < length kss" for c
    using assms(1) that by (simp add: children_at_def)
  have len: "length cs = length kss"
    using assms(1) by (simp add: children_at_def)
  show cand: "candidates cs is None = {c. c < length kss \<and> pos (kss ! c) < length (kss ! c)}"
    unfolding candidates_def assms(2) len using wrapper_at_key(1) [OF at] by auto
  show key: "wkey (cs ! c) = fst (kss ! c ! pos (kss ! c))" if "c \<in> candidates cs is None"
    using that unfolding cand using wrapper_at_key(2) [OF at] by blast
  show "valid (wkey (cs ! c))" if "c \<in> candidates cs is None"
    using that wrapper_at_key(5) [OF at, of c] unfolding key [OF that] unfolding cand
    by (auto simp: sorted_keys_def list_all_length)
qed

lemma pick_none:
  assumes "children_at ops at cs kss pos" and "set is = {..<length cs}"
    and "\<And>c. c < length kss \<Longrightarrow> \<not> pos (kss ! c) < length (kss ! c)"
    and "better = (\<lambda>a b. cmp a b < 0) \<or> better = (\<lambda>a b. cmp a b > 0)"
  shows "pick better cs is None = None"
proof -
  have "candidates cs is None = {}"
    using assms(3) unfolding children_candidates(1) [OF assms(1,2)] by blast
  then show ?thesis
    using pick_best_valid [OF assms(4), of cs "is" None] by (auto simp: best_of_def split: option.splits)
qed

lemma pick_target:
  assumes at: "children_at ops at cs kss pos" and "is": "set is = {..<length cs}"
    and t: "c0 < length kss" "pos (kss ! c0) < length (kss ! c0)" "kss ! c0 ! pos (kss ! c0) = kv"
    and other: "\<And>c. c < length kss \<Longrightarrow> pos (kss ! c) < length (kss ! c) \<Longrightarrow> kss ! c ! pos (kss ! c) \<noteq> kv \<Longrightarrow>
      better (fst kv) (fst (kss ! c ! pos (kss ! c)))"
    and better: "better = (\<lambda>a b. cmp a b < 0) \<or> better = (\<lambda>a b. cmp a b > 0)"
  shows "\<exists>c < length kss. pick better cs is None = Some c \<and> kv \<in> set (kss ! c)"
proof -
  note cand = children_candidates [OF at "is"]
  have best: "best_of better cs (candidates cs is None) (pick better cs is None)"
    by (rule pick_best_valid [OF better cand(3)])
  have c0: "c0 \<in> candidates cs is None"
    unfolding cand(1) using t by simp
  with best obtain c where c: "pick better cs is None = Some c" "c \<in> candidates cs is None"
    "\<not> better (wkey (cs ! c0)) (wkey (cs ! c))"
    by (auto simp: best_of_def split: option.splits)
  then have "kss ! c ! pos (kss ! c) = kv"
    using other [of c] unfolding cand(2) [OF c0] cand(2) [OF c(2)] t(3) unfolding cand(1) by blast
  then show ?thesis
    using c(1,2) unfolding cand(1) by auto
qed

lemma union_part:
  assumes "sorted_keys cmp valid kvs" and "union_of kss kvs" and "children_at ops at cs kss pos" and "c < length kss"
  shows "part_of (kss ! c) kvs"
proof (rule sorted_part_of [OF assms(1)])
  show "sorted_keys cmp valid (kss ! c)"
    using assms(3,4) wrapper_at_key(5) by (auto simp: children_at_def)
  show "set (kss ! c) \<subseteq> set kvs"
    using assms(2,4) by (auto simp: union_of_def)
qed

lemma union_member:
  assumes "union_of kss kvs" and "i < length kvs"
  obtains c where "c < length kss" and "kvs ! i \<in> set (kss ! c)"
    and "\<And>d. d < length kss \<Longrightarrow> d \<noteq> c \<Longrightarrow> kvs ! i \<notin> set (kss ! d)"
proof -
  have "kvs ! i \<in> \<Union> (set ` set kss)"
    using assms by (auto simp: union_of_def dest: nth_mem)
  then obtain c where c: "c < length kss" "kvs ! i \<in> set (kss ! c)"
    by (metis UN_E in_set_conv_nth)
  moreover have "kvs ! i \<notin> set (kss ! d)" if "d < length kss" "d \<noteq> c" for d
    using assms(1) that c unfolding union_of_def by (metis IntI empty_iff)
  ultimately show ?thesis
    using that by blast
qed

text \<open>The entry a child stands at, as an entry of the union.\<close>

lemma union_index:
  assumes "union_of kss kvs" and "c < length kss" and "p < length (kss ! c)"
  obtains m where "m < length kvs" and "kss ! c ! p = kvs ! m"
proof -
  have "kss ! c ! p \<in> set kvs"
    using assms nth_mem [OF assms(2)] nth_mem [OF assms(3)] unfolding union_of_def by blast
  then show ?thesis
    using that by (metis in_set_conv_nth)
qed

lemma FindSmallest_at:
  assumes sorted: "sorted_keys cmp valid kvs" and union: "union_of kss kvs"
    and at: "children_at ops at cs kss (lower kvs j)" and j: "j \<le> length kvs"
  shows "if j < length kvs then
      \<exists>c < length kss. FindSmallest_loop cmp cs [0..<length cs] None = Some c \<and> kvs ! j \<in> set (kss ! c)
    else FindSmallest_loop cmp cs [0..<length cs] None = None"
proof (cases "j < length kvs")
  case True
  obtain c0 where c0: "c0 < length kss" "kvs ! j \<in> set (kss ! c0)"
    using union_member [OF union True] by blast
  note low = lower_this [OF union_part [OF sorted union at c0(1)] sorted_keys_distinct [OF sorted] True c0(2)]
  have "cmp (fst (kvs ! j)) (fst (kss ! c ! lower kvs j (kss ! c))) < 0"
    if c: "c < length kss" "lower kvs j (kss ! c) < length (kss ! c)" "kss ! c ! lower kvs j (kss ! c) \<noteq> kvs ! j" for c
  proof -
    obtain m where m: "m < length kvs" "kss ! c ! lower kvs j (kss ! c) = kvs ! m"
      using union_index [OF union c(1,2)] .
    have "kvs ! m \<notin> set (take j kvs)"
      using lower_above [OF c(2)] m(2) by simp
    then have "\<not> m < j"
      using m(1) j by (metis in_set_conv_nth length_take min.absorb2 nth_take)
    then have "j < m"
      using c(3) m(2) by (metis linorder_neqE_nat)
    then show ?thesis
      unfolding m(2) using sorted_index(1) [OF sorted True m(1)] by simp
  qed
  then show ?thesis
    using True pick_target [OF at _ c0(1) low(1,2), of "[0..<length cs]" "\<lambda>a b. cmp a b < 0"]
    by (simp add: FindSmallest_loop_pick atLeast0LessThan)
next
  case False
  then have j: "j = length kvs"
    using j by simp
  have "\<not> lower kvs j (kss ! c) < length (kss ! c)" if "c < length kss" for c
    using lower_all [OF union_part [OF sorted union at that]] by (simp add: j)
  then show ?thesis
    using pick_none [OF at, of "[0..<length cs]" "\<lambda>a b. cmp a b < 0"]
    by (simp add: FindSmallest_loop_pick j atLeast0LessThan)
qed

lemma FindLargest_at:
  assumes sorted: "sorted_keys cmp valid kvs" and union: "union_of kss kvs"
    and at: "children_at ops at cs kss (\<lambda>c. prev_pos (lower kvs j c) c)" and j: "j \<le> length kvs"
  shows "if 0 < j then
      \<exists>c < length kss. FindLargest_loop cmp cs (rev [0..<length cs]) None = Some c \<and> kvs ! (j - 1) \<in> set (kss ! c)
    else FindLargest_loop cmp cs (rev [0..<length cs]) None = None"
proof (cases "0 < j")
  case True
  define t where "t = j - 1"
  then have t: "t < length kvs" "j = Suc t"
    using True j by simp_all
  obtain c0 where c0: "c0 < length kss" "kvs ! t \<in> set (kss ! c0)"
    using union_member [OF union t(1)] by blast
  note low = lower_this [OF union_part [OF sorted union at c0(1)] sorted_keys_distinct [OF sorted] t(1) c0(2)]
  have pos: "prev_pos (lower kvs j (kss ! c0)) (kss ! c0) = lower kvs t (kss ! c0)"
    unfolding t(2) low(3) by (simp add: prev_pos_def)
  have "cmp (fst (kvs ! t)) (fst (kss ! c ! prev_pos (lower kvs j (kss ! c)) (kss ! c))) > 0"
    if c: "c < length kss" "prev_pos (lower kvs j (kss ! c)) (kss ! c) < length (kss ! c)"
      "kss ! c ! prev_pos (lower kvs j (kss ! c)) (kss ! c) \<noteq> kvs ! t" for c
  proof -
    let ?p = "prev_pos (lower kvs j (kss ! c)) (kss ! c)"
    obtain m where m: "m < length kvs" "kss ! c ! ?p = kvs ! m"
      using union_index [OF union c(1,2)] .
    have "?p < lower kvs j (kss ! c)"
      using c(2) by (auto simp: prev_pos_def split: if_splits)
    then have "kvs ! m \<in> set (take j kvs)"
      using lower_below m(2) by metis
    then obtain m' where "m' < j" "kvs ! m = kvs ! m'"
      by (auto simp: in_set_conv_nth)
    then have "m < j"
      using nth_eq_iff_index_eq [OF sorted_keys_distinct [OF sorted], of m m'] m(1) j by simp
    then have "m < t"
      using c(3) m(2) t(2) by (metis less_SucE)
    then show ?thesis
      unfolding m(2) using sorted_index(3) [OF sorted t(1) m(1)] by simp
  qed
  then show ?thesis
    unfolding t_def [symmetric]
    using True pick_target [OF at _ c0(1), of "rev [0..<length cs]" "kvs ! t" "\<lambda>a b. cmp a b > 0"] low(1,2)
    by (simp add: FindLargest_loop_pick pos atLeast0LessThan)
next
  case False
  then show ?thesis
    using pick_none [OF at, of "rev [0..<length cs]" "\<lambda>a b. cmp a b > 0"]
    by (simp add: FindLargest_loop_pick prev_pos_def atLeast0LessThan)
qed

text \<open>Once the children are in place, the searches establish the invariant.\<close>

lemma merge_forward:
  assumes "sorted_keys cmp valid kvs" and "union_of kss kvs" and "j \<le> length kvs"
    and "children_at ops at (children m) kss (lower kvs j)" and "direction m = kForward"
    and "current m = FindSmallest_loop cmp (children m) [0..<length (children m)] None"
  shows "merge_at cmp valid ops at m kvs j"
  using FindSmallest_at [OF assms(1,2,4,3)] assms unfolding merge_at_def
  by (auto simp: children_at_def split: if_splits intro!: exI [of _ kss])

lemma merge_reverse:
  assumes "sorted_keys cmp valid kvs" and "union_of kss kvs" and "j \<le> length kvs"
    and "children_at ops at (children m) kss (\<lambda>c. prev_pos (lower kvs j c) c)" and "direction m = kReverse"
    and "current m = FindLargest_loop cmp (children m) (rev [0..<length (children m)]) None"
  shows "merge_at cmp valid ops at m kvs (prev_pos j kvs)"
proof (cases "0 < j")
  case True
  then have "prev_pos j kvs < length kvs" "Suc (prev_pos j kvs) = j" "prev_pos j kvs = j - 1"
    using assms(3) by (simp_all add: prev_pos_def)
  then show ?thesis
    using FindLargest_at [OF assms(1,2,4,3)] True assms unfolding merge_at_def
    by (auto simp: children_at_def intro!: exI [of _ kss])
next
  case False
  then show ?thesis
    using FindLargest_at [OF assms(1,2,4,3)] assms unfolding merge_at_def
    by (auto simp: children_at_def prev_pos_def intro!: exI [of _ kss])
qed

lemma merge_children:
  assumes "merge_at cmp valid ops at m kvs i"
  obtains kss where "union_of kss kvs" and "length (children m) = length kss"
    and "\<And>c. c < length kss \<Longrightarrow> \<exists>p. wrapper_at ops at (children m ! c) (kss ! c) p"
  using assms unfolding merge_at_def children_at_def by (auto split: if_splits)

text \<open>Moving all children.\<close>

lemma for_children_at:
  assumes "length cs = length kss"
    and "\<And>c. c < length kss \<Longrightarrow> \<exists>w. f c (cs ! c) = Some w \<and> wrapper_at ops at w (kss ! c) (pos (kss ! c))"
  obtains cs' where "for_children f 0 cs = Some cs'" and "children_at ops at cs' kss pos"
proof -
  have "\<exists>w. f (0 + c) (cs ! c) = Some w \<and> wrapper_at ops at w (kss ! c) (pos (kss ! c))" if "c < length cs" for c
    using assms that by simp
  from for_children_ok [of cs f 0 "\<lambda>c w. wrapper_at ops at w (kss ! c) (pos (kss ! c))", OF this]
  obtain cs' where "for_children f 0 cs = Some cs'" "length cs' = length cs"
    "\<forall>c < length cs. wrapper_at ops at (cs' ! c) (kss ! c) (pos (kss ! c))"
    by blast
  then show ?thesis
    using that assms(1) by (simp add: children_at_def)
qed

lemma seek_pos_lower:
  assumes "sorted_keys cmp valid kvs" and "set c \<subseteq> set kvs" and "valid k"
  shows "seek_pos cmp k c = lower kvs (seek_pos cmp k kvs) c"
proof -
  let ?P = "\<lambda>kv. cmp (fst kv) k < 0"
  have sorted: "sorted_wrt (\<lambda>a b. cmp (fst a) (fst b) < 0) kvs" and v: "\<And>x. x \<in> set kvs \<Longrightarrow> valid (fst x)"
    using assms(1) by (auto simp: sorted_keys_def list_all_iff)
  have "x \<in> set (takeWhile ?P kvs) \<longleftrightarrow> ?P x" if "x \<in> set kvs" for x
    using that sorted v
  proof (induction kvs)
    case (Cons y ys)
    have "?P y" if "?P x" "x \<in> set ys"
      using that Cons.prems cmp_less_trans [of "fst y" "fst x" k] assms(3) by simp
    then show ?case
      using Cons by auto
  qed simp
  moreover have "take (seek_pos cmp k kvs) kvs = takeWhile ?P kvs"
    by (simp add: seek_pos_def takeWhile_eq_take [symmetric])
  ultimately show ?thesis
    unfolding lower_def seek_pos_def [of cmp k c]
    by (intro arg_cong [of _ _ length] takeWhile_cong) (use assms(2) in auto)
qed

lemma wrapper_moves:
  assumes "\<exists>p. wrapper_at ops at w c p"
  shows "\<exists>w'. Wrapper_SeekToFirst ops w = Some w' \<and> wrapper_at ops at w' c 0"
    and "\<exists>w'. Wrapper_SeekToLast ops w = Some w' \<and> wrapper_at ops at w' c (length c - 1)"
    and "valid k \<Longrightarrow> \<exists>w'. Wrapper_Seek ops k w = Some w' \<and> wrapper_at ops at w' c (seek_pos cmp k c)"
proof -
  obtain p where w: "wrapper_at ops at w c p"
    using assms by blast
  show "\<exists>w'. Wrapper_SeekToFirst ops w = Some w' \<and> wrapper_at ops at w' c 0"
    "\<exists>w'. Wrapper_SeekToLast ops w = Some w' \<and> wrapper_at ops at w' c (length c - 1)"
    using Wrapper_move_at [OF w SeekToFirst_at] Wrapper_move_at [OF w SeekToLast_at]
    by (simp_all add: Wrapper_SeekToFirst_def Wrapper_SeekToLast_def)
  show "\<exists>w'. Wrapper_Seek ops k w = Some w' \<and> wrapper_at ops at w' c (seek_pos cmp k c)" if "valid k"
    using Wrapper_move_at [OF w Seek_at [OF _ that]] by (simp add: Wrapper_Seek_def)
qed

lemma wrapper_steps:
  assumes "wrapper_at ops at w c p" and "p < length c"
  shows "\<exists>w'. Wrapper_Next ops w = Some w' \<and> wrapper_at ops at w' c (Suc p)"
    and "\<exists>w'. Wrapper_Prev ops w = Some w' \<and> wrapper_at ops at w' c (prev_pos p c)"
  using Wrapper_move_at [OF assms(1) Next_at] Wrapper_move_at [OF assms(1) Prev_at] assms(2)
  by (simp_all add: Wrapper_Next_def Wrapper_Prev_def)

lemma Merging_Seeks_at:
  assumes m: "merge_at cmp valid ops at m kvs i"
  shows "\<exists>m'. Merging_SeekToFirst cmp ops m = Some m' \<and> merge_at cmp valid ops at m' kvs 0"
    and "\<exists>m'. Merging_SeekToLast cmp ops m = Some m' \<and> merge_at cmp valid ops at m' kvs (length kvs - 1)"
    and "valid k \<Longrightarrow> \<exists>m'. Merging_Seek cmp ops k m = Some m' \<and> merge_at cmp valid ops at m' kvs (seek_pos cmp k kvs)"
proof -
  have sorted: "sorted_keys cmp valid kvs"
    using m by (simp add: merge_at_def)
  obtain kss where union: "union_of kss kvs" and len: "length (children m) = length kss"
    and at: "\<And>c. c < length kss \<Longrightarrow> \<exists>p. wrapper_at ops at (children m ! c) (kss ! c) p"
    using merge_children [OF m] by blast
  note moves = wrapper_moves [OF at]
  show "\<exists>m'. Merging_SeekToFirst cmp ops m = Some m' \<and> merge_at cmp valid ops at m' kvs 0"
  proof -
    obtain cs where cs: "for_children (\<lambda>_. Wrapper_SeekToFirst ops) 0 (children m) = Some cs"
      "children_at ops at cs kss (lower kvs 0)"
      using for_children_at [OF len, of "\<lambda>_. Wrapper_SeekToFirst ops" "lower kvs 0"] moves(1) by auto
    then have "merge_at cmp valid ops at ((FindSmallest cmp (m\<lparr>children := cs\<rparr>))\<lparr>direction := kForward\<rparr>) kvs 0"
      by (intro merge_forward [OF sorted union]) (simp_all add: FindSmallest_def)
    then show ?thesis
      by (simp add: Merging_SeekToFirst_def cs(1))
  qed
  show "\<exists>m'. Merging_SeekToLast cmp ops m = Some m' \<and> merge_at cmp valid ops at m' kvs (length kvs - 1)"
  proof -
    obtain cs where cs: "for_children (\<lambda>_. Wrapper_SeekToLast ops) 0 (children m) = Some cs"
      "children_at ops at cs kss (\<lambda>c. length c - 1)"
      using for_children_at [OF len, of "\<lambda>_. Wrapper_SeekToLast ops" "\<lambda>c. length c - 1"] moves(2) by auto
    have "prev_pos (lower kvs (length kvs) c) c = length c - 1" if c: "c \<in> set kss" for c
    proof -
      obtain n where "n < length kss" "kss ! n = c"
        using c [unfolded in_set_conv_nth] by blast
      then show ?thesis
        using lower_all [OF union_part [OF sorted union cs(2), of n]] by (auto simp: prev_pos_def)
    qed
    then have "children_at ops at cs kss (\<lambda>c. prev_pos (lower kvs (length kvs) c) c)"
      using cs(2) children_at_cong [of kss "\<lambda>c. prev_pos (lower kvs (length kvs) c) c" "\<lambda>c. length c - 1" cs] by simp
    then have "merge_at cmp valid ops at ((FindLargest cmp (m\<lparr>children := cs\<rparr>))\<lparr>direction := kReverse\<rparr>) kvs
        (prev_pos (length kvs) kvs)"
      by (intro merge_reverse [OF sorted union]) (simp_all add: FindLargest_def)
    moreover have "prev_pos (length kvs) kvs = length kvs - 1"
      by (simp add: prev_pos_def)
    ultimately show ?thesis
      by (simp add: Merging_SeekToLast_def cs(1))
  qed
  show "\<exists>m'. Merging_Seek cmp ops k m = Some m' \<and> merge_at cmp valid ops at m' kvs (seek_pos cmp k kvs)" if k: "valid k"
  proof -
    obtain cs where cs: "for_children (\<lambda>_. Wrapper_Seek ops k) 0 (children m) = Some cs"
      "children_at ops at cs kss (seek_pos cmp k)"
      using for_children_at [OF len, of "\<lambda>_. Wrapper_Seek ops k" "seek_pos cmp k"] moves(3) k by auto
    have "children_at ops at cs kss (lower kvs (seek_pos cmp k kvs))"
    proof -
      have "seek_pos cmp k c = lower kvs (seek_pos cmp k kvs) c" if "c \<in> set kss" for c
        using seek_pos_lower [OF sorted _ k, of c] that union by (auto simp: union_of_def)
      from children_at_cong [of kss, OF this] show ?thesis
        using cs(2) by simp
    qed
    moreover have "seek_pos cmp k kvs \<le> length kvs"
      by (simp add: seek_pos_def length_takeWhile_le)
    ultimately have "merge_at cmp valid ops at ((FindSmallest cmp (m\<lparr>children := cs\<rparr>))\<lparr>direction := kForward\<rparr>) kvs
        (seek_pos cmp k kvs)"
      by (intro merge_forward [OF sorted union]) (simp_all add: FindSmallest_def)
    then show ?thesis
      by (simp add: Merging_Seek_def cs(1))
  qed
qed

text \<open>A valid merging iterator: the current child is at the entry, the others around it.\<close>

lemma merge_valid:
  assumes m: "merge_at cmp valid ops at m kvs i" and i: "i < length kvs"
  obtains kss c where "union_of kss kvs" and "length (children m) = length kss"
    and "c < length kss" and "current m = Some c" and "kvs ! i \<in> set (kss ! c)"
    and "\<And>d. d < length kss \<Longrightarrow> d \<noteq> c \<Longrightarrow> kvs ! i \<notin> set (kss ! d)"
    and "\<And>d. d < length kss \<Longrightarrow> part_of (kss ! d) kvs"
    and "wrapper_at ops at (children m ! c) (kss ! c) (lower kvs i (kss ! c))"
    and "\<And>d. d < length kss \<Longrightarrow> d \<noteq> c \<Longrightarrow> wrapper_at ops at (children m ! d) (kss ! d)
      (if direction m = kForward then lower kvs i (kss ! d) else prev_pos (lower kvs i (kss ! d)) (kss ! d))"
proof -
  have sorted: "sorted_keys cmp valid kvs"
    using m by (simp add: merge_at_def)
  obtain kss c where union: "union_of kss kvs" and len: "length (children m) = length kss"
    and c: "c < length kss" "current m = Some c" "kvs ! i \<in> set (kss ! c)"
    and dir: "direction m = kForward \<and> children_at ops at (children m) kss (lower kvs i) \<or>
      direction m = kReverse \<and> children_at ops at (children m) kss (\<lambda>c. prev_pos (lower kvs (Suc i) c) c)"
    using m i by (auto simp: merge_at_def)
  have part: "part_of (kss ! d) kvs" if "d < length kss" for d
    using dir union_part [OF sorted union _ that] by blast
  have other: "kvs ! i \<notin> set (kss ! d)" if "d < length kss" "d \<noteq> c" for d
    using union c that unfolding union_of_def by (metis IntI empty_iff)
  note low = lower_this [OF part [OF c(1)] sorted_keys_distinct [OF sorted] i c(3)]
  have "wrapper_at ops at (children m ! c) (kss ! c) (lower kvs i (kss ! c))"
    using dir c(1) low(3) by (auto simp: children_at_def prev_pos_def)
  moreover have "wrapper_at ops at (children m ! d) (kss ! d)
      (if direction m = kForward then lower kvs i (kss ! d) else prev_pos (lower kvs i (kss ! d)) (kss ! d))"
    if "d < length kss" "d \<noteq> c" for d
    using dir that(1) lower_other [OF i other [OF that]] by (auto simp: children_at_def)
  ultimately show ?thesis
    using that [OF union len c other part] by blast
qed

lemma Merging_key_at:
  assumes "merge_at cmp valid ops at m kvs i" and "i < length kvs"
  shows "Merging_key m = Some (fst (kvs ! i))" and "Merging_value ops m = Some (snd (kvs ! i))"
proof -
  have sorted: "sorted_keys cmp valid kvs"
    using assms(1) by (simp add: merge_at_def)
  obtain kss c where c: "c < length kss" "current m = Some c" "kvs ! i \<in> set (kss ! c)" "part_of (kss ! c) kvs"
    and at: "wrapper_at ops at (children m ! c) (kss ! c) (lower kvs i (kss ! c))"
    using merge_valid [OF assms] by metis
  note low = lower_this [OF c(4) sorted_keys_distinct [OF sorted] assms(2) c(3)]
  show "Merging_key m = Some (fst (kvs ! i))" "Merging_value ops m = Some (snd (kvs ! i))"
    using wrapper_at_key(1-3) [OF at] low c(2)
    by (simp_all add: Merging_key_def Merging_value_def Wrapper_key_def Wrapper_Valid_def)
qed

lemma position_after_at:
  assumes sorted: "sorted_keys cmp valid kvs" and i: "i < length kvs" and d: "set d \<subseteq> set kvs" "kvs ! i \<notin> set d"
    and w: "wrapper_at ops at w d p"
  shows "\<exists>w'. position_after cmp ops (fst (kvs ! i)) w = Some w' \<and> wrapper_at ops at w' d (lower kvs i d)"
    and "\<exists>w'. position_before ops (fst (kvs ! i)) w = Some w' \<and> wrapper_at ops at w' d (prev_pos (lower kvs i d) d)"
proof -
  let ?k = "fst (kvs ! i)"
  have k: "valid ?k"
    using sorted i by (simp add: sorted_keys_def list_all_length)
  have "seek_pos cmp ?k kvs = i"
    using seek_pos_hit [OF sorted i _ k] cmp_refl [OF k] by simp
  then have "seek_pos cmp ?k d = lower kvs i d"
    using seek_pos_lower [OF sorted d(1) k] by simp
  then obtain w1 where w1: "Wrapper_Seek ops ?k w = Some w1" "wrapper_at ops at w1 d (lower kvs i d)"
    using wrapper_moves(3) [OF exI k, OF w] by auto
  have "cmp ?k (wkey w1) \<noteq> 0" if v: "Wrapper_Valid w1"
  proof -
    have p: "lower kvs i d < length d" "wkey w1 = fst (d ! lower kvs i d)"
      using v wrapper_at_key(1,2) [OF w1(2)] by auto
    obtain m where m: "m < length kvs" "kvs ! m = d ! lower kvs i d"
      using subsetD [OF d(1) nth_mem [OF p(1)]] unfolding in_set_conv_nth by (elim exE conjE)
    moreover have "m \<noteq> i"
      using nth_mem [OF p(1)] d(2) m(2) by (metis (no_types))
    ultimately have "cmp ?k (fst (d ! lower kvs i d)) \<noteq> 0"
      using sorted_index(2) [OF sorted i, of m] by (simp only: simp_thms not_sym)
    then show ?thesis
      unfolding p(2) .
  qed
  then have "position_after cmp ops ?k w = Some w1"
    by (auto simp: position_after_def w1(1))
  with w1(2) show "\<exists>w'. position_after cmp ops ?k w = Some w' \<and> wrapper_at ops at w' d (lower kvs i d)"
    by blast
  show "\<exists>w'. position_before ops ?k w = Some w' \<and> wrapper_at ops at w' d (prev_pos (lower kvs i d) d)"
  proof (cases "lower kvs i d < length d")
    case True
    then have "position_before ops ?k w = Wrapper_Prev ops w1"
      using wrapper_at_key(1) [OF w1(2)] by (simp add: position_before_def w1(1))
    then show ?thesis
      using wrapper_steps(2) [OF w1(2) True] by simp
  next
    case False
    then have "lower kvs i d = length d"
      using lower_le [of kvs i d] by simp
    then have pos: "prev_pos (lower kvs i d) d = length d - 1"
      by (simp add: prev_pos_def)
    have "position_before ops ?k w = Wrapper_SeekToLast ops w1"
      using False wrapper_at_key(1) [OF w1(2)] by (simp add: position_before_def w1(1))
    then show ?thesis
      using wrapper_moves(2) [of w1 d] w1(2) unfolding pos by auto
  qed
qed

lemma children_at_update:
  assumes "children_at ops at cs kss pos" and "c < length kss" and "wrapper_at ops at w (kss ! c) (pos' (kss ! c))"
    and "\<And>d. d < length kss \<Longrightarrow> d \<noteq> c \<Longrightarrow> pos' (kss ! d) = pos (kss ! d)"
  shows "children_at ops at (cs[c := w]) kss pos'"
  using assms by (auto simp: children_at_def nth_list_update)

lemma Merging_Next_at:
  assumes m: "merge_at cmp valid ops at m kvs i" and i: "i < length kvs"
  shows "\<exists>m'. Merging_Next cmp ops m = Some m' \<and> merge_at cmp valid ops at m' kvs (Suc i)"
proof -
  have sorted: "sorted_keys cmp valid kvs"
    using m by (simp add: merge_at_def)
  obtain kss c where union: "union_of kss kvs" and len: "length (children m) = length kss"
    and c: "c < length kss" "current m = Some c" "kvs ! i \<in> set (kss ! c)"
    and other: "\<And>d. d < length kss \<Longrightarrow> d \<noteq> c \<Longrightarrow> kvs ! i \<notin> set (kss ! d)"
    and part: "\<And>d. d < length kss \<Longrightarrow> part_of (kss ! d) kvs"
    and at: "wrapper_at ops at (children m ! c) (kss ! c) (lower kvs i (kss ! c))"
    and at': "\<And>d. d < length kss \<Longrightarrow> d \<noteq> c \<Longrightarrow> wrapper_at ops at (children m ! d) (kss ! d)
      (if direction m = kForward then lower kvs i (kss ! d) else prev_pos (lower kvs i (kss ! d)) (kss ! d))"
    using merge_valid [OF m i] by blast
  note low = lower_this [OF part [OF c(1)] sorted_keys_distinct [OF sorted] i c(3)]
  have "\<exists>cs. (if direction m \<noteq> kForward then
                   for_children (\<lambda>i' child. if i' \<noteq> c then position_after cmp ops (fst (kvs ! i)) child else Some child)
                     0 (children m)
                 else Some (children m)) = Some cs \<and> children_at ops at cs kss (lower kvs i)"
  proof (cases "direction m = kForward")
    case True
    then show ?thesis
      using at at' len by (auto simp: children_at_def)
  next
    case False
    have sub: "set (kss ! d) \<subseteq> set kvs" if "d < length kss" for d
      using part [OF that] by (simp add: part_of_def)
    have "\<exists>w. (if d \<noteq> c then position_after cmp ops (fst (kvs ! i)) (children m ! d) else Some (children m ! d)) = Some w \<and>
        wrapper_at ops at w (kss ! d) (lower kvs i (kss ! d))" if "d < length kss" for d
      using position_after_at(1) [OF sorted i sub other at', of d] at that by (cases "d = c") simp_all
    then obtain cs where "for_children (\<lambda>i' child. if i' \<noteq> c then position_after cmp ops (fst (kvs ! i)) child else Some child)
        0 (children m) = Some cs" "children_at ops at cs kss (lower kvs i)"
      by (rule for_children_at [OF len, of "\<lambda>i' child. if i' \<noteq> c then position_after cmp ops (fst (kvs ! i)) child else Some child"])
    then show ?thesis
      using False by auto
  qed
  then obtain cs where cs: "(if direction m \<noteq> kForward then
                   for_children (\<lambda>i' child. if i' \<noteq> c then position_after cmp ops (fst (kvs ! i)) child else Some child)
                     0 (children m)
                 else Some (children m)) = Some cs" "children_at ops at cs kss (lower kvs i)"
    by blast
  obtain w where w: "Wrapper_Next ops (cs ! c) = Some w" "wrapper_at ops at w (kss ! c) (lower kvs (Suc i) (kss ! c))"
    using wrapper_steps(1) [of "cs ! c" "kss ! c" "lower kvs i (kss ! c)"] cs(2) c(1) low by (auto simp: children_at_def)
  have "children_at ops at (cs[c := w]) kss (lower kvs (Suc i))"
    by (rule children_at_update [where pos = "lower kvs i", OF cs(2) c(1)]) (use w(2) lower_other [OF i] other in blast)+
  then show ?thesis
    using c(2) cs(1) w(1) Merging_key_at(1) [OF m i] i
    by (auto simp: Merging_Next_def FindSmallest_def intro!: merge_forward [OF sorted union])
qed

lemma Merging_Prev_at:
  assumes m: "merge_at cmp valid ops at m kvs i" and i: "i < length kvs"
  shows "\<exists>m'. Merging_Prev cmp ops m = Some m' \<and> merge_at cmp valid ops at m' kvs (prev_pos i kvs)"
proof -
  have sorted: "sorted_keys cmp valid kvs"
    using m by (simp add: merge_at_def)
  obtain kss c where union: "union_of kss kvs" and len: "length (children m) = length kss"
    and c: "c < length kss" "current m = Some c" "kvs ! i \<in> set (kss ! c)"
    and other: "\<And>d. d < length kss \<Longrightarrow> d \<noteq> c \<Longrightarrow> kvs ! i \<notin> set (kss ! d)"
    and part: "\<And>d. d < length kss \<Longrightarrow> part_of (kss ! d) kvs"
    and at: "wrapper_at ops at (children m ! c) (kss ! c) (lower kvs i (kss ! c))"
    and at': "\<And>d. d < length kss \<Longrightarrow> d \<noteq> c \<Longrightarrow> wrapper_at ops at (children m ! d) (kss ! d)
      (if direction m = kForward then lower kvs i (kss ! d) else prev_pos (lower kvs i (kss ! d)) (kss ! d))"
    using merge_valid [OF m i] by blast
  note low = lower_this [OF part [OF c(1)] sorted_keys_distinct [OF sorted] i c(3)]
  let ?Q = "\<lambda>d w. wrapper_at ops at w (kss ! d)
      (if d = c then lower kvs i (kss ! d) else prev_pos (lower kvs i (kss ! d)) (kss ! d))"
  let ?P = "\<lambda>cs. length cs = length kss \<and> (\<forall>d < length kss. ?Q d (cs ! d))"
  let ?f = "\<lambda>i' child. if i' \<noteq> c then position_before ops (fst (kvs ! i)) child else Some child"
  have "\<exists>cs. (if direction m \<noteq> kReverse then for_children ?f 0 (children m) else Some (children m)) = Some cs \<and> ?P cs"
  proof (cases "direction m = kReverse")
    case True
    then show ?thesis
      using at at' len by auto
  next
    case False
    have sub: "set (kss ! d) \<subseteq> set kvs" if "d < length kss" for d
      using part [OF that] by (simp add: part_of_def)
    have "\<exists>w. ?f (0 + d) (children m ! d) = Some w \<and> ?Q d w" if "d < length (children m)" for d
      using that len at position_after_at(2) [OF sorted i sub other at', of d] by auto
    from for_children_ok [of "children m" ?f 0 ?Q, OF this] show ?thesis
      using False unfolding len by auto
  qed
  then obtain cs where cs: "(if direction m \<noteq> kReverse then for_children ?f 0 (children m) else Some (children m)) = Some cs"
    "?P cs"
    by blast
  have "wrapper_at ops at (cs ! c) (kss ! c) (lower kvs i (kss ! c))"
    using cs(2) [THEN conjunct2, rule_format, OF c(1)] by simp
  then obtain w where w: "Wrapper_Prev ops (cs ! c) = Some w"
    "wrapper_at ops at w (kss ! c) (prev_pos (lower kvs i (kss ! c)) (kss ! c))"
    using wrapper_steps(2) [of "cs ! c" "kss ! c" "lower kvs i (kss ! c)"] low(1) by auto
  have "children_at ops at (cs[c := w]) kss (\<lambda>c. prev_pos (lower kvs i c) c)"
    using cs(2) w(2) c(1) by (auto simp: children_at_def nth_list_update)
  then show ?thesis
    using c(2) cs(1) w(1) Merging_key_at(1) [OF m i] i
    by (auto simp: Merging_Prev_def FindLargest_def intro!: merge_reverse [OF sorted union])
qed

lemma Merging_status_at:
  assumes "merge_at cmp valid ops at m kvs i"
  shows "Merging_status ops m = OK"
proof -
  obtain kss where len: "length (children m) = length kss"
    and at: "\<And>c. c < length kss \<Longrightarrow> \<exists>p. wrapper_at ops at (children m ! c) (kss ! c) p"
    using merge_children [OF assms] by blast
  have "it_status (WrapperIterator ops) w = OK" if "w \<in> set (children m)" for w
    using that at len iterator.status_at [OF wrapped] by (metis in_set_conv_nth)
  then have "Merging_status_loop ops ws OK = OK" if "set ws \<subseteq> set (children m)" for ws
    using that by (induction ws) (auto simp: Status.ok_def Let_def)
  then show ?thesis
    by (simp add: Merging_status_def)
qed

lemma merged: "iterator cmp valid (MergingIterator cmp ops) (merge_at cmp valid ops at)"
proof
  fix m kvs i k
  assume m: "merge_at cmp valid ops at m kvs i"
  note op = MergingIterator_def
  show "sorted_keys cmp valid kvs" "i \<le> length kvs"
    using m by (simp_all add: merge_at_def)
  show "it_Valid (MergingIterator cmp ops) m \<longleftrightarrow> i < length kvs"
    using m by (auto simp: op Merging_Valid_def merge_at_def split: if_splits)
  show "it_status (MergingIterator cmp ops) m = OK"
    using Merging_status_at [OF m] by (simp add: op)
  show "it_key (MergingIterator cmp ops) m = Some (fst (kvs ! i))"
    "it_value (MergingIterator cmp ops) m = Some (snd (kvs ! i))"
    "\<exists>s'. it_Next (MergingIterator cmp ops) m = Some s' \<and> merge_at cmp valid ops at s' kvs (Suc i)"
    "\<exists>s'. it_Prev (MergingIterator cmp ops) m = Some s' \<and> merge_at cmp valid ops at s' kvs (prev_pos i kvs)"
    if "i < length kvs"
    using Merging_key_at [OF m that] Merging_Next_at [OF m that] Merging_Prev_at [OF m that] by (simp_all add: op)
  show "\<exists>s'. it_SeekToFirst (MergingIterator cmp ops) m = Some s' \<and> merge_at cmp valid ops at s' kvs 0"
    "\<exists>s'. it_SeekToLast (MergingIterator cmp ops) m = Some s' \<and> merge_at cmp valid ops at s' kvs (length kvs - 1)"
    using Merging_Seeks_at(1,2) [OF m] by (simp_all add: op)
  show "\<exists>s'. it_Seek (MergingIterator cmp ops) k m = Some s' \<and> merge_at cmp valid ops at s' kvs (seek_pos cmp k kvs)"
    if "valid k"
    using Merging_Seeks_at(3) [OF m that] by (simp add: op)
qed

text \<open>The constructor.\<close>

lemma merge_at_new:
  assumes at: "list_all2 (\<lambda>s c. \<exists>p. at s c p) its kss"
    and kvs: "union_of kss kvs" "sorted_keys cmp valid kvs"
  shows "\<exists>m. MergingIterator_new ops its = Some m \<and> merge_at cmp valid ops at m kvs (length kvs)"
proof -
  let ?ws = "replicate (length its) Wrapper_null"
  have "\<exists>w'. Wrapper_Set ops (Some (its ! (0 + i))) (?ws ! i) = Some w' \<and> (\<exists>p. wrapper_at ops at w' (kss ! i) p)"
    if i: "i < length ?ws" for i
  proof -
    obtain p where "at (its ! i) (kss ! i) p"
      using at i by (auto simp: list_all2_conv_all_nth)
    from Wrapper_Update_at [OF this, of "?ws ! i"] show ?thesis
      by (auto simp: Wrapper_Set_def)
  qed
  from for_children_ok [where f = "\<lambda>i w. Wrapper_Set ops (Some (its ! i)) w" and n = 0 and ws = ?ws
      and P = "\<lambda>i w. \<exists>p. wrapper_at ops at w (kss ! i) p", OF this]
  obtain cs where cs: "for_children (\<lambda>i w. Wrapper_Set ops (Some (its ! i)) w) 0 ?ws = Some cs"
    "length cs = length its" "\<forall>i < length its. \<exists>p. wrapper_at ops at (cs ! i) (kss ! i) p"
    by auto
  then show ?thesis
    using kvs list_all2_lengthD [OF at]
    by (auto simp: MergingIterator_new_def merge_at_def intro!: exI [of _ kss])
qed

end

end
