(* ===== verification/Block_Builder.thy ===== *)
theory Block_Builder
  imports Coding Comparator
begin

text \<open>
  Building blocks of prefix-compressed entries (\<^verbatim>\<open>table/block_builder.h\<close>,
  \<^verbatim>\<open>table/block_builder.cpp\<close>), and the format of a finished block, which the reader
  (\<open>Block\<close>) is verified against.

  Of the options the builder uses the comparator and \<open>block_restart_interval\<close>; they are
  arguments.  A failed assertion is \<^const>\<open>None\<close>.
\<close>

section \<open>State and operations\<close>

record BlockBuilder =
  buffer :: bytes
  restarts :: "u32 list"
  counter :: int
  finished :: bool
  last_key :: bytes

definition BlockBuilder_new :: "int \<Rightarrow> BlockBuilder option" where
  "BlockBuilder_new block_restart_interval =
     (if block_restart_interval \<ge> 1 then
        Some \<lparr>buffer = [], restarts = [0], counter = 0, finished = False, last_key = []\<rparr>
      else None)"

definition BlockBuilder_Reset :: "BlockBuilder \<Rightarrow> BlockBuilder" where
  "BlockBuilder_Reset b =
     b\<lparr>buffer := [], restarts := [0], counter := 0, finished := False, last_key := []\<rparr>"

definition CurrentSizeEstimate :: "BlockBuilder \<Rightarrow> nat" where
  "CurrentSizeEstimate b = length (buffer b) + length (restarts b) * 4 + 4"

definition BlockBuilder_empty :: "BlockBuilder \<Rightarrow> bool" where
  "BlockBuilder_empty b \<longleftrightarrow> buffer b = []"

definition BlockBuilder_Finish :: "BlockBuilder \<Rightarrow> bytes \<times> BlockBuilder" where
  "BlockBuilder_Finish b =
     (let buf = fold (\<lambda>r buf. PutFixed32 buf r) (restarts b) (buffer b);
          buf = PutFixed32 buf (word_of_nat (length (restarts b)))
      in (buf, b\<lparr>buffer := buf, finished := True\<rparr>))"

definition BlockBuilder_Add ::
  "(bytes \<Rightarrow> bytes \<Rightarrow> int) \<Rightarrow> int \<Rightarrow> bytes \<Rightarrow> bytes \<Rightarrow> BlockBuilder \<Rightarrow> BlockBuilder option" where
  "BlockBuilder_Add cmp block_restart_interval key value b =
     (if finished b \<or> \<not> counter b \<le> block_restart_interval \<or>
         \<not> (buffer b = [] \<or> cmp key (last_key b) > 0) then None
      else
        let (shared, b) =
              (if counter b < block_restart_interval then (shared_prefix (last_key b) key, b)
               else (0, b\<lparr>restarts := restarts b @ [word_of_nat (length (buffer b))], counter := 0\<rparr>));
            non_shared = length key - shared;
            buf = PutVarint32 (buffer b) (word_of_nat shared);
            buf = PutVarint32 buf (word_of_nat non_shared);
            buf = PutVarint32 buf (word_of_nat (length value));
            buf = buf @ drop shared key;
            buf = buf @ value;
            last_key' = take shared (last_key b) @ drop shared key
        in if last_key' = key then
             Some (b\<lparr>buffer := buf, last_key := last_key', counter := counter b + 1\<rparr>)
           else None)"

text \<open>A sequence of calls of \<open>Add\<close>.\<close>

fun BlockBuilder_Adds ::
  "(bytes \<Rightarrow> bytes \<Rightarrow> int) \<Rightarrow> int \<Rightarrow> (bytes \<times> bytes) list \<Rightarrow> BlockBuilder \<Rightarrow> BlockBuilder option" where
  "BlockBuilder_Adds cmp interval [] b = Some b"
| "BlockBuilder_Adds cmp interval ((k, v) # kvs) b =
     Option.bind (BlockBuilder_Add cmp interval k v b) (BlockBuilder_Adds cmp interval kvs)"

section \<open>The format\<close>

text \<open>An entry: how many bytes its key shares with the one before, the key and the value.\<close>

datatype Entry = Entry (e_shared: nat) (e_key: bytes) (e_value: bytes)

definition e_pair :: "Entry \<Rightarrow> bytes \<times> bytes" where
  "e_pair e = (e_key e, e_value e)"

definition e_head :: "Entry \<Rightarrow> bytes" where
  "e_head e =
     EncodeVarint32 (word_of_nat (e_shared e)) @
     EncodeVarint32 (word_of_nat (length (e_key e) - e_shared e)) @
     EncodeVarint32 (word_of_nat (length (e_value e)))"

definition e_bytes :: "Entry \<Rightarrow> bytes" where
  "e_bytes e = e_head e @ drop (e_shared e) (e_key e) @ e_value e"

definition entries_bytes :: "Entry list \<Rightarrow> bytes" where
  "entries_bytes es = concat (map e_bytes es)"

text \<open>The offset of entry \<open>i\<close>.\<close>

definition offset :: "Entry list \<Rightarrow> nat \<Rightarrow> nat" where
  "offset es i = length (entries_bytes (take i es))"

definition prev_key :: "Entry list \<Rightarrow> nat \<Rightarrow> bytes" where
  "prev_key es i = (if i = 0 then [] else e_key (es ! (i - 1)))"

text \<open>Every entry shares a prefix with the key before it, and none at the restart points \<open>rs\<close>
  (given as positions), of which the first is 0.\<close>

definition entries_ok :: "Entry list \<Rightarrow> nat list \<Rightarrow> bool" where
  "entries_ok es rs \<longleftrightarrow>
     (\<forall>i < length es. e_shared (es ! i) \<le> length (e_key (es ! i)) \<and>
        take (e_shared (es ! i)) (prev_key es i) = take (e_shared (es ! i)) (e_key (es ! i))) \<and>
     rs \<noteq> [] \<and> rs ! 0 = 0 \<and> sorted_wrt (<) rs \<and>
     (\<forall>r \<in> set rs. r = 0 \<or> r < length es) \<and>
     (\<forall>r \<in> set rs. r < length es \<longrightarrow> e_shared (es ! r) = 0)"

definition block_bytes :: "Entry list \<Rightarrow> nat list \<Rightarrow> bytes" where
  "block_bytes es rs =
     entries_bytes es @ concat (map (\<lambda>r. EncodeFixed32 (word_of_nat (offset es r))) rs) @
     EncodeFixed32 (word_of_nat (length rs))"

lemma entries_bytes_append [simp]: "entries_bytes (es @ fs) = entries_bytes es @ entries_bytes fs"
  by (simp add: entries_bytes_def)

lemma entries_bytes_simps [simp]: "entries_bytes [] = []" "entries_bytes (e # es) = e_bytes e @ entries_bytes es"
  by (simp_all add: entries_bytes_def)

lemma length_e_bytes: "length (e_bytes e) \<ge> 3"
proof -
  have "1 \<le> length (EncodeVarint32 v)" for v
    by (simp add: EncodeVarint32_def Let_def Suc_le_eq)
  from this [of "word_of_nat (e_shared e)"] this [of "word_of_nat (length (e_key e) - e_shared e)"]
    this [of "word_of_nat (length (e_value e))"]
  show ?thesis
    unfolding e_bytes_def e_head_def length_append by linarith
qed

lemma offset_0 [simp]: "offset es 0 = 0"
  by (simp add: offset_def)

lemma offset_length: "offset es (length es) = length (entries_bytes es)"
  by (simp add: offset_def)

lemma offset_Suc: "i < length es \<Longrightarrow> offset es (Suc i) = offset es i + length (e_bytes (es ! i))"
  by (simp add: offset_def take_Suc_conv_app_nth)

lemma offset_append: "i \<le> length es \<Longrightarrow> offset (es @ fs) i = offset es i"
  by (simp add: offset_def)

lemma offset_mono:
  assumes "i < j" and "j \<le> length es"
  shows "offset es i < offset es j"
  using assms
proof (induction j)
  case (Suc j)
  then show ?case
    using offset_Suc [of j es] length_e_bytes [of "es ! j"] by (cases "i = j") auto
qed simp

lemma offset_less_iff: "i \<le> length es \<Longrightarrow> j \<le> length es \<Longrightarrow> offset es i < offset es j \<longleftrightarrow> i < j"
  using offset_mono [of i j es] offset_mono [of j i es] by (metis linorder_neqE_nat order_less_asym)

lemma offset_le_iff: "i \<le> length es \<Longrightarrow> j \<le> length es \<Longrightarrow> offset es i \<le> offset es j \<longleftrightarrow> i \<le> j"
  using offset_less_iff [of j es i] by (simp add: not_less [symmetric])

section \<open>What the builder builds\<close>

definition builder_inv :: "int \<Rightarrow> BlockBuilder \<Rightarrow> Entry list \<Rightarrow> nat list \<Rightarrow> bool" where
  "builder_inv interval b es rs \<longleftrightarrow>
     entries_ok es rs \<and> \<not> finished b \<and> buffer b = entries_bytes es \<and>
     restarts b = map (\<lambda>r. word_of_nat (offset es r)) rs \<and>
     last_key b = prev_key es (length es) \<and>
     counter b = int (length es) - int (last rs) \<and> 0 \<le> counter b \<and> counter b \<le> interval \<and> 1 \<le> interval"

lemma builder_inv_new:
  assumes "interval \<ge> 1"
  shows "\<exists>b. BlockBuilder_new interval = Some b \<and> builder_inv interval b [] [0]"
  using assms by (simp add: BlockBuilder_new_def builder_inv_def entries_ok_def prev_key_def)

lemma builder_inv_Reset: "interval \<ge> 1 \<Longrightarrow> builder_inv interval (BlockBuilder_Reset b) [] [0]"
  by (simp add: BlockBuilder_Reset_def builder_inv_def entries_ok_def prev_key_def)

lemma prev_key_append: "i \<le> length es \<Longrightarrow> prev_key (es @ fs) i = prev_key es i"
  by (auto simp: prev_key_def nth_append)

lemma entries_ok_snoc:
  assumes ok: "entries_ok es rs" and s: "s \<le> length k" and take: "take s (prev_key es (length es)) = take s k"
  shows "entries_ok (es @ [Entry s k v]) rs"
    and "s = 0 \<Longrightarrow> last rs < length es \<Longrightarrow> entries_ok (es @ [Entry s k v]) (rs @ [length es])"
proof -
  let ?es = "es @ [Entry s k v]"
  have entries: "\<forall>i < length ?es. e_shared (?es ! i) \<le> length (e_key (?es ! i)) \<and>
      take (e_shared (?es ! i)) (prev_key ?es i) = take (e_shared (?es ! i)) (e_key (?es ! i))"
    using ok s take by (auto simp: entries_ok_def nth_append prev_key_append less_Suc_eq)
  have first: "s = 0" if "es = []"
    using that s take by (cases k) (auto simp: prev_key_def)
  have rs: "rs \<noteq> []" "rs ! 0 = 0" "sorted_wrt (<) rs" "\<And>r. r \<in> set rs \<Longrightarrow> r = 0 \<or> r < length es"
    "\<And>r. r \<in> set rs \<Longrightarrow> r < length es \<Longrightarrow> e_shared (es ! r) = 0"
    using ok by (auto simp: entries_ok_def)
  have zero: "e_shared (?es ! r) = 0" if "r \<in> set rs" for r
    using rs(4,5) [OF that] first by (cases "r < length es") (auto simp: nth_append)
  show "entries_ok ?es rs"
    unfolding entries_ok_def using entries rs zero by (auto simp: less_Suc_eq)
  show "entries_ok ?es (rs @ [length es])" if "s = 0" "last rs < length es"
  proof -
    have "r < length es" if "r \<in> set rs" for r
      using rs(4) [OF that] \<open>last rs < length es\<close> by auto
    then show ?thesis
      unfolding entries_ok_def using entries rs(1-3) zero that(1)
      by (auto simp: nth_append sorted_wrt_append less_Suc_eq)
  qed
qed

lemma last_restart:
  assumes "entries_ok es rs"
  shows "last rs \<le> length es"
proof -
  have "last rs \<in> set rs"
    using assms by (simp add: entries_ok_def)
  then show ?thesis
    using assms unfolding entries_ok_def by fastforce
qed

lemma builder_inv_Add:
  assumes inv: "builder_inv interval b es rs" and order: "es \<noteq> [] \<Longrightarrow> cmp k (e_key (last es)) > 0"
  shows "\<exists>b' e rs'. BlockBuilder_Add cmp interval k v b = Some b' \<and> e_pair e = (k, v) \<and>
    builder_inv interval b' (es @ [e]) rs'"
proof -
  have buf: "buffer b = entries_bytes es" and key: "last_key b = prev_key es (length es)"
    and ok: "entries_ok es rs" and restarts: "restarts b = map (\<lambda>r. word_of_nat (offset es r)) rs"
    and cnt: "counter b = int (length es) - int (last rs)" "0 \<le> counter b" "counter b \<le> interval" "1 \<le> interval"
    and fin: "\<not> finished b"
    using inv by (auto simp: builder_inv_def)
  have asserts: "buffer b = [] \<or> cmp k (last_key b) > 0"
    using order by (cases es rule: rev_cases) (auto simp: buf key prev_key_def nth_append)
  have rs: "r \<le> length es" if "r \<in> set rs" for r
    using ok that unfolding entries_ok_def by fastforce
  have rs_map: "map (\<lambda>r. word_of_nat (offset (es @ [e]) r)) rs = map (\<lambda>r. word_of_nat (offset es r)) rs" for e
    by (simp add: offset_append rs)
  show ?thesis
  proof (cases "counter b < interval")
    case True
    define s where "s = shared_prefix (last_key b) k"
    have s: "s \<le> length k" "take s (last_key b) = take s k"
      by (simp_all add: s_def shared_prefix_le shared_prefix_take)
    let ?e = "Entry s k v"
    have ok': "entries_ok (es @ [?e]) rs"
      using entries_ok_snoc(1) [OF ok s(1)] s(2) by (simp add: key)
    let ?b = "b\<lparr>buffer := buffer b @ e_bytes ?e, last_key := k, counter := counter b + 1\<rparr>"
    have "BlockBuilder_Add cmp interval k v b = Some ?b"
      using asserts fin cnt True s(2) unfolding BlockBuilder_Add_def
      by (simp add: s_def [symmetric] PutVarint32_def e_bytes_def e_head_def)
    moreover have "builder_inv interval ?b (es @ [?e]) rs"
      using ok' fin cnt True by (simp add: builder_inv_def buf restarts rs_map prev_key_def)
    ultimately show ?thesis
      by (force simp: e_pair_def)
  next
    case False
    let ?e = "Entry 0 k v"
    have last: "last rs < length es"
      using False cnt by linarith
    have ok': "entries_ok (es @ [?e]) (rs @ [length es])"
      using entries_ok_snoc(2) [OF ok _ _ _ last, of 0 k v] by simp
    let ?b = "b\<lparr>buffer := buffer b @ e_bytes ?e, restarts := restarts b @ [word_of_nat (length (buffer b))],
      last_key := k, counter := 1\<rparr>"
    have "BlockBuilder_Add cmp interval k v b = Some ?b"
      using asserts fin cnt False unfolding BlockBuilder_Add_def
      by (simp add: PutVarint32_def e_bytes_def e_head_def)
    moreover have "builder_inv interval ?b (es @ [?e]) (rs @ [length es])"
      using ok' fin cnt False by (simp add: builder_inv_def buf restarts rs_map prev_key_def offset_append offset_length)
    ultimately show ?thesis
      by (force simp: e_pair_def)
  qed
qed

text \<open>Adding sorted pairs.\<close>

lemma builder_inv_Adds:
  assumes "builder_inv interval b es rs" and "sorted_wrt (\<lambda>x y. cmp (fst y) (fst x) > 0) (map e_pair es @ kvs)"
  shows "\<exists>b' es' rs'. BlockBuilder_Adds cmp interval kvs b = Some b' \<and> map e_pair es' = map e_pair es @ kvs \<and>
    builder_inv interval b' es' rs'"
  using assms
proof (induction kvs arbitrary: b es rs)
  case (Cons kv kvs)
  obtain k v where kv: "kv = (k, v)"
    by (cases kv)
  have "cmp k (e_key (last es)) > 0" if "es \<noteq> []"
    using Cons.prems(2) that by (simp add: sorted_wrt_append kv e_pair_def)
  then obtain b1 e rs1 where 1: "BlockBuilder_Add cmp interval k v b = Some b1" "e_pair e = (k, v)"
    "builder_inv interval b1 (es @ [e]) rs1"
    using builder_inv_Add [OF Cons.prems(1)] by blast
  from Cons.IH [OF 1(3)] Cons.prems(2) 1(1,2) show ?case
    by (auto simp: kv)
qed auto

lemma builder_Finish:
  assumes "builder_inv interval b es rs"
  shows "fst (BlockBuilder_Finish b) = block_bytes es rs"
    and "CurrentSizeEstimate b = length (block_bytes es rs)"
proof -
  have b: "buffer b = entries_bytes es" "restarts b = map (\<lambda>r. word_of_nat (offset es r)) rs"
    using assms by (simp_all add: builder_inv_def)
  show "fst (BlockBuilder_Finish b) = block_bytes es rs"
    unfolding BlockBuilder_Finish_def fold_PutFixed32 Let_def b by (simp add: PutFixed32_def block_bytes_def o_def)
  show "CurrentSizeEstimate b = length (block_bytes es rs)"
    by (simp add: CurrentSizeEstimate_def b block_bytes_def length_concat sum_list_triv o_def)
qed

end
