(* ===== verification/Format.thy ===== *)
theory Format
  imports Coding Crc32c Env
begin

text \<open>
  The pieces of a table file (\<^verbatim>\<open>table/format.h\<close>, \<^verbatim>\<open>table/format.cpp\<close>): block handles, the
  footer, and reading a block with its trailer of one type byte and a masked checksum.

  The operations on a \<open>Slice* input\<close> return the slice after the call.  \<^const>\<open>None\<close> stands for a
  failed assertion or an access outside the buffer.
\<close>

unbundle bit_operations_syntax

section \<open>Block handles\<close>

record BlockHandle =
  bh_offset :: u64
  bh_size :: u64

definition BlockHandle_new :: BlockHandle where
  "BlockHandle_new = \<lparr>bh_offset = - 1, bh_size = - 1\<rparr>"

definition kMaxEncodingLength :: nat where
  "kMaxEncodingLength = 10 + 10"

definition BlockHandle_EncodeTo :: "BlockHandle \<Rightarrow> bytes \<Rightarrow> bytes option" where
  "BlockHandle_EncodeTo h dst =
     (if bh_offset h \<noteq> - 1 \<and> bh_size h \<noteq> - 1
      then Some (PutVarint64 (PutVarint64 dst (bh_offset h)) (bh_size h)) else None)"

definition BlockHandle_DecodeFrom :: "BlockHandle \<Rightarrow> bytes \<Rightarrow> Status \<times> BlockHandle \<times> bytes" where
  "BlockHandle_DecodeFrom h input =
     (case GetVarint64 input of
        None \<Rightarrow> (Corruption (str ''bad block handle'') [], h, input)
      | Some (off, input) \<Rightarrow>
          (case GetVarint64 input of
             None \<Rightarrow> (Corruption (str ''bad block handle'') [], h\<lparr>bh_offset := off\<rparr>, input)
           | Some (sz, input) \<Rightarrow> (OK, \<lparr>bh_offset = off, bh_size = sz\<rparr>, input)))"

section \<open>The footer\<close>

record Footer =
  metaindex_handle :: BlockHandle
  index_handle :: BlockHandle

definition kEncodedLength :: nat where
  "kEncodedLength = 2 * kMaxEncodingLength + 8"

definition kTableMagicNumber :: u64 where
  "kTableMagicNumber = 0xdb4775248b80fb57"

definition kBlockTrailerSize :: nat where
  "kBlockTrailerSize = 5"

text \<open>\<open>std::string::resize\<close>: cut off, or pad with zero bytes.\<close>

definition resize :: "bytes \<Rightarrow> nat \<Rightarrow> bytes" where
  "resize s n = take n s @ replicate (n - length s) 0"

definition Footer_EncodeTo :: "Footer \<Rightarrow> bytes \<Rightarrow> bytes option" where
  "Footer_EncodeTo f dst =
     (let original_size = length dst in
      case BlockHandle_EncodeTo (metaindex_handle f) dst of
        None \<Rightarrow> None
      | Some dst \<Rightarrow>
          (case BlockHandle_EncodeTo (index_handle f) dst of
             None \<Rightarrow> None
           | Some dst \<Rightarrow>
               let dst = resize dst (2 * kMaxEncodingLength);
                   dst = PutFixed32 dst (ucast (kTableMagicNumber AND 0xffffffff));
                   dst = PutFixed32 dst (ucast (drop_bit 32 kTableMagicNumber))
               in if length dst = original_size + kEncodedLength then Some dst else None))"

definition Footer_DecodeFrom :: "Footer \<Rightarrow> bytes \<Rightarrow> (Status \<times> Footer \<times> bytes) option" where
  "Footer_DecodeFrom f input =
     (let magic_ptr = drop (kEncodedLength - 8) input in
      case (DecodeFixed32 magic_ptr, DecodeFixed32 (drop 4 magic_ptr)) of
        (Some magic_lo, Some magic_hi) \<Rightarrow>
          let magic = push_bit 32 (ucast magic_hi :: u64) OR ucast magic_lo in
          if magic \<noteq> kTableMagicNumber then
            Some (Corruption (str ''not an sstable (bad magic number)'') [], f, input)
          else
            let (result, h, rest) = BlockHandle_DecodeFrom (metaindex_handle f) input;
                f = f\<lparr>metaindex_handle := h\<rparr>;
                (result, f, rest) =
                  (if ok result then
                     (case BlockHandle_DecodeFrom (index_handle f) rest of
                        (result, h, rest) \<Rightarrow> (result, f\<lparr>index_handle := h\<rparr>, rest))
                   else (result, f, rest))
            in if ok result then Some (result, f, drop kEncodedLength input)
               else Some (result, f, rest)
      | _ \<Rightarrow> None)"

section \<open>Reading a block\<close>

record BlockContents =
  bc_data :: bytes
  cacheable :: bool
  heap_allocated :: bool

text \<open>The library behind \<open>port::Snappy_GetUncompressedLength\<close> and \<open>port::Snappy_Uncompress\<close>; without
  it both fail.\<close>

record snappy =
  uncompressed_length :: "bytes \<Rightarrow> nat option"
  raw_uncompress :: "bytes \<Rightarrow> bytes option"

definition no_snappy :: snappy where
  "no_snappy = \<lparr>uncompressed_length = (\<lambda>_. None), raw_uncompress = (\<lambda>_. None)\<rparr>"

definition no_contents :: BlockContents where
  "no_contents = \<lparr>bc_data = [], cacheable = False, heap_allocated = False\<rparr>"

definition kNoCompression :: u8 where
  "kNoCompression = 0"

definition kSnappyCompression :: u8 where
  "kSnappyCompression = 1"

text \<open>
  \<open>garbage n\<close> is the content of a fresh array of \<open>n\<close> bytes.  Sums of type \<open>size_t\<close> are words.
  The branch for compressed blocks uncompresses into \<open>buf\<close>, an array of \<open>n + kBlockTrailerSize\<close>
  bytes, and hands out \<open>ubuf\<close>.
\<close>

definition ReadBlock ::
  "snappy \<Rightarrow> (nat \<Rightarrow> bytes) \<Rightarrow> read_at \<Rightarrow> bool \<Rightarrow> BlockHandle \<Rightarrow> (Status \<times> BlockContents) option" where
  "ReadBlock lib garbage read verify_checksums handle =
     (let n = bh_size handle in
      case read (bh_offset handle) (n + word_of_nat kBlockTrailerSize) of
        None \<Rightarrow> None
      | Some (s, contents, in_buf) \<Rightarrow>
          if \<not> ok s then Some (s, no_contents)
          else if word_of_nat (length contents) \<noteq> n + word_of_nat kBlockTrailerSize then
            Some (Corruption (str ''truncated block read'') [], no_contents)
          else if \<not> unat n < length contents then None
          else
            (case (if verify_checksums then
                     (case DecodeFixed32 (drop (unat n + 1) contents) of
                        None \<Rightarrow> None
                      | Some stored \<Rightarrow> Some (Value (take (unat n + 1) contents) = Unmask stored))
                   else Some True) of
               None \<Rightarrow> None
             | Some False \<Rightarrow> Some (Corruption (str ''block checksum mismatch'') [], no_contents)
             | Some True \<Rightarrow>
                 let data = take (unat n) contents; t = contents ! unat n in
                 if t = kNoCompression then
                   Some (OK, \<lparr>bc_data = data, cacheable = in_buf, heap_allocated = in_buf\<rparr>)
                 else if t = kSnappyCompression then
                   (case uncompressed_length lib data of
                      None \<Rightarrow> Some (Corruption (str ''corrupted compressed block contents'') [], no_contents)
                    | Some ulength \<Rightarrow>
                        let ubuf = garbage ulength in
                        (case raw_uncompress lib data of
                           None \<Rightarrow> Some (Corruption (str ''corrupted compressed block contents'') [], no_contents)
                         | Some u \<Rightarrow>
                             if length u > unat n + kBlockTrailerSize then None
                             else Some (OK, \<lparr>bc_data = ubuf, cacheable = True, heap_allocated = True\<rparr>)))
                 else Some (Corruption (str ''bad block type'') [], no_contents)))"

section \<open>Handles and footers\<close>

lemma BlockHandle_roundtrip:
  assumes "BlockHandle_EncodeTo h dst = Some out"
  obtains enc where "out = dst @ enc" and "length enc \<le> kMaxEncodingLength"
    and "\<And>h0 rest. BlockHandle_DecodeFrom h0 (enc @ rest) = (OK, h, rest)"
proof -
  let ?enc = "EncodeVarint64 (bh_offset h) @ EncodeVarint64 (bh_size h)"
  have "out = dst @ ?enc"
    using assms by (auto simp: BlockHandle_EncodeTo_def PutVarint64_def split: if_splits)
  moreover have "length ?enc \<le> kMaxEncodingLength"
    using length_EncodeVarint64 [of "bh_offset h"] length_EncodeVarint64 [of "bh_size h"]
    by (simp add: kMaxEncodingLength_def)
  moreover have "BlockHandle_DecodeFrom h0 (?enc @ rest) = (OK, h, rest)" for h0 rest
    by (simp add: BlockHandle_DecodeFrom_def)
  ultimately show ?thesis
    using that by blast
qed

lemma magic_halves:
  "push_bit 32 (ucast (ucast (drop_bit 32 kTableMagicNumber) :: u32) :: u64) OR
     ucast (ucast (kTableMagicNumber AND 0xffffffff) :: u32) = kTableMagicNumber"
  by (simp add: kTableMagicNumber_def)

lemma Footer_encoded:
  assumes "bh_offset (metaindex_handle f) \<noteq> - 1" and "bh_size (metaindex_handle f) \<noteq> - 1"
    and "bh_offset (index_handle f) \<noteq> - 1" and "bh_size (index_handle f) \<noteq> - 1"
  shows "\<exists>enc. Footer_EncodeTo f [] = Some enc \<and> length enc = kEncodedLength \<and>
    Footer_DecodeFrom f0 (enc @ rest) = Some (OK, f, rest)"
proof -
  obtain e1 where e1: "BlockHandle_EncodeTo (metaindex_handle f) [] = Some e1" "length e1 \<le> kMaxEncodingLength"
    "\<And>h0 rest. BlockHandle_DecodeFrom h0 (e1 @ rest) = (OK, metaindex_handle f, rest)"
    using BlockHandle_roundtrip [of "metaindex_handle f" "[]"] assms
    by (auto simp: BlockHandle_EncodeTo_def)
  obtain e2 where e2: "BlockHandle_EncodeTo (index_handle f) e1 = Some (e1 @ e2)" "length e2 \<le> kMaxEncodingLength"
    "\<And>h0 rest. BlockHandle_DecodeFrom h0 (e2 @ rest) = (OK, index_handle f, rest)"
    using BlockHandle_roundtrip [of "index_handle f" e1] assms
    by (auto simp: BlockHandle_EncodeTo_def)
  define pad where "pad = replicate (2 * kMaxEncodingLength - length (e1 @ e2)) (0 :: u8)"
  define magic where "magic = EncodeFixed32 (ucast (kTableMagicNumber AND 0xffffffff)) @
    EncodeFixed32 (ucast (drop_bit 32 kTableMagicNumber))"
  have len: "length (e1 @ e2 @ pad) = kEncodedLength - 8" "length magic = 8"
    using e1(2) e2(2) by (simp_all add: pad_def magic_def kEncodedLength_def)
  have resize: "resize (e1 @ e2) (2 * kMaxEncodingLength) = e1 @ e2 @ pad"
    using e1(2) e2(2) by (simp add: resize_def pad_def)
  have enc: "Footer_EncodeTo f [] = Some (e1 @ e2 @ pad @ magic)"
    using len unfolding Footer_EncodeTo_def Let_def
    by (simp add: e1(1) e2(1) resize PutFixed32_def magic_def kEncodedLength_def)
  let ?in = "e1 @ e2 @ pad @ magic @ rest"
  have drop: "drop (kEncodedLength - 8) ?in = magic @ rest" "drop kEncodedLength ?in = rest"
    using len drop_append_exact [of "e1 @ e2 @ pad" "kEncodedLength - 8" "magic @ rest"]
      drop_append_exact [of "e1 @ e2 @ pad @ magic" kEncodedLength rest]
    by (simp_all add: kEncodedLength_def kMaxEncodingLength_def)
  have lo: "DecodeFixed32 (magic @ rest) = Some (ucast (kTableMagicNumber AND 0xffffffff))"
    by (simp add: magic_def)
  have hi: "DecodeFixed32 (drop 4 (magic @ rest)) = Some (ucast (drop_bit 32 kTableMagicNumber))"
    by (simp add: magic_def)
  have "Footer_DecodeFrom f0 ?in = Some (OK, f, rest)"
    unfolding Footer_DecodeFrom_def Let_def drop lo hi
    using magic_halves by (simp add: e1(3) e2(3) ok_def)
  with enc len show ?thesis
    by (auto simp: kEncodedLength_def kMaxEncodingLength_def)
qed

end
