(* ===== verification/Block.thy ===== *)
theory Block
  imports Block_Builder Format Iterators
begin

text \<open>
  Reading blocks (\<^verbatim>\<open>table/block.h\<close>, \<^verbatim>\<open>table/block.cpp\<close>): the iterator that decodes the entries,
  steps back over restart points and seeks by binary search.

  Offsets are natural numbers; where the code narrows to \<open>uint32_t\<close> they are taken modulo
  \<open>2 ^ 32\<close>.  A slice into the block is its offset and length.  \<^const>\<open>None\<close> stands for a failed
  assertion, a read outside the block, or a loop that does not end.
\<close>

unbundle bit_operations_syntax

section \<open>Block\<close>

record Block =
  b_data :: bytes
  b_size :: nat
  restart_offset :: nat
  owned :: bool

definition NumRestarts :: "bytes \<Rightarrow> nat \<Rightarrow> nat option" where
  "NumRestarts data sz = (if sz \<ge> 4 then map_option unat (DecodeFixed32 (drop (sz - 4) data)) else None)"

text \<open>\<open>restart_offset_\<close> is not initialised when the contents are bad, and never read then.\<close>

definition Block_new :: "BlockContents \<Rightarrow> Block option" where
  "Block_new contents =
     (let data = bc_data contents;
          sz = length data;
          bad = \<lparr>b_data = data, b_size = 0, restart_offset = 0, owned = heap_allocated contents\<rparr>
      in if sz < 4 then Some bad
         else
           (case NumRestarts data sz of
              None \<Rightarrow> None
            | Some num \<Rightarrow>
                let max_restarts_allowed = (sz - 4) div 4 in
                if num > max_restarts_allowed then Some bad
                else Some \<lparr>b_data = data, b_size = sz,
                       restart_offset = (sz - (1 + num) mod 2 ^ 32 * 4) mod 2 ^ 32,
                       owned = heap_allocated contents\<rparr>))"

definition Block_delete :: "Block \<Rightarrow> bool" where
  "Block_delete b = owned b"

text \<open>\<open>DecodeEntry(p, limit, ...)\<close> on the bytes from \<open>p\<close> to \<open>limit\<close>; the last component is the
  distance of the returned pointer from \<open>p\<close>.\<close>

definition DecodeEntry :: "bytes \<Rightarrow> (u32 \<times> u32 \<times> u32 \<times> nat) option" where
  "DecodeEntry p =
     (if length p < 3 then None
      else
        let shared = ucast (p ! 0) :: u32; non_shared = ucast (p ! 1) :: u32; value_length = ucast (p ! 2) :: u32;
            fields =
              (if (shared OR non_shared OR value_length) < 128 then
                 Some (shared, non_shared, value_length, drop 3 p)
               else
                 (case GetVarint32Ptr p of
                    None \<Rightarrow> None
                  | Some (shared, p) \<Rightarrow>
                      (case GetVarint32Ptr p of
                         None \<Rightarrow> None
                       | Some (non_shared, p) \<Rightarrow>
                           (case GetVarint32Ptr p of
                              None \<Rightarrow> None
                            | Some (value_length, p) \<Rightarrow> Some (shared, non_shared, value_length, p)))))
        in case fields of
             None \<Rightarrow> None
           | Some (shared, non_shared, value_length, q) \<Rightarrow>
               if (word_of_nat (length q) :: u32) < non_shared + value_length then None
               else Some (shared, non_shared, value_length, length p - length q))"

section \<open>Iter\<close>

record BlockIter =
  bi_data :: bytes
  bi_restarts :: nat
  num_restarts :: nat
  bi_current :: nat
  restart_index :: nat
  bi_key :: bytes
  bi_value :: "(nat \<times> nat) option"
  bi_status :: Status

definition BlockIter_new :: "bytes \<Rightarrow> nat \<Rightarrow> nat \<Rightarrow> BlockIter option" where
  "BlockIter_new data rst num =
     (if num > 0 then
        Some \<lparr>bi_data = data, bi_restarts = rst, num_restarts = num, bi_current = rst, restart_index = num,
          bi_key = [], bi_value = None, bi_status = OK\<rparr>
      else None)"

definition NextEntryOffset :: "BlockIter \<Rightarrow> nat option" where
  "NextEntryOffset it = map_option (\<lambda>(off, len). (off + len) mod 2 ^ 32) (bi_value it)"

definition GetRestartPoint :: "BlockIter \<Rightarrow> nat \<Rightarrow> nat option" where
  "GetRestartPoint it index =
     (if index < num_restarts it
      then map_option unat (DecodeFixed32 (drop (bi_restarts it + index * 4) (bi_data it))) else None)"

definition SeekToRestartPoint :: "nat \<Rightarrow> BlockIter \<Rightarrow> BlockIter option" where
  "SeekToRestartPoint index it =
     (case GetRestartPoint it index of
        None \<Rightarrow> None
      | Some off \<Rightarrow> Some (it\<lparr>bi_key := [], restart_index := index, bi_value := Some (off, 0)\<rparr>))"

definition CorruptionError :: "BlockIter \<Rightarrow> BlockIter" where
  "CorruptionError it =
     it\<lparr>bi_current := bi_restarts it, restart_index := num_restarts it,
        bi_status := Corruption (str ''bad entry in block'') [], bi_key := [], bi_value := None\<rparr>"

text \<open>The loop at the end of \<open>ParseNextKey\<close>.\<close>

function advance_restart :: "BlockIter \<Rightarrow> nat \<Rightarrow> nat option" where
  "advance_restart it index =
     (if index + 1 < num_restarts it then
        (case GetRestartPoint it (index + 1) of
           None \<Rightarrow> None
         | Some p \<Rightarrow> if p < bi_current it then advance_restart it (index + 1) else Some index)
      else Some index)"
  by pat_completeness auto
termination
  by (relation "measure (\<lambda>(it, index). num_restarts it - index)") auto

declare advance_restart.simps [simp del]

definition ParseNextKey :: "BlockIter \<Rightarrow> (bool \<times> BlockIter) option" where
  "ParseNextKey it =
     (case NextEntryOffset it of
        None \<Rightarrow> None
      | Some cur \<Rightarrow>
          if cur \<ge> bi_restarts it then
            Some (False, it\<lparr>bi_current := bi_restarts it, restart_index := num_restarts it\<rparr>)
          else
            (case DecodeEntry (take (bi_restarts it - cur) (drop cur (bi_data it))) of
               None \<Rightarrow> Some (False, CorruptionError it)
             | Some (shared, non_shared, value_length, n) \<Rightarrow>
                 if length (bi_key it) < unat shared then Some (False, CorruptionError it)
                 else if cur + n + unat non_shared + unat value_length > length (bi_data it) then None
                 else
                   let it = it\<lparr>bi_current := cur,
                         bi_key := take (unat shared) (bi_key it) @ take (unat non_shared) (drop (cur + n) (bi_data it)),
                         bi_value := Some (cur + n + unat non_shared, unat value_length)\<rparr>
                   in map_option (\<lambda>index. (True, it\<lparr>restart_index := index\<rparr>)) (advance_restart it (restart_index it))))"

definition Block_Valid :: "BlockIter \<Rightarrow> bool" where
  "Block_Valid it \<longleftrightarrow> bi_current it < bi_restarts it"

definition Block_key :: "BlockIter \<Rightarrow> bytes option" where
  "Block_key it = (if Block_Valid it then Some (bi_key it) else None)"

definition Block_value :: "BlockIter \<Rightarrow> bytes option" where
  "Block_value it =
     (if Block_Valid it then map_option (\<lambda>(off, len). take len (drop off (bi_data it))) (bi_value it) else None)"

definition Block_Next :: "BlockIter \<Rightarrow> BlockIter option" where
  "Block_Next it = (if Block_Valid it then map_option snd (ParseNextKey it) else None)"

text \<open>The loops of \<open>Prev\<close>: back to a restart point before \<open>original\<close> (\<open>Some None\<close> when there is
  none), then forward until the next entry would start at \<open>original\<close> or later; \<open>SeekToLast\<close>
  uses the second loop too.\<close>

fun Prev_scan :: "BlockIter \<Rightarrow> nat \<Rightarrow> nat \<Rightarrow> nat option option" where
  "Prev_scan it original 0 =
     (case GetRestartPoint it 0 of None \<Rightarrow> None | Some p \<Rightarrow> Some (if p \<ge> original then None else Some 0))"
| "Prev_scan it original (Suc index) =
     (case GetRestartPoint it (Suc index) of
        None \<Rightarrow> None
      | Some p \<Rightarrow> if p \<ge> original then Prev_scan it original index else Some (Some (Suc index)))"

partial_function (option) Parse_until :: "nat \<Rightarrow> BlockIter \<Rightarrow> BlockIter option" where
  [code]: "Parse_until bound it =
     (case ParseNextKey it of
        None \<Rightarrow> None
      | Some (parsed, it) \<Rightarrow>
          if parsed then
            (case NextEntryOffset it of
               None \<Rightarrow> None
             | Some off \<Rightarrow> if off < bound then Parse_until bound it else Some it)
          else Some it)"

definition Block_Prev :: "BlockIter \<Rightarrow> BlockIter option" where
  "Block_Prev it =
     (if \<not> Block_Valid it then None
      else
        let original = bi_current it in
        case Prev_scan it original (restart_index it) of
          None \<Rightarrow> None
        | Some None \<Rightarrow> Some (it\<lparr>bi_current := bi_restarts it, restart_index := num_restarts it\<rparr>)
        | Some (Some index) \<Rightarrow>
            (case SeekToRestartPoint index (it\<lparr>restart_index := index\<rparr>) of
               None \<Rightarrow> None
             | Some it \<Rightarrow> Parse_until original it))"

text \<open>The binary search of \<open>Seek\<close>: \<open>Some None\<close> for a corrupt restart point.\<close>

partial_function (option) Seek_binary ::
  "(bytes \<Rightarrow> bytes \<Rightarrow> int) \<Rightarrow> BlockIter \<Rightarrow> bytes \<Rightarrow> nat \<Rightarrow> nat \<Rightarrow> nat option option" where
  [code]: "Seek_binary cmp it target left right =
     (if left < right then
        let mid = (left + right + 1) mod 2 ^ 32 div 2 in
        (case GetRestartPoint it mid of
           None \<Rightarrow> None
         | Some off \<Rightarrow>
             (case DecodeEntry (take (bi_restarts it - off) (drop off (bi_data it))) of
                None \<Rightarrow> Some None
              | Some (shared, non_shared, value_length, n) \<Rightarrow>
                  if shared \<noteq> 0 then Some None
                  else if off + n + unat non_shared > length (bi_data it) then None
                  else if cmp (take (unat non_shared) (drop (off + n) (bi_data it))) target < 0
                  then Seek_binary cmp it target mid right
                  else Seek_binary cmp it target left (mid - 1)))
      else Some (Some left))"

partial_function (option) Seek_linear ::
  "(bytes \<Rightarrow> bytes \<Rightarrow> int) \<Rightarrow> bytes \<Rightarrow> BlockIter \<Rightarrow> BlockIter option" where
  [code]: "Seek_linear cmp target it =
     (case ParseNextKey it of
        None \<Rightarrow> None
      | Some (parsed, it) \<Rightarrow>
          if \<not> parsed then Some it
          else if cmp (bi_key it) target \<ge> 0 then Some it
          else Seek_linear cmp target it)"

definition Block_Seek :: "(bytes \<Rightarrow> bytes \<Rightarrow> int) \<Rightarrow> bytes \<Rightarrow> BlockIter \<Rightarrow> BlockIter option" where
  "Block_Seek cmp target it =
     (case Seek_binary cmp it target 0 (num_restarts it - 1) of
        None \<Rightarrow> None
      | Some None \<Rightarrow> Some (CorruptionError it)
      | Some (Some left) \<Rightarrow>
          (case SeekToRestartPoint left it of
             None \<Rightarrow> None
           | Some it \<Rightarrow> Seek_linear cmp target it))"

definition Block_SeekToFirst :: "BlockIter \<Rightarrow> BlockIter option" where
  "Block_SeekToFirst it = Option.bind (SeekToRestartPoint 0 it) (\<lambda>it. map_option snd (ParseNextKey it))"

definition Block_SeekToLast :: "BlockIter \<Rightarrow> BlockIter option" where
  "Block_SeekToLast it =
     Option.bind (SeekToRestartPoint (num_restarts it - 1) it) (Parse_until (bi_restarts it))"

definition BlockIterator :: "(bytes \<Rightarrow> bytes \<Rightarrow> int) \<Rightarrow> BlockIter Iterator" where
  "BlockIterator cmp =
     \<lparr>it_Valid = Block_Valid, it_SeekToFirst = Block_SeekToFirst, it_SeekToLast = Block_SeekToLast,
      it_Seek = Block_Seek cmp, it_Next = Block_Next, it_Prev = Block_Prev,
      it_key = Block_key, it_value = Block_value, it_status = bi_status\<rparr>"

text \<open>\<open>NewIterator\<close>: an error or empty iterator, given by its status, or an \<open>Iter\<close>.\<close>

definition Block_NewIterator :: "Block \<Rightarrow> (Status + BlockIter) option" where
  "Block_NewIterator b =
     (if b_size b < 4 then Some (Inl (NewErrorIterator (Corruption (str ''bad block contents'') [])))
      else
        (case NumRestarts (b_data b) (b_size b) of
           None \<Rightarrow> None
         | Some num \<Rightarrow>
             if num = 0 then Some (Inl NewEmptyIterator)
             else map_option Inr (BlockIter_new (b_data b) (restart_offset b) num)))"

section \<open>Decoding\<close>

text \<open>A block in the format of the builder.\<close>

definition block_wf :: "BlockIter \<Rightarrow> Entry list \<Rightarrow> nat list \<Rightarrow> bool" where
  "block_wf it es rs \<longleftrightarrow>
     entries_ok es rs \<and> bi_data it = block_bytes es rs \<and> length (bi_data it) < 2 ^ 31 \<and>
     list_all (\<lambda>e. length (e_key e) < 2 ^ 32) es \<and>
     bi_restarts it = length (entries_bytes es) \<and> num_restarts it = length rs \<and> bi_status it = OK"

text \<open>The fast path is taken exactly when all three numbers fit in one byte.\<close>

lemma or_less_128: "(a OR b) < 128 \<longleftrightarrow> a < 128 \<and> b < (128 :: u32)"
proof -
  have "x < 128 \<longleftrightarrow> drop_bit 7 x = 0" for x :: u32
    by (simp add: word_less_nat_alt word_unat_eq_iff unat_drop_bit div_eq_0_iff)
  then show ?thesis
    by (simp add: or_eq_0_iff)
qed

lemma varint_first_byte:
  obtains (small) "unat v < 128" and "EncodeVarint32 v = [byte (unat v)]"
  | (big) b bs where "EncodeVarint32 v = b # bs" and "\<not> (ucast b :: u32) < 128"
proof (cases "unat v < 128")
  case True
  then show ?thesis
    using small by (simp add: EncodeVarint32_varint varint_small)
next
  case False
  have "unat (ucast (byte (unat v mod 128 + 128)) :: u32) = unat v mod 128 + 128"
    by (simp add: unat_ucast_mod unat_byte)
  then have "\<not> (ucast (byte (unat v mod 128 + 128)) :: u32) < 128"
    by (simp add: word_less_nat_alt)
  then show ?thesis
    using False big by (simp add: EncodeVarint32_varint varint_big)
qed

lemma ucast_byte_unat: "unat (v :: u32) < 128 \<Longrightarrow> (ucast (byte (unat v)) :: u32) = v"
  by (simp add: word_unat_eq_iff unat_ucast_mod unat_byte)

lemma DecodeEntry_fields:
  assumes p: "p = EncodeVarint32 s @ EncodeVarint32 n @ EncodeVarint32 v @ rest"
    and fits: "unat n + unat v \<le> length rest" "length rest < 2 ^ 31"
  shows "DecodeEntry p = Some (s, n, v, length p - length rest)"
proof -
  have len: "length p \<ge> 3"
    using length_varint_pos [of "unat s"] length_varint_pos [of "unat n"] length_varint_pos [of "unat v"]
    unfolding p EncodeVarint32_varint length_append by linarith
  have "unat (n + v) = unat n + unat v"
    using fits by (simp add: unat_word_ariths)
  then have check: "\<not> (word_of_nat (length rest) :: u32) < n + v"
    using fits by (simp add: word_less_nat_alt unsigned_of_nat take_bit_nat_eq_self)
  define fast where "fast \<longleftrightarrow> (ucast (p ! 0) OR ucast (p ! 1) OR ucast (p ! 2) :: u32) < 128"
  have fast_iff: "fast \<longleftrightarrow> (ucast (p ! 0) :: u32) < 128 \<and> (ucast (p ! 1) :: u32) < 128 \<and> (ucast (p ! 2) :: u32) < 128"
    by (simp add: fast_def or_less_128)
  have "(ucast (p ! 0) :: u32) = s \<and> (ucast (p ! 1) :: u32) = n \<and> (ucast (p ! 2) :: u32) = v \<and> drop 3 p = rest" if fast
  proof -
    have small: "(ucast (p ! 0) :: u32) < 128" "(ucast (p ! 1) :: u32) < 128" "(ucast (p ! 2) :: u32) < 128"
      using that [unfolded fast_iff] by blast+
    have 1: "EncodeVarint32 s = [byte (unat s)]" "unat s < 128"
      by (cases s rule: varint_first_byte; use small(1) in \<open>simp add: p\<close>)+
    have 2: "EncodeVarint32 n = [byte (unat n)]" "unat n < 128"
      by (cases n rule: varint_first_byte; use small(2) in \<open>simp add: p 1\<close>)+
    have 3: "EncodeVarint32 v = [byte (unat v)]" "unat v < 128"
      by (cases v rule: varint_first_byte; use small(3) in \<open>simp add: p 1 2\<close>)+
    show ?thesis
      unfolding p 1(1) 2(1) 3(1) by (simp add: ucast_byte_unat 1(2) 2(2) 3(2) numeral_2_eq_2 numeral_3_eq_3)
  qed
  then have fields: "(if fast then Some (ucast (p ! 0), ucast (p ! 1), ucast (p ! 2), drop 3 p)
      else
        (case GetVarint32Ptr p of
           None \<Rightarrow> None
         | Some (shared, p) \<Rightarrow>
             (case GetVarint32Ptr p of
                None \<Rightarrow> None
              | Some (non_shared, p) \<Rightarrow>
                  (case GetVarint32Ptr p of
                     None \<Rightarrow> None
                   | Some (value_length, p) \<Rightarrow> Some (shared, non_shared, value_length, p))))) = Some (s, n, v, rest)"
    by (cases fast) (simp_all add: p)
  show ?thesis
    using len check unfolding DecodeEntry_def Let_def fast_def [symmetric] fields by simp
qed

lemma DecodeEntry_entry:
  assumes "e_shared e \<le> length (e_key e)" and "length (e_key e) < 2 ^ 32" and "length (e_bytes e @ rest) < 2 ^ 31"
  shows "DecodeEntry (e_bytes e @ rest) =
    Some (word_of_nat (e_shared e), word_of_nat (length (e_key e) - e_shared e), word_of_nat (length (e_value e)), length (e_head e))"
    and "unat (word_of_nat (e_shared e) :: u32) = e_shared e"
    and "unat (word_of_nat (length (e_key e) - e_shared e) :: u32) = length (e_key e) - e_shared e"
    and "unat (word_of_nat (length (e_value e)) :: u32) = length (e_value e)"
proof -
  have len: "length (e_key e) - e_shared e < 2 ^ 31" "length (e_value e) < 2 ^ 31"
    using assms(3) by (simp_all add: e_bytes_def)
  show u: "unat (word_of_nat (e_shared e) :: u32) = e_shared e"
    "unat (word_of_nat (length (e_key e) - e_shared e) :: u32) = length (e_key e) - e_shared e"
    "unat (word_of_nat (length (e_value e)) :: u32) = length (e_value e)"
    using assms(1,2) len by (simp_all add: unsigned_of_nat take_bit_nat_eq_self del: of_nat_diff)
  let ?rest = "drop (e_shared e) (e_key e) @ e_value e @ rest"
  have p: "e_bytes e @ rest = EncodeVarint32 (word_of_nat (e_shared e)) @
      EncodeVarint32 (word_of_nat (length (e_key e) - e_shared e)) @ EncodeVarint32 (word_of_nat (length (e_value e))) @ ?rest"
    by (simp add: e_bytes_def e_head_def)
  have "length (e_bytes e @ rest) - length ?rest = length (e_head e)"
    by (simp add: e_bytes_def)
  then show "DecodeEntry (e_bytes e @ rest) =
    Some (word_of_nat (e_shared e), word_of_nat (length (e_key e) - e_shared e), word_of_nat (length (e_value e)), length (e_head e))"
    using DecodeEntry_fields [OF p] assms(3) u by (simp add: e_bytes_def)
qed

text \<open>The entries and the restart points of a block in this format.\<close>

lemma entries_split:
  assumes "i < length es"
  shows "entries_bytes es = entries_bytes (take i es) @ e_bytes (es ! i) @ entries_bytes (drop (Suc i) es)"
  using assms by (metis entries_bytes_append entries_bytes_simps(2) id_take_nth_drop)

lemma block_entry:
  assumes wf: "block_wf it es rs" and i: "i < length es"
  obtains rest tail where "take (bi_restarts it - offset es i) (drop (offset es i) (bi_data it)) = e_bytes (es ! i) @ rest"
    and "length (e_bytes (es ! i) @ rest) < 2 ^ 31" and "drop (offset es i) (bi_data it) = e_bytes (es ! i) @ tail"
    and "offset es i < bi_restarts it" and "offset es (Suc i) \<le> bi_restarts it"
proof -
  let ?tail = "concat (map (\<lambda>r. EncodeFixed32 (word_of_nat (offset es r))) rs) @ EncodeFixed32 (word_of_nat (length rs))"
  have data: "bi_data it = entries_bytes (take i es) @ e_bytes (es ! i) @ entries_bytes (drop (Suc i) es) @ ?tail"
    using wf entries_split [OF i] by (simp add: block_wf_def block_bytes_def)
  have len: "bi_restarts it = offset es i + length (e_bytes (es ! i) @ entries_bytes (drop (Suc i) es))"
    using wf entries_split [OF i] by (simp add: block_wf_def offset_def)
  have "take (bi_restarts it - offset es i) (drop (offset es i) (bi_data it)) = e_bytes (es ! i) @ entries_bytes (drop (Suc i) es)"
    unfolding data len by (simp add: offset_def)
  moreover have "length (e_bytes (es ! i) @ entries_bytes (drop (Suc i) es)) < 2 ^ 31"
    using wf unfolding block_wf_def data by simp
  moreover have "drop (offset es i) (bi_data it) = e_bytes (es ! i) @ entries_bytes (drop (Suc i) es) @ ?tail"
    unfolding data by (simp add: offset_def)
  moreover have "offset es i < bi_restarts it" "offset es (Suc i) \<le> bi_restarts it"
    using len length_e_bytes [of "es ! i"] offset_Suc [OF i] unfolding length_append by linarith+
  ultimately show ?thesis
    using that by blast
qed

lemma block_restart:
  assumes wf: "block_wf it es rs" and j: "j < length rs"
  shows "GetRestartPoint it j = Some (offset es (rs ! j))"
proof -
  have "rs ! j \<le> length es"
    using wf j unfolding block_wf_def entries_ok_def by (metis less_imp_le nth_mem zero_le)
  then have "offset es (rs ! j) \<le> offset es (length es)"
    using offset_le_iff [of "rs ! j" es "length es"] by simp
  also have "\<dots> < 2 ^ 31"
    using wf by (auto simp: block_wf_def block_bytes_def offset_length)
  finally have u: "unat (word_of_nat (offset es (rs ! j)) :: u32) = offset es (rs ! j)"
    by (simp add: unsigned_of_nat take_bit_nat_eq_self)
  have "drop (bi_restarts it + j * 4) (bi_data it) =
      drop (j * 4) (concat (map EncodeFixed32 (map (\<lambda>r. word_of_nat (offset es r)) rs)) @ EncodeFixed32 (word_of_nat (length rs)))"
    using wf by (simp add: block_wf_def block_bytes_def o_def flip: drop_drop)
  also have "\<dots> = EncodeFixed32 (word_of_nat (offset es (rs ! j))) @
      concat (map EncodeFixed32 (drop (Suc j) (map (\<lambda>r. word_of_nat (offset es r)) rs))) @ EncodeFixed32 (word_of_nat (length rs))"
    using nth_concat_fixed [of j "map (\<lambda>r. word_of_nat (offset es r)) rs"] j
    by (simp add: length_concat sum_list_triv o_def)
  finally show ?thesis
    using wf j u by (simp add: GetRestartPoint_def block_wf_def)
qed

section \<open>Stepping\<close>

text \<open>The iterator is about to parse entry \<open>i\<close>; it stands at entry \<open>i\<close>; it is past the last entry.\<close>

definition ready :: "BlockIter \<Rightarrow> Entry list \<Rightarrow> nat list \<Rightarrow> nat \<Rightarrow> bool" where
  "ready it es rs i \<longleftrightarrow>
     block_wf it es rs \<and> i \<le> length es \<and>
     (\<exists>off len. bi_value it = Some (off, len) \<and> off + len = offset es i) \<and>
     (i < length es \<longrightarrow> e_shared (es ! i) \<le> length (bi_key it) \<and>
        take (e_shared (es ! i)) (bi_key it) = take (e_shared (es ! i)) (e_key (es ! i))) \<and>
     restart_index it < length rs \<and> rs ! restart_index it \<le> i"

definition at_entry :: "BlockIter \<Rightarrow> Entry list \<Rightarrow> nat list \<Rightarrow> nat \<Rightarrow> bool" where
  "at_entry it es rs i \<longleftrightarrow>
     block_wf it es rs \<and> i < length es \<and> bi_current it = offset es i \<and> bi_key it = e_key (es ! i) \<and>
     bi_value it = Some (offset es (Suc i) - length (e_value (es ! i)), length (e_value (es ! i))) \<and>
     restart_index it < length rs \<and> rs ! restart_index it \<le> i"

definition at_end :: "BlockIter \<Rightarrow> Entry list \<Rightarrow> nat list \<Rightarrow> bool" where
  "at_end it es rs \<longleftrightarrow> block_wf it es rs \<and> bi_current it = bi_restarts it"

lemma block_wf_update [simp]:
  "block_wf (it\<lparr>bi_current := c\<rparr>) es rs = block_wf it es rs"
  "block_wf (it\<lparr>restart_index := x\<rparr>) es rs = block_wf it es rs"
  "block_wf (it\<lparr>bi_key := k\<rparr>) es rs = block_wf it es rs"
  "block_wf (it\<lparr>bi_value := v\<rparr>) es rs = block_wf it es rs"
  by (simp_all add: block_wf_def)

lemma block_bounds:
  assumes "block_wf it es rs"
  shows "offset es (length es) = bi_restarts it" and "i \<le> length es \<Longrightarrow> offset es i < 2 ^ 31"
    and "rs \<noteq> []" and "rs ! 0 = 0" and "j < length rs \<Longrightarrow> rs ! j \<le> length es"
    and "0 < j \<Longrightarrow> j < length rs \<Longrightarrow> rs ! j < length es"
    and "j < length rs \<Longrightarrow> rs ! j < length es \<Longrightarrow> e_shared (es ! (rs ! j)) = 0"
proof -
  have ok: "entries_ok es rs" and len: "length (block_bytes es rs) < 2 ^ 31"
    using assms by (auto simp: block_wf_def)
  show "offset es (length es) = bi_restarts it"
    using assms by (simp add: block_wf_def offset_length)
  show "offset es i < 2 ^ 31" if "i \<le> length es"
  proof -
    have "offset es i \<le> offset es (length es)"
      using offset_le_iff [of i es "length es"] that by simp
    also have "\<dots> \<le> length (block_bytes es rs)"
      by (simp add: offset_length block_bytes_def)
    finally show ?thesis
      using len by simp
  qed
  have rs: "rs \<noteq> []" "rs ! 0 = 0" "sorted_wrt (<) rs" "\<And>r. r \<in> set rs \<Longrightarrow> r = 0 \<or> r < length es"
    "\<And>r. r \<in> set rs \<Longrightarrow> r < length es \<Longrightarrow> e_shared (es ! r) = 0"
    using ok by (auto simp: entries_ok_def)
  show "rs \<noteq> []" "rs ! 0 = 0"
    using rs by simp_all
  show "rs ! j \<le> length es" if "j < length rs"
    using rs(4) [of "rs ! j"] that by force
  show "rs ! j < length es" if "0 < j" "j < length rs"
    using rs(4) [of "rs ! j"] sorted_wrt_nth_less [OF rs(3), of 0 j] that rs(2) by force
  show "e_shared (es ! (rs ! j)) = 0" if "j < length rs" "rs ! j < length es"
    using rs(5) [of "rs ! j"] that by simp
qed

lemma NextEntryOffset_ready: "ready it es rs i \<Longrightarrow> NextEntryOffset it = Some (offset es i)"
  using block_bounds(2) [of it es rs i] by (auto simp: ready_def NextEntryOffset_def)

lemma advance_restart_ok:
  assumes "block_wf it es rs" and "bi_current it = offset es i" and "i \<le> length es"
    and "index < length rs" and "rs ! index \<le> i"
  shows "\<exists>index'. advance_restart it index = Some index' \<and> index' < length rs \<and> rs ! index' \<le> i"
  using assms
proof (induction it index rule: advance_restart.induct)
  case (1 it index)
  show ?case
  proof (cases "index + 1 < length rs")
    case True
    have num: "index + 1 < num_restarts it"
      using True 1(2) by (simp add: block_wf_def)
    have rp: "GetRestartPoint it (index + 1) = Some (offset es (rs ! (index + 1)))"
      using block_restart [OF 1(2) True] .
    show ?thesis
    proof (cases "offset es (rs ! (index + 1)) < bi_current it")
      case less: True
      then have "rs ! (index + 1) \<le> i"
        using offset_less_iff [of "rs ! (index + 1)" es i] block_bounds(5) [OF 1(2) True] 1(3,4) by simp
      with 1(1) [OF num rp less 1(2-4) True] show ?thesis
        using num rp less by (subst advance_restart.simps) simp
    next
      case False
      then show ?thesis
        using num rp 1(5,6) by (subst advance_restart.simps) simp
    qed
  next
    case False
    then show ?thesis
      using 1(2,5,6) by (subst advance_restart.simps) (simp add: block_wf_def)
  qed
qed

lemma ParseNextKey_end:
  assumes "ready it es rs (length es)"
  shows "ParseNextKey it = Some (False, it\<lparr>bi_current := bi_restarts it, restart_index := num_restarts it\<rparr>)"
  using NextEntryOffset_ready [OF assms] block_bounds(1) assms by (auto simp: ParseNextKey_def ready_def)

lemma ParseNextKey_entry:
  assumes ready: "ready it es rs i" and i: "i < length es"
  shows "\<exists>it'. ParseNextKey it = Some (True, it') \<and> at_entry it' es rs i"
proof -
  let ?e = "es ! i"
  have wf: "block_wf it es rs"
    using ready by (simp add: ready_def)
  have e: "e_shared ?e \<le> length (e_key ?e)" "length (e_key ?e) < 2 ^ 32"
    using wf i by (auto simp: block_wf_def entries_ok_def list_all_length)
  obtain rest tail where p: "take (bi_restarts it - offset es i) (drop (offset es i) (bi_data it)) = e_bytes ?e @ rest"
    and len: "length (e_bytes ?e @ rest) < 2 ^ 31" and data: "drop (offset es i) (bi_data it) = e_bytes ?e @ tail"
    and bound: "offset es i < bi_restarts it"
    using block_entry [OF wf i] by blast
  note dec = DecodeEntry_entry [OF e len]
  have shared: "e_shared ?e \<le> length (bi_key it)" "take (e_shared ?e) (bi_key it) = take (e_shared ?e) (e_key ?e)"
    using ready i by (auto simp: ready_def)
  have delta: "take (length (e_key ?e) - e_shared ?e) (drop (offset es i + length (e_head ?e)) (bi_data it)) = drop (e_shared ?e) (e_key ?e)"
  proof -
    have "drop (offset es i + length (e_head ?e)) (bi_data it) = drop (length (e_head ?e)) (drop (offset es i) (bi_data it))"
      by (simp add: add.commute)
    then show ?thesis
      unfolding data by (simp add: e_bytes_def)
  qed
  have key: "take (e_shared ?e) (e_key ?e) @ drop (e_shared ?e) (e_key ?e) = e_key ?e"
    by simp
  have off: "offset es i + length (e_head ?e) + (length (e_key ?e) - e_shared ?e) = offset es (Suc i) - length (e_value ?e)"
    and inside: "\<not> offset es i + length (e_head ?e) + (length (e_key ?e) - e_shared ?e) + length (e_value ?e) > length (bi_data it)"
  proof -
    have next': "offset es (Suc i) = offset es i + length (e_head ?e) + (length (e_key ?e) - e_shared ?e) + length (e_value ?e)"
      using offset_Suc [OF i] by (simp add: e_bytes_def)
    then show "offset es i + length (e_head ?e) + (length (e_key ?e) - e_shared ?e) = offset es (Suc i) - length (e_value ?e)"
      by simp
    have "length (drop (offset es i) (bi_data it)) = length (e_bytes ?e) + length tail"
      unfolding data by simp
    moreover have "offset es i < length (bi_data it)"
      using bound wf by (simp add: block_wf_def block_bytes_def)
    ultimately show "\<not> offset es i + length (e_head ?e) + (length (e_key ?e) - e_shared ?e) + length (e_value ?e) > length (bi_data it)"
      by (simp add: e_bytes_def)
  qed
  let ?it = "it\<lparr>bi_current := offset es i, bi_key := e_key ?e,
    bi_value := Some (offset es (Suc i) - length (e_value ?e), length (e_value ?e))\<rparr>"
  obtain index where index: "advance_restart ?it (restart_index it) = Some index" "index < length rs" "rs ! index \<le> i"
    using advance_restart_ok [of ?it es rs i "restart_index it"] ready i by (auto simp: ready_def)
  have "ParseNextKey it = Some (True, ?it\<lparr>restart_index := index\<rparr>)"
    unfolding ParseNextKey_def NextEntryOffset_ready [OF ready] option.case p dec(1) prod.case dec(2-4) shared(2) delta key Let_def
      off
    using bound shared(1) inside index(1) by (simp add: off)
  moreover have "at_entry (?it\<lparr>restart_index := index\<rparr>) es rs i"
    using wf i index by (simp add: at_entry_def)
  ultimately show ?thesis
    by blast
qed

lemma at_entry_ready:
  assumes "at_entry it es rs i"
  shows "ready it es rs (Suc i)"
proof -
  have wf: "block_wf it es rs" and i: "i < length es"
    using assms by (simp_all add: at_entry_def)
  have off: "offset es (Suc i) - length (e_value (es ! i)) + length (e_value (es ! i)) = offset es (Suc i)"
    using offset_Suc [OF i] by (simp add: e_bytes_def)
  have "e_shared (es ! Suc i) \<le> length (e_key (es ! i)) \<and>
      take (e_shared (es ! Suc i)) (e_key (es ! i)) = take (e_shared (es ! Suc i)) (e_key (es ! Suc i))"
    if "Suc i < length es"
  proof -
    have t: "take (e_shared (es ! Suc i)) (e_key (es ! i)) = take (e_shared (es ! Suc i)) (e_key (es ! Suc i))"
      and le: "e_shared (es ! Suc i) \<le> length (e_key (es ! Suc i))"
      using wf that by (auto simp: block_wf_def entries_ok_def prev_key_def)
    have "min (length (e_key (es ! i))) (e_shared (es ! Suc i)) = min (length (e_key (es ! Suc i))) (e_shared (es ! Suc i))"
      using arg_cong [OF t, of length] by (simp only: length_take)
    with le t show ?thesis
      by simp
  qed
  then show ?thesis
    using assms off by (auto simp: ready_def at_entry_def)
qed

lemma SeekToRestartPoint_ready:
  assumes wf: "block_wf it es rs" and j: "j < length rs"
  shows "\<exists>it'. SeekToRestartPoint j it = Some it' \<and> ready it' es rs (rs ! j) \<and> bi_restarts it' = bi_restarts it"
  using block_restart [OF wf j] block_bounds(5,7) [OF wf j] wf j
  by (simp add: SeekToRestartPoint_def ready_def)

section \<open>Loops\<close>

lemma Parse_until_target:
  assumes "ready it es rs i" and "i \<le> t" and "t < length es"
    and "\<And>j. j < t \<Longrightarrow> offset es (Suc j) < bound" and "bound \<le> offset es (Suc t)"
  shows "\<exists>it'. Parse_until bound it = Some it' \<and> at_entry it' es rs t"
  using assms(1,2)
proof (induction "t - i" arbitrary: it i)
  case 0
  then have [simp]: "i = t"
    by simp
  obtain it' where it': "ParseNextKey it = Some (True, it')" "at_entry it' es rs t"
    using ParseNextKey_entry [OF 0(2)] assms(3) by auto
  then show ?case
    using NextEntryOffset_ready [OF at_entry_ready [OF it'(2)]] assms(5)
    by (subst Parse_until.simps) simp
next
  case (Suc n)
  then have i: "i < t"
    by simp
  obtain it' where it': "ParseNextKey it = Some (True, it')" "at_entry it' es rs i"
    using ParseNextKey_entry [OF Suc(3)] i assms(3) by auto
  have "\<exists>it''. Parse_until bound it' = Some it'' \<and> at_entry it'' es rs t"
    by (rule Suc(1) [OF _ at_entry_ready [OF it'(2)]]) (use Suc(2) i in auto)
  then show ?case
    using NextEntryOffset_ready [OF at_entry_ready [OF it'(2)]] assms(4) [OF i] it'(1)
    by (subst Parse_until.simps) simp
qed

lemma Prev_scan_ok:
  assumes wf: "block_wf it es rs" and "index < length rs" and i: "i \<le> length es"
  shows "\<exists>r. Prev_scan it (offset es i) index = Some r \<and>
    (case r of None \<Rightarrow> i = 0 | Some index' \<Rightarrow> index' < length rs \<and> rs ! index' < i)"
  using assms(2)
proof (induction index)
  case 0
  then show ?case
    using block_restart [OF wf, of 0] block_bounds(4) [OF wf] offset_less_iff [of 0 es i] i by auto
next
  case (Suc index)
  then show ?case
    using block_restart [OF wf Suc.prems] offset_less_iff [of "rs ! Suc index" es i] block_bounds(5) [OF wf Suc.prems] i
    by (auto simp: not_le)
qed

lemma Block_Prev_entry:
  assumes at: "at_entry it es rs i"
  shows "\<exists>it'. Block_Prev it = Some it' \<and> (if i = 0 then at_end it' es rs else at_entry it' es rs (i - 1))"
proof -
  have wf: "block_wf it es rs" and i: "i < length es" and cur: "bi_current it = offset es i" and idx: "restart_index it < length rs"
    using at by (simp_all add: at_entry_def)
  have valid: "Block_Valid it"
    using block_entry [OF wf i] cur by (metis Block_Valid_def)
  obtain r where r: "Prev_scan it (offset es i) (restart_index it) = Some r"
    "case r of None \<Rightarrow> i = 0 | Some index' \<Rightarrow> index' < length rs \<and> rs ! index' < i"
    using Prev_scan_ok [OF wf idx, of i] i by auto
  show ?thesis
  proof (cases r)
    case None
    then show ?thesis
      using r valid wf cur by (simp add: Block_Prev_def at_end_def)
  next
    case (Some index)
    then have index: "index < length rs" "rs ! index < i"
      using r(2) by simp_all
    obtain it1 where it1: "SeekToRestartPoint index (it\<lparr>restart_index := index\<rparr>) = Some it1" "ready it1 es rs (rs ! index)"
      using SeekToRestartPoint_ready [of "it\<lparr>restart_index := index\<rparr>" es rs index] wf index(1) by auto
    have "\<exists>it'. Parse_until (offset es i) it1 = Some it' \<and> at_entry it' es rs (i - 1)"
      by (rule Parse_until_target [OF it1(2)]) (use index i offset_less_iff in auto)
    then show ?thesis
      using r(1) Some valid cur it1(1) index(2) by (auto simp: Block_Prev_def)
  qed
qed

definition keys_before :: "(bytes \<Rightarrow> bytes \<Rightarrow> int) \<Rightarrow> bytes \<Rightarrow> Entry list \<Rightarrow> nat \<Rightarrow> bool" where
  "keys_before cmp k es i \<longleftrightarrow> (\<forall>j < i. cmp (e_key (es ! j)) k < 0)"

lemma Seek_linear_ok:
  assumes "ready it es rs i" and "keys_before cmp k es i"
  shows "\<exists>it'. Seek_linear cmp k it = Some it' \<and>
    (let t = seek_pos cmp k (map e_pair es) in if t < length es then at_entry it' es rs t else at_end it' es rs)"
  using assms
proof (induction "length es - i" arbitrary: it i)
  case 0
  then have [simp]: "i = length es"
    by (simp add: ready_def)
  have "takeWhile (\<lambda>kv. cmp (fst kv) k < 0) (map e_pair es) = map e_pair es"
    using 0(3) by (auto simp: keys_before_def in_set_conv_nth e_pair_def)
  then have "seek_pos cmp k (map e_pair es) = length es"
    by (simp only: seek_pos_def length_map)
  then show ?case
    using ParseNextKey_end [of it es rs] 0(2)
    by (subst Seek_linear.simps) (simp add: at_end_def ready_def)
next
  case (Suc n)
  then have i: "i < length es"
    by simp
  obtain it' where it': "ParseNextKey it = Some (True, it')" "at_entry it' es rs i"
    using ParseNextKey_entry [OF Suc(3) i] by blast
  then have key: "bi_key it' = e_key (es ! i)"
    by (simp add: at_entry_def)
  show ?case
  proof (cases "cmp (e_key (es ! i)) k < 0")
    case True
    have "keys_before cmp k es (Suc i)"
      using Suc(4) True by (auto simp: keys_before_def less_Suc_eq)
    from Suc(1) [OF _ at_entry_ready [OF it'(2)] this] Suc(2) show ?thesis
      using it'(1) key True by (subst Seek_linear.simps) auto
  next
    case False
    have "takeWhile (\<lambda>kv. cmp (fst kv) k < 0) (map e_pair es) = take i (map e_pair es)"
      by (rule takeWhile_eq_take_P_nth) (use Suc(4) False i in \<open>auto simp: keys_before_def e_pair_def\<close>)
    then have "seek_pos cmp k (map e_pair es) = i"
      using i by (simp add: seek_pos_def)
    then show ?thesis
      using it' key False i by (subst Seek_linear.simps) simp
  qed
qed

text \<open>The key at a restart point, as the binary search reads it.\<close>

lemma restart_key:
  assumes wf: "block_wf it es rs" and m: "m < length rs" "rs ! m < length es"
  defines "e \<equiv> es ! (rs ! m)" and "off \<equiv> offset es (rs ! m)"
  obtains v n where "DecodeEntry (take (bi_restarts it - off) (drop off (bi_data it))) = Some (0, word_of_nat (length (e_key e)), v, n)"
    and "unat (word_of_nat (length (e_key e)) :: u32) = length (e_key e)"
    and "\<not> off + n + length (e_key e) > length (bi_data it)"
    and "take (length (e_key e)) (drop (off + n) (bi_data it)) = e_key e"
proof -
  have e: "e_shared e = 0" "e_shared e \<le> length (e_key e)" "length (e_key e) < 2 ^ 32"
    using block_bounds(7) [OF wf m] wf m(2) by (auto simp: e_def block_wf_def list_all_length)
  obtain rest tail where p: "take (bi_restarts it - off) (drop off (bi_data it)) = e_bytes e @ rest"
    and len: "length (e_bytes e @ rest) < 2 ^ 31" and data: "drop off (bi_data it) = e_bytes e @ tail"
    using block_entry [OF wf m(2)] unfolding e_def off_def by blast
  note dec = DecodeEntry_entry [OF e(2,3) len, unfolded e(1), simplified]
  have "drop (off + length (e_head e)) (bi_data it) = drop (length (e_head e)) (drop off (bi_data it))"
    by (simp add: add.commute)
  then have rest: "drop (off + length (e_head e)) (bi_data it) = e_key e @ e_value e @ tail"
    unfolding data by (simp add: e_bytes_def e(1))
  have "length (drop off (bi_data it)) = length (e_bytes e @ tail)" "e_bytes e \<noteq> []"
    using data length_e_bytes [of e] by auto
  then have "off + length (e_bytes e) \<le> length (bi_data it)"
    by (cases "off < length (bi_data it)") auto
  then have "\<not> off + length (e_head e) + length (e_key e) > length (bi_data it)"
    by (simp add: e_bytes_def e(1))
  then show ?thesis
    using that dec p rest by simp
qed

locale bytes_order = key_order cmp valid
  for cmp :: "bytes \<Rightarrow> bytes \<Rightarrow> int" and valid :: "bytes \<Rightarrow> bool"
begin

lemma keys_before_sorted:
  assumes "sorted_keys cmp valid (map e_pair es)" and "i < length es" and "cmp (e_key (es ! i)) k < 0" and "valid k"
  shows "keys_before cmp k es i"
proof -
  have "cmp (e_key (es ! j)) k < 0" if j: "j < i" for j
  proof -
    have "cmp (e_key (es ! j)) (e_key (es ! i)) < 0" "valid (e_key (es ! j))" "valid (e_key (es ! i))"
      using assms(1,2) j sorted_wrt_nth_less [of "\<lambda>a b. cmp (fst a) (fst b) < 0" "map e_pair es" j i]
      by (auto simp: sorted_keys_def list_all_length e_pair_def)
    then show ?thesis
      using cmp_less_trans assms(3,4) by blast
  qed
  then show ?thesis
    by (simp add: keys_before_def)
qed

lemma Seek_binary_ok:
  assumes wf: "block_wf it es rs" and sorted: "sorted_keys cmp valid (map e_pair es)" and k: "valid k"
    and "left \<le> right" and "right < length rs" and "keys_before cmp k es (rs ! left)"
  shows "\<exists>left'. Seek_binary cmp it k left right = Some (Some left') \<and> left' < length rs \<and> keys_before cmp k es (rs ! left')"
  using assms(4-6)
proof (induction "right - left" arbitrary: left right rule: less_induct)
  case less
  show ?case
  proof (cases "left < right")
    case True
    define mid where "mid = (left + right + 1) div 2"
    have "4 * length rs \<le> length (bi_data it)"
      using wf by (simp add: block_wf_def block_bytes_def length_concat sum_list_triv o_def)
    moreover have "length (bi_data it) < 2 ^ 31"
      using wf by (auto simp: block_wf_def)
    ultimately have "left + right + 1 < 2 ^ 32"
      using less.prems(1,2) power_strict_increasing [of 31 32 "2 :: nat"] by linarith
    then have mid: "(left + right + 1) mod 2 ^ 32 div 2 = mid" "left < mid" "mid \<le> right"
      using True by (auto simp: mid_def)
    then have m: "mid < length rs" "rs ! mid < length es"
      using less.prems(2) block_bounds(6) [OF wf, of mid] by simp_all
    let ?e = "es ! (rs ! mid)"
    obtain v n where "DecodeEntry (take (bi_restarts it - offset es (rs ! mid)) (drop (offset es (rs ! mid)) (bi_data it))) =
        Some (0, word_of_nat (length (e_key ?e)), v, n)" "unat (word_of_nat (length (e_key ?e)) :: u32) = length (e_key ?e)"
      "\<not> offset es (rs ! mid) + n + length (e_key ?e) > length (bi_data it)"
      "take (length (e_key ?e)) (drop (offset es (rs ! mid) + n) (bi_data it)) = e_key ?e"
      using restart_key [OF wf m] by blast
    then have step: "Seek_binary cmp it k left right =
        (if cmp (e_key ?e) k < 0 then Seek_binary cmp it k mid right else Seek_binary cmp it k left (mid - 1))"
      using True mid(1) block_restart [OF wf m(1)] by (subst Seek_binary.simps) simp
    show ?thesis
    proof (cases "cmp (e_key ?e) k < 0")
      case less': True
      show ?thesis
        unfolding step using less'
        by (simp, intro less.hyps) (use mid(2,3) less.prems(2) keys_before_sorted [OF sorted m(2) less' k] in auto)
    next
      case False
      then show ?thesis
        unfolding step by (simp, intro less.hyps) (use mid(2,3) less.prems in auto)
    qed
  qed (use less.prems in \<open>subst Seek_binary.simps, auto\<close>)
qed

end

section \<open>The contract\<close>

definition block_at ::
  "(bytes \<Rightarrow> bytes \<Rightarrow> int) \<Rightarrow> (bytes \<Rightarrow> bool) \<Rightarrow> BlockIter \<Rightarrow> (bytes \<times> bytes) list \<Rightarrow> nat \<Rightarrow> bool" where
  "block_at cmp valid it kvs i \<longleftrightarrow>
     sorted_keys cmp valid kvs \<and>
     (\<exists>es rs. kvs = map e_pair es \<and>
        (if i < length es then at_entry it es rs i else i = length es \<and> at_end it es rs))"

lemma block_atI:
  assumes "sorted_keys cmp valid (map e_pair es)" and "i < length es \<Longrightarrow> at_entry it es rs i"
    and "\<not> i < length es \<Longrightarrow> i = length es \<and> at_end it es rs"
  shows "block_at cmp valid it (map e_pair es) i"
  using assms unfolding block_at_def by (cases "i < length es") auto

lemma at_entry_reads:
  assumes at: "at_entry it es rs i"
  shows "Block_Valid it" and "Block_key it = Some (e_key (es ! i))" and "Block_value it = Some (e_value (es ! i))"
proof -
  have wf: "block_wf it es rs" and i: "i < length es"
    using at by (simp_all add: at_entry_def)
  obtain tail where data: "drop (offset es i) (bi_data it) = e_bytes (es ! i) @ tail" and less: "offset es i < bi_restarts it"
    using block_entry [OF wf i] by metis
  show v: "Block_Valid it"
    using at less by (simp add: Block_Valid_def at_entry_def)
  then show "Block_key it = Some (e_key (es ! i))"
    using at by (simp add: Block_key_def at_entry_def)
  have off: "offset es (Suc i) - length (e_value (es ! i)) =
      (length (e_head (es ! i)) + (length (e_key (es ! i)) - e_shared (es ! i))) + offset es i"
    using offset_Suc [OF i] by (simp add: e_bytes_def)
  have "drop (offset es (Suc i) - length (e_value (es ! i))) (bi_data it) = e_value (es ! i) @ tail"
    unfolding off drop_drop [symmetric] data by (simp add: e_bytes_def)
  then show "Block_value it = Some (e_value (es ! i))"
    using at v by (simp add: Block_value_def at_entry_def)
qed

lemma block_atE:
  assumes "block_at cmp valid it kvs i"
  obtains es rs where "kvs = map e_pair es" and "block_wf it es rs" and "sorted_keys cmp valid (map e_pair es)"
    and "i \<le> length es" and "i < length es \<Longrightarrow> at_entry it es rs i" and "i = length es \<Longrightarrow> at_end it es rs"
  using assms unfolding block_at_def by (auto simp: at_entry_def at_end_def split: if_splits)

context bytes_order
begin

lemma Block_parse_at:
  assumes sorted: "sorted_keys cmp valid (map e_pair es)" and ready: "ready it es rs i"
  shows "\<exists>it'. map_option snd (ParseNextKey it) = Some it' \<and> block_at cmp valid it' (map e_pair es) i"
proof (cases "i < length es")
  case True
  then show ?thesis
    using ParseNextKey_entry [OF ready True] block_atI [OF sorted] by auto
next
  case False
  then have [simp]: "i = length es"
    using ready by (simp add: ready_def)
  have "block_wf it es rs"
    using ready by (simp add: ready_def)
  then show ?thesis
    using ParseNextKey_end [of it es rs] ready by (auto intro!: block_atI [OF sorted] simp: at_end_def)
qed

lemma Block_Seeks_at:
  assumes wf: "block_wf it es rs" and sorted: "sorted_keys cmp valid (map e_pair es)"
  shows "\<exists>it'. Block_SeekToFirst it = Some it' \<and> block_at cmp valid it' (map e_pair es) 0"
    and "\<exists>it'. Block_SeekToLast it = Some it' \<and> block_at cmp valid it' (map e_pair es) (length es - 1)"
    and "valid k \<Longrightarrow> \<exists>it'. Block_Seek cmp k it = Some it' \<and> block_at cmp valid it' (map e_pair es) (seek_pos cmp k (map e_pair es))"
proof -
  have rs: "0 < length rs" "rs ! 0 = 0" "length rs - 1 < length rs" and num: "num_restarts it = length rs"
    using block_bounds(3,4) [OF wf] wf by (auto simp: block_wf_def)
  show "\<exists>it'. Block_SeekToFirst it = Some it' \<and> block_at cmp valid it' (map e_pair es) 0"
    using SeekToRestartPoint_ready [OF wf rs(1)] Block_parse_at [OF sorted] rs(2) by (auto simp: Block_SeekToFirst_def)
  obtain it1 where it1: "SeekToRestartPoint (length rs - 1) it = Some it1" "ready it1 es rs (rs ! (length rs - 1))"
    using SeekToRestartPoint_ready [OF wf rs(3)] by blast
  have "\<exists>it'. Parse_until (bi_restarts it) it1 = Some it' \<and> block_at cmp valid it' (map e_pair es) (length es - 1)"
  proof (cases "es = []")
    case True
    have "rs ! (length rs - 1) = length es"
      using it1(2) True by (simp add: ready_def)
    then have ready: "ready it1 es rs (length es)"
      using it1(2) by simp
    show ?thesis
      using ParseNextKey_end [OF ready] ready True block_atI [OF sorted, of 0 _ rs]
      by (subst Parse_until.simps) (auto simp: at_end_def ready_def)
  next
    case False
    have "rs ! (length rs - 1) \<le> length es - 1"
      using block_bounds(6) [OF wf, of "length rs - 1"] rs False by (cases "length rs = 1") auto
    moreover have "offset es (Suc j) < bi_restarts it" if "j < length es - 1" for j
      using offset_less_iff [of "Suc j" es "length es"] that block_bounds(1) [OF wf] by simp
    ultimately have "\<exists>it'. Parse_until (bi_restarts it) it1 = Some it' \<and> at_entry it' es rs (length es - 1)"
      using False block_bounds(1) [OF wf] by (intro Parse_until_target [OF it1(2)]) auto
    then show ?thesis
      using False by (auto intro!: block_atI [OF sorted])
  qed
  then show "\<exists>it'. Block_SeekToLast it = Some it' \<and> block_at cmp valid it' (map e_pair es) (length es - 1)"
    using it1(1) by (simp add: Block_SeekToLast_def num)
  show "\<exists>it'. Block_Seek cmp k it = Some it' \<and> block_at cmp valid it' (map e_pair es) (seek_pos cmp k (map e_pair es))"
    if k: "valid k"
  proof -
    have "keys_before cmp k es (rs ! 0)"
      by (simp add: rs(2) keys_before_def)
    then obtain left where left: "Seek_binary cmp it k 0 (length rs - 1) = Some (Some left)" "left < length rs"
      "keys_before cmp k es (rs ! left)"
      using Seek_binary_ok [OF wf sorted k, of 0 "length rs - 1"] rs by auto
    obtain it2 where it2: "SeekToRestartPoint left it = Some it2" "ready it2 es rs (rs ! left)"
      using SeekToRestartPoint_ready [OF wf left(2)] by blast
    have "seek_pos cmp k (map e_pair es) \<le> length es"
      unfolding seek_pos_def by (metis length_map length_takeWhile_le)
    then show ?thesis
      using Seek_linear_ok [OF it2(2) left(3)] it2(1) left(1)
      by (auto simp: Block_Seek_def num Let_def intro!: block_atI [OF sorted] split: if_splits)
  qed
qed

end

sublocale bytes_order \<subseteq> block: iterator cmp valid "BlockIterator cmp" "block_at cmp valid"
proof (rule iterator.intro)
  show "key_order cmp valid"
    by (rule key_order_axioms)
  show "iterator_axioms cmp valid (BlockIterator cmp) (block_at cmp valid)"
  proof
    fix it kvs i k
    assume at: "block_at cmp valid it kvs i"
    obtain es rs where es: "kvs = map e_pair es" and wf: "block_wf it es rs"
      and sorted: "sorted_keys cmp valid (map e_pair es)" and i: "i \<le> length es"
      and entry: "i < length es \<Longrightarrow> at_entry it es rs i" and at_end: "i = length es \<Longrightarrow> at_end it es rs"
      using block_atE [OF at] by metis
    note op = BlockIterator_def es
    show "sorted_keys cmp valid kvs" "i \<le> length kvs"
      using sorted i by (simp_all add: es)
    show "it_Valid (BlockIterator cmp) it \<longleftrightarrow> i < length kvs"
      using entry at_end at_entry_reads(1) i by (cases "i < length es") (auto simp: op Block_Valid_def at_end_def)
    show "it_status (BlockIterator cmp) it = OK"
      using wf by (simp add: op block_wf_def)
    show "it_key (BlockIterator cmp) it = Some (fst (kvs ! i))"
      "it_value (BlockIterator cmp) it = Some (snd (kvs ! i))"
      "\<exists>s'. it_Next (BlockIterator cmp) it = Some s' \<and> block_at cmp valid s' kvs (Suc i)"
      "\<exists>s'. it_Prev (BlockIterator cmp) it = Some s' \<and> block_at cmp valid s' kvs (prev_pos i kvs)"
      if l: "i < length kvs"
    proof -
      have i': "i < length es"
        using l by (simp add: es)
      note at' = entry [OF i']
      show "it_key (BlockIterator cmp) it = Some (fst (kvs ! i))" "it_value (BlockIterator cmp) it = Some (snd (kvs ! i))"
        using at_entry_reads(2,3) [OF at'] i' by (simp_all add: op e_pair_def)
      show "\<exists>s'. it_Next (BlockIterator cmp) it = Some s' \<and> block_at cmp valid s' kvs (Suc i)"
        using Block_parse_at [OF sorted at_entry_ready [OF at']] at_entry_reads(1) [OF at'] by (simp add: op Block_Next_def)
      obtain it' where "Block_Prev it = Some it'" "if i = 0 then at_end it' es rs else at_entry it' es rs (i - 1)"
        using Block_Prev_entry [OF at'] by blast
      then show "\<exists>s'. it_Prev (BlockIterator cmp) it = Some s' \<and> block_at cmp valid s' kvs (prev_pos i kvs)"
        using i' by (auto simp: op prev_pos_def intro!: block_atI [OF sorted] split: if_splits)
    qed
    show "\<exists>s'. it_SeekToFirst (BlockIterator cmp) it = Some s' \<and> block_at cmp valid s' kvs 0"
      "\<exists>s'. it_SeekToLast (BlockIterator cmp) it = Some s' \<and> block_at cmp valid s' kvs (length kvs - 1)"
      using Block_Seeks_at(1,2) [OF wf sorted] by (simp_all add: op)
    show "\<exists>s'. it_Seek (BlockIterator cmp) k it = Some s' \<and> block_at cmp valid s' kvs (seek_pos cmp k kvs)"
      if "valid k"
      using Block_Seeks_at(3) [OF wf sorted that] by (simp add: op)
  qed
qed

context bytes_order
begin

lemma block_iterator: "iterator cmp valid (BlockIterator cmp) (block_at cmp valid)"
  by (rule block.iterator_axioms)

end

interpretation bytewise_order: bytes_order Bytewise_Compare "\<lambda>_. True"
  by (rule bytes_order.intro) (rule bytewise.key_order_axioms)

section \<open>Blocks from the builder\<close>

lemma length_e_head: "length (e_head e) \<le> 15"
  using length_EncodeVarint32 [of "word_of_nat (e_shared e)"] length_EncodeVarint32 [of "word_of_nat (length (e_key e) - e_shared e)"]
    length_EncodeVarint32 [of "word_of_nat (length (e_value e))"]
  unfolding e_head_def length_append by linarith

lemma length_entries_bytes:
  "length (entries_bytes es) \<le> sum_list (map (\<lambda>(k, v). 15 + length k + length v) (map e_pair es))"
proof (induction es)
  case (Cons e es)
  have "length (e_bytes e) \<le> 15 + length (e_key e) + length (e_value e)"
    using length_e_head [of e] by (simp add: e_bytes_def)
  with Cons show ?case
    by (simp add: e_pair_def)
qed simp

lemma length_restarts:
  assumes "entries_ok es rs"
  shows "length rs \<le> Suc (length es)"
proof -
  have "distinct rs"
    using assms by (auto simp: entries_ok_def strict_sorted_iff)
  moreover have "set rs \<subseteq> {0..length es}"
    using assms by (auto simp: entries_ok_def)
  ultimately show ?thesis
    using card_mono [of "{0..length es}" "set rs"] by (simp add: distinct_card)
qed

text \<open>An upper bound of the size of a block with the given entries.\<close>

definition block_bound :: "(bytes \<times> bytes) list \<Rightarrow> nat" where
  "block_bound kvs = sum_list (map (\<lambda>(k, v). length k + length v + 19) kvs) + 8"

lemma length_block_bytes:
  assumes "entries_ok es rs"
  shows "length (block_bytes es rs) \<le> block_bound (map e_pair es)"
proof -
  have sum: "sum_list (map (\<lambda>(k, v). length k + length v + 19) kvs) =
      sum_list (map (\<lambda>(k, v). 15 + length k + length v) kvs) + 4 * length kvs" for kvs :: "(bytes \<times> bytes) list"
    by (induction kvs) auto
  have "length (block_bytes es rs) = length (entries_bytes es) + 4 * length rs + 4"
    by (simp add: block_bytes_def length_concat sum_list_triv o_def)
  then show ?thesis
    using length_entries_bytes [of es] length_restarts [OF assms] sum [of "map e_pair es"]
    unfolding block_bound_def length_map by linarith
qed

lemma block_bound_key:
  assumes "kv \<in> set kvs"
  shows "length (fst kv) \<le> block_bound kvs"
proof -
  have "(\<lambda>(k, v). length k + length v + 19) kv \<le> sum_list (map (\<lambda>(k, v). length k + length v + 19) kvs)"
    using assms by (intro member_le_sum_list) auto
  then show ?thesis
    by (simp add: block_bound_def split: prod.splits)
qed

lemma Block_new_builder:
  assumes ok: "entries_ok es rs" and small: "block_bound (map e_pair es) < 2 ^ 31"
    and data: "bc_data c = block_bytes es rs"
  obtains b it where "Block_new c = Some b" and "Block_NewIterator b = Some (Inr it)" and "block_wf it es rs"
    and "bi_current it = bi_restarts it"
proof -
  let ?d = "block_bytes es rs"
  have len: "length ?d < 2 ^ 31"
    using length_block_bytes [OF ok] small by linarith
  have size: "length ?d = length (entries_bytes es) + 4 * length rs + 4"
    by (simp add: block_bytes_def length_concat sum_list_triv o_def)
  have rs: "0 < length rs" "length rs < 2 ^ 29"
    using ok len size by (auto simp: entries_ok_def)
  have unat: "unat (word_of_nat (length rs) :: u32) = length rs"
    using rs(2) by (simp add: unsigned_of_nat take_bit_nat_eq_self)
  have "drop (length ?d - 4) ?d = EncodeFixed32 (word_of_nat (length rs))"
    by (simp add: size) (simp add: block_bytes_def length_concat sum_list_triv o_def)
  then have num: "NumRestarts ?d (length ?d) = Some (length rs)"
    using DecodeFixed32_append [of "word_of_nat (length rs)" "[]"] unat size by (simp add: NumRestarts_def)
  have off: "(length ?d - (1 + length rs) mod 2 ^ 32 * 4) mod 2 ^ 32 = length (entries_bytes es)"
    using rs(2) len size by simp
  have max: "\<not> length rs > (length ?d - 4) div 4"
    using size by simp
  have b: "Block_new c = Some \<lparr>b_data = ?d, b_size = length ?d, restart_offset = length (entries_bytes es), owned = heap_allocated c\<rparr>"
    using num off max size unfolding Block_new_def Let_def data by simp
  have keys: "list_all (\<lambda>e. length (e_key e) < 2 ^ 32) es"
  proof (unfold list_all_iff, rule ballI)
    fix e
    assume "e \<in> set es"
    then have "length (e_key e) \<le> block_bound (map e_pair es)"
      using block_bound_key [of "e_pair e" "map e_pair es"] by (auto simp: e_pair_def)
    then show "length (e_key e) < 2 ^ 32"
      using small by simp
  qed
  show ?thesis
    by (rule that [OF b]) (use num rs size len ok keys in \<open>auto simp: Block_NewIterator_def BlockIter_new_def block_wf_def\<close>)
qed

context bytes_order
begin

lemma sorted_swap:
  assumes "sorted_keys cmp valid kvs"
  shows "sorted_wrt (\<lambda>x y. cmp (fst y) (fst x) > 0) kvs"
proof (rule sorted_wrt_mono_rel)
  show "sorted_wrt (\<lambda>a b. cmp (fst a) (fst b) < 0) kvs"
    using assms by (simp add: sorted_keys_def)
  show "cmp (fst y) (fst x) > 0" if "x \<in> set kvs" "y \<in> set kvs" "cmp (fst x) (fst y) < 0" for x y
    using assms that cmp_swap [of "fst y" "fst x"] by (auto simp: sorted_keys_def list_all_iff)
qed

text \<open>What the builder makes of sorted pairs is a block that the iterator reads as these pairs.\<close>

lemma block_built:
  assumes "interval \<ge> 1" and sorted: "sorted_keys cmp valid kvs" and small: "block_bound kvs < 2 ^ 31"
  obtains b blk it where
    "Option.bind (BlockBuilder_new interval) (BlockBuilder_Adds cmp interval kvs) = Some b"
    "Block_new \<lparr>bc_data = fst (BlockBuilder_Finish b), cacheable = c, heap_allocated = h\<rparr> = Some blk"
    "Block_NewIterator blk = Some (Inr it)"
    "block_at cmp valid it kvs (length kvs)"
    "length (fst (BlockBuilder_Finish b)) = CurrentSizeEstimate b"
proof -
  obtain b0 where b0: "BlockBuilder_new interval = Some b0" "builder_inv interval b0 [] [0]"
    using builder_inv_new [OF assms(1)] by blast
  obtain b es rs where b: "BlockBuilder_Adds cmp interval kvs b0 = Some b" "map e_pair es = kvs" "builder_inv interval b es rs"
    using builder_inv_Adds [OF b0(2), of cmp kvs] sorted_swap [OF sorted] by auto
  have ok: "entries_ok es rs"
    using b(3) by (simp add: builder_inv_def)
  obtain blk it where it: "Block_new \<lparr>bc_data = fst (BlockBuilder_Finish b), cacheable = c, heap_allocated = h\<rparr> = Some blk"
    "Block_NewIterator blk = Some (Inr it)" "block_wf it es rs" "bi_current it = bi_restarts it"
    by (rule Block_new_builder [OF ok]) (use builder_Finish(1) [OF b(3)] b(2) small in auto)
  have "block_at cmp valid it (map e_pair es) (length es)"
    by (rule block_atI [of _ _ _ _ _ rs]) (use sorted b(2) it in \<open>auto simp: at_end_def\<close>)
  then show ?thesis
    using that [of b blk it] b0(1) b(1,2) it(1,2) builder_Finish [OF b(3)] by auto
qed

end

text \<open>C5. A block built from sorted pairs is read back: the builder's assertions hold, the finished
  block has the estimated size, the iterator of the block satisfies the contract of iterators
  (both directions, seeks by binary search over the restart points) for exactly these pairs, and
  a scan from the first entry yields them.  Every comparator that is an order and every restart
  interval is covered.\<close>

theorem block_roundtrip:
  assumes "bytes_order cmp valid" and "interval \<ge> 1" and "sorted_keys cmp valid kvs" and "block_bound kvs < 2 ^ 31"
  shows "iterator cmp valid (BlockIterator cmp) (block_at cmp valid) \<and>
    (\<exists>b blk it it'. Option.bind (BlockBuilder_new interval) (BlockBuilder_Adds cmp interval kvs) = Some b \<and>
       length (fst (BlockBuilder_Finish b)) = CurrentSizeEstimate b \<and>
       Block_new \<lparr>bc_data = fst (BlockBuilder_Finish b), cacheable = c, heap_allocated = h\<rparr> = Some blk \<and>
       Block_NewIterator blk = Some (Inr it) \<and> block_at cmp valid it kvs (length kvs) \<and>
       it_SeekToFirst (BlockIterator cmp) it = Some it' \<and> scan (BlockIterator cmp) (length kvs) it' = Some kvs)"
proof -
  note it = bytes_order.block_iterator [OF assms(1)]
  obtain b blk s where s: "Option.bind (BlockBuilder_new interval) (BlockBuilder_Adds cmp interval kvs) = Some b"
    "Block_new \<lparr>bc_data = fst (BlockBuilder_Finish b), cacheable = c, heap_allocated = h\<rparr> = Some blk"
    "Block_NewIterator blk = Some (Inr s)" "block_at cmp valid s kvs (length kvs)"
    "length (fst (BlockBuilder_Finish b)) = CurrentSizeEstimate b"
    by (rule bytes_order.block_built [OF assms])
  obtain s' where "it_SeekToFirst (BlockIterator cmp) s = Some s'" "block_at cmp valid s' kvs 0"
    using iterator.SeekToFirst_at [OF it s(4)] by blast
  with iterator.scan_at [OF it] s it show ?thesis
    by auto
qed

theorem block_roundtrip_witness:
  "\<exists>b it it'. Option.bind (BlockBuilder_new 2)
       (BlockBuilder_Adds Bytewise_Compare 2 [(str ''aa'', [1]), (str ''ab'', []), (str ''b'', [2, 3])]) = Some b \<and>
     length (fst (BlockBuilder_Finish b)) = CurrentSizeEstimate b \<and>
     it_SeekToFirst (BlockIterator Bytewise_Compare) it = Some it' \<and>
     scan (BlockIterator Bytewise_Compare) 3 it' = Some [(str ''aa'', [1]), (str ''ab'', []), (str ''b'', [2, 3])]"
proof -
  let ?kvs = "[(str ''aa'', [1]), (str ''ab'', []), (str ''b'', [2, 3])] :: (bytes \<times> bytes) list"
  have "sorted_keys Bytewise_Compare (\<lambda>_. True) ?kvs"
    by (simp add: sorted_keys_def Bytewise_Compare_def) code_simp
  moreover have "block_bound ?kvs < 2 ^ 31"
    by (simp add: block_bound_def str_def)
  moreover have "length ?kvs = 3"
    by simp
  ultimately show ?thesis
    using block_roundtrip [OF bytewise_order.bytes_order_axioms, of 2 ?kvs False False] by (metis one_le_numeral)
qed

section \<open>Blocks with any contents\<close>

lemma GetVarint32Ptr_shorter: "GetVarint32Ptr p = Some (v, q) \<Longrightarrow> \<exists>used. p = used @ q"
  using GetVarint32_suffix [of p v q] by (auto simp: GetVarint32_def)

lemma DecodeEntry_cases:
  assumes "DecodeEntry p = Some (shared, non_shared, value_length, n)"
  shows "\<exists>q :: bytes. n + length q = length p \<and> \<not> (word_of_nat (length q) :: u32) < non_shared + value_length"
proof -
  have "\<exists>q :: bytes. n = length p - length q \<and> length q \<le> length p \<and> \<not> (word_of_nat (length q) :: u32) < non_shared + value_length"
    using assms unfolding DecodeEntry_def Let_def
    apply (auto simp del: of_nat_diff split: if_splits option.splits prod.splits dest!: GetVarint32Ptr_shorter)
    subgoal by (rule exI [of _ "drop 3 p"]) (simp del: of_nat_diff)
    done
  then show ?thesis
    by (metis le_add_diff_inverse2)
qed

text \<open>C33. The bounds check of \<open>DecodeEntry\<close>: in a block of less than \<open>2 ^ 32\<close> bytes an accepted entry
  lies inside the block exactly when the sum of the two lengths does not wrap around in 32 bits;
  the code does not check that it does not.\<close>

theorem DecodeEntry_bounds:
  assumes "DecodeEntry p = Some (shared, non_shared, value_length, n)" and "length p < 2 ^ 32"
  shows "n + unat non_shared + unat value_length \<le> length p \<longleftrightarrow> unat non_shared + unat value_length < 2 ^ 32"
proof -
  obtain q :: bytes where q: "n + length q = length p" "\<not> (word_of_nat (length q) :: u32) < non_shared + value_length"
    using DecodeEntry_cases [OF assms(1)] by blast
  have "unat (word_of_nat (length q) :: u32) = length q"
    using q(1) assms(2) by (simp add: unsigned_of_nat take_bit_nat_eq_self)
  with q(2) have "(unat non_shared + unat value_length) mod 2 ^ 32 \<le> length q"
    by (simp add: word_less_nat_alt unat_word_ariths not_less)
  with q(1) assms(2) show ?thesis
    by (cases "unat non_shared + unat value_length < 2 ^ 32") auto
qed

theorem DecodeEntry_bounds_witness:
  "DecodeEntry [0, 0x80, 0x80, 0x80, 0x80, 0x08, 0x80, 0x80, 0x80, 0x80, 0x08] = Some (0, 2 ^ 31, 2 ^ 31, 11) \<and>
   \<not> (11 :: nat) + unat (2 ^ 31 :: u32) + unat (2 ^ 31 :: u32) \<le> 11"
proof -
  let ?p = "[0, 0x80, 0x80, 0x80, 0x80, 0x08, 0x80, 0x80, 0x80, 0x80, 0x08] :: bytes"
  have "DecodeEntry ?p = Some (0, 2 ^ 31, 2 ^ 31, 11)"
    by code_simp
  with DecodeEntry_bounds [of ?p 0 "2 ^ 31" "2 ^ 31" 11] show ?thesis
    by simp
qed

text \<open>C31. Opening a block of less than \<open>2^32\<close> bytes never fails: contents that are too short, or too short for the number of
  restart points they claim, give an iterator with a corruption status, no restart points give an
  empty iterator, and everything else an iterator that is not valid yet and whose restart array lies
  inside the contents.\<close>

theorem Block_open_total:
  assumes "length (bc_data c) < 2 ^ 32"
  defines "len \<equiv> length (bc_data c)"
  shows "\<exists>b r. Block_new c = Some b \<and> Block_NewIterator b = Some r \<and>
    (case r of
       Inl s \<Rightarrow> (s = OK \<and> NumRestarts (bc_data c) len = Some 0) \<or>
                (s = Corruption (str ''bad block contents'') [] \<and>
                 (len < 4 \<or> (\<exists>num. NumRestarts (bc_data c) len = Some num \<and> len < 4 * num + 4)))
     | Inr it \<Rightarrow> NumRestarts (bc_data c) len = Some (num_restarts it) \<and> 0 < num_restarts it \<and>
                bi_restarts it + 4 * num_restarts it + 4 = len \<and> \<not> Block_Valid it \<and> bi_data it = bc_data c)"
proof (cases "len < 4")
  case True
  then show ?thesis
    by (simp add: len_def Block_new_def Block_NewIterator_def NewErrorIterator_def Let_def)
next
  case False
  then obtain num where num: "NumRestarts (bc_data c) len = Some num" "num < 2 ^ 32"
    using unsigned_less [of "le_word (drop (len - 4) (bc_data c)) :: u32"]
    by (auto simp: NumRestarts_def DecodeFixed32_def DecodeFixed32_host_le_word len_def)
  show ?thesis
  proof (cases "num > (len - 4) div 4")
    case True
    then have "len < 4 * num + 4"
      using False by linarith
    with True False num show ?thesis
      by (simp add: len_def Block_new_def Block_NewIterator_def NewErrorIterator_def Let_def)
  next
    case fits: False
    then have le: "4 * num + 4 \<le> len"
      using False by linarith
    then have "(1 + num) mod 2 ^ 32 = 1 + num"
      using assms(1) by (simp add: len_def)
    then have "(len - (1 + num) mod 2 ^ 32 * 4) mod 2 ^ 32 = len - 4 * num - 4"
      using assms(1) by (simp add: len_def)
    with fits False num le show ?thesis
      by (cases "num = 0")
        (auto simp: len_def Block_new_def Block_NewIterator_def NewEmptyIterator_def BlockIter_new_def Block_Valid_def Let_def)
  qed
qed

theorem Block_open_total_witness:
  "\<exists>b. Block_new \<lparr>bc_data = [0, 0, 0, 0, 9, 0, 0, 0], cacheable = False, heap_allocated = False\<rparr> = Some b \<and>
     Block_NewIterator b = Some (Inl (Corruption (str ''bad block contents'') []))"
proof -
  let ?c = "\<lparr>bc_data = [0, 0, 0, 0, 9, 0, 0, 0], cacheable = False, heap_allocated = False\<rparr>"
  have "NumRestarts (bc_data ?c) (length (bc_data ?c)) = Some 9"
    by code_simp
  with Block_open_total [of ?c] show ?thesis
    by (auto split: sum.splits) (metis sum.exhaust)
qed

end
