(* ===== verification/Filter_Block.thy ===== *)
theory Filter_Block
  imports Bloom Coding
begin

text \<open>
  The block of filters of a table (\<^verbatim>\<open>table/filter_block.h\<close>, \<^verbatim>\<open>table/filter_block.cpp\<close>): one filter
  for every 2 KB of offsets, over the keys of the data blocks that start there.

  The policy is given by its two operations.  The vector \<open>tmp_keys_\<close> is empty between calls and
  local here.  \<^const>\<open>None\<close> stands for a failed assertion, a read outside the contents, or a shift by
  64 or more.
\<close>

unbundle bit_operations_syntax

section \<open>FilterBlockBuilder\<close>

definition kFilterBaseLg :: nat where
  "kFilterBaseLg = 11"

definition kFilterBase :: nat where
  "kFilterBase = 2 ^ kFilterBaseLg"

record FilterBlockBuilder =
  fb_keys :: bytes
  fb_start :: "nat list"
  fb_result :: bytes
  filter_offsets :: "u32 list"

definition FilterBlockBuilder_new :: FilterBlockBuilder where
  "FilterBlockBuilder_new = \<lparr>fb_keys = [], fb_start = [], fb_result = [], filter_offsets = []\<rparr>"

definition GenerateFilter :: "(bytes list \<Rightarrow> bytes \<Rightarrow> bytes) \<Rightarrow> FilterBlockBuilder \<Rightarrow> FilterBlockBuilder" where
  "GenerateFilter CreateFilter b =
     (let num_keys = length (fb_start b);
          offsets = filter_offsets b @ [word_of_nat (length (fb_result b))]
      in if num_keys = 0 then b\<lparr>filter_offsets := offsets\<rparr>
         else
           let starts = fb_start b @ [length (fb_keys b)];
               tmp_keys = map (\<lambda>i. take (starts ! (i + 1) - starts ! i) (drop (starts ! i) (fb_keys b))) [0..<num_keys]
           in \<lparr>fb_keys = [], fb_start = [], fb_result = CreateFilter tmp_keys (fb_result b), filter_offsets = offsets\<rparr>)"

lemma length_filter_offsets [simp]:
  "length (filter_offsets (GenerateFilter create b)) = Suc (length (filter_offsets b))"
  by (simp add: GenerateFilter_def Let_def)

text \<open>The loop of \<open>StartBlock\<close>.\<close>

function StartBlock_loop :: "(bytes list \<Rightarrow> bytes \<Rightarrow> bytes) \<Rightarrow> nat \<Rightarrow> FilterBlockBuilder \<Rightarrow> FilterBlockBuilder" where
  "StartBlock_loop create filter_index b =
     (if filter_index > length (filter_offsets b) then StartBlock_loop create filter_index (GenerateFilter create b) else b)"
  by pat_completeness auto
termination
  by (relation "measure (\<lambda>(create, filter_index, b). filter_index - length (filter_offsets b))") auto

declare StartBlock_loop.simps [simp del]

definition StartBlock :: "(bytes list \<Rightarrow> bytes \<Rightarrow> bytes) \<Rightarrow> u64 \<Rightarrow> FilterBlockBuilder \<Rightarrow> FilterBlockBuilder option" where
  "StartBlock create block_offset b =
     (let filter_index = unat block_offset div kFilterBase in
      if filter_index \<ge> length (filter_offsets b) then Some (StartBlock_loop create filter_index b) else None)"

definition AddKey :: "bytes \<Rightarrow> FilterBlockBuilder \<Rightarrow> FilterBlockBuilder" where
  "AddKey k b = b\<lparr>fb_start := fb_start b @ [length (fb_keys b)], fb_keys := fb_keys b @ k\<rparr>"

definition FilterBlock_Finish ::
  "(bytes list \<Rightarrow> bytes \<Rightarrow> bytes) \<Rightarrow> FilterBlockBuilder \<Rightarrow> bytes \<times> FilterBlockBuilder" where
  "FilterBlock_Finish create b =
     (let b = (if fb_start b \<noteq> [] then GenerateFilter create b else b);
          array_offset = word_of_nat (length (fb_result b)) :: u32;
          result = fold (\<lambda>off result. PutFixed32 result off) (filter_offsets b) (fb_result b);
          result = PutFixed32 result array_offset;
          result = result @ [word_of_nat kFilterBaseLg]
      in (result, b\<lparr>fb_result := result\<rparr>))"

text \<open>The calls a table builder makes: \<open>(StartBlock AddKey*)*\<close>.\<close>

fun FilterBlock_adds ::
  "(bytes list \<Rightarrow> bytes \<Rightarrow> bytes) \<Rightarrow> (u64 \<times> bytes list) list \<Rightarrow> FilterBlockBuilder \<Rightarrow> FilterBlockBuilder option" where
  "FilterBlock_adds create [] b = Some b"
| "FilterBlock_adds create ((off, ks) # blocks) b =
     (case StartBlock create off b of
        None \<Rightarrow> None
      | Some b \<Rightarrow> FilterBlock_adds create blocks (fold AddKey ks b))"

section \<open>FilterBlockReader\<close>

record FilterBlockReader =
  fr_data :: bytes
  fr_offset :: nat
  fr_num :: nat
  base_lg :: u64

definition FilterBlockReader_new :: "bytes \<Rightarrow> FilterBlockReader" where
  "FilterBlockReader_new contents =
     (let n = length contents;
          r = \<lparr>fr_data = [], fr_offset = 0, fr_num = 0, base_lg = 0\<rparr>
      in if n < 5 then r
         else
           let r = r\<lparr>base_lg := scast (contents ! (n - 1))\<rparr>;
               last_word = unat (the (DecodeFixed32 (drop (n - 5) contents)))
           in if last_word > n - 5 then r
              else r\<lparr>fr_data := contents, fr_offset := last_word, fr_num := (n - 5 - last_word) div 4\<rparr>)"

text \<open>\<^const>\<open>None\<close>: a shift by 64 or more, or an access outside the contents, by the reader or by the policy in the slice it is
  given.\<close>

definition FilterBlock_KeyMayMatch ::
  "(bytes \<Rightarrow> bytes \<Rightarrow> bool) \<Rightarrow> FilterBlockReader \<Rightarrow> u64 \<Rightarrow> bytes \<Rightarrow> bool option" where
  "FilterBlock_KeyMayMatch KeyMayMatch r block_offset k =
     (if unat (base_lg r) \<ge> 64 then None
      else
        let index = unat (drop_bit (unat (base_lg r)) block_offset) in
        if index < fr_num r then
          (case (DecodeFixed32 (drop (fr_offset r + index * 4) (fr_data r)),
                 DecodeFixed32 (drop (fr_offset r + index * 4 + 4) (fr_data r))) of
             (Some first, Some limit) \<Rightarrow>
               if first \<le> limit \<and> unat limit \<le> fr_offset r then
                 (if unat limit \<le> length (fr_data r)
                  then Some (KeyMayMatch k (take (unat limit - unat first) (drop (unat first) (fr_data r))))
                  else None)
               else if first = limit then Some False
               else Some True
           | _ \<Rightarrow> None)
        else Some True)"

section \<open>What the builder has built\<close>

text \<open>\<open>done\<close> are the keys of the filters generated so far and \<open>fs\<close> these filters, \<open>pend\<close> the keys of
  the next filter.\<close>

definition starts_of :: "bytes list \<Rightarrow> nat \<Rightarrow> nat" where
  "starts_of fs i = length (concat (take i fs))"

definition builder_state ::
  "(bytes \<Rightarrow> bytes \<Rightarrow> bool) \<Rightarrow> FilterBlockBuilder \<Rightarrow> bytes list list \<Rightarrow> bytes list \<Rightarrow> bytes list \<Rightarrow> bool" where
  "builder_state KeyMayMatch b done pend fs \<longleftrightarrow>
     fb_keys b = concat pend \<and> fb_start b = map (starts_of pend) [0..<length pend] \<and>
     fb_result b = concat fs \<and> filter_offsets b = map (\<lambda>i. word_of_nat (starts_of fs i)) [0..<length fs] \<and>
     list_all2 (\<lambda>ks f. \<forall>k \<in> set ks. KeyMayMatch k f) done fs"

lemma starts_of_append: "i \<le> length fs \<Longrightarrow> starts_of (fs @ gs) i = starts_of fs i"
  by (simp add: starts_of_def)

lemma starts_of_length: "starts_of fs (length fs) = length (concat fs)"
  by (simp add: starts_of_def)

lemma slice_of_concat:
  assumes "i < length xs"
  shows "take (starts_of xs (Suc i) - starts_of xs i) (drop (starts_of xs i) (concat xs @ rest)) = xs ! i"
proof -
  have "concat xs = concat (take i xs) @ xs ! i @ concat (drop (Suc i) xs)"
    by (rule concat_split_nth [OF assms])
  moreover have "starts_of xs (Suc i) = starts_of xs i + length (xs ! i)"
    using assms by (simp add: starts_of_def take_Suc_conv_app_nth)
  ultimately show ?thesis
    by (simp add: starts_of_def)
qed

lemma starts_of_mono: "i \<le> j \<Longrightarrow> starts_of xs i \<le> starts_of xs j"
  unfolding starts_of_def by (metis le_iff_add length_append concat_append take_add)

lemma builder_state_new: "builder_state m FilterBlockBuilder_new [] [] []"
  by (simp add: builder_state_def FilterBlockBuilder_new_def)

lemma builder_state_AddKeys:
  "builder_state m b done pend fs \<Longrightarrow> builder_state m (fold AddKey ks b) done (pend @ ks) fs"
proof (induction ks arbitrary: b pend)
  case (Cons k ks)
  have "builder_state m (AddKey k b) done (pend @ [k]) fs"
    using Cons.prems by (simp add: builder_state_def AddKey_def starts_of_append starts_of_length)
  from Cons.IH [OF this] show ?case
    by simp
qed simp

context filter_policy
begin

lemma GenerateFilter_state:
  assumes st: "builder_state KeyMayMatch b done pend fs" and valid: "list_all valid pend" and n: "length pend < 2 ^ 31"
  shows "\<exists>f. builder_state KeyMayMatch (GenerateFilter CreateFilter b) (done @ [pend]) [] (fs @ [f])"
proof (cases "pend = []")
  case True
  then show ?thesis
    using st by (intro exI [of _ "[]"])
      (simp add: builder_state_def GenerateFilter_def starts_of_append starts_of_length list_all2_appendI)
next
  case False
  let ?starts = "fb_start b @ [length (fb_keys b)]"
  have starts: "?starts = map (starts_of pend) [0..<Suc (length pend)]"
    using st by (simp add: builder_state_def starts_of_length)
  have keys: "map (\<lambda>i. take (?starts ! (i + 1) - ?starts ! i) (drop (?starts ! i) (fb_keys b))) [0..<length (fb_start b)] = pend"
    unfolding starts using st slice_of_concat [of _ pend "[]"]
    by (intro nth_equalityI) (simp_all add: builder_state_def del: upt_Suc)
  obtain f where f: "CreateFilter pend (fb_result b) = fb_result b @ f" "\<forall>k \<in> set pend. KeyMayMatch k f"
    using create_appends [OF valid n] by blast
  have "fb_start b \<noteq> []"
    using st False by (simp add: builder_state_def)
  then show ?thesis
    using st f keys by (intro exI [of _ f])
      (simp add: builder_state_def GenerateFilter_def Let_def starts_of_append starts_of_length list_all2_appendI)
qed

end

text \<open>The keys of a block end up in the filter of its offset.\<close>

definition filter_index :: "u64 \<Rightarrow> nat" where
  "filter_index block_offset = unat block_offset div kFilterBase"

definition covered :: "bytes list list \<Rightarrow> bytes list \<Rightarrow> u64 \<times> bytes list \<Rightarrow> bool" where
  "covered done pend blk \<longleftrightarrow>
     (let i = filter_index (fst blk) in
      (i < length done \<and> set (snd blk) \<subseteq> set (done ! i)) \<or> (i = length done \<and> set (snd blk) \<subseteq> set pend))"

lemma covered_generate: "covered done pend blk \<Longrightarrow> covered (done @ [pend]) [] blk"
  by (auto simp: covered_def Let_def nth_append)

lemma covered_append: "covered done pend blk \<Longrightarrow> covered done (pend @ ks) blk"
  by (auto simp: covered_def Let_def)

context filter_policy
begin

definition pending :: "FilterBlockBuilder \<Rightarrow> (u64 \<times> bytes list) list \<Rightarrow> bytes list list \<Rightarrow> bytes list \<Rightarrow> bytes list \<Rightarrow> bool" where
  "pending b blocks done pend fs \<longleftrightarrow>
     builder_state KeyMayMatch b done pend fs \<and> list_all valid pend \<and>
     length pend \<le> length (concat (map snd blocks)) \<and> list_all (covered done pend) blocks"

lemma pending_generate:
  assumes "pending b blocks done pend fs" and "length (concat (map snd blocks)) < 2 ^ 31"
  shows "\<exists>f. pending (GenerateFilter CreateFilter b) blocks (done @ [pend]) [] (fs @ [f])"
proof -
  have "builder_state KeyMayMatch b done pend fs" "list_all valid pend" "length pend < 2 ^ 31"
    using assms by (auto simp: pending_def)
  from GenerateFilter_state [OF this] show ?thesis
    using assms(1) covered_generate by (fastforce simp: pending_def list_all_iff)
qed

lemma pending_length: "pending b blocks done pend fs \<Longrightarrow> length (filter_offsets b) = length done"
  by (auto simp: pending_def builder_state_def dest: list_all2_lengthD)

lemma StartBlock_loop_pending:
  assumes "pending b blocks done pend fs" and "length (concat (map snd blocks)) < 2 ^ 31" and "length done \<le> i"
  shows "\<exists>done' pend' fs'. pending (StartBlock_loop CreateFilter i b) blocks done' pend' fs' \<and> length done' = i"
  using assms
proof (induction "i - length done" arbitrary: b "done" pend fs)
  case 0
  then show ?case
    using pending_length [OF 0(2)] by (subst StartBlock_loop.simps) auto
next
  case (Suc n)
  obtain f where f: "pending (GenerateFilter CreateFilter b) blocks (done @ [pend]) [] (fs @ [f])"
    using pending_generate [OF Suc(3,4)] by blast
  have "\<exists>done' pend' fs'. pending (StartBlock_loop CreateFilter i (GenerateFilter CreateFilter b)) blocks done' pend' fs' \<and> length done' = i"
    by (rule Suc(1) [OF _ f Suc(4)]) (use Suc(2,5) in auto)
  moreover have "i > length (filter_offsets b)"
    using pending_length [OF Suc(3)] Suc(2) by linarith
  ultimately show ?case
    by (subst StartBlock_loop.simps) simp
qed

lemma FilterBlock_adds_pending:
  assumes "pending b blocks done pend fs" and "length (concat (map snd (blocks @ new))) < 2 ^ 31"
    and "list_all (\<lambda>blk. list_all valid (snd blk)) new"
    and "sorted_wrt (\<lambda>x y. fst x \<le> fst y) new" and "list_all (\<lambda>blk. length done \<le> filter_index (fst blk)) new"
  shows "\<exists>b' done' pend' fs'. FilterBlock_adds CreateFilter new b = Some b' \<and> pending b' (blocks @ new) done' pend' fs'"
  using assms
proof (induction new arbitrary: b blocks "done" pend fs)
  case (Cons blk new)
  obtain off ks where blk: "blk = (off, ks)"
    by (cases blk)
  have "length (concat (map snd blocks)) < 2 ^ 31" "length done \<le> filter_index off"
    using Cons.prems(2,5) by (simp_all add: blk)
  from StartBlock_loop_pending [OF Cons.prems(1) this] obtain done' pend' fs' where
    loop: "pending (StartBlock_loop CreateFilter (filter_index off) b) blocks done' pend' fs'" "length done' = filter_index off"
    by blast
  let ?b = "fold AddKey ks (StartBlock_loop CreateFilter (filter_index off) b)"
  have start: "FilterBlock_adds CreateFilter (blk # new) b = FilterBlock_adds CreateFilter new ?b"
    using \<open>length done \<le> filter_index off\<close> pending_length [OF Cons.prems(1)]
    by (simp add: blk StartBlock_def filter_index_def Let_def)
  have "pending ?b (blocks @ [blk]) done' (pend' @ ks) fs'"
    using loop builder_state_AddKeys [of KeyMayMatch _ done' pend' fs' ks] Cons.prems(3) covered_append
    by (auto simp: pending_def blk list_all_iff covered_def [of _ _ "(off, ks)"])
  moreover have "list_all (\<lambda>blk. length done' \<le> filter_index (fst blk)) new"
    using Cons.prems(4) loop(2) by (auto simp: list_all_iff blk filter_index_def word_le_nat_alt intro: div_le_mono)
  ultimately show ?case
    using Cons.IH [of ?b "blocks @ [blk]" done' "pend' @ ks" fs'] Cons.prems by (simp add: start)
qed auto

lemma Finish_pending:
  assumes "pending b blocks done pend fs" and "length (concat (map snd blocks)) < 2 ^ 31"
  shows "\<exists>b' done' fs'. FilterBlock_Finish CreateFilter b = FilterBlock_Finish CreateFilter b' \<and> pending b' blocks done' [] fs'"
proof (cases "pend = []")
  case False
  then have "fb_start b \<noteq> []"
    using assms(1) by (simp add: pending_def builder_state_def)
  then have "FilterBlock_Finish CreateFilter b = FilterBlock_Finish CreateFilter (GenerateFilter CreateFilter b)"
    by (simp add: FilterBlock_Finish_def GenerateFilter_def Let_def)
  then show ?thesis
    using pending_generate [OF assms] by blast
qed (use assms(1) in blast)

end

section \<open>Reading the block\<close>

lemma GenerateFilter_start: "fb_start (GenerateFilter create b) = []"
  by (simp add: GenerateFilter_def Let_def)

lemma FilterBlock_Finish_bytes:
  assumes "builder_state m b done pend fs" and "pend = []"
  shows "fst (FilterBlock_Finish create b) =
    concat fs @ concat (map EncodeFixed32 (map (\<lambda>i. word_of_nat (starts_of fs i)) [0..<Suc (length fs)])) @ [11]"
  using assms unfolding FilterBlock_Finish_def builder_state_def Let_def fold_PutFixed32
  by (simp add: PutFixed32_def starts_of_length kFilterBaseLg_def o_def)

lemma reader_of_filters:
  assumes c: "c = concat fs @ concat (map EncodeFixed32 (map (\<lambda>i. word_of_nat (starts_of fs i)) [0..<Suc (length fs)])) @ [11]"
    and small: "length c < 2 ^ 32" and i: "i < length fs" and idx: "filter_index off = i"
  shows "FilterBlock_KeyMayMatch m (FilterBlockReader_new c) off k = Some (m k (fs ! i))"
proof -
  let ?ws = "map (\<lambda>i. word_of_nat (starts_of fs i) :: u32) [0..<Suc (length fs)]"
  have len: "length c = length (concat fs) + 4 * length fs + 5"
    unfolding c by (simp add: length_concat sum_list_triv o_def)
  have at: "DecodeFixed32 (drop (length (concat fs) + j * 4) c) = Some (?ws ! j)" if "j < length ?ws" for j
  proof -
    have "drop (length (concat fs) + j * 4) c = drop (j * 4) (concat (map EncodeFixed32 ?ws)) @ drop (j * 4 - length (concat (map EncodeFixed32 ?ws))) [11]"
      unfolding c by (simp only: drop_append) simp
    also have "\<dots> = EncodeFixed32 (?ws ! j) @ concat (map EncodeFixed32 (drop (Suc j) ?ws)) @ drop (j * 4 - length (concat (map EncodeFixed32 ?ws))) [11]"
      using nth_concat_fixed [OF that] by simp
    finally show ?thesis
      by simp
  qed
  have unat: "unat (?ws ! j) = starts_of fs j" if "j \<le> length fs" for j
  proof -
    have "starts_of fs j < 2 ^ 32"
      using starts_of_mono [OF that, of fs] starts_of_length [of fs] len small by simp
    then show ?thesis
      using that by (simp add: unsigned_of_nat take_bit_nat_eq_self del: upt_Suc)
  qed
  have "drop (length c - 5) c = drop (length (concat fs) + length fs * 4) c"
    using len by (simp add: mult.commute)
  then have last: "unat (the (DecodeFixed32 (drop (length c - 5) c))) = length (concat fs)"
    using at [of "length fs"] unat [of "length fs"] by (simp add: starts_of_length)
  have "last c = 11" "c \<noteq> []"
    unfolding c by simp_all
  then have "c ! (length c - 1) = 11"
    by (simp add: last_conv_nth)
  then have r: "FilterBlockReader_new c = \<lparr>fr_data = c, fr_offset = length (concat fs), fr_num = length fs, base_lg = 11\<rparr>"
    using len last by (simp add: FilterBlockReader_new_def Let_def)
  have index: "unat (drop_bit 11 off) = i"
    using idx by (simp add: filter_index_def kFilterBase_def kFilterBaseLg_def unat_drop_bit)
  have le: "?ws ! i \<le> ?ws ! Suc i"
    using unat [of i] unat [of "Suc i"] i starts_of_mono [of i "Suc i" fs] by (simp add: word_le_nat_alt del: upt_Suc)
  have bound: "unat (?ws ! Suc i) \<le> length (concat fs)"
    using unat [of "Suc i"] i starts_of_mono [of "Suc i" "length fs" fs] starts_of_length [of fs] by (simp del: upt_Suc)
  have "take (unat (?ws ! Suc i) - unat (?ws ! i)) (drop (unat (?ws ! i)) c) = fs ! i"
    using slice_of_concat [OF i, of "concat (map EncodeFixed32 ?ws) @ [11]"] unat [of i] unat [of "Suc i"] i c by (simp del: upt_Suc)
  moreover have "DecodeFixed32 (drop (length (concat fs) + i * 4 + 4) c) = Some (?ws ! Suc i)"
    using at [of "Suc i"] i by (simp add: add.commute add.left_commute del: upt_Suc)
  moreover have "unat (11 :: u64) = 11"
    by simp
  ultimately show ?thesis
    using at [of i] i le bound index len by (simp add: FilterBlock_KeyMayMatch_def r del: upt_Suc)
qed

text \<open>C22. A filter block has no false negatives: when a table builder starts data blocks at
  increasing offsets and adds their keys, the assertion of \<open>StartBlock\<close> holds, and in the finished
  block, read back, every key of a data block may match at the offset of that block.  This holds
  for every filter policy, fewer than \<open>2^31\<close> keys and a finished block of less than \<open>2^32\<close> bytes.\<close>

theorem filter_block_complete:
  assumes "filter_policy CreateFilter KeyMayMatch valid"
    and "sorted_wrt (\<lambda>x y. fst x \<le> fst y) blocks" and "list_all (\<lambda>blk. list_all valid (snd blk)) blocks"
    and "length (concat (map snd blocks)) < 2 ^ 31"
  shows "\<exists>b. FilterBlock_adds CreateFilter blocks FilterBlockBuilder_new = Some b \<and>
    (length (fst (FilterBlock_Finish CreateFilter b)) < 2 ^ 32 \<longrightarrow>
      (\<forall>(off, ks) \<in> set blocks. \<forall>k \<in> set ks.
        FilterBlock_KeyMayMatch KeyMayMatch (FilterBlockReader_new (fst (FilterBlock_Finish CreateFilter b))) off k = Some True))"
proof -
  note policy = assms(1)
  have "filter_policy.pending KeyMayMatch valid FilterBlockBuilder_new [] [] [] []"
    by (simp add: filter_policy.pending_def [OF policy] builder_state_new)
  from filter_policy.FilterBlock_adds_pending [OF policy this, of blocks] assms(2-4) obtain b d p fs where
    b: "FilterBlock_adds CreateFilter blocks FilterBlockBuilder_new = Some b" "filter_policy.pending KeyMayMatch valid b blocks d p fs"
    by (auto simp: list_all_iff)
  obtain b' d' fs' where fin: "FilterBlock_Finish CreateFilter b = FilterBlock_Finish CreateFilter b'"
    "filter_policy.pending KeyMayMatch valid b' blocks d' [] fs'"
    using filter_policy.Finish_pending [OF policy b(2) assms(4)] by blast
  let ?c = "fst (FilterBlock_Finish CreateFilter b')"
  have st: "builder_state KeyMayMatch b' d' [] fs'" "list_all (covered d' []) blocks"
    using fin(2) by (simp_all add: filter_policy.pending_def [OF policy])
  have "FilterBlock_KeyMayMatch KeyMayMatch (FilterBlockReader_new ?c) off k = Some True"
    if small: "length ?c < 2 ^ 32" and blk: "(off, ks) \<in> set blocks" and k: "k \<in> set ks" for off ks k
  proof -
    let ?i = "filter_index off"
    have i: "?i < length d'" "k \<in> set (d' ! ?i)"
      using st(2) blk k by (auto simp: list_all_iff covered_def Let_def dest!: bspec)
    then have "?i < length fs'" "KeyMayMatch k (fs' ! ?i)"
      using st(1) by (auto simp: builder_state_def list_all2_conv_all_nth)
    with reader_of_filters [OF FilterBlock_Finish_bytes [OF st(1) refl] small] show ?thesis
      by simp
  qed
  with b(1) fin(1) show ?thesis
    by auto
qed

lemma length_Bloom_CreateFilter:
  "length (Bloom_CreateFilter p keys dst) = length dst + (max 64 (length keys * bits_per_key p) + 7) div 8 + 1"
  by (simp add: Bloom_CreateFilter_def Let_def max_def)

theorem filter_block_complete_witness:
  "\<exists>b. FilterBlock_adds (Bloom_CreateFilter (BloomFilterPolicy_new 10)) [(0, [str ''a'']), (5000, [str ''b'', str ''c''])]
      FilterBlockBuilder_new = Some b \<and>
    FilterBlock_KeyMayMatch Bloom_KeyMayMatch
      (FilterBlockReader_new (fst (FilterBlock_Finish (Bloom_CreateFilter (BloomFilterPolicy_new 10)) b))) 5000 (str ''c'') = Some True"
proof -
  let ?create = "Bloom_CreateFilter (BloomFilterPolicy_new 10)" and ?blocks = "[(0, [str ''a'']), (5000, [str ''b'', str ''c''])]"
  obtain b where b: "FilterBlock_adds ?create ?blocks FilterBlockBuilder_new = Some b"
    "length (fst (FilterBlock_Finish ?create b)) < 2 ^ 32 \<longrightarrow> (\<forall>(off, ks) \<in> set ?blocks. \<forall>k \<in> set ks.
        FilterBlock_KeyMayMatch Bloom_KeyMayMatch (FilterBlockReader_new (fst (FilterBlock_Finish ?create b))) off k = Some True)"
    using filter_block_complete [OF bloom.filter_policy_axioms, of ?blocks 10] by (auto simp: list_all_iff)
  have "map_option (\<lambda>b. length (fst (FilterBlock_Finish ?create b)) < 2 ^ 32)
      (FilterBlock_adds ?create ?blocks FilterBlockBuilder_new) = Some True"
    by (simp add: StartBlock_def kFilterBase_def kFilterBaseLg_def StartBlock_loop.simps GenerateFilter_def AddKey_def
        FilterBlockBuilder_new_def FilterBlock_Finish_def PutFixed32_def length_Bloom_CreateFilter Let_def BloomFilterPolicy_new_def)
  with b show ?thesis
    by simp
qed

text \<open>The array of offsets that the last word of the contents announces, if there is one: its start and the number of
  filters.\<close>

definition offset_array :: "bytes \<Rightarrow> (nat \<times> nat) option" where
  "offset_array c =
     (case DecodeFixed32 (drop (length c - 5) c) of
        Some w \<Rightarrow> if 5 \<le> length c \<and> unat w \<le> length c - 5 then Some (unat w, (length c - 5 - unat w) div 4) else None
      | None \<Rightarrow> None)"

text \<open>The filters of a block hide a key: the slice of its filter lies before the array and the policy rejects the
  key, or the slice is empty and lies behind the start of the array.\<close>

definition hides :: "(bytes \<Rightarrow> bytes \<Rightarrow> bool) \<Rightarrow> bytes \<Rightarrow> nat \<Rightarrow> bytes \<Rightarrow> bool" where
  "hides m c index k \<longleftrightarrow>
     (\<exists>start num lo hi. offset_array c = Some (start, num) \<and> index < num \<and>
        DecodeFixed32 (drop (start + index * 4) c) = Some lo \<and> DecodeFixed32 (drop (start + index * 4 + 4) c) = Some hi \<and>
        (unat lo \<le> unat hi \<and> unat hi \<le> start \<and> \<not> m k (take (unat hi - unat lo) (drop (unat lo) c)) \<or> lo = hi \<and> start < unat hi))"

lemma Decode_inside: "p + 4 \<le> length c \<Longrightarrow> \<exists>w. DecodeFixed32 (drop p c) = Some w"
  by (simp add: DecodeFixed32_def DecodeFixed32_host_le_word)

lemma FilterBlockReader_new_array:
  "FilterBlockReader_new c =
     (case offset_array c of
        Some (start, num) \<Rightarrow> \<lparr>fr_data = c, fr_offset = start, fr_num = num, base_lg = scast (c ! (length c - 1))\<rparr>
      | None \<Rightarrow> \<lparr>fr_data = [], fr_offset = 0, fr_num = 0, base_lg = (if length c < 5 then 0 else scast (c ! (length c - 1)))\<rparr>)"
proof (cases "length c < 5")
  case True
  then show ?thesis
    by (simp add: FilterBlockReader_new_def offset_array_def Let_def split: option.splits)
next
  case False
  then obtain w where "DecodeFixed32 (drop (length c - 5) c) = Some w"
    using Decode_inside [of "length c - 5" c] by auto
  with False show ?thesis
    by (simp add: FilterBlockReader_new_def offset_array_def Let_def)
qed

lemma KeyMayMatch_array:
  assumes array: "offset_array c = Some (start, num)" and lg: "lg = (scast (c ! (length c - 1)) :: u64)" and shift: "unat lg < 64"
    and index: "index = unat (drop_bit (unat lg) off)"
  shows "FilterBlock_KeyMayMatch m (FilterBlockReader_new c) off k = Some (\<not> hides m c index k)"
proof (cases "index < num")
  case True
  have r: "FilterBlockReader_new c = \<lparr>fr_data = c, fr_offset = start, fr_num = num, base_lg = lg\<rparr>"
    by (simp add: FilterBlockReader_new_array array lg)
  have inside: "start + index * 4 + 8 \<le> length c" "start \<le> length c"
    using array True by (auto simp: offset_array_def split: option.splits if_splits)
  obtain lo hi where w: "DecodeFixed32 (drop (start + index * 4) c) = Some lo"
    "DecodeFixed32 (drop (start + index * 4 + 4) c) = Some hi"
    using Decode_inside [of "start + index * 4" c] Decode_inside [of "start + index * 4 + 4" c] inside by auto
  have "hides m c index k \<longleftrightarrow> unat lo \<le> unat hi \<and> unat hi \<le> start \<and> \<not> m k (take (unat hi - unat lo) (drop (unat lo) c)) \<or>
      lo = hi \<and> start < unat hi"
    using array True w by (simp add: hides_def)
  then show ?thesis
    using shift True w inside(2) unfolding r FilterBlock_KeyMayMatch_def
    by (auto simp: index [symmetric] word_le_nat_alt)
next
  case False
  then show ?thesis
    using shift array by (simp add: FilterBlock_KeyMayMatch_def FilterBlockReader_new_array index hides_def lg)
qed

text \<open>C32. Reading a filter block with any contents.  Nothing outside the contents is accessed, by the reader or by the
  policy, unless the stored shift is 64 or more, which is not checked.  A key is answered not to match exactly when
  the array of offsets is inside the contents, has an entry for the block, and either the policy rejects the key
  on the slice, which lies before the array, or the two offsets are equal and point behind the start of the array.  All other
  damage, such as a block that is too short, an array outside the contents or offsets in the wrong order, is a potential
  match.\<close>

theorem filter_reader_safe:
  "(FilterBlock_KeyMayMatch m (FilterBlockReader_new c) off k = None \<longleftrightarrow>
      length c \<ge> 5 \<and> unat (scast (c ! (length c - 1)) :: u64) \<ge> 64) \<and>
   (FilterBlock_KeyMayMatch m (FilterBlockReader_new c) off k = Some False \<longleftrightarrow>
      length c \<ge> 5 \<and> unat (scast (c ! (length c - 1)) :: u64) < 64 \<and>
      hides m c (unat (drop_bit (unat (scast (c ! (length c - 1)) :: u64)) off)) k)"
proof (cases "offset_array c")
  case None
  then show ?thesis
    by (simp add: FilterBlock_KeyMayMatch_def FilterBlockReader_new_array hides_def not_less not_le)
next
  case (Some a)
  obtain start num where a: "offset_array c = Some (start, num)"
    using Some by (cases a) simp
  have len: "length c \<ge> 5"
    using a by (auto simp: offset_array_def split: option.splits if_splits)
  show ?thesis
  proof (cases "unat (scast (c ! (length c - 1)) :: u64) < 64")
    case True
    then show ?thesis
      using KeyMayMatch_array [OF a refl True refl, of m off k] len by simp
  next
    case False
    then show ?thesis
      using len by (simp add: FilterBlock_KeyMayMatch_def FilterBlockReader_new_array a)
  qed
qed

theorem filter_reader_safe_witness:
  "FilterBlock_KeyMayMatch Bloom_KeyMayMatch (FilterBlockReader_new [1, 2, 3]) 0 (str ''k'') \<notin> {None, Some False} \<and>
   FilterBlock_KeyMayMatch Bloom_KeyMayMatch (FilterBlockReader_new [0, 0, 0, 0, 200]) 0 (str ''k'') = None"
  using filter_reader_safe [of Bloom_KeyMayMatch "[1, 2, 3]" 0 "str ''k''"]
    filter_reader_safe [of Bloom_KeyMayMatch "[0, 0, 0, 0, 200]" 0 "str ''k''"] by simp

text \<open>Two equal offsets behind the array hide every key, whatever the policy.\<close>

lemma damaged_offsets_hide:
  "FilterBlock_KeyMayMatch (\<lambda>_ _. True) (FilterBlockReader_new (EncodeFixed32 9 @ EncodeFixed32 9 @ EncodeFixed32 0 @ [0])) 0 k = Some False"
proof -
  let ?c = "EncodeFixed32 9 @ EncodeFixed32 9 @ EncodeFixed32 0 @ [0]"
  have array: "offset_array ?c = Some (0, 2)"
    by (simp add: offset_array_def)
  have "hides (\<lambda>_ _. True) ?c 0 k"
    by (simp add: hides_def array)
  then show ?thesis
    using KeyMayMatch_array [OF array refl, where off = 0 and index = 0 and m = "\<lambda>_ _. True" and k = k]
    by (simp add: nth_append)
qed

end
