(* ===== verification/Env_Files.thy ===== *)
theory Env_Files
  imports Env
begin

text \<open>
  The file operations of the \<open>Env\<close> interface (\<^verbatim>\<open>include/leveldb/env.h\<close>) and the helpers of
  \<^verbatim>\<open>util/env.cpp\<close> that write and read whole files.

  An environment is a record of its operations on the state \<open>'o\<close> of the system, \<open>'f\<close> being its
  writable and \<open>'s\<close> its sequential file objects.  An operation that does not return is \<^const>\<open>None\<close>.
  What is relied on is the locale \<open>env_fs\<close>: every operation may fail at any time, and touches only
  the file it is about.
\<close>

section \<open>The interface\<close>

record ('f, 's, 'o) env =
  env_NewWritableFile :: "bytes \<Rightarrow> 'o \<Rightarrow> Status \<times> 'f option \<times> 'o"
  env_NewSequentialFile :: "bytes \<Rightarrow> 'o \<Rightarrow> Status \<times> 's option \<times> 'o"
  env_DeleteFile :: "bytes \<Rightarrow> 'o \<Rightarrow> Status \<times> 'o"
  env_RenameFile :: "bytes \<Rightarrow> bytes \<Rightarrow> 'o \<Rightarrow> Status \<times> 'o"
  file_Append :: "'f \<Rightarrow> bytes \<Rightarrow> 'o \<Rightarrow> (Status \<times> 'f \<times> 'o) option"
  file_Sync :: "'f \<Rightarrow> 'o \<Rightarrow> (Status \<times> 'f \<times> 'o) option"
  file_Close :: "'f \<Rightarrow> 'o \<Rightarrow> (Status \<times> 'f \<times> 'o) option"
  file_delete :: "'f \<Rightarrow> 'o \<Rightarrow> 'o option"
  file_Read :: "'s \<Rightarrow> nat \<Rightarrow> 'o \<Rightarrow> (Status \<times> bytes \<times> 's \<times> 'o) option"
  sequential_delete :: "'s \<Rightarrow> 'o \<Rightarrow> 'o"

text \<open>The default of \<open>Env::NewAppendableFile\<close>.\<close>

definition Env_NewAppendableFile :: "bytes \<Rightarrow> Status" where
  "Env_NewAppendableFile fname = NotSupported (str ''NewAppendableFile'') fname"

section \<open>Writing and reading whole files\<close>

definition DoWriteStringToFile ::
  "('f, 's, 'o) env \<Rightarrow> bytes \<Rightarrow> bytes \<Rightarrow> bool \<Rightarrow> 'o \<Rightarrow> (Status \<times> 'o) option" where
  "DoWriteStringToFile env data fname should_sync st =
     (case env_NewWritableFile env fname st of
        (s, None, st) \<Rightarrow> if \<not> ok s then Some (s, st) else None
      | (s, Some file, st) \<Rightarrow>
          if \<not> ok s then Some (s, st)
          else
            Option.bind (file_Append env file data st) (\<lambda>(s, file, st).
            Option.bind (if ok s \<and> should_sync then file_Sync env file st else Some (s, file, st)) (\<lambda>(s, file, st).
            Option.bind (if ok s then file_Close env file st else Some (s, file, st)) (\<lambda>(s, file, st).
            Option.bind (file_delete env file st) (\<lambda>st.
              Some (s, if \<not> ok s then snd (env_DeleteFile env fname st) else st))))))"

definition WriteStringToFile :: "('f, 's, 'o) env \<Rightarrow> bytes \<Rightarrow> bytes \<Rightarrow> 'o \<Rightarrow> (Status \<times> 'o) option" where
  "WriteStringToFile env data fname st = DoWriteStringToFile env data fname False st"

definition WriteStringToFileSync :: "('f, 's, 'o) env \<Rightarrow> bytes \<Rightarrow> bytes \<Rightarrow> 'o \<Rightarrow> (Status \<times> 'o) option" where
  "WriteStringToFileSync env data fname st = DoWriteStringToFile env data fname True st"

definition kBufferSize :: nat where
  "kBufferSize = 8192"

partial_function (option) ReadFileToString_loop ::
  "('f, 's, 'o) env \<Rightarrow> 's \<Rightarrow> bytes \<Rightarrow> 'o \<Rightarrow> (Status \<times> bytes \<times> 's \<times> 'o) option" where
  [code]: "ReadFileToString_loop env file data st =
     (case file_Read env file kBufferSize st of
        None \<Rightarrow> None
      | Some (s, fragment, file, st) \<Rightarrow>
          if \<not> ok s then Some (s, data, file, st)
          else if fragment = [] then Some (s, data @ fragment, file, st)
          else ReadFileToString_loop env file (data @ fragment) st)"

definition ReadFileToString :: "('f, 's, 'o) env \<Rightarrow> bytes \<Rightarrow> 'o \<Rightarrow> (Status \<times> bytes \<times> 'o) option" where
  "ReadFileToString env fname st =
     (case env_NewSequentialFile env fname st of
        (s, None, st) \<Rightarrow> if \<not> ok s then Some (s, [], st) else None
      | (s, Some file, st) \<Rightarrow>
          if \<not> ok s then Some (s, [], st)
          else
            (case ReadFileToString_loop env file [] st of
               None \<Rightarrow> None
             | Some (s, data, file, st) \<Rightarrow> Some (s, data, sequential_delete env file st)))"

section \<open>The contract\<close>

text \<open>
  \<open>fs st\<close> maps the names of the files to their contents.  \<open>opened f st name\<close>: the object writes the
  file \<open>name\<close>; \<open>wrote f st name data\<close>: and what has been written to it, buffered or not, is \<open>data\<close>;
  \<open>closed f\<close>: it has been closed.
\<close>

definition same_except :: "bytes set \<Rightarrow> (bytes \<Rightarrow> bytes option) \<Rightarrow> (bytes \<Rightarrow> bytes option) \<Rightarrow> bool" where
  "same_except names fs fs' \<longleftrightarrow> (\<forall>n. n \<notin> names \<longrightarrow> fs' n = fs n)"

lemma same_except_refl [simp]: "same_except names fs fs"
  by (simp add: same_except_def)

lemma same_except_trans [trans]: "same_except names fs fs' \<Longrightarrow> same_except names fs' fs'' \<Longrightarrow> same_except names fs fs''"
  by (simp add: same_except_def)

locale env_fs =
  fixes env :: "('f, 's, 'o) env" and fs :: "'o \<Rightarrow> bytes \<Rightarrow> bytes option"
    and opened :: "'f \<Rightarrow> 'o \<Rightarrow> bytes \<Rightarrow> bool" and wrote :: "'f \<Rightarrow> 'o \<Rightarrow> bytes \<Rightarrow> bytes \<Rightarrow> bool" and closed :: "'f \<Rightarrow> bool"
  assumes new: "env_NewWritableFile env name st = (s, r, st') \<Longrightarrow>
      same_except {name} (fs st) (fs st') \<and> (ok s \<longrightarrow> (\<exists>f. r = Some f \<and> wrote f st' name []))"
    and wrote_opened: "wrote f st name data \<Longrightarrow> opened f st name"
    and append: "wrote f st name data \<Longrightarrow> file_Append env f d st = Some (s, f', st') \<Longrightarrow>
      same_except {name} (fs st) (fs st') \<and> opened f' st' name \<and> (ok s \<longrightarrow> wrote f' st' name (data @ d))"
    and sync: "wrote f st name data \<Longrightarrow> file_Sync env f st = Some (s, f', st') \<Longrightarrow>
      same_except {name} (fs st) (fs st') \<and> opened f' st' name \<and> (ok s \<longrightarrow> wrote f' st' name data \<and> fs st' name = Some data)"
    and close: "wrote f st name data \<Longrightarrow> file_Close env f st = Some (s, f', st') \<Longrightarrow>
      same_except {name} (fs st) (fs st') \<and> opened f' st' name \<and> (ok s \<longrightarrow> closed f' \<and> fs st' name = Some data)"
    and delete: "opened f st name \<Longrightarrow> file_delete env f st = Some st' \<Longrightarrow>
      same_except {name} (fs st) (fs st') \<and> (closed f \<longrightarrow> st' = st)"
    and delete_file: "env_DeleteFile env name st = (s, st') \<Longrightarrow> same_except {name} (fs st) (fs st')"
    and rename_file: "env_RenameFile env src dst st = (s, st') \<Longrightarrow>
      (if ok s then fs st' = (fs st)(src := None, dst := fs st src) else fs st' = fs st)"
begin

text \<open>A file written as a whole has exactly these contents when the call succeeds, and no other file is touched.\<close>

lemma DoWriteStringToFile_fs:
  assumes "DoWriteStringToFile env data fname should_sync st = Some (s, st')"
  shows "same_except {fname} (fs st) (fs st') \<and> (ok s \<longrightarrow> fs st' fname = Some data)"
proof -
  obtain s0 r st0 where new0: "env_NewWritableFile env fname st = (s0, r, st0)"
    by (cases "env_NewWritableFile env fname st") auto
  note n = new [OF new0]
  show ?thesis
  proof (cases "ok s0")
    case False
    then show ?thesis
      using n assms new0 by (auto simp: DoWriteStringToFile_def split: option.splits)
  next
    case True
    then obtain f0 where f0: "r = Some f0" "wrote f0 st0 fname []"
      using n by blast
    obtain s1 f1 st1 where 1: "file_Append env f0 data st0 = Some (s1, f1, st1)"
      using assms True new0 f0(1) by (auto simp: DoWriteStringToFile_def bind_eq_Some_conv)
    note a = append [OF f0(2) 1]
    obtain s2 f2 st2 where 2: "(if ok s1 \<and> should_sync then file_Sync env f1 st1 else Some (s1, f1, st1)) = Some (s2, f2, st2)"
      using assms True new0 f0(1) 1 by (auto simp: DoWriteStringToFile_def bind_eq_Some_conv)
    have s: "same_except {fname} (fs st1) (fs st2) \<and> opened f2 st2 fname \<and> (ok s2 \<longrightarrow> wrote f2 st2 fname data)"
      using 2 a sync [of f1 st1 fname data s2 f2 st2] by (auto split: if_splits)
    obtain s3 f3 st3 where 3: "(if ok s2 then file_Close env f2 st2 else Some (s2, f2, st2)) = Some (s3, f3, st3)"
      using assms True new0 f0(1) 1 2 by (auto simp: DoWriteStringToFile_def bind_eq_Some_conv)
    have c: "same_except {fname} (fs st2) (fs st3) \<and> opened f3 st3 fname \<and> (ok s3 \<longrightarrow> closed f3 \<and> fs st3 fname = Some data)"
      using 3 s close [of f2 st2 fname data s3 f3 st3] by (auto split: if_splits)
    obtain st4 where 4: "file_delete env f3 st3 = Some st4" and
      res: "s = s3" "st' = (if \<not> ok s3 then snd (env_DeleteFile env fname st4) else st4)"
      using assms True new0 f0(1) 1 2 3 by (auto simp: DoWriteStringToFile_def bind_eq_Some_conv)
    have d: "same_except {fname} (fs st3) (fs st4) \<and> (closed f3 \<longrightarrow> st4 = st3)"
      using delete [of f3 st3 fname st4] c 4 by blast
    have "same_except {fname} (fs st4) (fs st')"
      using res(2) delete_file [of fname st4 "fst (env_DeleteFile env fname st4)" "snd (env_DeleteFile env fname st4)"] by simp
    then have "same_except {fname} (fs st) (fs st')"
      using n a s c d by (meson same_except_trans)
    moreover have "ok s \<longrightarrow> fs st' fname = Some data"
      using res c d by auto
    ultimately show ?thesis
      by blast
  qed
qed

end

text \<open>
  Reading: \<open>reading f st rest\<close> says that the unread part of the file is \<open>rest\<close>.
\<close>

locale env_read =
  fixes env :: "('f, 's, 'o) env" and fs :: "'o \<Rightarrow> bytes \<Rightarrow> bytes option" and reading :: "'s \<Rightarrow> 'o \<Rightarrow> bytes \<Rightarrow> bool"
  assumes new_seq: "env_NewSequentialFile env name st = (s, r, st') \<Longrightarrow> ok s \<Longrightarrow>
      \<exists>f data. r = Some f \<and> fs st name = Some data \<and> reading f st' data"
    and read: "reading f st rest \<Longrightarrow> \<exists>s fragment f' st'. file_Read env f n st = Some (s, fragment, f', st') \<and>
      (ok s \<longrightarrow> fragment = take n rest \<and> reading f' st' (drop n rest))"
    and no_file: "env_NewSequentialFile env name st = (s, None, st') \<Longrightarrow> \<not> ok s"
begin

lemma ReadFileToString_loop_data:
  assumes "reading f st rest"
  shows "\<exists>s out f' st'. ReadFileToString_loop env f data st = Some (s, out, f', st') \<and> (ok s \<longrightarrow> out = data @ rest)"
  using assms
proof (induction "length rest" arbitrary: f st rest data rule: less_induct)
  case less
  obtain s fragment f' st' where r: "file_Read env f kBufferSize st = Some (s, fragment, f', st')"
    "ok s \<Longrightarrow> fragment = take kBufferSize rest \<and> reading f' st' (drop kBufferSize rest)"
    using read [OF less.prems, of kBufferSize] by blast
  show ?case
  proof (cases "ok s \<and> fragment \<noteq> []")
    case True
    then have "length (drop kBufferSize rest) < length rest" "reading f' st' (drop kBufferSize rest)" "fragment = take kBufferSize rest"
      using r(2) by (auto simp: kBufferSize_def)
    from less.hyps [OF this(1,2), of "data @ fragment"] this(3) show ?thesis
      using r True by (subst ReadFileToString_loop.simps) auto
  next
    case False
    then show ?thesis
      using r by (subst ReadFileToString_loop.simps) (auto simp: kBufferSize_def)
  qed
qed

text \<open>Reading always returns, and what it returns with success is the contents of the file.\<close>

lemma ReadFileToString_fs:
  "\<exists>s data st'. ReadFileToString env fname st = Some (s, data, st') \<and> (ok s \<longrightarrow> fs st fname = Some data)"
proof -
  obtain s0 r st0 where new0: "env_NewSequentialFile env fname st = (s0, r, st0)"
    by (cases "env_NewSequentialFile env fname st") auto
  show ?thesis
  proof (cases "ok s0")
    case True
    obtain f data where f: "r = Some f" "fs st fname = Some data" "reading f st0 data"
      using new_seq [OF new0 True] by blast
    obtain s out f' st' where "ReadFileToString_loop env f [] st0 = Some (s, out, f', st')" "ok s \<longrightarrow> out = data"
      using ReadFileToString_loop_data [OF f(3), of "[]"] by auto
    then show ?thesis
      using True new0 f by (auto simp: ReadFileToString_def)
  qed (use new0 in \<open>auto simp: ReadFileToString_def split: option.splits\<close>)
qed

end

end
