(* ===== verification/Posix_Env.thy ===== *)
theory Posix_Env
  imports Posix_Files Env_Files Logging
begin

text \<open>
  \<open>PosixEnv\<close> of \<^verbatim>\<open>util/env_posix.cpp\<close>: opening, removing and renaming files, the lock table, and the
  queue of the background thread.

  The system calls that are not about open files extend the record of \<open>Posix_Files\<close>.  Calls that
  change nothing yield their result only.
\<close>

section \<open>More system calls\<close>

record 'o posix_env =
  calls :: "'o posix"
  sys_access :: "bytes \<Rightarrow> 'o \<Rightarrow> bool"
  sys_opendir :: "bytes \<Rightarrow> 'o \<Rightarrow> (errno + int) \<times> 'o"
  sys_readdir :: "int \<Rightarrow> 'o \<Rightarrow> bytes option \<times> 'o"
  sys_closedir :: "int \<Rightarrow> 'o \<Rightarrow> 'o"
  sys_unlink :: "bytes \<Rightarrow> 'o \<Rightarrow> (errno + unit) \<times> 'o"
  sys_mkdir :: "bytes \<Rightarrow> 'o \<Rightarrow> (errno + unit) \<times> 'o"
  sys_rmdir :: "bytes \<Rightarrow> 'o \<Rightarrow> (errno + unit) \<times> 'o"
  sys_stat :: "bytes \<Rightarrow> 'o \<Rightarrow> errno + u64"
  sys_rename :: "bytes \<Rightarrow> bytes \<Rightarrow> 'o \<Rightarrow> (errno + unit) \<times> 'o"
  sys_mmap :: "int \<Rightarrow> u64 \<Rightarrow> 'o \<Rightarrow> (errno + bytes) \<times> 'o"
  sys_setlk :: "int \<Rightarrow> bool \<Rightarrow> 'o \<Rightarrow> (errno + unit) \<times> 'o"
  sys_fdopen :: "int \<Rightarrow> 'o \<Rightarrow> (errno + int) \<times> 'o"
  sys_getenv :: "bytes \<Rightarrow> 'o \<Rightarrow> bytes option"
  sys_geteuid :: "'o \<Rightarrow> u32"
  sys_gettimeofday :: "'o \<Rightarrow> int \<times> int"

lemma ok_PosixError [simp]: "\<not> ok (PosixError os context e)"
  by (simp add: PosixError_def)

section \<open>The environment\<close>

text \<open>\<open>'w\<close> is the type of work items: a function and its argument.\<close>

record 'w PosixEnv =
  started_background_thread :: bool
  background_work_queue :: "'w list"
  locked_files :: "bytes set"
  mmap_limiter :: int
  fd_limiter :: int

text \<open>\<open>MaxOpenFiles\<close>: the global variable, and what \<open>getrlimit\<close> reports (\<open>None\<close> for a failure,
  \<open>Some None\<close> for no limit).  The quotient is converted to an \<open>int\<close>.\<close>

definition kDefaultMmapLimit :: int where
  "kDefaultMmapLimit = 1000"

definition MaxOpenFiles :: "int \<Rightarrow> u64 option option \<Rightarrow> int" where
  "MaxOpenFiles g_open_read_only_file_limit rlim =
     (if g_open_read_only_file_limit \<ge> 0 then g_open_read_only_file_limit
      else
        case rlim of
          None \<Rightarrow> 50
        | Some None \<Rightarrow> 2 ^ 31 - 1
        | Some (Some rlim_cur) \<Rightarrow> sint (ucast (rlim_cur div 5) :: 32 word))"

definition PosixEnv_new :: "int \<Rightarrow> int \<Rightarrow> u64 option option \<Rightarrow> 'w PosixEnv" where
  "PosixEnv_new g_mmap_limit g_open_read_only_file_limit rlim =
     \<lparr>started_background_thread = False, background_work_queue = [], locked_files = {},
      mmap_limiter = g_mmap_limit, fd_limiter = MaxOpenFiles g_open_read_only_file_limit rlim\<rparr>"

section \<open>Files\<close>

definition NewSequentialFile ::
  "'o posix_env \<Rightarrow> bytes \<Rightarrow> 'o \<Rightarrow> Status \<times> PosixSequentialFile option \<times> 'o" where
  "NewSequentialFile os filename st =
     (case sys_open (calls os) filename [O_RDONLY] st of
        (Inl e, st) \<Rightarrow> (PosixError (calls os) filename e, None, st)
      | (Inr fd, st) \<Rightarrow> (OK, Some \<lparr>seq_fd = fd, seq_filename = filename\<rparr>, st))"

definition GetFileSize :: "'o posix_env \<Rightarrow> bytes \<Rightarrow> 'o \<Rightarrow> Status \<times> u64" where
  "GetFileSize os filename st =
     (case sys_stat os filename st of
        Inl e \<Rightarrow> (PosixError (calls os) filename e, 0)
      | Inr sz \<Rightarrow> (OK, sz))"

datatype RandomAccessFile = Pread PosixRandomAccessFile | Mmapped PosixMmapReadableFile

definition NewRandomAccessFile ::
  "'o posix_env \<Rightarrow> bytes \<Rightarrow> 'w PosixEnv \<Rightarrow> 'o \<Rightarrow> Status \<times> RandomAccessFile option \<times> 'w PosixEnv \<times> 'o" where
  "NewRandomAccessFile os filename env st =
     (case sys_open (calls os) filename [O_RDONLY] st of
        (Inl e, st) \<Rightarrow> (PosixError (calls os) filename e, None, env, st)
      | (Inr fd, st) \<Rightarrow>
          let (acquired, allowed) = Acquire (mmap_limiter env);
              env = env\<lparr>mmap_limiter := allowed\<rparr>
          in if \<not> acquired then
               let (f, allowed, st) = PosixRandomAccessFile_new (calls os) filename fd (fd_limiter env) st
               in (OK, Some (Pread f), env\<lparr>fd_limiter := allowed\<rparr>, st)
             else
               let (status, file_size) = GetFileSize os filename st;
                   (status, result, st) =
                     (if ok status then
                        (case sys_mmap os fd file_size st of
                           (Inl e, st) \<Rightarrow> (PosixError (calls os) filename e, None, st)
                         | (Inr base, st) \<Rightarrow> (status, Some (Mmapped \<lparr>mmap_base = base, mmap_filename = filename\<rparr>), st))
                      else (status, None, st));
                   st = snd (sys_close (calls os) fd st)
               in (status, result,
                   if \<not> ok status then env\<lparr>mmap_limiter := Release (mmap_limiter env)\<rparr> else env, st))"

definition open_writable ::
  "open_flag list \<Rightarrow> 'o posix_env \<Rightarrow> bytes \<Rightarrow> 'o \<Rightarrow> Status \<times> PosixWritableFile option \<times> 'o" where
  "open_writable flags os filename st =
     (case sys_open (calls os) filename flags st of
        (Inl e, st) \<Rightarrow> (PosixError (calls os) filename e, None, st)
      | (Inr fd, st) \<Rightarrow> (OK, Some (PosixWritableFile_new filename fd), st))"

definition NewWritableFile :: "'o posix_env \<Rightarrow> bytes \<Rightarrow> 'o \<Rightarrow> Status \<times> PosixWritableFile option \<times> 'o" where
  "NewWritableFile = open_writable [O_TRUNC, O_WRONLY, O_CREAT]"

definition NewAppendableFile :: "'o posix_env \<Rightarrow> bytes \<Rightarrow> 'o \<Rightarrow> Status \<times> PosixWritableFile option \<times> 'o" where
  "NewAppendableFile = open_writable [O_APPEND, O_WRONLY, O_CREAT]"

definition FileExists :: "'o posix_env \<Rightarrow> bytes \<Rightarrow> 'o \<Rightarrow> bool" where
  "FileExists os filename st = sys_access os filename st"

partial_function (option) readdir_loop :: "'o posix_env \<Rightarrow> int \<Rightarrow> bytes list \<Rightarrow> 'o \<Rightarrow> (bytes list \<times> 'o) option" where
  [code]: "readdir_loop os dir result st =
     (case sys_readdir os dir st of
        (None, st) \<Rightarrow> Some (result, st)
      | (Some d_name, st) \<Rightarrow> readdir_loop os dir (result @ [d_name]) st)"

definition GetChildren :: "'o posix_env \<Rightarrow> bytes \<Rightarrow> 'o \<Rightarrow> (Status \<times> bytes list \<times> 'o) option" where
  "GetChildren os directory_path st =
     (case sys_opendir os directory_path st of
        (Inl e, st) \<Rightarrow> Some (PosixError (calls os) directory_path e, [], st)
      | (Inr dir, st) \<Rightarrow>
          map_option (\<lambda>(result, st). (OK, result, sys_closedir os dir st)) (readdir_loop os dir [] st))"

definition status_of :: "'o posix_env \<Rightarrow> bytes \<Rightarrow> (errno + unit) \<times> 'o \<Rightarrow> Status \<times> 'o" where
  "status_of os context r = (case r of (Inl e, st) \<Rightarrow> (PosixError (calls os) context e, st) | (Inr _, st) \<Rightarrow> (OK, st))"

definition DeleteFile :: "'o posix_env \<Rightarrow> bytes \<Rightarrow> 'o \<Rightarrow> Status \<times> 'o" where
  "DeleteFile os filename st = status_of os filename (sys_unlink os filename st)"

definition CreateDir :: "'o posix_env \<Rightarrow> bytes \<Rightarrow> 'o \<Rightarrow> Status \<times> 'o" where
  "CreateDir os dirname st = status_of os dirname (sys_mkdir os dirname st)"

definition DeleteDir :: "'o posix_env \<Rightarrow> bytes \<Rightarrow> 'o \<Rightarrow> Status \<times> 'o" where
  "DeleteDir os dirname st = status_of os dirname (sys_rmdir os dirname st)"

definition RenameFile :: "'o posix_env \<Rightarrow> bytes \<Rightarrow> bytes \<Rightarrow> 'o \<Rightarrow> Status \<times> 'o" where
  "RenameFile os src dst st = status_of os src (sys_rename os src dst st)"

definition GetTestDirectory :: "'o posix_env \<Rightarrow> 'o \<Rightarrow> Status \<times> bytes \<times> 'o" where
  "GetTestDirectory os st =
     (let uid = sint (sys_geteuid os st);
          result = (case sys_getenv os (str ''TEST_TMPDIR'') st of
              Some (c # env) \<Rightarrow> c # env
            | _ \<Rightarrow> str ''/tmp/leveldbtest-'' @
                (if uid < 0 then str ''-'' @ decimal (nat (- uid)) else decimal (nat uid)))
      in (OK, result, snd (CreateDir os result st)))"

text \<open>The result of \<open>NewLogger\<close> is the stream the \<open>PosixLogger\<close> owns.  \<open>close\<close> may change \<open>errno\<close>
  before it is read; the error reported is then the one of \<open>close\<close>.\<close>

definition NewLogger :: "'o posix_env \<Rightarrow> bytes \<Rightarrow> 'o \<Rightarrow> Status \<times> int option \<times> 'o" where
  "NewLogger os filename st =
     (case sys_open (calls os) filename [O_APPEND, O_WRONLY, O_CREAT] st of
        (Inl e, st) \<Rightarrow> (PosixError (calls os) filename e, None, st)
      | (Inr fd, st) \<Rightarrow>
          (case sys_fdopen os fd st of
             (Inl e, st) \<Rightarrow>
               (case sys_close (calls os) fd st of
                  (Inl e', st) \<Rightarrow> (PosixError (calls os) filename e', None, st)
                | (Inr _, st) \<Rightarrow> (PosixError (calls os) filename e, None, st))
           | (Inr fp, st) \<Rightarrow> (OK, Some fp, st)))"

definition NowMicros :: "'o posix_env \<Rightarrow> 'o \<Rightarrow> u64" where
  "NowMicros os st = (case sys_gettimeofday os st of (sec, usec) \<Rightarrow> word_of_int sec * 1000000 + word_of_int usec)"

section \<open>Locks\<close>

record PosixFileLock =
  lock_fd :: int
  lock_filename :: bytes

definition LockTable_Insert :: "bytes \<Rightarrow> bytes set \<Rightarrow> bool \<times> bytes set" where
  "LockTable_Insert fname files = (fname \<notin> files, insert fname files)"

definition LockTable_Remove :: "bytes \<Rightarrow> bytes set \<Rightarrow> bytes set" where
  "LockTable_Remove fname files = files - {fname}"

definition LockOrUnlock :: "'o posix_env \<Rightarrow> int \<Rightarrow> bool \<Rightarrow> 'o \<Rightarrow> (errno + unit) \<times> 'o" where
  "LockOrUnlock os fd lock st = sys_setlk os fd lock st"

definition LockFile ::
  "'o posix_env \<Rightarrow> bytes \<Rightarrow> 'w PosixEnv \<Rightarrow> 'o \<Rightarrow> Status \<times> PosixFileLock option \<times> 'w PosixEnv \<times> 'o" where
  "LockFile os filename env st =
     (case sys_open (calls os) filename [O_RDWR, O_CREAT] st of
        (Inl e, st) \<Rightarrow> (PosixError (calls os) filename e, None, env, st)
      | (Inr fd, st) \<Rightarrow>
          let (inserted, files) = LockTable_Insert filename (locked_files env);
              env = env\<lparr>locked_files := files\<rparr>
          in if \<not> inserted then
               (IOError (str ''lock '' @ filename) (str ''already held by process''), None, env, snd (sys_close (calls os) fd st))
             else
               (case LockOrUnlock os fd True st of
                  (Inl e, st) \<Rightarrow>
                    (PosixError (calls os) (str ''lock '' @ filename) e, None,
                     env\<lparr>locked_files := LockTable_Remove filename (locked_files env)\<rparr>, snd (sys_close (calls os) fd st))
                | (Inr _, st) \<Rightarrow> (OK, Some \<lparr>lock_fd = fd, lock_filename = filename\<rparr>, env, st)))"

definition UnlockFile :: "'o posix_env \<Rightarrow> PosixFileLock \<Rightarrow> 'w PosixEnv \<Rightarrow> 'o \<Rightarrow> Status \<times> 'w PosixEnv \<times> 'o" where
  "UnlockFile os lock env st =
     (case LockOrUnlock os (lock_fd lock) False st of
        (Inl e, st) \<Rightarrow> (PosixError (calls os) (str ''unlock '' @ lock_filename lock) e, env, st)
      | (Inr _, st) \<Rightarrow>
          (OK, env\<lparr>locked_files := LockTable_Remove (lock_filename lock) (locked_files env)\<rparr>,
           snd (sys_close (calls os) (lock_fd lock) st)))"

section \<open>The background thread\<close>

text \<open>\<open>Schedule\<close> between \<open>Lock\<close> and \<open>Unlock\<close>: the new state, whether the thread is started, and whether
  the condition variable is signalled.\<close>

definition Schedule :: "'w \<Rightarrow> 'w PosixEnv \<Rightarrow> 'w PosixEnv \<times> bool \<times> bool" where
  "Schedule work env =
     (let start = \<not> started_background_thread env;
          env = (if start then env\<lparr>started_background_thread := True\<rparr> else env);
          signal = (background_work_queue env = [])
      in (env\<lparr>background_work_queue := background_work_queue env @ [work]\<rparr>, start, signal))"

text \<open>The body of the loop of \<open>BackgroundThreadMain\<close> from the test of the inner loop to \<open>Unlock\<close>:
  \<^const>\<open>None\<close> when the thread waits on the condition variable, else the item it takes.\<close>

definition BackgroundThread_take :: "'w PosixEnv \<Rightarrow> ('w \<times> 'w PosixEnv) option" where
  "BackgroundThread_take env =
     (case background_work_queue env of
        [] \<Rightarrow> None
      | work # queue \<Rightarrow> Some (work, env\<lparr>background_work_queue := queue\<rparr>))"

datatype 'w thread = NotStarted | Locking | Waiting | Working 'w

record 'w background =
  bg_env :: "'w PosixEnv"
  bg_thread :: "'w thread"
  bg_scheduled :: "'w list"
  bg_executed :: "'w list"

text \<open>A step of the background thread.  Everything under the mutex is one step; a waiting thread has
  no step of its own.\<close>

fun BackgroundThreadMain :: "'w background \<Rightarrow> 'w background option" where
  "BackgroundThreadMain s =
     (case bg_thread s of
        NotStarted \<Rightarrow> None
      | Waiting \<Rightarrow> None
      | Locking \<Rightarrow>
          (case BackgroundThread_take (bg_env s) of
             None \<Rightarrow> Some (s\<lparr>bg_thread := Waiting\<rparr>)
           | Some (work, env) \<Rightarrow> Some (s\<lparr>bg_env := env, bg_thread := Working work\<rparr>))
      | Working work \<Rightarrow> Some (s\<lparr>bg_thread := Locking, bg_executed := bg_executed s @ [work]\<rparr>))"

definition schedule_call :: "'w \<Rightarrow> 'w background \<Rightarrow> 'w background" where
  "schedule_call work s =
     (case Schedule work (bg_env s) of (env, start, signal) \<Rightarrow>
        s\<lparr>bg_env := env, bg_scheduled := bg_scheduled s @ [work],
          bg_thread := (if start then Locking else if signal \<and> bg_thread s = Waiting then Locking else bg_thread s)\<rparr>)"

text \<open>The steps of the system: a call of \<open>Schedule\<close> by any thread, a step of the background thread,
  or a spurious wakeup.\<close>

inductive background_step :: "'w background \<Rightarrow> 'w background \<Rightarrow> bool" where
  call: "background_step s (schedule_call work s)"
| run: "BackgroundThreadMain s = Some s' \<Longrightarrow> background_step s s'"
| spurious: "bg_thread s = Waiting \<Longrightarrow> background_step s (s\<lparr>bg_thread := Locking\<rparr>)"

inductive_cases background_stepE: "background_step s s'"

inductive background_reachable :: "'w background \<Rightarrow> bool" where
  start: "\<not> started_background_thread env \<Longrightarrow> background_work_queue env = [] \<Longrightarrow>
    background_reachable \<lparr>bg_env = env, bg_thread = NotStarted, bg_scheduled = [], bg_executed = []\<rparr>"
| step: "background_reachable s \<Longrightarrow> background_step s s' \<Longrightarrow> background_reachable s'"

definition in_progress :: "'w thread \<Rightarrow> 'w list" where
  "in_progress t = (case t of Working work \<Rightarrow> [work] | _ \<Rightarrow> [])"

definition background_inv :: "'w background \<Rightarrow> bool" where
  "background_inv s \<longleftrightarrow>
     started_background_thread (bg_env s) = (bg_thread s \<noteq> NotStarted) \<and>
     bg_scheduled s = bg_executed s @ in_progress (bg_thread s) @ background_work_queue (bg_env s) \<and>
     (bg_thread s = NotStarted \<or> bg_thread s = Waiting \<longrightarrow> background_work_queue (bg_env s) = []) \<and>
     (bg_thread s = NotStarted \<longrightarrow> bg_scheduled s = [])"

lemma background_inv_step:
  assumes "background_inv s" and "background_step s s'"
  shows "background_inv s'"
  using assms(2,1)
proof cases
  case (call work)
  then show ?thesis
    using assms(1) by (cases "bg_thread s") (auto simp: background_inv_def schedule_call_def Schedule_def Let_def in_progress_def)
next
  case run
  then show ?thesis
    using assms(1)
    by (cases "bg_thread s") (auto simp: background_inv_def BackgroundThread_take_def in_progress_def split: list.splits)
next
  case spurious
  then show ?thesis
    using assms(1) by (auto simp: background_inv_def in_progress_def)
qed

lemma background_reachable_inv: "background_reachable s \<Longrightarrow> background_inv s"
proof (induction rule: background_reachable.induct)
  case (start env)
  then show ?case
    by (simp add: background_inv_def in_progress_def)
qed (rule background_inv_step)

text \<open>\<open>n\<close> steps of the background thread, as far as it has steps.\<close>

fun run_background :: "nat \<Rightarrow> 'w background \<Rightarrow> 'w background" where
  "run_background 0 s = s"
| "run_background (Suc n) s = (case BackgroundThreadMain s of None \<Rightarrow> s | Some s' \<Rightarrow> run_background n s')"

definition steps_left :: "'w background \<Rightarrow> nat" where
  "steps_left s = 2 * length (background_work_queue (bg_env s)) + length (in_progress (bg_thread s))"

lemma run_background_all:
  assumes "background_inv s" and "bg_thread s \<noteq> Waiting" and "bg_thread s \<noteq> NotStarted"
  shows "bg_executed (run_background (steps_left s) s) = bg_scheduled s"
  using assms
proof (induction "steps_left s" arbitrary: s rule: less_induct)
  case less
  show ?case
  proof (cases "bg_thread s")
    case (Working work)
    let ?s = "s\<lparr>bg_thread := Locking, bg_executed := bg_executed s @ [work]\<rparr>"
    have "steps_left s = Suc (steps_left ?s)" "background_inv ?s"
      using less.prems Working by (auto simp: steps_left_def in_progress_def background_inv_def)
    then show ?thesis
      using less.hyps [of ?s] Working by simp
  next
    case Locking
    show ?thesis
    proof (cases "background_work_queue (bg_env s)")
      case Nil
      then show ?thesis
        using less.prems Locking by (simp add: steps_left_def in_progress_def background_inv_def)
    next
      case (Cons work queue)
      let ?s = "s\<lparr>bg_env := (bg_env s)\<lparr>background_work_queue := queue\<rparr>, bg_thread := Working work\<rparr>"
      have "steps_left s = Suc (steps_left ?s)" "background_inv ?s"
        using less.prems Locking Cons by (auto simp: steps_left_def in_progress_def background_inv_def)
      then show ?thesis
        using less.hyps [of ?s] Locking Cons by (simp add: BackgroundThread_take_def)
    qed
  qed (use less.prems in auto)
qed

text \<open>C23. The background queue loses, repeats and reorders nothing: in every reachable state, under
  any interleaving of calls of \<open>Schedule\<close> with the background thread and with spurious wakeups, the
  scheduled items are those executed, then the one in progress, then the queue, in this order; and
  no wakeup is lost: the thread waits only while the queue is empty.\<close>

theorem background_fifo:
  assumes "background_reachable s"
  shows "bg_scheduled s = bg_executed s @ in_progress (bg_thread s) @ background_work_queue (bg_env s) \<and>
    \<not> (bg_thread s = Waiting \<and> background_work_queue (bg_env s) \<noteq> []) \<and>
    \<not> (bg_thread s = NotStarted \<and> bg_scheduled s \<noteq> [])"
  using background_reachable_inv [OF assms] by (auto simp: background_inv_def)

theorem background_fifo_witness:
  "\<exists>s. background_reachable s \<and> bg_scheduled s = [1, 2 :: nat] \<and>
     bg_scheduled s = bg_executed s @ in_progress (bg_thread s) @ background_work_queue (bg_env s)"
proof -
  let ?s = "schedule_call 2 (schedule_call (1 :: nat)
    \<lparr>bg_env = PosixEnv_new 1000 50 None, bg_thread = NotStarted, bg_scheduled = [], bg_executed = []\<rparr>)"
  have "background_reachable ?s"
    by (intro background_reachable.step [OF _ background_step.call] background_reachable.start) (simp_all add: PosixEnv_new_def)
  moreover have "bg_scheduled ?s = [1, 2]"
    by (simp add: schedule_call_def Schedule_def Let_def)
  ultimately show ?thesis
    using background_fifo [of ?s] by blast
qed

text \<open>C24. Every scheduled item is executed: from every reachable state the background thread, left
  alone, has executed everything scheduled so far after at most two steps per item in the queue
  and one for the item in progress.\<close>

theorem background_liveness:
  assumes "background_reachable s"
  shows "bg_executed (run_background (steps_left s) s) = bg_scheduled s \<and>
    steps_left s \<le> 2 * length (background_work_queue (bg_env s)) + 1"
proof -
  have inv: "background_inv s"
    by (rule background_reachable_inv [OF assms])
  have "bg_executed (run_background (steps_left s) s) = bg_scheduled s"
  proof (cases "bg_thread s = Waiting \<or> bg_thread s = NotStarted")
    case True
    then have "steps_left s = 0"
      using inv by (auto simp: background_inv_def steps_left_def in_progress_def)
    then show ?thesis
      using inv True by (auto simp: background_inv_def in_progress_def)
  qed (use run_background_all [OF inv] in auto)
  then show ?thesis
    by (simp add: steps_left_def in_progress_def split: thread.splits)
qed

theorem background_liveness_witness:
  "\<exists>s. bg_scheduled s = [1, 2 :: nat] \<and> bg_executed s = [] \<and> bg_executed (run_background 4 s) = [1, 2]"
proof -
  let ?s = "schedule_call 2 (schedule_call (1 :: nat)
    \<lparr>bg_env = PosixEnv_new 1000 50 None, bg_thread = NotStarted, bg_scheduled = [], bg_executed = []\<rparr>)"
  have "background_reachable ?s"
    by (intro background_reachable.step [OF _ background_step.call] background_reachable.start) (simp_all add: PosixEnv_new_def)
  moreover have "bg_scheduled ?s = [1, 2]" "bg_executed ?s = []" "steps_left ?s = 4"
    by (simp_all add: schedule_call_def Schedule_def Let_def steps_left_def in_progress_def PosixEnv_new_def)
  ultimately show ?thesis
    using background_liveness [of ?s] by (intro exI [of _ ?s]) simp
qed

section \<open>Files and locks\<close>

text \<open>Opening a file for random access takes a slot of the limiter of mappings exactly when the
  result is a mapping; on failure nothing is kept.\<close>

lemma NewRandomAccessFile_slots:
  assumes "NewRandomAccessFile os filename env st = (s, r, env', st')"
  shows "mmap_limiter env' = mmap_limiter env - (case r of Some (Mmapped _) \<Rightarrow> 1 | _ \<Rightarrow> 0) \<and>
    (ok s \<longleftrightarrow> r \<noteq> None) \<and> (r = None \<longrightarrow> fd_limiter env' = fd_limiter env)"
  using assms unfolding NewRandomAccessFile_def PosixRandomAccessFile_new_def GetFileSize_def Acquire_def Release_def
    fetch_sub1_def fetch_add1_def PosixError_def Let_def
  by (auto split: prod.splits sum.splits if_splits)

text \<open>The locks a process holds after a sequence of calls of \<open>LockFile\<close> and \<open>UnlockFile\<close>.\<close>

inductive lock_reachable :: "'o posix_env \<Rightarrow> 'w PosixEnv \<Rightarrow> PosixFileLock list \<Rightarrow> bool" for os where
  no_locks: "locked_files env = {} \<Longrightarrow> lock_reachable os env []"
| lock: "lock_reachable os env held \<Longrightarrow> LockFile os filename env st = (s, r, env', st') \<Longrightarrow>
    lock_reachable os env' (case r of None \<Rightarrow> held | Some l \<Rightarrow> l # held)"
| unlock: "lock_reachable os env held \<Longrightarrow> l \<in> set held \<Longrightarrow> UnlockFile os l env st = (s, env', st') \<Longrightarrow>
    lock_reachable os env' (if ok s then remove1 l held else held)"

lemma LockFile_cases:
  assumes "LockFile os filename env st = (s, r, env', st')"
  obtains (failed) "\<not> ok s" "r = None" "locked_files env' = locked_files env"
  | (locked) l where "s = OK" "r = Some l" "lock_filename l = filename" "filename \<notin> locked_files env"
    "locked_files env' = insert filename (locked_files env)"
proof -
  note def = LockFile_def LockTable_Insert_def LockTable_Remove_def LockOrUnlock_def
  obtain r1 st1 where open1: "sys_open (calls os) filename [O_RDWR, O_CREAT] st = (r1, st1)"
    by (cases "sys_open (calls os) filename [O_RDWR, O_CREAT] st")
  show ?thesis
  proof (cases r1)
    case (Inl e)
    then have "s = PosixError (calls os) filename e" "r = None" "env' = env"
      using assms open1 by (simp_all add: def)
    then show ?thesis
      by (intro failed) simp_all
  next
    case (Inr fd)
    obtain r2 st2 where lock2: "sys_setlk os fd True st1 = (r2, st2)"
      by (cases "sys_setlk os fd True st1")
    consider "filename \<in> locked_files env" | e where "filename \<notin> locked_files env" "r2 = Inl e"
      | u where "filename \<notin> locked_files env" "r2 = Inr u"
      by (cases r2) auto
    then show ?thesis
    proof cases
      case 1
      then have "\<not> ok s" "r = None" "locked_files env' = locked_files env"
        using assms open1 Inr by (auto simp: def)
      then show ?thesis
        by (rule failed)
    next
      case 2
      then have "\<not> ok s" "r = None" "locked_files env' = locked_files env"
        using assms open1 Inr lock2 by (auto simp: def)
      then show ?thesis
        by (rule failed)
    next
      case 3
      then have "s = OK" "r = Some \<lparr>lock_fd = fd, lock_filename = filename\<rparr>" "locked_files env' = insert filename (locked_files env)"
        using assms open1 Inr lock2 by (auto simp: def)
      then show ?thesis
        using 3 by (intro locked [of "\<lparr>lock_fd = fd, lock_filename = filename\<rparr>"]) simp_all
    qed
  qed
qed

lemma lock_reachable_inv:
  "lock_reachable os env held \<Longrightarrow> distinct (map lock_filename held) \<and> locked_files env = set (map lock_filename held)"
proof (induction rule: lock_reachable.induct)
  case (lock env held filename st s r env' st')
  from lock.hyps(2) show ?case
    by (cases rule: LockFile_cases) (use lock.IH in auto)
next
  case (unlock env held l st s env' st')
  have inj: "inj_on lock_filename (set held)" and dist: "distinct held"
    using unlock.IH by (simp_all add: distinct_map)
  then have "set (map lock_filename (remove1 l held)) = set (map lock_filename held) - {lock_filename l}"
    using unlock.hyps(2) by (simp add: inj_on_image_set_diff [OF inj])
  moreover have "distinct (map lock_filename (remove1 l held))"
    using inj dist by (simp add: distinct_map inj_on_diff)
  ultimately have "distinct (map lock_filename (remove1 l held)) \<and>
      set (map lock_filename (remove1 l held)) = set (map lock_filename held) - {lock_filename l}"
    by blast
  with unlock.IH unlock.hyps(3) show ?case
    by (auto simp: UnlockFile_def LockTable_Remove_def PosixError_def split: prod.splits sum.splits if_splits)
qed simp

text \<open>The second attempt opens the file and closes the new descriptor, and on POSIX systems closing
  any descriptor of a file releases the locks the process holds on it.\<close>

lemma LockFile_retry_closes:
  assumes "filename \<in> locked_files env" and "sys_open (calls os) filename [O_RDWR, O_CREAT] st = (Inr fd, st1)"
  shows "LockFile os filename env st =
    (IOError (str ''lock '' @ filename) (str ''already held by process''), None, env, snd (sys_close (calls os) fd st1))"
  using assms by (simp add: LockFile_def LockTable_Insert_def insert_absorb)

text \<open>C34. A process never holds two locks on one file: after any sequence of calls of \<open>LockFile\<close> and
  \<open>UnlockFile\<close>, whatever the system calls do, the lock table is exactly the set of the files locked,
  each is locked once, and \<open>LockFile\<close> on one of them fails and leaves the table alone.\<close>

theorem LockFile_exclusive:
  assumes "lock_reachable os env held"
  shows "distinct (map lock_filename held) \<and> locked_files env = set (map lock_filename held) \<and>
    (\<forall>l s r env' st st'. l \<in> set held \<longrightarrow> LockFile os (lock_filename l) env st = (s, r, env', st') \<longrightarrow>
       \<not> ok s \<and> r = None \<and> locked_files env' = locked_files env)"
proof -
  note inv = lock_reachable_inv [OF assms]
  have "\<not> ok s \<and> r = None \<and> locked_files env' = locked_files env"
    if l: "l \<in> set held" and call: "LockFile os (lock_filename l) env st = (s, r, env', st')" for l s r env' st st'
    using call by (cases rule: LockFile_cases) (use inv l in auto)
  with inv show ?thesis
    by blast
qed

end
