(* ===== verification/Posix_Fs.thy ===== *)
theory Posix_Fs
  imports Posix_Env
begin

text \<open>
  \<open>PosixEnv\<close> implements the file operations of \<open>Env\<close>: what is relied on of the system calls is the
  locale \<open>posix_fs\<close>, and \<open>env_fs\<close> and \<open>env_read\<close> of \<open>Env_Files\<close> are derived from it.  A system call may
  fail at any time.  A system in memory that stops working after a given number of calls shows that
  the laws can be met, and stands for a crash at any point.
\<close>

section \<open>PosixEnv as an Env\<close>

definition posix_file_Read ::
  "'o posix_env \<Rightarrow> PosixSequentialFile \<Rightarrow> nat \<Rightarrow> 'o \<Rightarrow> (Status \<times> bytes \<times> PosixSequentialFile \<times> 'o) option" where
  "posix_file_Read os f n st =
     map_option (\<lambda>(s, result, st). (s, case result of None \<Rightarrow> [] | Some data \<Rightarrow> data, f, st)) (PosixSequentialFile_Read (calls os) f n st)"

definition PosixEnv_ops :: "'o posix_env \<Rightarrow> (PosixWritableFile, PosixSequentialFile, 'o) env" where
  "PosixEnv_ops os =
     \<lparr>env_NewWritableFile = NewWritableFile os, env_NewSequentialFile = NewSequentialFile os,
      env_DeleteFile = DeleteFile os, env_RenameFile = RenameFile os,
      file_Append = PosixWritableFile_Append (calls os), file_Sync = PosixWritableFile_Sync (calls os),
      file_Close = PosixWritableFile_Close (calls os),
      file_delete = (\<lambda>f st. map_option snd (PosixWritableFile_destroy (calls os) f st)),
      file_Read = posix_file_Read os,
      sequential_delete = (\<lambda>f st. snd (sys_close (calls os) (seq_fd f) st))\<rparr>"

section \<open>The laws of the system calls\<close>

text \<open>\<open>fs\<close> maps names to contents, \<open>writes st fd name\<close> and \<open>reads st fd rest\<close> are the descriptors open for
  writing and reading; \<open>patience\<close> bounds how often reads are interrupted in a row.\<close>

locale posix_fs =
  fixes os :: "'o posix_env" and fs :: "'o \<Rightarrow> bytes \<Rightarrow> bytes option"
    and writes :: "'o \<Rightarrow> int \<Rightarrow> bytes \<Rightarrow> bool" and reads :: "'o \<Rightarrow> int \<Rightarrow> bytes \<Rightarrow> bool" and patience :: "'o \<Rightarrow> nat"
  assumes open_write: "sys_open (calls os) name [O_TRUNC, O_WRONLY, O_CREAT] st = (r, st') \<Longrightarrow>
      (case r of
         Inl e \<Rightarrow> same_except {name} (fs st) (fs st')
       | Inr fd \<Rightarrow> same_except {name} (fs st) (fs st') \<and> fd \<ge> 0 \<and> writes st' fd name \<and> fs st' name = Some [])"
    and open_read: "sys_open (calls os) name [O_RDONLY] st = (r, st') \<Longrightarrow>
      fs st' = fs st \<and> (\<forall>fd n. writes st fd n \<longrightarrow> writes st' fd n) \<and>
      (case r of
         Inl e \<Rightarrow> True
       | Inr fd \<Rightarrow> (\<forall>n. \<not> writes st fd n) \<and> (\<exists>data. fs st name = Some data \<and> reads st' fd data))"
    and write_law: "writes st fd name \<Longrightarrow> sys_write (calls os) fd d st = (w, st') \<Longrightarrow>
      writes st' fd name \<and> same_except {name} (fs st) (fs st') \<and>
      (case w of Inl e \<Rightarrow> fs st' name = fs st name | Inr n \<Rightarrow> fs st' name = map_option (\<lambda>c. c @ take n d) (fs st name))"
    and fsync: "sys_fsync (calls os) fd st = (u, st') \<Longrightarrow> fs st' = fs st \<and> (\<forall>fd n. writes st fd n \<longrightarrow> writes st' fd n)"
    and close: "sys_close (calls os) fd st = (u, st') \<Longrightarrow> fs st' = fs st \<and> (\<forall>fd' n. fd' \<noteq> fd \<longrightarrow> writes st fd' n \<longrightarrow> writes st' fd' n)"
    and unlink: "sys_unlink os name st = (u, st') \<Longrightarrow> same_except {name} (fs st) (fs st')"
    and rename: "sys_rename os src dst st = (u, st') \<Longrightarrow>
      (case u of Inl e \<Rightarrow> fs st' = fs st | Inr _ \<Rightarrow> fs st' = (fs st)(src := None, dst := fs st src))"
    and read: "reads st fd rest \<Longrightarrow> sys_read (calls os) fd n st = (got, st') \<Longrightarrow>
      (case got of Inl e \<Rightarrow> e = EINTR \<longrightarrow> patience st' < patience st \<and> reads st' fd rest
       | Inr data \<Rightarrow> data = take n rest \<and> reads st' fd (drop n rest))"
begin

definition posix_opened :: "PosixWritableFile \<Rightarrow> 'o \<Rightarrow> bytes \<Rightarrow> bool" where
  "posix_opened f st name \<longleftrightarrow> wf_fd f \<ge> 0 \<longrightarrow> writes st (wf_fd f) name"

definition posix_wrote :: "PosixWritableFile \<Rightarrow> 'o \<Rightarrow> bytes \<Rightarrow> bytes \<Rightarrow> bool" where
  "posix_wrote f st name data \<longleftrightarrow>
     wf_fd f \<ge> 0 \<and> writes st (wf_fd f) name \<and> (\<exists>c. fs st name = Some c \<and> data = c @ buf f)"

text \<open>The loop that writes: it never touches another file, and when it succeeds everything is written.\<close>

lemma WriteUnbuffered_fs:
  assumes "WriteUnbuffered (calls os) f d st = Some y" and "writes st (wf_fd f) name"
  shows "writes (snd y) (wf_fd f) name \<and> same_except {name} (fs st) (fs (snd y)) \<and>
    (ok (fst y) \<longrightarrow> fs (snd y) name = map_option (\<lambda>c. c @ d) (fs st name))"
proof -
  let ?P = "\<lambda>os' (f :: PosixWritableFile) d st y. os' = calls os \<longrightarrow> writes st (wf_fd f) name \<longrightarrow>
    writes (snd y) (wf_fd f) name \<and> same_except {name} (fs st) (fs (snd y)) \<and>
    (ok (fst y) \<longrightarrow> fs (snd y) name = map_option (\<lambda>c. c @ d) (fs st name))"
  have "?P (calls os) f d st y"
  proof (rule WriteUnbuffered.raw_induct [where P = ?P, OF _ assms(1)])
    fix W os' and f :: PosixWritableFile and d st y
    assume IH: "\<And>os' f d st y. W os' f d st = Some y \<Longrightarrow> ?P os' f d st y"
      and body: "(if 0 < length d
         then case sys_write os' (wf_fd f) d st of
                (Inl e, st) \<Rightarrow> if e = EINTR then W os' f d st else Some (PosixError os' (wf_filename f) e, st)
              | (Inr n, st) \<Rightarrow> W os' f (drop n d) st
         else Some (OK, st)) = Some y"
    show "?P os' f d st y"
    proof (intro impI)
      assume os': "os' = calls os" and w: "writes st (wf_fd f) name"
      obtain r st1 where r: "sys_write (calls os) (wf_fd f) d st = (r, st1)"
        by (cases "sys_write (calls os) (wf_fd f) d st")
      note w1 = write_law [OF w r]
      show "writes (snd y) (wf_fd f) name \<and> same_except {name} (fs st) (fs (snd y)) \<and>
          (ok (fst y) \<longrightarrow> fs (snd y) name = map_option (\<lambda>c. c @ d) (fs st name))"
      proof (cases "d = []")
        case True
        then show ?thesis
          using body w by (auto simp: map_option.identity)
      next
        case False
        show ?thesis
        proof (cases r)
          case (Inl e)
          then show ?thesis
            using body False r w1 os' IH [of "calls os" f d st1 y] same_except_trans
            by (auto split: if_splits)
        next
          case (Inr n)
          then have "W os' f (drop n d) st1 = Some y"
            using body False r os' by simp
          from IH [OF this] w1 Inr os' show ?thesis
            by (auto simp: option.map_comp o_def dest: same_except_trans)
        qed
      qed
    qed
  qed
  then show ?thesis
    using assms(2) by simp
qed

lemma FlushBuffer_fs:
  assumes "FlushBuffer (calls os) f st = Some (s, f', st')" and "writes st (wf_fd f) name"
  shows "f' = f\<lparr>buf := []\<rparr> \<and> writes st' (wf_fd f) name \<and> same_except {name} (fs st) (fs st') \<and>
    (ok s \<longrightarrow> fs st' name = map_option (\<lambda>c. c @ buf f) (fs st name))"
  using assms WriteUnbuffered_fs [of f "buf f" st "(s, st')" name]
  by (auto simp: FlushBuffer_def split: option.splits)

lemma Append_fs:
  assumes wrote: "posix_wrote f st name data" and call: "PosixWritableFile_Append (calls os) f d st = Some (s, f', st')"
  shows "same_except {name} (fs st) (fs st') \<and> posix_opened f' st' name \<and> (ok s \<longrightarrow> posix_wrote f' st' name (data @ d))"
proof -
  define k where "k = min (length d) (kWritableFileBufferSize - length (buf f))"
  let ?f = "f\<lparr>buf := buf f @ take k d\<rparr>"
  obtain c where c: "wf_fd f \<ge> 0" "writes st (wf_fd f) name" "fs st name = Some c" "data = c @ buf f"
    using wrote by (auto simp: posix_wrote_def)
  show ?thesis
  proof (cases "drop k d = []")
    case True
    then show ?thesis
      using call c by (auto simp: PosixWritableFile_Append_def Let_def k_def [symmetric] posix_opened_def posix_wrote_def)
  next
    case False
    obtain s1 f1 st1 where flush: "FlushBuffer (calls os) ?f st = Some (s1, f1, st1)"
      using call False by (auto simp: PosixWritableFile_Append_def Let_def k_def [symmetric] split: option.splits)
    have f1: "f1 = f\<lparr>buf := []\<rparr>" "writes st1 (wf_fd f) name" "same_except {name} (fs st) (fs st1)"
      "ok s1 \<Longrightarrow> fs st1 name = Some (c @ buf f @ take k d)"
      using FlushBuffer_fs [OF flush, of name] c by auto
    consider (flush_failed) "\<not> ok s1" | (buffered) "ok s1" "length (drop k d) < kWritableFileBufferSize"
      | (direct) "ok s1" "\<not> length (drop k d) < kWritableFileBufferSize"
      by blast
    then show ?thesis
    proof cases
      case flush_failed
      then show ?thesis
        using call False flush f1 by (auto simp: PosixWritableFile_Append_def Let_def k_def [symmetric] posix_opened_def)
    next
      case buffered
      then show ?thesis
        using call False flush f1 c
        by (auto simp: PosixWritableFile_Append_def Let_def k_def [symmetric] posix_opened_def posix_wrote_def)
    next
      case direct
      then have out: "WriteUnbuffered (calls os) f1 (drop k d) st1 = Some (s, st')" "f' = f1"
        using call False flush
        by (auto simp: PosixWritableFile_Append_def Let_def k_def [symmetric] simp del: length_drop split: option.splits)
      from WriteUnbuffered_fs [OF out(1), of name] show ?thesis
        using f1 c direct(1) out(2) by (auto simp: posix_opened_def posix_wrote_def dest: same_except_trans)
    qed
  qed
qed

lemma SyncFd_fs:
  assumes "SyncFd (calls os) fd path st = (s, st')"
  shows "fs st' = fs st \<and> (\<forall>fd n. writes st fd n \<longrightarrow> writes st' fd n)"
  using assms fsync by (fastforce simp: SyncFd_def split: prod.splits sum.splits)

lemma SyncDir_fs:
  assumes "SyncDirIfManifest (calls os) f st = (s, st')" and "writes st fd name"
  shows "fs st' = fs st \<and> writes st' fd name"
proof -
  obtain r st1 where r: "sys_open (calls os) (wf_dirname f) [O_RDONLY] st = (r, st1)"
    by (cases "sys_open (calls os) (wf_dirname f) [O_RDONLY] st")
  note o1 = open_read [OF r]
  show ?thesis
  proof (cases r)
    case (Inl e)
    then show ?thesis
      using assms r o1 by (auto simp: SyncDirIfManifest_def split: if_splits)
  next
    case (Inr dfd)
    obtain s2 st2 where s2: "SyncFd (calls os) dfd (wf_dirname f) st1 = (s2, st2)"
      by (cases "SyncFd (calls os) dfd (wf_dirname f) st1")
    obtain r3 st3 where c3: "sys_close (calls os) dfd st2 = (r3, st3)"
      by (cases "sys_close (calls os) dfd st2")
    have "fd \<noteq> dfd"
      using o1 Inr assms(2) by auto
    then show ?thesis
      using assms r Inr s2 c3 o1 SyncFd_fs [OF s2] close [OF c3] by (auto simp: SyncDirIfManifest_def split: if_splits)
  qed
qed

lemma Sync_fs:
  assumes wrote: "posix_wrote f st name data" and call: "PosixWritableFile_Sync (calls os) f st = Some (s, f', st')"
  shows "same_except {name} (fs st) (fs st') \<and> posix_opened f' st' name \<and>
    (ok s \<longrightarrow> posix_wrote f' st' name data \<and> fs st' name = Some data)"
proof -
  obtain c where c: "wf_fd f \<ge> 0" "writes st (wf_fd f) name" "fs st name = Some c" "data = c @ buf f"
    using wrote by (auto simp: posix_wrote_def)
  obtain s1 st1 where d: "SyncDirIfManifest (calls os) f st = (s1, st1)"
    by (cases "SyncDirIfManifest (calls os) f st")
  note d1 = SyncDir_fs [OF d c(2)]
  show ?thesis
  proof (cases "ok s1")
    case False
    then show ?thesis
      using call d d1 by (auto simp: PosixWritableFile_Sync_def posix_opened_def)
  next
    case True
    then obtain s2 f2 st2 where fl: "FlushBuffer (calls os) f st1 = Some (s2, f2, st2)"
      using call d by (auto simp: PosixWritableFile_Sync_def split: option.splits)
    note f2 = FlushBuffer_fs [OF fl conjunct2 [OF d1]]
    obtain s3 st3 where s3: "SyncFd (calls os) (wf_fd f) (wf_filename f) st2 = (s3, st3)"
      by (cases "SyncFd (calls os) (wf_fd f) (wf_filename f) st2")
    show ?thesis
      using call d True fl f2 s3 SyncFd_fs [OF s3] c d1
      by (auto simp: PosixWritableFile_Sync_def posix_opened_def posix_wrote_def split: if_splits)
  qed
qed

lemma Close_fs:
  assumes opened: "wf_fd f \<ge> 0" "writes st (wf_fd f) name" and call: "PosixWritableFile_Close (calls os) f st = Some (s, f', st')"
  shows "same_except {name} (fs st) (fs st') \<and> wf_fd f' < 0 \<and> (ok s \<longrightarrow> fs st' name = map_option (\<lambda>c. c @ buf f) (fs st name))"
proof -
  obtain s1 f1 st1 where fl: "FlushBuffer (calls os) f st = Some (s1, f1, st1)"
    using call by (auto simp: PosixWritableFile_Close_def split: option.splits)
  note f1 = FlushBuffer_fs [OF fl opened(2)]
  obtain r2 st2 where c2: "sys_close (calls os) (wf_fd f) st1 = (r2, st2)"
    by (cases "sys_close (calls os) (wf_fd f) st1")
  show ?thesis
    using call fl f1 c2 close [OF c2] by (auto simp: PosixWritableFile_Close_def Let_def split: sum.splits if_splits)
qed

end

sublocale posix_fs \<subseteq> posix_write: env_fs "PosixEnv_ops os" fs posix_opened posix_wrote "\<lambda>f. wf_fd f < 0"
proof
  show "same_except {name} (fs st) (fs st') \<and> (ok s \<longrightarrow> (\<exists>f. r = Some f \<and> posix_wrote f st' name []))"
    if "env_NewWritableFile (PosixEnv_ops os) name st = (s, r, st')" for name st s r st'
    using that open_write
    by (fastforce simp: PosixEnv_ops_def NewWritableFile_def open_writable_def PosixWritableFile_new_def posix_wrote_def split: prod.splits sum.splits)
  show "posix_opened f st name" if "posix_wrote f st name data" for f st name data
    using that by (simp add: posix_wrote_def posix_opened_def)
  show "same_except {name} (fs st) (fs st') \<and> posix_opened f' st' name \<and> (ok s \<longrightarrow> posix_wrote f' st' name (data @ d))"
    if "posix_wrote f st name data" "file_Append (PosixEnv_ops os) f d st = Some (s, f', st')" for f st name data d s f' st'
    using Append_fs that by (simp add: PosixEnv_ops_def)
  show "same_except {name} (fs st) (fs st') \<and> posix_opened f' st' name \<and>
      (ok s \<longrightarrow> posix_wrote f' st' name data \<and> fs st' name = Some data)"
    if "posix_wrote f st name data" "file_Sync (PosixEnv_ops os) f st = Some (s, f', st')" for f st name data s f' st'
    using Sync_fs that by (simp add: PosixEnv_ops_def)
  show "same_except {name} (fs st) (fs st') \<and> posix_opened f' st' name \<and> (ok s \<longrightarrow> wf_fd f' < 0 \<and> fs st' name = Some data)"
    if "posix_wrote f st name data" "file_Close (PosixEnv_ops os) f st = Some (s, f', st')" for f st name data s f' st'
    using Close_fs [of f st name s f' st'] that by (auto simp: PosixEnv_ops_def posix_wrote_def posix_opened_def)
  show "same_except {name} (fs st) (fs st') \<and> (wf_fd f < 0 \<longrightarrow> st' = st)"
    if "posix_opened f st name" "file_delete (PosixEnv_ops os) f st = Some st'" for f st name st'
    using that Close_fs [of f st name]
    by (fastforce simp: PosixEnv_ops_def PosixWritableFile_destroy_def posix_opened_def split: option.splits if_splits)
  show "same_except {name} (fs st) (fs st')" if "env_DeleteFile (PosixEnv_ops os) name st = (s, st')" for name st s st'
    using that unlink by (fastforce simp: PosixEnv_ops_def DeleteFile_def status_of_def split: prod.splits sum.splits)
  show "if ok s then fs st' = (fs st)(src := None, dst := fs st src) else fs st' = fs st"
    if "env_RenameFile (PosixEnv_ops os) src dst st = (s, st')" for src dst st s st'
    using that rename by (fastforce simp: PosixEnv_ops_def RenameFile_def status_of_def split: prod.splits sum.splits)
qed

context posix_fs
begin

lemma Read_fs:
  assumes "reads st (seq_fd f) rest"
  shows "\<exists>s r st'. PosixSequentialFile_Read (calls os) f n st = Some (s, r, st') \<and>
    (ok s \<longrightarrow> r = Some (take n rest) \<and> reads st' (seq_fd f) (drop n rest))"
  using assms
proof (induction "patience st" arbitrary: st rule: less_induct)
  case less
  obtain r st1 where r: "sys_read (calls os) (seq_fd f) n st = (r, st1)"
    by (cases "sys_read (calls os) (seq_fd f) n st")
  note law = read [OF less.prems r]
  show ?case
  proof (cases r)
    case (Inl e)
    then show ?thesis
      using r law less.hyps [of st1] by (subst PosixSequentialFile_Read.simps) auto
  next
    case (Inr data)
    then show ?thesis
      using r law by (subst PosixSequentialFile_Read.simps) auto
  qed
qed

end

sublocale posix_fs \<subseteq> posix_read: env_read "PosixEnv_ops os" fs "\<lambda>f st rest. reads st (seq_fd f) rest"
proof
  show "\<exists>f data. r = Some f \<and> fs st name = Some data \<and> reads st' (seq_fd f) data"
    if "env_NewSequentialFile (PosixEnv_ops os) name st = (s, r, st')" "ok s" for name st s r st'
    using that open_read by (fastforce simp: PosixEnv_ops_def NewSequentialFile_def split: prod.splits sum.splits)
  show "\<exists>s fragment f' st'. file_Read (PosixEnv_ops os) f n st = Some (s, fragment, f', st') \<and>
      (ok s \<longrightarrow> fragment = take n rest \<and> reads st' (seq_fd f') (drop n rest))"
    if "reads st (seq_fd f) rest" for f st rest n
    using Read_fs [OF that, of n] by (auto simp: PosixEnv_ops_def posix_file_Read_def)
  show "\<not> ok s" if "env_NewSequentialFile (PosixEnv_ops os) name st = (s, None, st')" for name st s st'
    using that by (auto simp: PosixEnv_ops_def NewSequentialFile_def split: prod.splits sum.splits)
qed

section \<open>A system that stops working\<close>

text \<open>Files in memory; after \<open>life\<close> system calls every call fails.  A descriptor is open for a file
  with a position, for writing at the end or for reading.\<close>

datatype descriptor = Closed | Writer bytes | Reader bytes nat

record disk =
  disk_files :: "bytes \<Rightarrow> bytes option"
  disk_fds :: "descriptor list"
  life :: nat

definition disk_call :: "(disk \<Rightarrow> (errno + 'a) \<times> disk) \<Rightarrow> disk \<Rightarrow> (errno + 'a) \<times> disk" where
  "disk_call f st = (if life st = 0 then (Inl (Errno 5), st) else f (st\<lparr>life := life st - 1\<rparr>))"

definition disk_open :: "bytes \<Rightarrow> open_flag list \<Rightarrow> disk \<Rightarrow> (errno + int) \<times> disk" where
  "disk_open name flags st =
     (if O_TRUNC \<in> set flags then
        (Inr (int (length (disk_fds st))),
         st\<lparr>disk_files := (disk_files st)(name \<mapsto> []), disk_fds := disk_fds st @ [Writer name]\<rparr>)
      else
        case disk_files st name of
          None \<Rightarrow> (Inl ENOENT, st)
        | Some data \<Rightarrow> (Inr (int (length (disk_fds st))), st\<lparr>disk_fds := disk_fds st @ [Reader data 0]\<rparr>))"

definition disk_fd :: "disk \<Rightarrow> int \<Rightarrow> descriptor" where
  "disk_fd st fd = (if 0 \<le> fd \<and> nat fd < length (disk_fds st) then disk_fds st ! nat fd else Closed)"

definition disk_write :: "int \<Rightarrow> bytes \<Rightarrow> disk \<Rightarrow> (errno + nat) \<times> disk" where
  "disk_write fd data st =
     (case disk_fd st fd of
        Writer name \<Rightarrow>
          let n = min (length data) 4096 in
          (Inr n, st\<lparr>disk_files := (disk_files st)(name := map_option (\<lambda>c. c @ take n data) (disk_files st name))\<rparr>)
      | _ \<Rightarrow> (Inl (Errno 9), st))"

definition disk_read :: "int \<Rightarrow> nat \<Rightarrow> disk \<Rightarrow> (errno + bytes) \<times> disk" where
  "disk_read fd n st =
     (case disk_fd st fd of
        Reader data pos \<Rightarrow> (Inr (take n (drop pos data)), st\<lparr>disk_fds := (disk_fds st)[nat fd := Reader data (pos + n)]\<rparr>)
      | _ \<Rightarrow> (Inl (Errno 9), st))"

definition disk_close :: "int \<Rightarrow> disk \<Rightarrow> (errno + unit) \<times> disk" where
  "disk_close fd st = (Inr (), st\<lparr>disk_fds := (disk_fds st)[nat fd := (if 0 \<le> fd then Closed else disk_fds st ! nat fd)]\<rparr>)"

definition disk_rename :: "bytes \<Rightarrow> bytes \<Rightarrow> disk \<Rightarrow> (errno + unit) \<times> disk" where
  "disk_rename src dst st =
     (if disk_files st src = None then (Inl ENOENT, st)
      else (Inr (), st\<lparr>disk_files := (disk_files st)(src := None, dst := disk_files st src)\<rparr>))"

definition disk_os :: "disk posix_env" where
  "disk_os =
     \<lparr>calls =
        \<lparr>sys_open = (\<lambda>name flags. disk_call (disk_open name flags)),
         sys_close = (\<lambda>fd. disk_call (disk_close fd)),
         sys_read = (\<lambda>fd n. disk_call (disk_read fd n)),
         sys_lseek = (\<lambda>fd k. disk_call (\<lambda>st. (Inr (), st))),
         sys_pread = (\<lambda>fd n k. disk_call (\<lambda>st. (Inr [], st))),
         sys_write = (\<lambda>fd data. disk_call (disk_write fd data)),
         sys_fsync = (\<lambda>fd. disk_call (\<lambda>st. (Inr (), st))),
         sys_munmap = (\<lambda>_ st. st),
         strerror = (\<lambda>_. str ''error'')\<rparr>,
      sys_access = (\<lambda>name st. disk_files st name \<noteq> None),
      sys_opendir = (\<lambda>_ st. (Inl ENOENT, st)),
      sys_readdir = (\<lambda>_ st. (None, st)),
      sys_closedir = (\<lambda>_ st. st),
      sys_unlink = (\<lambda>name. disk_call (\<lambda>st. (Inr (), st\<lparr>disk_files := (disk_files st)(name := None)\<rparr>))),
      sys_mkdir = (\<lambda>_. disk_call (\<lambda>st. (Inr (), st))),
      sys_rmdir = (\<lambda>_. disk_call (\<lambda>st. (Inr (), st))),
      sys_stat = (\<lambda>name st. case disk_files st name of None \<Rightarrow> Inl ENOENT | Some c \<Rightarrow> Inr (word_of_nat (length c))),
      sys_rename = (\<lambda>src dst. disk_call (disk_rename src dst)),
      sys_mmap = (\<lambda>_ _ st. (Inl (Errno 12), st)),
      sys_setlk = (\<lambda>_ _. disk_call (\<lambda>st. (Inr (), st))),
      sys_fdopen = (\<lambda>fd. disk_call (\<lambda>st. (Inr fd, st))),
      sys_getenv = (\<lambda>_ _. None),
      sys_geteuid = (\<lambda>_. 0),
      sys_gettimeofday = (\<lambda>_. (0, 0))\<rparr>"

definition disk_reads :: "disk \<Rightarrow> int \<Rightarrow> bytes \<Rightarrow> bool" where
  "disk_reads st fd rest \<longleftrightarrow> (\<exists>data pos. disk_fd st fd = Reader data pos \<and> rest = drop pos data)"

interpretation disk: posix_fs disk_os disk_files "\<lambda>st fd name. disk_fd st fd = Writer name" disk_reads "\<lambda>_. 0"
proof
  fix name st r st'
  assume "sys_open (calls disk_os) name [O_TRUNC, O_WRONLY, O_CREAT] st = (r, st')"
  then show "case r of Inl e \<Rightarrow> same_except {name} (disk_files st) (disk_files st')
      | Inr fd \<Rightarrow> same_except {name} (disk_files st) (disk_files st') \<and> 0 \<le> fd \<and> disk_fd st' fd = Writer name \<and> disk_files st' name = Some []"
    by (auto simp: disk_os_def disk_call_def disk_open_def disk_fd_def same_except_def split: if_splits)
next
  fix name st r st'
  assume "sys_open (calls disk_os) name [O_RDONLY] st = (r, st')"
  then show "disk_files st' = disk_files st \<and> (\<forall>fd n. disk_fd st fd = Writer n \<longrightarrow> disk_fd st' fd = Writer n) \<and>
      (case r of Inl e \<Rightarrow> True | Inr fd \<Rightarrow> (\<forall>n. disk_fd st fd \<noteq> Writer n) \<and> (\<exists>data. disk_files st name = Some data \<and> disk_reads st' fd data))"
    by (auto simp: disk_os_def disk_call_def disk_open_def disk_fd_def disk_reads_def nth_append split: if_splits option.splits)
next
  fix st fd name d w st'
  assume "disk_fd st fd = Writer name" "sys_write (calls disk_os) fd d st = (w, st')"
  then show "disk_fd st' fd = Writer name \<and> same_except {name} (disk_files st) (disk_files st') \<and>
      (case w of Inl e \<Rightarrow> disk_files st' name = disk_files st name
       | Inr n \<Rightarrow> disk_files st' name = map_option (\<lambda>c. c @ take n d) (disk_files st name))"
    by (auto simp: disk_os_def disk_call_def disk_write_def disk_fd_def same_except_def Let_def split: if_splits)
next
  fix fd st u st'
  assume "sys_fsync (calls disk_os) fd st = (u, st')"
  then show "disk_files st' = disk_files st \<and> (\<forall>fd n. disk_fd st fd = Writer n \<longrightarrow> disk_fd st' fd = Writer n)"
    by (auto simp: disk_os_def disk_call_def disk_fd_def split: if_splits)
next
  fix fd st u st'
  assume "sys_close (calls disk_os) fd st = (u, st')"
  then show "disk_files st' = disk_files st \<and> (\<forall>fd' n. fd' \<noteq> fd \<longrightarrow> disk_fd st fd' = Writer n \<longrightarrow> disk_fd st' fd' = Writer n)"
    by (auto simp: disk_os_def disk_call_def disk_close_def disk_fd_def nth_list_update nat_eq_iff split: if_splits)
next
  fix name st u st'
  assume "sys_unlink disk_os name st = (u, st')"
  then show "same_except {name} (disk_files st) (disk_files st')"
    by (auto simp: disk_os_def disk_call_def same_except_def split: if_splits)
next
  fix src dst st u st'
  assume "sys_rename disk_os src dst st = (u, st')"
  then show "case u of Inl e \<Rightarrow> disk_files st' = disk_files st
      | Inr _ \<Rightarrow> disk_files st' = (disk_files st)(src := None, dst := disk_files st src)"
    by (auto simp: disk_os_def disk_call_def disk_rename_def split: if_splits)
next
  fix st fd rest n got st'
  assume "disk_reads st fd rest" "sys_read (calls disk_os) fd n st = (got, st')"
  then show "case got of Inl e \<Rightarrow> e = EINTR \<longrightarrow> 0 < (0 :: nat) \<and> disk_reads st' fd rest
      | Inr data \<Rightarrow> data = take n rest \<and> disk_reads st' fd (drop n rest)"
    by (auto simp: disk_os_def disk_call_def disk_read_def disk_fd_def disk_reads_def add.commute split: if_splits)
qed

theorem LockFile_exclusive_witness:
  "\<exists>env held. lock_reachable disk_os (env :: nat PosixEnv) held \<and> length held = 1 \<and>
     locked_files env = set (map lock_filename held)"
proof -
  let ?env = "PosixEnv_new 1000 50 None :: nat PosixEnv"
  let ?st = "\<lparr>disk_files = [str ''db/LOCK'' \<mapsto> []], disk_fds = [], life = 9\<rparr>"
  obtain s l env st where call: "LockFile disk_os (str ''db/LOCK'') ?env ?st = (s, Some l, env, st)"
    by (simp add: LockFile_def disk_os_def disk_call_def disk_open_def LockTable_Insert_def LockOrUnlock_def PosixEnv_new_def)
  have "lock_reachable disk_os ?env []"
    by (rule lock_reachable.no_locks) (simp add: PosixEnv_new_def)
  from lock_reachable.lock [OF this call] have "lock_reachable disk_os env [l]"
    by simp
  then show ?thesis
    using LockFile_exclusive [of disk_os env "[l]"] by fastforce
qed

end
