(* ===== verification/Filename.thy ===== *)
theory Filename
  imports Logging Slice Posix_Fs
begin

text \<open>
  The names of the files of a database (\<^verbatim>\<open>db/filename.h\<close>, \<^verbatim>\<open>db/filename.cpp\<close>), parsing them, and
  switching the file \<open>CURRENT\<close> to another manifest.

  \<^const>\<open>None\<close> is a failed assertion in the functions that print names, and the result \<open>false\<close> in
  \<open>ParseFileName\<close>.
\<close>

section \<open>Names\<close>

datatype FileType = kLogFile | kDBLockFile | kTableFile | kDescriptorFile | kCurrentFile | kTempFile | kInfoLogFile

text \<open>\<open>%06llu\<close>, and \<open>snprintf\<close> into a buffer of 100 characters, which keeps at most 99.\<close>

definition padded :: "u64 \<Rightarrow> bytes" where
  "padded number = (let ds = decimal (unat number) in replicate (6 - length ds) 48 @ ds)"

definition snprintf100 :: "bytes \<Rightarrow> bytes" where
  "snprintf100 text = take 99 text"

definition MakeFileName :: "bytes \<Rightarrow> u64 \<Rightarrow> bytes \<Rightarrow> bytes" where
  "MakeFileName name number suffix = name @ snprintf100 (str ''/'' @ padded number @ str ''.'' @ suffix)"

definition LogFileName :: "bytes \<Rightarrow> u64 \<Rightarrow> bytes option" where
  "LogFileName name number = (if number > 0 then Some (MakeFileName name number (str ''log'')) else None)"

definition TableFileName :: "bytes \<Rightarrow> u64 \<Rightarrow> bytes option" where
  "TableFileName name number = (if number > 0 then Some (MakeFileName name number (str ''ldb'')) else None)"

definition SSTTableFileName :: "bytes \<Rightarrow> u64 \<Rightarrow> bytes option" where
  "SSTTableFileName name number = (if number > 0 then Some (MakeFileName name number (str ''sst'')) else None)"

definition DescriptorFileName :: "bytes \<Rightarrow> u64 \<Rightarrow> bytes option" where
  "DescriptorFileName dbname number =
     (if number > 0 then Some (dbname @ snprintf100 (str ''/MANIFEST-'' @ padded number)) else None)"

definition CurrentFileName :: "bytes \<Rightarrow> bytes" where
  "CurrentFileName dbname = dbname @ str ''/CURRENT''"

definition LockFileName :: "bytes \<Rightarrow> bytes" where
  "LockFileName dbname = dbname @ str ''/LOCK''"

definition TempFileName :: "bytes \<Rightarrow> u64 \<Rightarrow> bytes option" where
  "TempFileName dbname number = (if number > 0 then Some (MakeFileName dbname number (str ''dbtmp'')) else None)"

definition InfoLogFileName :: "bytes \<Rightarrow> bytes" where
  "InfoLogFileName dbname = dbname @ str ''/LOG''"

definition OldInfoLogFileName :: "bytes \<Rightarrow> bytes" where
  "OldInfoLogFileName dbname = dbname @ str ''/LOG.old''"

definition ParseFileName :: "bytes \<Rightarrow> (u64 \<times> FileType) option" where
  "ParseFileName fname =
     (let rest = fname in
      if Slice_eq rest (str ''CURRENT'') then Some (0, kCurrentFile)
      else if Slice_eq rest (str ''LOCK'') then Some (0, kDBLockFile)
      else if Slice_eq rest (str ''LOG'') \<or> Slice_eq rest (str ''LOG.old'') then Some (0, kInfoLogFile)
      else if Slice_starts_with rest (str ''MANIFEST-'') then
        (case ConsumeDecimalNumber (drop (length (str ''MANIFEST-'')) rest) of
           (True, Some num, rest) \<Rightarrow> if rest \<noteq> [] then None else Some (num, kDescriptorFile)
         | _ \<Rightarrow> None)
      else
        (case ConsumeDecimalNumber rest of
           (True, Some num, suffix) \<Rightarrow>
             if Slice_eq suffix (str ''.log'') then Some (num, kLogFile)
             else if Slice_eq suffix (str ''.sst'') \<or> Slice_eq suffix (str ''.ldb'') then Some (num, kTableFile)
             else if Slice_eq suffix (str ''.dbtmp'') then Some (num, kTempFile)
             else None
         | _ \<Rightarrow> None))"

section \<open>The current manifest\<close>

definition SetCurrentFile :: "('f, 's, 'o) env \<Rightarrow> bytes \<Rightarrow> u64 \<Rightarrow> 'o \<Rightarrow> (Status \<times> 'o) option" where
  "SetCurrentFile env dbname descriptor_number st =
     (case (DescriptorFileName dbname descriptor_number, TempFileName dbname descriptor_number) of
        (Some contents, Some tmp) \<Rightarrow>
          if \<not> Slice_starts_with contents (dbname @ str ''/'') then None
          else
            (case Slice_remove_prefix contents (length dbname + 1) of
               None \<Rightarrow> None
             | Some contents \<Rightarrow>
                 (case WriteStringToFileSync env (contents @ [10]) tmp st of
                    None \<Rightarrow> None
                  | Some (s, st) \<Rightarrow>
                      let (s, st) = (if ok s then env_RenameFile env tmp (CurrentFileName dbname) st else (s, st))
                      in Some (s, if \<not> ok s then snd (env_DeleteFile env tmp st) else st)))
      | _ \<Rightarrow> None)"

section \<open>Printing and parsing\<close>

lemma padded_length: "length (padded number) \<le> 20"
proof -
  have "length (decimal (unat number)) \<le> 20"
    using unat_bound64 [of number] length_decimal [of "unat number" 19] by simp
  then show ?thesis
    by (simp add: padded_def Let_def)
qed

lemma padded_digits: "list_all is_digit (padded number)" "padded number \<noteq> []" "digits_value 0 (padded number) = unat number"
proof -
  show "list_all is_digit (padded number)"
    using decimal_digits [of "unat number"] by (auto simp: padded_def Let_def list_all_iff is_digit_def)
qed (simp_all add: padded_def Let_def digits_value_zeros digits_value_decimal)

lemma padded_Cons: "\<exists>d ds. padded number = d # ds \<and> 48 \<le> d \<and> d \<le> 57"
  using padded_digits(1,2) [of number] by (cases "padded number") (auto simp: is_digit_def)

lemma MakeFileName_name:
  assumes "length suffix \<le> 5"
  shows "MakeFileName name number suffix = name @ str ''/'' @ padded number @ str ''.'' @ suffix"
  using padded_length [of number] assms by (simp add: MakeFileName_def snprintf100_def)

lemma DescriptorFileName_name:
  "number > 0 \<Longrightarrow> DescriptorFileName dbname number = Some (dbname @ str ''/'' @ str ''MANIFEST-'' @ padded number)"
  using padded_length [of number] by (simp add: DescriptorFileName_def snprintf100_def str_def)

lemma ParseFileName_number:
  assumes "suffix = [] \<or> \<not> is_digit (hd suffix)"
  shows "ParseFileName (padded number @ suffix) =
    (if suffix = str ''.log'' then Some (number, kLogFile)
     else if suffix = str ''.sst'' \<or> suffix = str ''.ldb'' then Some (number, kTableFile)
     else if suffix = str ''.dbtmp'' then Some (number, kTempFile)
     else None)"
proof -
  have dec: "ConsumeDecimalNumber (padded number @ suffix) = (True, Some number, suffix)"
    by (rule ConsumeDecimalNumber_digits [OF padded_digits assms])
  obtain d ds where p: "padded number = d # ds" "48 \<le> d" "d \<le> 57"
    using padded_Cons by blast
  have ne: "padded number @ suffix \<noteq> c # cs" if "c > 57" for c cs
    using p that by auto
  have "\<not> Slice_starts_with (padded number @ suffix) (str ''MANIFEST-'')"
    using p by (auto simp: Slice_starts_with_iff str_def)
  then show ?thesis
    unfolding ParseFileName_def Let_def dec Slice_eq_iff by (simp add: ne str_def)
qed

lemma ParseFileName_manifest: "ParseFileName (str ''MANIFEST-'' @ padded number) = Some (number, kDescriptorFile)"
proof -
  have dec: "ConsumeDecimalNumber (padded number) = (True, Some number, [])"
    using ConsumeDecimalNumber_digits [OF padded_digits, of "[]"] by simp
  have "Slice_starts_with (str ''MANIFEST-'' @ padded number) (str ''MANIFEST-'')"
    by (simp add: Slice_starts_with_iff)
  with dec show ?thesis
    by (simp add: ParseFileName_def Slice_eq_iff str_def)
qed

text \<open>C36. Names are parsed back: every name printed for a file of a database is the name of the
  database, a slash and a name that is parsed to the same number and kind; numbers are not
  truncated by the buffer of 100 characters.\<close>

theorem filename_roundtrip:
  assumes "number > 0"
  shows "(\<exists>base. LogFileName db number = Some (db @ str ''/'' @ base) \<and> ParseFileName base = Some (number, kLogFile)) \<and>
    (\<exists>base. TableFileName db number = Some (db @ str ''/'' @ base) \<and> ParseFileName base = Some (number, kTableFile)) \<and>
    (\<exists>base. SSTTableFileName db number = Some (db @ str ''/'' @ base) \<and> ParseFileName base = Some (number, kTableFile)) \<and>
    (\<exists>base. TempFileName db number = Some (db @ str ''/'' @ base) \<and> ParseFileName base = Some (number, kTempFile)) \<and>
    (\<exists>base. DescriptorFileName db number = Some (db @ str ''/'' @ base) \<and> ParseFileName base = Some (number, kDescriptorFile)) \<and>
    (\<exists>base. CurrentFileName db = db @ str ''/'' @ base \<and> ParseFileName base = Some (0, kCurrentFile)) \<and>
    (\<exists>base. LockFileName db = db @ str ''/'' @ base \<and> ParseFileName base = Some (0, kDBLockFile)) \<and>
    (\<exists>base. InfoLogFileName db = db @ str ''/'' @ base \<and> ParseFileName base = Some (0, kInfoLogFile)) \<and>
    (\<exists>base. OldInfoLogFileName db = db @ str ''/'' @ base \<and> ParseFileName base = Some (0, kInfoLogFile))"
proof -
  have make: "\<exists>base. Some (MakeFileName db number suffix) = Some (db @ str ''/'' @ base) \<and> ParseFileName base = Some (number, t)"
    if "length suffix \<le> 5" "ParseFileName (padded number @ str ''.'' @ suffix) = Some (number, t)" for suffix t
    using that by (intro exI [of _ "padded number @ str ''.'' @ suffix"]) (simp add: MakeFileName_name)
  have parse: "ParseFileName (padded number @ str ''.'' @ str ''log'') = Some (number, kLogFile)"
    "ParseFileName (padded number @ str ''.'' @ str ''ldb'') = Some (number, kTableFile)"
    "ParseFileName (padded number @ str ''.'' @ str ''sst'') = Some (number, kTableFile)"
    "ParseFileName (padded number @ str ''.'' @ str ''dbtmp'') = Some (number, kTempFile)"
    by (subst ParseFileName_number; simp add: str_def is_digit_def)+
  have fixed: "ParseFileName (str ''CURRENT'') = Some (0, kCurrentFile)" "ParseFileName (str ''LOCK'') = Some (0, kDBLockFile)"
    "ParseFileName (str ''LOG'') = Some (0, kInfoLogFile)" "ParseFileName (str ''LOG.old'') = Some (0, kInfoLogFile)"
    by (simp_all add: ParseFileName_def Slice_eq_iff str_def)
  have slash: "str ''/CURRENT'' = str ''/'' @ str ''CURRENT''" "str ''/LOCK'' = str ''/'' @ str ''LOCK''"
    "str ''/LOG'' = str ''/'' @ str ''LOG''" "str ''/LOG.old'' = str ''/'' @ str ''LOG.old''"
    by (simp_all add: str_def)
  show ?thesis
    unfolding LogFileName_def TableFileName_def SSTTableFileName_def TempFileName_def DescriptorFileName_name [OF assms]
      CurrentFileName_def LockFileName_def InfoLogFileName_def OldInfoLogFileName_def slash
    using assms make parse fixed ParseFileName_manifest [of number] by simp
qed

theorem filename_roundtrip_witness:
  "\<exists>base. TableFileName (str ''db'') 18446744073709551615 = Some (str ''db'' @ str ''/'' @ base) \<and>
     ParseFileName base = Some (18446744073709551615, kTableFile)"
  using filename_roundtrip [of 18446744073709551615 "str ''db''"] by simp

lemma TempFileName_not_current: "TempFileName db number = Some tmp \<Longrightarrow> tmp \<noteq> CurrentFileName db"
  using padded_Cons [of number]
  by (auto simp: TempFileName_def MakeFileName_name CurrentFileName_def str_def split: if_splits)

lemma SetCurrentFile_eq:
  assumes n: "number > 0" and tmp: "TempFileName db number = Some tmp"
  shows "SetCurrentFile env db number st =
    (case WriteStringToFileSync env ((str ''MANIFEST-'' @ padded number) @ [10]) tmp st of
       None \<Rightarrow> None
     | Some (s, st) \<Rightarrow>
         let (s, st) = (if ok s then env_RenameFile env tmp (CurrentFileName db) st else (s, st))
         in Some (s, if \<not> ok s then snd (env_DeleteFile env tmp st) else st))"
proof -
  have "length (str ''/'') = 1"
    by (simp add: str_def)
  then have cut: "Slice_remove_prefix (db @ str ''/'' @ str ''MANIFEST-'' @ padded number) (length db + 1) = Some (str ''MANIFEST-'' @ padded number)"
    by (simp add: Slice_remove_prefix_def)
  have pre: "Slice_starts_with (db @ str ''/'' @ str ''MANIFEST-'' @ padded number) (db @ str ''/'')"
    by (simp add: Slice_starts_with_iff)
  show ?thesis
    unfolding SetCurrentFile_def DescriptorFileName_name [OF n] tmp prod.case option.case cut
    using pre by (simp only: not_True_eq_False if_False)
qed

text \<open>C17. Switching \<open>CURRENT\<close> is atomic: in every environment whose operations touch only the files they
  are about and may fail at any time (in particular one that stops working at any point), \<open>CURRENT\<close>
  names the new manifest if the call succeeds and is as before otherwise, and apart from the
  temporary file no other file changes.\<close>

theorem SetCurrentFile_atomic:
  assumes "env_fs env fs opened wrote closed" and "SetCurrentFile env db number st = Some (s, st')"
  shows "\<exists>base tmp. DescriptorFileName db number = Some (db @ str ''/'' @ base) \<and> TempFileName db number = Some tmp \<and>
    ParseFileName base = Some (number, kDescriptorFile) \<and>
    fs st' (CurrentFileName db) = (if ok s then Some (base @ [10]) else fs st (CurrentFileName db)) \<and>
    same_except {CurrentFileName db, tmp} (fs st) (fs st')"
proof -
  note laws = assms(1)
  let ?base = "str ''MANIFEST-'' @ padded number" and ?cur = "CurrentFileName db"
  have n: "number > 0"
    using assms(2) by (cases "number > 0") (simp_all add: SetCurrentFile_def DescriptorFileName_def)
  obtain tmp where tmp: "TempFileName db number = Some tmp"
    using n by (simp add: TempFileName_def)
  obtain s1 st1 where w: "WriteStringToFileSync env (?base @ [10]) tmp st = Some (s1, st1)"
    using assms(2) unfolding SetCurrentFile_eq [OF n tmp]
    by (cases "WriteStringToFileSync env (?base @ [10]) tmp st") (simp, metis surj_pair)
  define mid where "mid = (if ok s1 then env_RenameFile env tmp ?cur st1 else (s1, st1))"
  have "fst mid = s \<and> (if \<not> ok (fst mid) then snd (env_DeleteFile env tmp (snd mid)) else snd mid) = st'"
    using assms(2) unfolding SetCurrentFile_eq [OF n tmp] w mid_def [symmetric] option.case prod.case Let_def
    by (simp only: split_beta option.inject prod.inject) auto
  then have res: "s = fst mid" "st' = (if \<not> ok s then snd (env_DeleteFile env tmp (snd mid)) else snd mid)"
    by auto
  have w1: "same_except {tmp} (fs st) (fs st1)" "ok s1 \<Longrightarrow> fs st1 tmp = Some (?base @ [10])"
    using env_fs.DoWriteStringToFile_fs [OF laws] w by (auto simp: WriteStringToFileSync_def)
  have ne: "tmp \<noteq> ?cur"
    by (rule TempFileName_not_current [OF tmp])
  have "fs st' ?cur = (if ok s then Some (?base @ [10]) else fs st ?cur) \<and> same_except {?cur, tmp} (fs st) (fs st')"
  proof (cases "ok s")
    case True
    then have ok1: "ok s1"
      using res(1) by (auto simp: mid_def split: if_splits)
    then have "env_RenameFile env tmp ?cur st1 = (s, st')"
      using res True by (simp add: mid_def)
    from env_fs.rename_file [OF laws this] True have "fs st' = (fs st1)(tmp := None, ?cur := fs st1 tmp)"
      by simp
    then show ?thesis
      using w1 ok1 True by (auto simp: same_except_def)
  next
    case False
    have "fs (snd mid) = fs st1"
    proof (cases "ok s1")
      case True
      then have "env_RenameFile env tmp ?cur st1 = (s, snd mid)"
        using res(1) by (simp add: mid_def)
      from env_fs.rename_file [OF laws this] False show ?thesis
        by simp
    qed (simp add: mid_def)
    moreover have "same_except {tmp} (fs (snd mid)) (fs st')"
      using res(2) False env_fs.delete_file [OF laws, of tmp "snd mid" "fst (env_DeleteFile env tmp (snd mid))"] by simp
    ultimately show ?thesis
      using w1(1) ne False by (auto simp: same_except_def)
  qed
  then show ?thesis
    using DescriptorFileName_name [OF n, of db] tmp ParseFileName_manifest [of number]
    by blast
qed

text \<open>On the system in memory the call succeeds when the system lives long enough.\<close>

theorem SetCurrentFile_atomic_witness:
  "\<exists>s st'. SetCurrentFile (PosixEnv_ops disk_os) (str ''d'') 7
      \<lparr>disk_files = [str ''d/CURRENT'' \<mapsto> str ''old''], disk_fds = [], life = 9\<rparr> = Some (s, st') \<and>
    disk_files st' (str ''d/CURRENT'') = Some (str ''MANIFEST-000007'' @ [10])"
proof -
  let ?st = "\<lparr>disk_files = [str ''d/CURRENT'' \<mapsto> str ''old''], disk_fds = [], life = 9\<rparr>"
  have tmp: "TempFileName (str ''d'') 7 = Some (str ''d/000007.dbtmp'')"
    by code_simp
  have pos: "(0 :: u64) < 7"
    by simp
  have pad: "str ''MANIFEST-'' @ padded 7 = str ''MANIFEST-000007''"
    by code_simp
  have man: "\<not> IsManifest (str ''d/000007.dbtmp'')"
    by code_simp
  have cur: "CurrentFileName (str ''d'') = str ''d/CURRENT''"
    by (simp add: CurrentFileName_def str_def)
  have "\<exists>s st'. SetCurrentFile (PosixEnv_ops disk_os) (str ''d'') 7 ?st = Some (s, st') \<and> ok s"
    using man unfolding SetCurrentFile_eq [OF pos tmp] pad cur WriteStringToFileSync_def DoWriteStringToFile_def
    by (simp add: PosixEnv_ops_def NewWritableFile_def open_writable_def disk_os_def disk_call_def disk_open_def
        PosixWritableFile_new_def PosixWritableFile_Append_def kWritableFileBufferSize_def PosixWritableFile_Sync_def
        SyncDirIfManifest_def FlushBuffer_def WriteUnbuffered.simps disk_write_def disk_fd_def SyncFd_def PosixWritableFile_Close_def
        disk_close_def PosixWritableFile_destroy_def RenameFile_def status_of_def disk_rename_def Let_def)
  then obtain s st' where call: "SetCurrentFile (PosixEnv_ops disk_os) (str ''d'') 7 ?st = Some (s, st')" "ok s"
    by blast
  have "DescriptorFileName (str ''d'') 7 = Some (str ''d'' @ str ''/'' @ str ''MANIFEST-000007'')"
    using DescriptorFileName_name [of 7 "str ''d''"] pad by simp
  then show ?thesis
    using SetCurrentFile_atomic [OF disk.posix_write.env_fs_axioms call(1)] call cur by auto
qed

end
