(* ===== verification/Two_Level.thy ===== *)
theory Two_Level
  imports Iterators Slice
begin

text \<open>
  The two-level iterator (\<^verbatim>\<open>table/two_level_iterator.cpp\<close>): an iterator over an index whose values
  stand for blocks, and over the entries of these blocks.

  \<open>block_function\<close> maps the value of an index entry to an iterator over its block (\<^const>\<open>None\<close> for a
  failed assertion); the pointer \<open>arg_\<close> and the read options are fixed in it.  The loops over empty blocks are partial functions.
\<close>

section \<open>State and operations\<close>

record ('i, 'd) TwoLevel =
  tl_status :: Status
  index_iter :: "'i IteratorWrapper"
  data_iter :: "'d IteratorWrapper"
  data_block_handle :: bytes

definition SaveError :: "Status \<Rightarrow> ('i, 'd) TwoLevel \<Rightarrow> ('i, 'd) TwoLevel" where
  "SaveError s t = (if ok (tl_status t) \<and> \<not> ok s then t\<lparr>tl_status := s\<rparr> else t)"

definition SetDataIterator :: "'d Iterator \<Rightarrow> 'd option \<Rightarrow> ('i, 'd) TwoLevel \<Rightarrow> ('i, 'd) TwoLevel option" where
  "SetDataIterator dops it t =
     (let t = (case Wrapper_status dops (data_iter t) of None \<Rightarrow> t | Some s \<Rightarrow> SaveError s t)
      in map_option (\<lambda>w. t\<lparr>data_iter := w\<rparr>) (Wrapper_Set dops it (data_iter t)))"

definition InitDataBlock ::
  "'i Iterator \<Rightarrow> 'd Iterator \<Rightarrow> (bytes \<Rightarrow> 'd option) \<Rightarrow> ('i, 'd) TwoLevel \<Rightarrow> ('i, 'd) TwoLevel option" where
  "InitDataBlock iops dops block_function t =
     (if \<not> Wrapper_Valid (index_iter t) then SetDataIterator dops None t
      else
        (case Wrapper_value iops (index_iter t) of
           None \<Rightarrow> None
         | Some handle \<Rightarrow>
             if witer (data_iter t) \<noteq> None \<and> Slice_compare handle (data_block_handle t) = 0 then Some t
             else
               (case block_function handle of
                  None \<Rightarrow> None
                | Some iter \<Rightarrow> SetDataIterator dops (Some iter) (t\<lparr>data_block_handle := handle\<rparr>))))"

text \<open>Moving one of the two iterators; \<open>data_move\<close> is \<open>if (data_iter_.iter() != NULL) data_iter_...\<close>.\<close>

definition index_move ::
  "('i IteratorWrapper \<Rightarrow> 'i IteratorWrapper option) \<Rightarrow> ('i, 'd) TwoLevel \<Rightarrow> ('i, 'd) TwoLevel option" where
  "index_move f t = map_option (\<lambda>w. t\<lparr>index_iter := w\<rparr>) (f (index_iter t))"

definition data_move ::
  "('d IteratorWrapper \<Rightarrow> 'd IteratorWrapper option) \<Rightarrow> ('i, 'd) TwoLevel \<Rightarrow> ('i, 'd) TwoLevel option" where
  "data_move f t =
     (if witer (data_iter t) \<noteq> None then map_option (\<lambda>w. t\<lparr>data_iter := w\<rparr>) (f (data_iter t)) else Some t)"

partial_function (option) SkipEmptyDataBlocksForward ::
  "'i Iterator \<Rightarrow> 'd Iterator \<Rightarrow> (bytes \<Rightarrow> 'd option) \<Rightarrow> ('i, 'd) TwoLevel \<Rightarrow> ('i, 'd) TwoLevel option" where
  [code]: "SkipEmptyDataBlocksForward iops dops bf t =
     (if witer (data_iter t) = None \<or> \<not> Wrapper_Valid (data_iter t) then
        if \<not> Wrapper_Valid (index_iter t) then SetDataIterator dops None t
        else
          Option.bind (index_move (Wrapper_Next iops) t) (\<lambda>t.
          Option.bind (InitDataBlock iops dops bf t) (\<lambda>t.
          Option.bind (data_move (Wrapper_SeekToFirst dops) t) (\<lambda>t.
            SkipEmptyDataBlocksForward iops dops bf t)))
      else Some t)"

partial_function (option) SkipEmptyDataBlocksBackward ::
  "'i Iterator \<Rightarrow> 'd Iterator \<Rightarrow> (bytes \<Rightarrow> 'd option) \<Rightarrow> ('i, 'd) TwoLevel \<Rightarrow> ('i, 'd) TwoLevel option" where
  [code]: "SkipEmptyDataBlocksBackward iops dops bf t =
     (if witer (data_iter t) = None \<or> \<not> Wrapper_Valid (data_iter t) then
        if \<not> Wrapper_Valid (index_iter t) then SetDataIterator dops None t
        else
          Option.bind (index_move (Wrapper_Prev iops) t) (\<lambda>t.
          Option.bind (InitDataBlock iops dops bf t) (\<lambda>t.
          Option.bind (data_move (Wrapper_SeekToLast dops) t) (\<lambda>t.
            SkipEmptyDataBlocksBackward iops dops bf t)))
      else Some t)"

definition TwoLevel_Valid :: "('i, 'd) TwoLevel \<Rightarrow> bool" where
  "TwoLevel_Valid t = Wrapper_Valid (data_iter t)"

definition TwoLevel_Seek ::
  "'i Iterator \<Rightarrow> 'd Iterator \<Rightarrow> (bytes \<Rightarrow> 'd option) \<Rightarrow> bytes \<Rightarrow> ('i, 'd) TwoLevel \<Rightarrow> ('i, 'd) TwoLevel option" where
  "TwoLevel_Seek iops dops bf target t =
     Option.bind (index_move (Wrapper_Seek iops target) t) (\<lambda>t.
     Option.bind (InitDataBlock iops dops bf t) (\<lambda>t.
     Option.bind (data_move (Wrapper_Seek dops target) t) (SkipEmptyDataBlocksForward iops dops bf)))"

definition TwoLevel_SeekToFirst ::
  "'i Iterator \<Rightarrow> 'd Iterator \<Rightarrow> (bytes \<Rightarrow> 'd option) \<Rightarrow> ('i, 'd) TwoLevel \<Rightarrow> ('i, 'd) TwoLevel option" where
  "TwoLevel_SeekToFirst iops dops bf t =
     Option.bind (index_move (Wrapper_SeekToFirst iops) t) (\<lambda>t.
     Option.bind (InitDataBlock iops dops bf t) (\<lambda>t.
     Option.bind (data_move (Wrapper_SeekToFirst dops) t) (SkipEmptyDataBlocksForward iops dops bf)))"

definition TwoLevel_SeekToLast ::
  "'i Iterator \<Rightarrow> 'd Iterator \<Rightarrow> (bytes \<Rightarrow> 'd option) \<Rightarrow> ('i, 'd) TwoLevel \<Rightarrow> ('i, 'd) TwoLevel option" where
  "TwoLevel_SeekToLast iops dops bf t =
     Option.bind (index_move (Wrapper_SeekToLast iops) t) (\<lambda>t.
     Option.bind (InitDataBlock iops dops bf t) (\<lambda>t.
     Option.bind (data_move (Wrapper_SeekToLast dops) t) (SkipEmptyDataBlocksBackward iops dops bf)))"

definition TwoLevel_Next ::
  "'i Iterator \<Rightarrow> 'd Iterator \<Rightarrow> (bytes \<Rightarrow> 'd option) \<Rightarrow> ('i, 'd) TwoLevel \<Rightarrow> ('i, 'd) TwoLevel option" where
  "TwoLevel_Next iops dops bf t =
     (if TwoLevel_Valid t
      then Option.bind (Wrapper_Next dops (data_iter t)) (\<lambda>w. SkipEmptyDataBlocksForward iops dops bf (t\<lparr>data_iter := w\<rparr>))
      else None)"

definition TwoLevel_Prev ::
  "'i Iterator \<Rightarrow> 'd Iterator \<Rightarrow> (bytes \<Rightarrow> 'd option) \<Rightarrow> ('i, 'd) TwoLevel \<Rightarrow> ('i, 'd) TwoLevel option" where
  "TwoLevel_Prev iops dops bf t =
     (if TwoLevel_Valid t
      then Option.bind (Wrapper_Prev dops (data_iter t)) (\<lambda>w. SkipEmptyDataBlocksBackward iops dops bf (t\<lparr>data_iter := w\<rparr>))
      else None)"

definition TwoLevel_key :: "('i, 'd) TwoLevel \<Rightarrow> bytes option" where
  "TwoLevel_key t = (if TwoLevel_Valid t then Wrapper_key (data_iter t) else None)"

definition TwoLevel_value :: "'d Iterator \<Rightarrow> ('i, 'd) TwoLevel \<Rightarrow> bytes option" where
  "TwoLevel_value dops t = (if TwoLevel_Valid t then Wrapper_value dops (data_iter t) else None)"

text \<open>The index iterator is never \<open>NULL\<close>.\<close>

definition TwoLevel_status :: "'i Iterator \<Rightarrow> 'd Iterator \<Rightarrow> ('i, 'd) TwoLevel \<Rightarrow> Status" where
  "TwoLevel_status iops dops t =
     (case Wrapper_status iops (index_iter t) of
        Some s \<Rightarrow>
          if \<not> ok s then s
          else
            (case Wrapper_status dops (data_iter t) of
               Some s \<Rightarrow> if \<not> ok s then s else tl_status t
             | None \<Rightarrow> tl_status t)
      | None \<Rightarrow> tl_status t)"

definition TwoLevelIterator :: "'i Iterator \<Rightarrow> 'd Iterator \<Rightarrow> (bytes \<Rightarrow> 'd option) \<Rightarrow> ('i, 'd) TwoLevel Iterator" where
  "TwoLevelIterator iops dops bf =
     \<lparr>it_Valid = TwoLevel_Valid, it_SeekToFirst = TwoLevel_SeekToFirst iops dops bf, it_SeekToLast = TwoLevel_SeekToLast iops dops bf,
      it_Seek = TwoLevel_Seek iops dops bf, it_Next = TwoLevel_Next iops dops bf, it_Prev = TwoLevel_Prev iops dops bf,
      it_key = TwoLevel_key, it_value = TwoLevel_value dops, it_status = TwoLevel_status iops dops\<rparr>"

definition NewTwoLevelIterator :: "'i Iterator \<Rightarrow> 'i \<Rightarrow> ('i, 'd) TwoLevel option" where
  "NewTwoLevelIterator iops index =
     map_option (\<lambda>w. \<lparr>tl_status = OK, index_iter = w, data_iter = Wrapper_null, data_block_handle = []\<rparr>)
       (Wrapper_new iops (Some index))"

section \<open>The contract\<close>

text \<open>The index \<open>idx\<close> has one entry per block: its key is not below any key of the block and below
  all keys of the later blocks, and its value stands for the block.\<close>

definition index_of ::
  "(bytes \<Rightarrow> bytes \<Rightarrow> int) \<Rightarrow> ('d \<Rightarrow> (bytes \<times> bytes) list \<Rightarrow> nat \<Rightarrow> bool) \<Rightarrow> (bytes \<Rightarrow> 'd option) \<Rightarrow>
     (bytes \<times> bytes) list \<Rightarrow> (bytes \<times> bytes) list list \<Rightarrow> bool" where
  "index_of cmp dat bf idx blocks \<longleftrightarrow>
     length idx = length blocks \<and>
     (\<forall>j < length blocks. (\<exists>d p. bf (snd (idx ! j)) = Some d \<and> dat d (blocks ! j) p) \<and>
        list_all (\<lambda>kv. cmp (fst kv) (fst (idx ! j)) \<le> 0) (blocks ! j) \<and>
        list_all (\<lambda>kv. cmp (fst (idx ! j)) (fst kv) < 0) (concat (drop (Suc j) blocks)))"

definition before :: "'a list list \<Rightarrow> nat \<Rightarrow> nat" where
  "before blocks j = length (concat (take j blocks))"

text \<open>The index stands at entry \<open>j\<close>, and the data iterator is absent or somewhere in the block whose
  handle is remembered.\<close>

definition tl_inv ::
  "'i Iterator \<Rightarrow> ('i \<Rightarrow> (bytes \<times> bytes) list \<Rightarrow> nat \<Rightarrow> bool) \<Rightarrow> 'd Iterator \<Rightarrow> ('d \<Rightarrow> (bytes \<times> bytes) list \<Rightarrow> nat \<Rightarrow> bool) \<Rightarrow>
     (bytes \<Rightarrow> 'd option) \<Rightarrow> (bytes \<times> bytes) list \<Rightarrow> (bytes \<times> bytes) list list \<Rightarrow> ('i, 'd) TwoLevel \<Rightarrow> nat \<Rightarrow> bool" where
  "tl_inv iops iat dops dat bf idx blocks t j \<longleftrightarrow>
     tl_status t = OK \<and> wrapper_at iops iat (index_iter t) idx j \<and>
     (witer (data_iter t) = None \<or>
      (\<exists>m p. m < length blocks \<and> data_block_handle t = snd (idx ! m) \<and> wrapper_at dops dat (data_iter t) (blocks ! m) p))"

definition tl_at ::
  "(bytes \<Rightarrow> bytes \<Rightarrow> int) \<Rightarrow> (bytes \<Rightarrow> bool) \<Rightarrow> 'i Iterator \<Rightarrow> ('i \<Rightarrow> (bytes \<times> bytes) list \<Rightarrow> nat \<Rightarrow> bool) \<Rightarrow>
     'd Iterator \<Rightarrow> ('d \<Rightarrow> (bytes \<times> bytes) list \<Rightarrow> nat \<Rightarrow> bool) \<Rightarrow> (bytes \<Rightarrow> 'd option) \<Rightarrow>
     ('i, 'd) TwoLevel \<Rightarrow> (bytes \<times> bytes) list \<Rightarrow> nat \<Rightarrow> bool" where
  "tl_at cmp valid iops iat dops dat bf t kvs i \<longleftrightarrow>
     sorted_keys cmp valid kvs \<and>
     (\<exists>idx blocks j. index_of cmp dat bf idx blocks \<and> kvs = concat blocks \<and> tl_inv iops iat dops dat bf idx blocks t j \<and>
        ((witer (data_iter t) = None \<and> \<not> wvalid (data_iter t) \<and> i = length kvs) \<or>
         (\<exists>p. j < length blocks \<and> data_block_handle t = snd (idx ! j) \<and>
            wrapper_at dops dat (data_iter t) (blocks ! j) p \<and> p < length (blocks ! j) \<and> i = before blocks j + p)))"

lemma before_Suc: "j < length blocks \<Longrightarrow> before blocks (Suc j) = before blocks j + length (blocks ! j)"
  by (simp add: before_def take_Suc_conv_app_nth)

lemma before_0 [simp]: "before blocks 0 = 0"
  by (simp add: before_def)

lemma before_length: "before blocks (length blocks) = length (concat blocks)"
  by (simp add: before_def)

lemma before_le: "before blocks j \<le> length (concat blocks)"
  unfolding before_def by (metis append_take_drop_id concat_append le_add1 length_append)

lemma nth_concat_before:
  assumes "j < length blocks" and "p < length (blocks ! j)"
  shows "concat blocks ! (before blocks j + p) = blocks ! j ! p"
proof -
  have "concat blocks = concat (take j blocks) @ blocks ! j @ concat (drop (Suc j) blocks)"
    by (rule concat_split_nth [OF assms(1)])
  then show ?thesis
    using assms(2) by (simp add: before_def nth_append)
qed

locale two_level = index: iterator cmp valid iops iat + data: iterator cmp valid dops dat
  for cmp :: "bytes \<Rightarrow> bytes \<Rightarrow> int" and valid :: "bytes \<Rightarrow> bool" and iops :: "'i Iterator"
    and iat :: "'i \<Rightarrow> (bytes \<times> bytes) list \<Rightarrow> nat \<Rightarrow> bool" and dops :: "'d Iterator"
    and dat :: "'d \<Rightarrow> (bytes \<times> bytes) list \<Rightarrow> nat \<Rightarrow> bool" +
  fixes bf :: "bytes \<Rightarrow> 'd option"
begin

text \<open>The data iterator is at position \<open>p\<close> of block \<open>j\<close>, or absent when there is no such block.\<close>

definition placed :: "('i, 'd) TwoLevel \<Rightarrow> (bytes \<times> bytes) list \<Rightarrow> (bytes \<times> bytes) list list \<Rightarrow> nat \<Rightarrow> nat \<Rightarrow> bool" where
  "placed t idx blocks j p \<longleftrightarrow>
     tl_status t = OK \<and> wrapper_at iops iat (index_iter t) idx j \<and>
     (if j < length blocks then data_block_handle t = snd (idx ! j) \<and> wrapper_at dops dat (data_iter t) (blocks ! j) p
      else witer (data_iter t) = None \<and> \<not> wvalid (data_iter t))"

lemma contents_unique:
  assumes "dat s kvs i" and "dat s kvs' i'"
  shows "kvs = kvs'"
proof -
  obtain s1 where "it_SeekToFirst dops s = Some s1" "dat s1 kvs 0" "dat s1 kvs' 0"
    using data.SeekToFirst_at [OF assms(1)] data.SeekToFirst_at [OF assms(2)] by auto
  then show ?thesis
    using data.scan_at [of s1 kvs 0 "max (length kvs) (length kvs')"] data.scan_at [of s1 kvs' 0 "max (length kvs) (length kvs')"] by simp
qed

lemma wrapper_facts:
  assumes "wrapper_at dops dat w kvs p"
  shows "witer w \<noteq> None" and "wvalid w \<longleftrightarrow> p < length kvs" and "p \<le> length kvs" and "Wrapper_status dops w = Some OK"
  using assms data.Valid_at data.at_le data.status_at by (auto simp: wrapper_at_def Wrapper_status_def)

lemma index_facts:
  assumes "wrapper_at iops iat w kvs p"
  shows "Wrapper_Valid w \<longleftrightarrow> p < length kvs" and "p \<le> length kvs" and "Wrapper_status iops w = Some OK"
    and "p < length kvs \<Longrightarrow> Wrapper_value iops w = Some (snd (kvs ! p))"
  using assms index.Valid_at index.at_le index.status_at index.value_at
  by (auto simp: wrapper_at_def Wrapper_Valid_def Wrapper_status_def Wrapper_value_def)

lemma tl_inv_status:
  assumes "tl_inv iops iat dops dat bf idx blocks t j"
  shows "Wrapper_status dops (data_iter t) = None \<or> Wrapper_status dops (data_iter t) = Some OK"
proof (cases "witer (data_iter t)")
  case (Some d)
  then obtain m p where "wrapper_at dops dat (data_iter t) (blocks ! m) p"
    using assms by (auto simp: tl_inv_def)
  then show ?thesis
    using wrapper_facts(4) by blast
qed (simp add: Wrapper_status_def)

lemma SaveError_OK [simp]: "SaveError OK t = t"
  by (simp add: SaveError_def)

lemma SetDataIterator_null:
  assumes "tl_inv iops iat dops dat bf idx blocks t j"
  shows "SetDataIterator dops None t = Some (t\<lparr>data_iter := (data_iter t)\<lparr>witer := None, wvalid := False\<rparr>\<rparr>)"
  using tl_inv_status [OF assms] by (auto simp: SetDataIterator_def Wrapper_Set_def Let_def)

lemma InitDataBlock_placed:
  assumes idx: "index_of cmp dat bf idx blocks" and inv: "tl_inv iops iat dops dat bf idx blocks t j"
  shows "\<exists>t' p. InitDataBlock iops dops bf t = Some t' \<and> placed t' idx blocks j p"
proof -
  have index: "wrapper_at iops iat (index_iter t) idx j" and st: "tl_status t = OK"
    using inv by (simp_all add: tl_inv_def)
  have len: "length idx = length blocks"
    using idx by (simp add: index_of_def)
  show ?thesis
  proof (cases "j < length blocks")
    case False
    then show ?thesis
      using index_facts(1) [OF index] len SetDataIterator_null [OF inv] index st
      by (simp add: InitDataBlock_def placed_def)
  next
    case True
    let ?h = "snd (idx ! j)"
    have v: "Wrapper_Valid (index_iter t)" "Wrapper_value iops (index_iter t) = Some ?h"
      using index_facts(1,4) [OF index] True len by simp_all
    obtain d q where d: "bf ?h = Some d" and q: "dat d (blocks ! j) q"
      using idx True by (auto simp: index_of_def)
    show ?thesis
    proof (cases "witer (data_iter t) \<noteq> None \<and> ?h = data_block_handle t")
      case same: True
      then obtain m p where m: "m < length blocks" "?h = snd (idx ! m)" "wrapper_at dops dat (data_iter t) (blocks ! m) p"
        using inv by (auto simp: tl_inv_def)
      obtain q' where "dat d (blocks ! m) q'"
        using idx m(1,2) d by (auto simp: index_of_def)
      then have "blocks ! m = blocks ! j"
        using contents_unique q by blast
      then show ?thesis
        using v same m(3) index st True by (auto simp: InitDataBlock_def placed_def Slice_compare_eq)
    next
      case other: False
      let ?t = "t\<lparr>data_block_handle := ?h\<rparr>"
      obtain w where w: "Wrapper_Update dops d (data_iter t) = Some w" "wrapper_at dops dat w (blocks ! j) q"
        using data.Wrapper_Update_at [OF q, of "data_iter t"] by blast
      have "(case Wrapper_status dops (data_iter t) of None \<Rightarrow> ?t | Some s \<Rightarrow> SaveError s ?t) = ?t"
        using tl_inv_status [OF inv] by auto
      then have "SetDataIterator dops (Some d) ?t = Some (?t\<lparr>data_iter := w\<rparr>)"
        using w(1) by (simp add: SetDataIterator_def Wrapper_Set_def Let_def)
      then have "InitDataBlock iops dops bf t = Some (?t\<lparr>data_iter := w\<rparr>)"
        using v other d by (auto simp: InitDataBlock_def Slice_compare_eq)
      then show ?thesis
        using w(2) index st True by (auto simp: placed_def)
    qed
  qed
qed

lemma placed_inv: "placed t idx blocks j p \<Longrightarrow> tl_inv iops iat dops dat bf idx blocks t j"
  by (auto simp: placed_def tl_inv_def split: if_splits)

lemma data_move_placed:
  assumes "placed t idx blocks j p"
    and "\<And>w. j < length blocks \<Longrightarrow> wrapper_at dops dat w (blocks ! j) p \<Longrightarrow> \<exists>w'. f w = Some w' \<and> wrapper_at dops dat w' (blocks ! j) q"
  shows "\<exists>t'. data_move f t = Some t' \<and> placed t' idx blocks j q"
proof (cases "j < length blocks")
  case True
  then have w: "wrapper_at dops dat (data_iter t) (blocks ! j) p"
    using assms(1) by (simp add: placed_def)
  then obtain w' where "f (data_iter t) = Some w'" "wrapper_at dops dat w' (blocks ! j) q"
    using assms(2) True by blast
  then show ?thesis
    using assms(1) True wrapper_facts(1) [OF w] by (auto simp: placed_def data_move_def)
next
  case False
  then show ?thesis
    using assms(1) by (auto simp: placed_def data_move_def)
qed

text \<open>Moving the index, then the data iterator to an end of the block reached.\<close>

lemma index_move_inv:
  assumes "tl_inv iops iat dops dat bf idx blocks t j" and "\<exists>w'. f (index_iter t) = Some w' \<and> wrapper_at iops iat w' idx j'"
  shows "\<exists>t'. index_move f t = Some t' \<and> tl_inv iops iat dops dat bf idx blocks t' j'"
  using assms by (auto simp: tl_inv_def index_move_def)

lemma placed_tl_at:
  assumes "index_of cmp dat bf idx blocks" and "sorted_keys cmp valid (concat blocks)"
    and "placed t idx blocks j p" and "j < length blocks" and "p < length (blocks ! j)"
  shows "tl_at cmp valid iops iat dops dat bf t (concat blocks) (before blocks j + p)"
proof -
  have "data_block_handle t = snd (idx ! j)" "wrapper_at dops dat (data_iter t) (blocks ! j) p"
    using assms(3,4) by (simp_all add: placed_def)
  then show ?thesis
    unfolding tl_at_def using assms placed_inv [OF assms(3)] by blast
qed

lemma null_tl_at:
  assumes "index_of cmp dat bf idx blocks" and "sorted_keys cmp valid (concat blocks)"
    and "tl_inv iops iat dops dat bf idx blocks t j"
  shows "\<exists>t'. SetDataIterator dops None t = Some t' \<and> tl_at cmp valid iops iat dops dat bf t' (concat blocks) (length (concat blocks))"
proof -
  let ?t = "t\<lparr>data_iter := (data_iter t)\<lparr>witer := None, wvalid := False\<rparr>\<rparr>"
  have "tl_inv iops iat dops dat bf idx blocks ?t j"
    using assms(3) by (simp add: tl_inv_def)
  moreover have "witer (data_iter ?t) = None \<and> \<not> wvalid (data_iter ?t)"
    by simp
  ultimately have "tl_at cmp valid iops iat dops dat bf ?t (concat blocks) (length (concat blocks))"
    unfolding tl_at_def using assms(1,2) by blast
  then show ?thesis
    using SetDataIterator_null [OF assms(3)] by blast
qed

text \<open>Skipping forward over empty blocks.\<close>

lemma skip_forward:
  assumes idx: "index_of cmp dat bf idx blocks" and sorted: "sorted_keys cmp valid (concat blocks)"
    and "placed t idx blocks j p"
  shows "\<exists>t'. SkipEmptyDataBlocksForward iops dops bf t = Some t' \<and>
    tl_at cmp valid iops iat dops dat bf t' (concat blocks)
      (if j < length blocks \<and> p < length (blocks ! j) then before blocks j + p else before blocks (Suc j))"
  using assms(3)
proof (induction "length blocks - j" arbitrary: t j p rule: less_induct)
  case less
  have len: "length idx = length blocks"
    using idx by (simp add: index_of_def)
  have index: "wrapper_at iops iat (index_iter t) idx j"
    using less.prems by (simp add: placed_def)
  show ?case
  proof (cases "j < length blocks")
    case False
    then have "witer (data_iter t) = None" "\<not> Wrapper_Valid (index_iter t)" "before blocks (Suc j) = length (concat blocks)"
      using less.prems index_facts(1) [OF index] len by (auto simp: placed_def before_def)
    then show ?thesis
      using null_tl_at [OF idx sorted placed_inv [OF less.prems]] False
      by (subst SkipEmptyDataBlocksForward.simps) auto
  next
    case True
    then have w: "wrapper_at dops dat (data_iter t) (blocks ! j) p"
      using less.prems by (simp add: placed_def)
    show ?thesis
    proof (cases "p < length (blocks ! j)")
      case p: True
      then show ?thesis
        using True wrapper_facts(1,2) [OF w] placed_tl_at [OF idx sorted less.prems True p]
        by (subst SkipEmptyDataBlocksForward.simps) (auto simp: Wrapper_Valid_def)
    next
      case False
      have "\<exists>w'. Wrapper_Next iops (index_iter t) = Some w' \<and> wrapper_at iops iat w' idx (Suc j)"
        using index.Wrapper_move_at [OF index index.Next_at] True len by (simp add: Wrapper_Next_def)
      then obtain t1 where t1: "index_move (Wrapper_Next iops) t = Some t1" "tl_inv iops iat dops dat bf idx blocks t1 (Suc j)"
        using index_move_inv [OF placed_inv [OF less.prems]] by blast
      obtain t2 p2 where t2: "InitDataBlock iops dops bf t1 = Some t2" "placed t2 idx blocks (Suc j) p2"
        using InitDataBlock_placed [OF idx t1(2)] by blast
      obtain t3 where t3: "data_move (Wrapper_SeekToFirst dops) t2 = Some t3" "placed t3 idx blocks (Suc j) 0"
        using data_move_placed [OF t2(2), of "Wrapper_SeekToFirst dops" 0] data.Wrapper_move_at [OF _ data.SeekToFirst_at]
        by (auto simp: Wrapper_SeekToFirst_def)
      have "(if Suc j < length blocks \<and> 0 < length (blocks ! Suc j) then before blocks (Suc j) + 0 else before blocks (Suc (Suc j))) =
          before blocks (Suc j)"
        using before_Suc [of "Suc j" blocks] by (cases "Suc j < length blocks") (auto simp: before_def)
      then have "\<exists>t'. SkipEmptyDataBlocksForward iops dops bf t3 = Some t' \<and>
          tl_at cmp valid iops iat dops dat bf t' (concat blocks) (before blocks (Suc j))"
        using less.hyps [OF _ t3(2)] True by simp
      then show ?thesis
        using True False wrapper_facts(2) [OF w] index_facts(1) [OF index] len t1(1) t2(1) t3(1)
        by (subst SkipEmptyDataBlocksForward.simps) (auto simp: Wrapper_Valid_def)
    qed
  qed
qed

text \<open>Skipping backward.\<close>

lemma skip_backward_end:
  assumes idx: "index_of cmp dat bf idx blocks" and sorted: "sorted_keys cmp valid (concat blocks)"
    and placed: "placed t idx blocks j p" and "\<not> j < length blocks"
  shows "\<exists>t'. SkipEmptyDataBlocksBackward iops dops bf t = Some t' \<and>
    tl_at cmp valid iops iat dops dat bf t' (concat blocks) (length (concat blocks))"
proof -
  have "wrapper_at iops iat (index_iter t) idx j" "length idx = length blocks"
    using placed idx by (simp_all add: placed_def index_of_def)
  then have "witer (data_iter t) = None" "\<not> Wrapper_Valid (index_iter t)"
    using assms(3,4) index_facts(1) by (auto simp: placed_def)
  then show ?thesis
    using null_tl_at [OF idx sorted placed_inv [OF placed]] by (subst SkipEmptyDataBlocksBackward.simps) auto
qed

lemma skip_backward:
  assumes idx: "index_of cmp dat bf idx blocks" and sorted: "sorted_keys cmp valid (concat blocks)"
    and "placed t idx blocks j p"
  shows "\<exists>t'. SkipEmptyDataBlocksBackward iops dops bf t = Some t' \<and>
    tl_at cmp valid iops iat dops dat bf t' (concat blocks)
      (if j < length blocks \<and> p < length (blocks ! j) then before blocks j + p
       else if j < length blocks \<and> before blocks j > 0 then before blocks j - 1 else length (concat blocks))"
  using assms(3)
proof (induction j arbitrary: t p rule: less_induct)
  case (less j)
  have len: "length idx = length blocks"
    using idx by (simp add: index_of_def)
  have index: "wrapper_at iops iat (index_iter t) idx j"
    using less.prems by (simp add: placed_def)
  show ?case
  proof (cases "j < length blocks")
    case False
    then show ?thesis
      using skip_backward_end [OF idx sorted less.prems False] by simp
  next
    case True
    then have w: "wrapper_at dops dat (data_iter t) (blocks ! j) p"
      using less.prems by (simp add: placed_def)
    show ?thesis
    proof (cases "p < length (blocks ! j)")
      case p: True
      then show ?thesis
        using True wrapper_facts(1,2) [OF w] placed_tl_at [OF idx sorted less.prems True p]
        by (subst SkipEmptyDataBlocksBackward.simps) (auto simp: Wrapper_Valid_def)
    next
      case False
      let ?j = "prev_pos j idx"
      have "\<exists>w'. Wrapper_Prev iops (index_iter t) = Some w' \<and> wrapper_at iops iat w' idx ?j"
        using index.Wrapper_move_at [OF index index.Prev_at] True len by (simp add: Wrapper_Prev_def)
      then obtain t1 where t1: "index_move (Wrapper_Prev iops) t = Some t1" "tl_inv iops iat dops dat bf idx blocks t1 ?j"
        using index_move_inv [OF placed_inv [OF less.prems]] by blast
      obtain t2 p2 where t2: "InitDataBlock iops dops bf t1 = Some t2" "placed t2 idx blocks ?j p2"
        using InitDataBlock_placed [OF idx t1(2)] by blast
      obtain t3 where t3: "data_move (Wrapper_SeekToLast dops) t2 = Some t3" "placed t3 idx blocks ?j (length (blocks ! ?j) - 1)"
        using data_move_placed [OF t2(2), of "Wrapper_SeekToLast dops" "length (blocks ! ?j) - 1"] data.Wrapper_move_at [OF _ data.SeekToLast_at]
        by (auto simp: Wrapper_SeekToLast_def)
      have "\<exists>t'. SkipEmptyDataBlocksBackward iops dops bf t3 = Some t' \<and>
          tl_at cmp valid iops iat dops dat bf t' (concat blocks)
            (if before blocks j > 0 then before blocks j - 1 else length (concat blocks))"
      proof (cases j)
        case 0
        then have "\<not> ?j < length blocks"
          using len by (simp add: prev_pos_def)
        from skip_backward_end [OF idx sorted t3(2) this] 0 show ?thesis
          by simp
      next
        case (Suc m)
        then have m: "?j = m" "m < j" "m < length blocks"
          using True by (simp_all add: prev_pos_def)
        have "(if m < length blocks \<and> length (blocks ! m) - 1 < length (blocks ! m) then before blocks m + (length (blocks ! m) - 1)
            else if m < length blocks \<and> before blocks m > 0 then before blocks m - 1 else length (concat blocks)) =
            (if before blocks j > 0 then before blocks j - 1 else length (concat blocks))"
          using before_Suc [OF m(3)] m(3) Suc by auto
        with less.IH [OF m(2) t3(2) [unfolded m(1)]] show ?thesis
          by simp
      qed
      then show ?thesis
        using True False wrapper_facts(2) [OF w] index_facts(1) [OF index] len t1(1) t2(1) t3(1)
        by (subst SkipEmptyDataBlocksBackward.simps) (auto simp: Wrapper_Valid_def)
    qed
  qed
qed

text \<open>Seeking: the block the index leads to is the right one.\<close>

lemma seek_pos_concat:
  assumes idx: "index_of cmp dat bf idx blocks" and sorted: "sorted_keys cmp valid (concat blocks)"
    and isorted: "sorted_keys cmp valid idx" and k: "valid k"
  defines "j \<equiv> seek_pos cmp k idx"
  shows "seek_pos cmp k (concat blocks) =
    (if j < length blocks \<and> seek_pos cmp k (blocks ! j) < length (blocks ! j) then before blocks j + seek_pos cmp k (blocks ! j)
     else before blocks (Suc j))"
proof -
  have len: "length idx = length blocks"
    using idx by (simp add: index_of_def)
  let ?P = "\<lambda>kv :: bytes \<times> bytes. cmp (fst kv) k < 0"
  have valid_kv: "valid (fst kv)" if "m < length blocks" "kv \<in> set (blocks ! m)" for m kv
    using sorted that by (auto simp: sorted_keys_def list_all_iff)
  have ivalid: "valid (fst (idx ! m))" if "m < length idx" for m
    using isorted that by (simp add: sorted_keys_def list_all_length)
  have low: "?P kv" if m: "m < j" "m < length blocks" and kv: "kv \<in> set (blocks ! m)" for m kv
  proof -
    have "?P (idx ! m)"
      using m(1) unfolding j_def seek_pos_def by (metis nth_mem set_takeWhileD takeWhile_nth)
    moreover have "cmp (fst kv) (fst (idx ! m)) \<le> 0"
      using idx m(2) kv by (auto simp: index_of_def list_all_iff)
    ultimately show ?thesis
      using index.cmp_le_less_trans [of "fst kv" "fst (idx ! m)" k] valid_kv m(2) kv ivalid len k by auto
  qed
  have all: "?P kv" if "kv \<in> set (concat (take j blocks))" for kv
  proof -
    obtain b where b: "b \<in> set (take j blocks)" "kv \<in> set b"
      using \<open>kv \<in> set (concat (take j blocks))\<close> by auto
    then obtain m where "m < j" "m < length blocks" "blocks ! m = b"
      by (auto simp: in_set_conv_nth)
    with low b(2) show ?thesis
      by blast
  qed
  show ?thesis
  proof (cases "j < length blocks")
    case False
    then have "takeWhile ?P (concat blocks) = concat blocks"
      using all by simp
    then show ?thesis
      using False by (simp add: seek_pos_def before_def del: takeWhile_eq_all_conv)
  next
    case True
    have split: "concat blocks = concat (take j blocks) @ blocks ! j @ concat (drop (Suc j) blocks)"
      by (rule concat_split_nth [OF True])
    have tw: "takeWhile ?P (concat blocks) = concat (take j blocks) @ takeWhile ?P (blocks ! j @ concat (drop (Suc j) blocks))"
      unfolding split using all by (intro takeWhile_append2) auto
    show ?thesis
    proof (cases "seek_pos cmp k (blocks ! j) < length (blocks ! j)")
      case inside: True
      have "blocks ! j ! seek_pos cmp k (blocks ! j) \<in> set (blocks ! j)" "\<not> ?P (blocks ! j ! seek_pos cmp k (blocks ! j))"
        using nth_length_takeWhile [of ?P "blocks ! j"] inside unfolding seek_pos_def by simp_all
      then have "takeWhile ?P (blocks ! j @ concat (drop (Suc j) blocks)) = takeWhile ?P (blocks ! j)"
        by (rule takeWhile_append1)
      then show ?thesis
        using True inside tw by (simp add: seek_pos_def before_def)
    next
      case outside: False
      then have "length (takeWhile ?P (blocks ! j)) = length (blocks ! j)"
        using length_takeWhile_le [of ?P "blocks ! j"] by (simp add: seek_pos_def)
      then have block: "takeWhile ?P (blocks ! j) = blocks ! j"
        by (metis takeWhile_eq_take take_all order_refl)
      have "\<not> ?P kv" if "kv \<in> set (concat (drop (Suc j) blocks))" for kv
      proof -
        have 1: "cmp (fst (idx ! j)) (fst kv) < 0"
          using idx True that by (auto simp: index_of_def list_all_iff)
        have 2: "\<not> cmp (fst (idx ! j)) k < 0"
          using True len nth_length_takeWhile [of ?P idx] by (simp add: j_def seek_pos_def)
        have v: "valid (fst kv)" "valid (fst (idx ! j))"
          using that sorted ivalid True len by (auto simp: sorted_keys_def list_all_iff dest: in_set_dropD)
        show ?thesis
          using index.cmp_less_trans [OF v(2,1) k 1] 2 by blast
      qed
      then have "takeWhile ?P (concat (drop (Suc j) blocks)) = []"
        by (cases "concat (drop (Suc j) blocks)") (auto simp del: set_concat concat_eq_Nil_conv)
      then have "takeWhile ?P (blocks ! j @ concat (drop (Suc j) blocks)) = blocks ! j"
        using block by (simp add: takeWhile_append)
      then show ?thesis
        using True outside tw before_Suc [OF True] by (simp add: seek_pos_def before_def)
    qed
  qed
qed

text \<open>The contract.\<close>

lemma placed_read:
  assumes "j < length blocks" and "wrapper_at dops dat (data_iter t) (blocks ! j) p" and "p < length (blocks ! j)"
  shows "TwoLevel_Valid t" and "TwoLevel_key t = Some (fst (concat blocks ! (before blocks j + p)))"
    and "TwoLevel_value dops t = Some (snd (concat blocks ! (before blocks j + p)))"
proof -
  note w = data.wrapped
  show v: "TwoLevel_Valid t"
    using wrapper_facts(2) [OF assms(2)] assms(3) by (simp add: TwoLevel_Valid_def Wrapper_Valid_def)
  show "TwoLevel_key t = Some (fst (concat blocks ! (before blocks j + p)))"
    "TwoLevel_value dops t = Some (snd (concat blocks ! (before blocks j + p)))"
    using v iterator.key_at [OF w assms(2,3)] iterator.value_at [OF w assms(2,3)] nth_concat_before [OF assms(1,3)]
    by (simp_all add: TwoLevel_key_def TwoLevel_value_def WrapperIterator_def)
qed

lemma seeks:
  assumes idx: "index_of cmp dat bf idx blocks" and sorted: "sorted_keys cmp valid (concat blocks)"
    and inv: "tl_inv iops iat dops dat bf idx blocks t j"
  shows "\<exists>t'. TwoLevel_SeekToFirst iops dops bf t = Some t' \<and> tl_at cmp valid iops iat dops dat bf t' (concat blocks) 0"
    and "\<exists>t'. TwoLevel_SeekToLast iops dops bf t = Some t' \<and>
      tl_at cmp valid iops iat dops dat bf t' (concat blocks) (length (concat blocks) - 1)"
    and "valid k \<Longrightarrow> \<exists>t'. TwoLevel_Seek iops dops bf k t = Some t' \<and>
      tl_at cmp valid iops iat dops dat bf t' (concat blocks) (seek_pos cmp k (concat blocks))"
proof -
  have index: "wrapper_at iops iat (index_iter t) idx j"
    using inv by (simp add: tl_inv_def)
  have len: "length idx = length blocks"
    using idx by (simp add: index_of_def)
  have go: "\<exists>t1 t2 p. index_move f t = Some t1 \<and> InitDataBlock iops dops bf t1 = Some t2 \<and> placed t2 idx blocks m p"
    if move: "\<exists>w'. f (index_iter t) = Some w' \<and> wrapper_at iops iat w' idx m" for f m
  proof -
    obtain t1 where "index_move f t = Some t1" "tl_inv iops iat dops dat bf idx blocks t1 m"
      using index_move_inv [OF inv, of f m] move by blast
    then show ?thesis
      using InitDataBlock_placed [OF idx] by blast
  qed
  have "\<exists>w'. Wrapper_SeekToFirst iops (index_iter t) = Some w' \<and> wrapper_at iops iat w' idx 0"
    using index.Wrapper_move_at [OF index index.SeekToFirst_at] by (simp add: Wrapper_SeekToFirst_def)
  from go [of "Wrapper_SeekToFirst iops" 0, OF this] obtain t20 t2 p where t20: "index_move (Wrapper_SeekToFirst iops) t = Some t20" and
    t2: "InitDataBlock iops dops bf t20 = Some t2"
    "placed t2 idx blocks 0 p"
    by blast
  obtain t3 where t3: "data_move (Wrapper_SeekToFirst dops) t2 = Some t3" "placed t3 idx blocks 0 0"
    using data_move_placed [OF t2(2), of "Wrapper_SeekToFirst dops" 0] data.Wrapper_move_at [OF _ data.SeekToFirst_at]
    by (auto simp: Wrapper_SeekToFirst_def)
  have "(if 0 < length blocks \<and> 0 < length (blocks ! 0) then before blocks 0 + 0 else before blocks (Suc 0)) = 0"
    by (cases blocks) (auto simp: before_def)
  with skip_forward [OF idx sorted t3(2)] t20 t2(1) t3(1)
  show "\<exists>t'. TwoLevel_SeekToFirst iops dops bf t = Some t' \<and> tl_at cmp valid iops iat dops dat bf t' (concat blocks) 0"
    by (simp add: TwoLevel_SeekToFirst_def)
  let ?l = "length idx - 1"
  have "\<exists>w'. Wrapper_SeekToLast iops (index_iter t) = Some w' \<and> wrapper_at iops iat w' idx ?l"
    using index.Wrapper_move_at [OF index index.SeekToLast_at] by (simp add: Wrapper_SeekToLast_def)
  from go [of "Wrapper_SeekToLast iops" ?l, OF this] obtain t40 t4 p4 where t40: "index_move (Wrapper_SeekToLast iops) t = Some t40" and
    t4: "InitDataBlock iops dops bf t40 = Some t4"
    "placed t4 idx blocks ?l p4"
    by blast
  obtain t5 where t5: "data_move (Wrapper_SeekToLast dops) t4 = Some t5" "placed t5 idx blocks ?l (length (blocks ! ?l) - 1)"
    using data_move_placed [OF t4(2), of "Wrapper_SeekToLast dops" "length (blocks ! ?l) - 1"] data.Wrapper_move_at [OF _ data.SeekToLast_at]
    by (auto simp: Wrapper_SeekToLast_def)
  have "(if ?l < length blocks \<and> length (blocks ! ?l) - 1 < length (blocks ! ?l) then before blocks ?l + (length (blocks ! ?l) - 1)
      else if ?l < length blocks \<and> before blocks ?l > 0 then before blocks ?l - 1 else length (concat blocks)) = length (concat blocks) - 1"
  proof (cases "blocks = []")
    case False
    define b n where "b = before blocks ?l" and "n = length (blocks ! ?l)"
    have "length (concat blocks) = b + n" "?l < length blocks"
      using False before_Suc [of ?l blocks] before_length [of blocks] len by (simp_all add: b_def n_def)
    then show ?thesis
      unfolding b_def [symmetric] n_def [symmetric] by auto
  qed simp
  with skip_backward [OF idx sorted t5(2)] t40 t4(1) t5(1)
  show "\<exists>t'. TwoLevel_SeekToLast iops dops bf t = Some t' \<and>
      tl_at cmp valid iops iat dops dat bf t' (concat blocks) (length (concat blocks) - 1)"
    by (simp add: TwoLevel_SeekToLast_def)
  show "\<exists>t'. TwoLevel_Seek iops dops bf k t = Some t' \<and>
      tl_at cmp valid iops iat dops dat bf t' (concat blocks) (seek_pos cmp k (concat blocks))" if k: "valid k"
  proof -
    let ?m = "seek_pos cmp k idx"
    have "\<exists>w'. Wrapper_Seek iops k (index_iter t) = Some w' \<and> wrapper_at iops iat w' idx ?m"
      using index.Wrapper_move_at [OF index index.Seek_at [OF _ k]] by (simp add: Wrapper_Seek_def)
    from go [of "Wrapper_Seek iops k" ?m, OF this] obtain t60 t6 p6 where t60: "index_move (Wrapper_Seek iops k) t = Some t60" and
    t6: "InitDataBlock iops dops bf t60 = Some t6"
      "placed t6 idx blocks ?m p6"
      by blast
    obtain t7 where t7: "data_move (Wrapper_Seek dops k) t6 = Some t7" "placed t7 idx blocks ?m (seek_pos cmp k (blocks ! ?m))"
      using data_move_placed [OF t6(2), of "Wrapper_Seek dops k" "seek_pos cmp k (blocks ! ?m)"] data.Wrapper_move_at [OF _ data.Seek_at [OF _ k]]
      by (auto simp: Wrapper_Seek_def)
    have "sorted_keys cmp valid idx"
      using index.at_sorted index by (auto simp: wrapper_at_def)
    from seek_pos_concat [OF idx sorted this k] skip_forward [OF idx sorted t7(2)] t60 t6(1) t7(1) show ?thesis
      by (simp add: TwoLevel_Seek_def)
  qed
qed

lemma two_level_iterator:
  "iterator cmp valid (TwoLevelIterator iops dops bf) (tl_at cmp valid iops iat dops dat bf)"
proof (rule iterator.intro)
  show "key_order cmp valid"
    by (rule index.key_order_axioms)
  show "iterator_axioms cmp valid (TwoLevelIterator iops dops bf) (tl_at cmp valid iops iat dops dat bf)"
  proof
    fix t :: "('i, 'd) TwoLevel" and kvs i k
    assume at: "tl_at cmp valid iops iat dops dat bf t kvs i"
    then obtain idx blocks j where sorted: "sorted_keys cmp valid (concat blocks)" and idx: "index_of cmp dat bf idx blocks"
      and kvs: "kvs = concat blocks" and inv: "tl_inv iops iat dops dat bf idx blocks t j"
      and pos: "(witer (data_iter t) = None \<and> \<not> wvalid (data_iter t) \<and> i = length kvs) \<or>
         (\<exists>p. j < length blocks \<and> data_block_handle t = snd (idx ! j) \<and>
            wrapper_at dops dat (data_iter t) (blocks ! j) p \<and> p < length (blocks ! j) \<and> i = before blocks j + p)"
      unfolding tl_at_def by blast
    have index: "wrapper_at iops iat (index_iter t) idx j" and st: "tl_status t = OK"
      using inv by (simp_all add: tl_inv_def)
    have lt: "before blocks j + p < length (concat blocks)" if "j < length blocks" "p < length (blocks ! j)" for p
      using before_Suc [OF that(1)] before_le [of blocks "Suc j"] that(2) by linarith
    show "sorted_keys cmp valid kvs"
      using sorted kvs by simp
    show "i \<le> length kvs"
      using pos lt kvs by (metis less_imp_le order_refl)
    show "it_Valid (TwoLevelIterator iops dops bf) t \<longleftrightarrow> i < length kvs"
      using pos lt placed_read(1) kvs by (auto simp: TwoLevelIterator_def TwoLevel_Valid_def Wrapper_Valid_def)
    show "it_status (TwoLevelIterator iops dops bf) t = OK"
      using index_facts(3) [OF index] tl_inv_status [OF inv] st
      by (auto simp: TwoLevelIterator_def TwoLevel_status_def)
    show "it_key (TwoLevelIterator iops dops bf) t = Some (fst (kvs ! i))"
      "it_value (TwoLevelIterator iops dops bf) t = Some (snd (kvs ! i))"
      "\<exists>s'. it_Next (TwoLevelIterator iops dops bf) t = Some s' \<and> tl_at cmp valid iops iat dops dat bf s' kvs (Suc i)"
      "\<exists>s'. it_Prev (TwoLevelIterator iops dops bf) t = Some s' \<and> tl_at cmp valid iops iat dops dat bf s' kvs (prev_pos i kvs)"
      if i: "i < length kvs"
    proof -
      obtain p where p: "j < length blocks" "data_block_handle t = snd (idx ! j)" "wrapper_at dops dat (data_iter t) (blocks ! j) p"
        "p < length (blocks ! j)" "i = before blocks j + p"
        using pos i by auto
      note read = placed_read [OF p(1,3,4)]
      show "it_key (TwoLevelIterator iops dops bf) t = Some (fst (kvs ! i))" "it_value (TwoLevelIterator iops dops bf) t = Some (snd (kvs ! i))"
        using read p(5) kvs by (simp_all add: TwoLevelIterator_def)
      obtain w where w: "Wrapper_Next dops (data_iter t) = Some w" "wrapper_at dops dat w (blocks ! j) (Suc p)"
        using data.Wrapper_move_at [OF p(3), of "it_Next dops" "Suc p"] data.Next_at p(4) by (auto simp: Wrapper_Next_def)
      have "placed (t\<lparr>data_iter := w\<rparr>) idx blocks j (Suc p)"
        using w(2) p index st by (simp add: placed_def)
      from skip_forward [OF idx sorted this] w(1) read(1) p before_Suc [OF p(1)]
      show "\<exists>s'. it_Next (TwoLevelIterator iops dops bf) t = Some s' \<and> tl_at cmp valid iops iat dops dat bf s' kvs (Suc i)"
        by (auto simp: TwoLevelIterator_def TwoLevel_Next_def kvs not_less_eq less_Suc_eq split: if_splits)
      obtain v where v: "Wrapper_Prev dops (data_iter t) = Some v" "wrapper_at dops dat v (blocks ! j) (prev_pos p (blocks ! j))"
        using data.Wrapper_move_at [OF p(3), of "it_Prev dops" "prev_pos p (blocks ! j)"] data.Prev_at p(4) by (auto simp: Wrapper_Prev_def)
      have "placed (t\<lparr>data_iter := v\<rparr>) idx blocks j (prev_pos p (blocks ! j))"
        using v(2) p index st by (simp add: placed_def)
      from skip_backward [OF idx sorted this] v(1) read(1) p
      show "\<exists>s'. it_Prev (TwoLevelIterator iops dops bf) t = Some s' \<and> tl_at cmp valid iops iat dops dat bf s' kvs (prev_pos i kvs)"
        by (cases p) (auto simp: TwoLevelIterator_def TwoLevel_Prev_def kvs prev_pos_def split: if_splits)
    qed
    show "\<exists>s'. it_SeekToFirst (TwoLevelIterator iops dops bf) t = Some s' \<and> tl_at cmp valid iops iat dops dat bf s' kvs 0"
      "\<exists>s'. it_SeekToLast (TwoLevelIterator iops dops bf) t = Some s' \<and> tl_at cmp valid iops iat dops dat bf s' kvs (length kvs - 1)"
      using seeks(1,2) [OF idx sorted inv] by (simp_all add: TwoLevelIterator_def kvs)
    show "\<exists>s'. it_Seek (TwoLevelIterator iops dops bf) k t = Some s' \<and> tl_at cmp valid iops iat dops dat bf s' kvs (seek_pos cmp k kvs)"
      if "valid k"
      using seeks(3) [OF idx sorted inv that] by (simp add: TwoLevelIterator_def kvs)
  qed
qed

lemma NewTwoLevelIterator_at:
  assumes "index_of cmp dat bf idx blocks" and "sorted_keys cmp valid (concat blocks)" and "iat index idx j"
  shows "\<exists>t. NewTwoLevelIterator iops index = Some t \<and>
    tl_at cmp valid iops iat dops dat bf t (concat blocks) (length (concat blocks))"
proof -
  obtain w where w: "Wrapper_Update iops index Wrapper_null = Some w" "wrapper_at iops iat w idx j"
    using index.Wrapper_Update_at [OF assms(3)] by blast
  let ?t = "\<lparr>tl_status = OK, index_iter = w, data_iter = Wrapper_null, data_block_handle = []\<rparr> :: ('i, 'd) TwoLevel"
  have "tl_inv iops iat dops dat bf idx blocks ?t j" "witer (data_iter ?t) = None \<and> \<not> wvalid (data_iter ?t)"
    using w(2) by (simp_all add: tl_inv_def Wrapper_null_def)
  then have "tl_at cmp valid iops iat dops dat bf ?t (concat blocks) (length (concat blocks))"
    unfolding tl_at_def using assms(1,2) by blast
  then show ?thesis
    using w(1) by (simp add: NewTwoLevelIterator_def Wrapper_new_def Wrapper_Set_def)
qed

end

end
