(* ===== verification/Table_Builder.thy ===== *)
theory Table_Builder
  imports Block Filter_Block
begin

text \<open>
  Building a table file (\<^verbatim>\<open>include/leveldb/table_builder.h\<close>, \<^verbatim>\<open>table/table_builder.cpp\<close>): data blocks, the
  filter block, the metaindex block, the index block and the footer.

  The file is used through \<open>Append\<close> and \<open>Flush\<close> of its interface, the snappy library through
  \<open>compress\<close>.  \<^const>\<open>None\<close> stands for a failed assertion or a null pointer dereferenced.
\<close>

section \<open>Options\<close>

text \<open>A comparator is an object: its address and its operations; the assertions inside the operations
  of the internal key comparator are shown to hold in \<open>Dbformat\<close>.  The pointers to the environment, the
  logger and the block cache are not kept in the options: they are arguments where they are used.\<close>

record Comparator =
  cmp_address :: nat
  Compare :: "bytes \<Rightarrow> bytes \<Rightarrow> int"
  FindShortestSeparator :: "bytes \<Rightarrow> bytes \<Rightarrow> bytes"
  FindShortSuccessor :: "bytes \<Rightarrow> bytes"

record FilterPolicy =
  policy_Name :: bytes
  policy_CreateFilter :: "bytes list \<Rightarrow> bytes \<Rightarrow> bytes"
  policy_KeyMayMatch :: "bytes \<Rightarrow> bytes \<Rightarrow> bool"

record Options =
  opt_comparator :: Comparator
  create_if_missing :: bool
  error_if_exists :: bool
  paranoid_checks :: bool
  write_buffer_size :: nat
  max_open_files :: int
  block_size :: nat
  block_restart_interval :: int
  max_file_size :: nat
  compression :: u8
  reuse_logs :: bool
  filter_policy :: "FilterPolicy option"

definition BytewiseComparator :: Comparator where
  "BytewiseComparator = \<lparr>cmp_address = 0, Compare = Bytewise_Compare,
     FindShortestSeparator = Bytewise_FindShortestSeparator, FindShortSuccessor = Bytewise_FindShortSuccessor\<rparr>"

definition Options_new :: Options where
  "Options_new = \<lparr>opt_comparator = BytewiseComparator, create_if_missing = False, error_if_exists = False,
     paranoid_checks = False, write_buffer_size = 4 * 2 ^ 20, max_open_files = 1000, block_size = 4096,
     block_restart_interval = 16, max_file_size = 2 * 2 ^ 20, compression = kSnappyCompression, reuse_logs = False,
     filter_policy = None\<rparr>"

section \<open>State\<close>

text \<open>\<open>index_block_options\<close> are the options with a restart interval of 1.\<close>

record 'f TableBuilder =
  tb_options :: Options
  tb_file :: 'f
  tb_offset :: u64
  tb_status :: Status
  data_block :: BlockBuilder
  tb_index_block :: BlockBuilder
  tb_last_key :: bytes
  num_entries :: int
  closed :: bool
  filter_block :: "FilterBlockBuilder option"
  pending_index_entry :: bool
  pending_handle :: BlockHandle

definition TableBuilder_new :: "Options \<Rightarrow> 'f \<Rightarrow> 'f TableBuilder option" where
  "TableBuilder_new options f =
     (case (BlockBuilder_new (block_restart_interval options), BlockBuilder_new 1) of
        (Some data, Some index) \<Rightarrow>
          let r = \<lparr>tb_options = options, tb_file = f, tb_offset = 0, tb_status = OK, data_block = data,
                tb_index_block = index, tb_last_key = [], num_entries = 0, closed = False,
                filter_block = map_option (\<lambda>_. FilterBlockBuilder_new) (filter_policy options),
                pending_index_entry = False, pending_handle = BlockHandle_new\<rparr>
          in (case filter_policy options of
                None \<Rightarrow> Some r
              | Some p \<Rightarrow> map_option (\<lambda>b. r\<lparr>filter_block := Some b\<rparr>) (StartBlock (policy_CreateFilter p) 0 FilterBlockBuilder_new))
      | _ \<Rightarrow> None)"

definition TableBuilder_delete :: "'f TableBuilder \<Rightarrow> unit option" where
  "TableBuilder_delete r = (if closed r then Some () else None)"

text \<open>The builder of filters keeps the policy it was made with: \<open>policy_CreateFilter\<close> of the options given
  to the constructor.  Here it is the argument \<open>create\<close> of the operations below.\<close>

definition ChangeOptions :: "Options \<Rightarrow> 'f TableBuilder \<Rightarrow> Status \<times> 'f TableBuilder" where
  "ChangeOptions options r =
     (if cmp_address (opt_comparator options) \<noteq> cmp_address (opt_comparator (tb_options r))
      then (InvalidArgument (str ''changing comparator while building table'') [], r)
      else (OK, r\<lparr>tb_options := options\<rparr>))"

section \<open>Writing blocks\<close>

definition WriteRawBlock ::
  "('f \<Rightarrow> bytes \<Rightarrow> Status \<times> 'f) \<Rightarrow> bytes \<Rightarrow> u8 \<Rightarrow> 'f TableBuilder \<Rightarrow> BlockHandle \<times> 'f TableBuilder" where
  "WriteRawBlock Append block_contents t r =
     (let handle = \<lparr>bh_offset = tb_offset r, bh_size = word_of_nat (length block_contents)\<rparr>;
          (s, f) = Append (tb_file r) block_contents;
          r = r\<lparr>tb_status := s, tb_file := f\<rparr>
      in if ok s then
           let crc = Extend (Value block_contents) [t];
               trailer = [t] @ EncodeFixed32 (Mask crc);
               (s, f) = Append (tb_file r) trailer;
               r = r\<lparr>tb_status := s, tb_file := f\<rparr>
           in (handle,
               if ok s then r\<lparr>tb_offset := tb_offset r + word_of_nat (length block_contents) + word_of_nat kBlockTrailerSize\<rparr>
               else r)
         else (handle, r))"

definition WriteBlock ::
  "('f \<Rightarrow> bytes \<Rightarrow> Status \<times> 'f) \<Rightarrow> (bytes \<Rightarrow> bytes option) \<Rightarrow> BlockBuilder \<Rightarrow> 'f TableBuilder \<Rightarrow>
     (BlockHandle \<times> BlockBuilder \<times> 'f TableBuilder) option" where
  "WriteBlock Append compress block r =
     (if \<not> ok (tb_status r) then None
      else
        let (raw, block) = BlockBuilder_Finish block;
            t = compression (tb_options r);
            (block_contents, t) =
              (if t = kNoCompression then (raw, t)
               else if t = kSnappyCompression then
                 (case compress raw of
                    Some compressed \<Rightarrow>
                      if length compressed < length raw - length raw div 8 then (compressed, t) else (raw, kNoCompression)
                  | None \<Rightarrow> (raw, kNoCompression))
               else ([], t));
            (handle, r) = WriteRawBlock Append block_contents t r
        in Some (handle, BlockBuilder_Reset block, r))"

definition TableBuilder_Flush ::
  "('f \<Rightarrow> bytes \<Rightarrow> Status \<times> 'f) \<Rightarrow> ('f \<Rightarrow> Status \<times> 'f) \<Rightarrow> (bytes \<Rightarrow> bytes option) \<Rightarrow> (bytes list \<Rightarrow> bytes \<Rightarrow> bytes) \<Rightarrow>
     'f TableBuilder \<Rightarrow> 'f TableBuilder option" where
  "TableBuilder_Flush Append Flush compress create r =
     (if closed r then None
      else if \<not> ok (tb_status r) then Some r
      else if BlockBuilder_empty (data_block r) then Some r
      else if pending_index_entry r then None
      else
        (case WriteBlock Append compress (data_block r) r of
           None \<Rightarrow> None
         | Some (handle, block, r) \<Rightarrow>
             let r = r\<lparr>pending_handle := handle, data_block := block\<rparr>;
                 r = (if ok (tb_status r)
                      then (case Flush (tb_file r) of (s, f) \<Rightarrow> r\<lparr>pending_index_entry := True, tb_status := s, tb_file := f\<rparr>)
                      else r)
             in (case filter_block r of
                   None \<Rightarrow> Some r
                 | Some fb \<Rightarrow> map_option (\<lambda>fb. r\<lparr>filter_block := Some fb\<rparr>) (StartBlock create (tb_offset r) fb))))"

text \<open>Adding the index entry of the block before; \<open>k\<close> is the key for it.\<close>

definition add_index_entry :: "bytes \<Rightarrow> 'f TableBuilder \<Rightarrow> 'f TableBuilder option" where
  "add_index_entry k r =
     (case BlockHandle_EncodeTo (pending_handle r) [] of
        None \<Rightarrow> None
      | Some handle_encoding \<Rightarrow>
          map_option (\<lambda>b. r\<lparr>tb_last_key := k, tb_index_block := b, pending_index_entry := False\<rparr>)
            (BlockBuilder_Add (Compare (opt_comparator (tb_options r))) 1 k handle_encoding (tb_index_block r)))"

definition TableBuilder_Add ::
  "('f \<Rightarrow> bytes \<Rightarrow> Status \<times> 'f) \<Rightarrow> ('f \<Rightarrow> Status \<times> 'f) \<Rightarrow> (bytes \<Rightarrow> bytes option) \<Rightarrow> (bytes list \<Rightarrow> bytes \<Rightarrow> bytes) \<Rightarrow>
     bytes \<Rightarrow> bytes \<Rightarrow> 'f TableBuilder \<Rightarrow> 'f TableBuilder option" where
  "TableBuilder_Add Append Flush compress create k v r =
     (let cmp = opt_comparator (tb_options r) in
      if closed r then None
      else if \<not> ok (tb_status r) then Some r
      else if num_entries r > 0 \<and> \<not> Compare cmp k (tb_last_key r) > 0 then None
      else
        (case (if pending_index_entry r then
                 if \<not> BlockBuilder_empty (data_block r) then None
                 else add_index_entry (FindShortestSeparator cmp (tb_last_key r) k) r
               else Some r) of
           None \<Rightarrow> None
         | Some r \<Rightarrow>
             let r = r\<lparr>filter_block := map_option (AddKey k) (filter_block r), tb_last_key := k, num_entries := num_entries r + 1\<rparr>
             in (case BlockBuilder_Add (Compare cmp) (block_restart_interval (tb_options r)) k v (data_block r) of
                   None \<Rightarrow> None
                 | Some b \<Rightarrow>
                     let r = r\<lparr>data_block := b\<rparr> in
                     if CurrentSizeEstimate b \<ge> block_size (tb_options r) then TableBuilder_Flush Append Flush compress create r
                     else Some r)))"

text \<open>The steps of \<open>Finish\<close>: the filter block, the metaindex block, the index block and the footer.\<close>

definition finish_filter ::
  "('f \<Rightarrow> bytes \<Rightarrow> Status \<times> 'f) \<Rightarrow> (bytes list \<Rightarrow> bytes \<Rightarrow> bytes) \<Rightarrow> 'f TableBuilder \<Rightarrow> BlockHandle \<times> 'f TableBuilder" where
  "finish_filter Append create r =
     (case filter_block r of
        Some fb \<Rightarrow>
          if ok (tb_status r) then
            let (contents, fb) = FilterBlock_Finish create fb
            in WriteRawBlock Append contents kNoCompression (r\<lparr>filter_block := Some fb\<rparr>)
          else (BlockHandle_new, r)
      | None \<Rightarrow> (BlockHandle_new, r))"

definition finish_metaindex ::
  "('f \<Rightarrow> bytes \<Rightarrow> Status \<times> 'f) \<Rightarrow> (bytes \<Rightarrow> bytes option) \<Rightarrow> BlockHandle \<Rightarrow> 'f TableBuilder \<Rightarrow>
     (BlockHandle \<times> 'f TableBuilder) option" where
  "finish_metaindex Append compress filter_block_handle r =
     (if ok (tb_status r) then
        Option.bind (BlockBuilder_new (block_restart_interval (tb_options r))) (\<lambda>meta.
        Option.bind
          (case filter_block r of
             None \<Rightarrow> Some meta
           | Some _ \<Rightarrow>
               (case (filter_policy (tb_options r), BlockHandle_EncodeTo filter_block_handle []) of
                  (Some p, Some handle_encoding) \<Rightarrow>
                    BlockBuilder_Add (Compare (opt_comparator (tb_options r))) (block_restart_interval (tb_options r))
                      (str ''filter.'' @ policy_Name p) handle_encoding meta
                | _ \<Rightarrow> None)) (\<lambda>meta.
          map_option (\<lambda>(handle, _, r). (handle, r)) (WriteBlock Append compress meta r)))
      else Some (BlockHandle_new, r))"

definition finish_index ::
  "('f \<Rightarrow> bytes \<Rightarrow> Status \<times> 'f) \<Rightarrow> (bytes \<Rightarrow> bytes option) \<Rightarrow> 'f TableBuilder \<Rightarrow> (BlockHandle \<times> 'f TableBuilder) option" where
  "finish_index Append compress r =
     (if ok (tb_status r) then
        Option.bind
          (if pending_index_entry r
           then add_index_entry (FindShortSuccessor (opt_comparator (tb_options r)) (tb_last_key r)) r else Some r) (\<lambda>r.
          map_option (\<lambda>(handle, b, r). (handle, r\<lparr>tb_index_block := b\<rparr>)) (WriteBlock Append compress (tb_index_block r) r))
      else Some (BlockHandle_new, r))"

definition finish_footer ::
  "('f \<Rightarrow> bytes \<Rightarrow> Status \<times> 'f) \<Rightarrow> BlockHandle \<Rightarrow> BlockHandle \<Rightarrow> 'f TableBuilder \<Rightarrow> 'f TableBuilder option" where
  "finish_footer Append metaindex index r =
     (if ok (tb_status r) then
        (case Footer_EncodeTo \<lparr>metaindex_handle = metaindex, index_handle = index\<rparr> [] of
           None \<Rightarrow> None
         | Some footer_encoding \<Rightarrow>
             (case Append (tb_file r) footer_encoding of (s, f) \<Rightarrow>
                let r = r\<lparr>tb_status := s, tb_file := f\<rparr>
                in Some (if ok s then r\<lparr>tb_offset := tb_offset r + word_of_nat (length footer_encoding)\<rparr> else r)))
      else Some r)"

definition TableBuilder_Finish ::
  "('f \<Rightarrow> bytes \<Rightarrow> Status \<times> 'f) \<Rightarrow> ('f \<Rightarrow> Status \<times> 'f) \<Rightarrow> (bytes \<Rightarrow> bytes option) \<Rightarrow> (bytes list \<Rightarrow> bytes \<Rightarrow> bytes) \<Rightarrow>
     'f TableBuilder \<Rightarrow> (Status \<times> 'f TableBuilder) option" where
  "TableBuilder_Finish Append Flush compress create r =
     Option.bind (TableBuilder_Flush Append Flush compress create r) (\<lambda>r.
       if closed r then None
       else
         let (filter_block_handle, r) = finish_filter Append create (r\<lparr>closed := True\<rparr>) in
         Option.bind (finish_metaindex Append compress filter_block_handle r) (\<lambda>(metaindex, r).
         Option.bind (finish_index Append compress r) (\<lambda>(index, r).
           map_option (\<lambda>r. (tb_status r, r)) (finish_footer Append metaindex index r))))"

definition Abandon :: "'f TableBuilder \<Rightarrow> 'f TableBuilder option" where
  "Abandon r = (if closed r then None else Some (r\<lparr>closed := True\<rparr>))"

definition NumEntries :: "'f TableBuilder \<Rightarrow> u64" where
  "NumEntries r = word_of_int (num_entries r)"

definition FileSize :: "'f TableBuilder \<Rightarrow> u64" where
  "FileSize r = tb_offset r"

fun TableBuilder_Adds ::
  "('f \<Rightarrow> bytes \<Rightarrow> Status \<times> 'f) \<Rightarrow> ('f \<Rightarrow> Status \<times> 'f) \<Rightarrow> (bytes \<Rightarrow> bytes option) \<Rightarrow> (bytes list \<Rightarrow> bytes \<Rightarrow> bytes) \<Rightarrow>
     (bytes \<times> bytes) list \<Rightarrow> 'f TableBuilder \<Rightarrow> 'f TableBuilder option" where
  "TableBuilder_Adds Append Flush compress create [] r = Some r"
| "TableBuilder_Adds Append Flush compress create ((k, v) # kvs) r =
     Option.bind (TableBuilder_Add Append Flush compress create k v r) (TableBuilder_Adds Append Flush compress create kvs)"

section \<open>The file a builder writes\<close>

definition trailer :: "bytes \<Rightarrow> bytes" where
  "trailer raw = [kNoCompression] @ EncodeFixed32 (Mask (Extend (Value raw) [kNoCompression]))"

text \<open>The contents \<open>c\<close> of a file hold the block \<open>raw\<close> and its trailer where the handle says.\<close>

definition stored_at :: "bytes \<Rightarrow> BlockHandle \<Rightarrow> bytes \<Rightarrow> bool" where
  "stored_at c h raw \<longleftrightarrow>
     (\<exists>pre post. c = pre @ raw @ trailer raw @ post \<and> length pre = unat (bh_offset h) \<and> length raw = unat (bh_size h))"

lemma stored_append: "stored_at c h raw \<Longrightarrow> stored_at (c @ d) h raw"
  unfolding stored_at_def by (metis append_assoc)

lemma length_trailer [simp]: "length (trailer raw) = 5"
  by (simp add: trailer_def)

definition handle_bytes :: "BlockHandle \<Rightarrow> bytes" where
  "handle_bytes h = EncodeVarint64 (bh_offset h) @ EncodeVarint64 (bh_size h)"

lemma EncodeTo_handle_bytes:
  "bh_offset h \<noteq> - 1 \<Longrightarrow> bh_size h \<noteq> - 1 \<Longrightarrow> BlockHandle_EncodeTo h [] = Some (handle_bytes h)"
  by (simp add: BlockHandle_EncodeTo_def handle_bytes_def PutVarint64_def)

lemma stored_handle:
  assumes "stored_at c h raw" and "length c < 2 ^ 63"
  shows "BlockHandle_EncodeTo h [] = Some (handle_bytes h)"
proof (rule EncodeTo_handle_bytes)
  have "unat (bh_offset h) < 2 ^ 63" "unat (bh_size h) < 2 ^ 63"
    using assms by (auto simp: stored_at_def)
  moreover have "unat (- 1 :: u64) = 2 ^ 64 - 1"
    by (simp add: unsigned_minus_1_eq_mask mask_eq_exp_minus_1)
  ultimately show "bh_offset h \<noteq> - 1" "bh_size h \<noteq> - 1"
    by auto
qed

text \<open>A block with the entries \<open>kvs\<close>.\<close>

definition block_stored :: "bytes \<Rightarrow> (bytes \<times> bytes) list \<Rightarrow> BlockHandle \<Rightarrow> bool" where
  "block_stored c kvs h \<longleftrightarrow> (\<exists>es rs. entries_ok es rs \<and> map e_pair es = kvs \<and> stored_at c h (block_bytes es rs))"

lemma block_stored_append: "block_stored c kvs h \<Longrightarrow> block_stored (c @ d) kvs h"
  using stored_append unfolding block_stored_def by blast

text \<open>The entries of the index for the blocks \<open>dones\<close> written so far, with the entries \<open>cur\<close> of the
  current block after them.\<close>

definition index_entries ::
  "(bytes \<Rightarrow> bytes \<Rightarrow> int) \<Rightarrow> (bytes \<Rightarrow> bool) \<Rightarrow> (bytes \<times> bytes) list \<Rightarrow> ((bytes \<times> bytes) list \<times> BlockHandle) list \<Rightarrow> (bytes \<times> bytes) list \<Rightarrow> bool" where
  "index_entries cmp valid idx dones cur \<longleftrightarrow>
     length idx \<le> length dones \<and>
     (\<forall>j < length idx. snd (idx ! j) = handle_bytes (snd (dones ! j)) \<and> valid (fst (idx ! j)) \<and>
        list_all (\<lambda>kv. cmp (fst kv) (fst (idx ! j)) \<le> 0) (fst (dones ! j)) \<and>
        list_all (\<lambda>kv. cmp (fst (idx ! j)) (fst kv) < 0) (concat (map fst (drop (Suc j) dones)) @ cur))"

definition added :: "((bytes \<times> bytes) list \<times> BlockHandle) list \<Rightarrow> (bytes \<times> bytes) list \<Rightarrow> (bytes \<times> bytes) list" where
  "added dones cur = concat (map fst dones) @ cur"

lemma index_entries_key:
  assumes "index_entries cmp valid idx dones cur" and "\<forall>j < length idx. cmp (fst (idx ! j)) k < 0"
  shows "index_entries cmp valid idx dones (cur @ [(k, v)])"
  using assms by (auto simp: index_entries_def)

lemma index_entries_flush:
  assumes "index_entries cmp valid idx dones cur"
  shows "index_entries cmp valid idx (dones @ [(cur, h)]) []"
  using assms by (auto simp: index_entries_def nth_append)

lemma index_entries_add:
  assumes ie: "index_entries cmp valid idx dones []" and len: "length dones = Suc (length idx)"
    and k: "valid k" "list_all (\<lambda>kv. cmp (fst kv) k \<le> 0) (fst (last dones))"
  shows "index_entries cmp valid (idx @ [(k, handle_bytes (snd (last dones)))]) dones []"
proof -
  have "last dones = dones ! length idx"
    using len by (metis diff_Suc_1 last_conv_nth length_0_conv nat.simps(3))
  then show ?thesis
    using assms by (auto simp: index_entries_def nth_append less_Suc_eq)
qed

text \<open>Bounds on the size of the file.\<close>

definition data_bound :: "((bytes \<times> bytes) list \<times> BlockHandle) list \<Rightarrow> nat" where
  "data_bound dones = sum_list (map (\<lambda>(kvs, h). block_bound kvs + 5) dones)"

definition index_bound :: "((bytes \<times> bytes) list \<times> BlockHandle) list \<Rightarrow> nat" where
  "index_bound dones = sum_list (map (\<lambda>(kvs, h). length (fst (last kvs)) + 39) dones) + 8"

definition table_bound :: "(bytes \<times> bytes) list \<Rightarrow> nat" where
  "table_bound kvs = sum_list (map (\<lambda>(k, v). 2 * length k + length v + 71) kvs) + 200"

lemma block_bound_last:
  assumes "kvs \<noteq> []"
  shows "block_bound kvs + length (fst (last kvs)) + 44 \<le> sum_list (map (\<lambda>(k, v). 2 * length k + length v + 71) kvs)"
  using assms
proof (induction kvs rule: rev_nonempty_induct)
  case (snoc kv kvs)
  have "sum_list (map (\<lambda>(k, v). length k + length v + 19) kvs) \<le> sum_list (map (\<lambda>(k, v). 2 * length k + length v + 71) kvs)"
    by (rule sum_list_mono) auto
  then show ?case
    by (cases kv) (simp add: block_bound_def)
qed (auto simp: block_bound_def)

lemma bounds_le:
  assumes "list_all (\<lambda>(kvs, h). kvs \<noteq> []) dones"
  shows "data_bound dones + index_bound dones + block_bound cur + 100 \<le> table_bound (added dones cur)"
proof -
  let ?w = "\<lambda>(k, v). 2 * length k + length v + 71"
  have "data_bound dones + index_bound dones \<le> sum_list (map ?w (concat (map fst dones))) + 8"
    using assms
  proof (induction dones)
    case (Cons d dones)
    then show ?case
      using block_bound_last [of "fst d"] by (cases d) (auto simp: data_bound_def index_bound_def)
  qed (simp add: data_bound_def index_bound_def)
  moreover have "block_bound cur \<le> sum_list (map ?w cur) + 8"
    unfolding block_bound_def by (intro add_mono sum_list_mono) auto
  ultimately show ?thesis
    by (simp add: table_bound_def added_def)
qed

text \<open>A table file with the data blocks \<open>blocks\<close>.\<close>

definition table_file ::
  "(bytes \<Rightarrow> bytes \<Rightarrow> int) \<Rightarrow> (bytes \<Rightarrow> bool) \<Rightarrow> bytes \<Rightarrow> (bytes \<times> bytes) list list \<Rightarrow> bool" where
  "table_file cmp valid c blocks \<longleftrightarrow>
     length c < 2 ^ 31 \<and> sorted_keys cmp valid (concat blocks) \<and>
     (\<exists>dones idx mh ih pre enc. blocks = map fst dones \<and>
        list_all (\<lambda>(kvs, h). kvs \<noteq> [] \<and> block_bound kvs < 2 ^ 31 \<and> block_stored c kvs h) dones \<and>
        index_entries cmp valid idx dones [] \<and> length idx = length dones \<and> block_bound idx < 2 ^ 31 \<and>
        block_stored c idx ih \<and> block_stored c [] mh \<and>
        Footer_EncodeTo \<lparr>metaindex_handle = mh, index_handle = ih\<rparr> [] = Some enc \<and> length enc = kEncodedLength \<and> c = pre @ enc)"

lemma table_fileI:
  assumes "length c < 2 ^ 31" and "sorted_keys cmp valid (concat (map fst dones))"
    and "list_all (\<lambda>(kvs, h). kvs \<noteq> [] \<and> block_bound kvs < 2 ^ 31 \<and> block_stored c kvs h) dones"
    and "index_entries cmp valid idx dones []" and "length idx = length dones" and "block_bound idx < 2 ^ 31"
    and "block_stored c idx ih" and "block_stored c [] mh"
    and "Footer_EncodeTo \<lparr>metaindex_handle = mh, index_handle = ih\<rparr> [] = Some enc" and "length enc = kEncodedLength" and "c = pre @ enc"
  shows "table_file cmp valid c (map fst dones)"
  unfolding table_file_def using assms by blast

lemma table_bound_append: "table_bound xs \<le> table_bound (xs @ ys)"
  by (simp add: table_bound_def)

lemma added_flush [simp]: "added (dones @ [(cur, h)]) [] = added dones cur"
  by (simp add: added_def)

lemma added_snoc: "added dones (cur @ [kv]) = added dones cur @ [kv]"
  by (simp add: added_def)

locale table_build = out: writable_file Append Flush contents good + comparator cmp valid separator successor
  for Append :: "'f \<Rightarrow> bytes \<Rightarrow> Status \<times> 'f" and Flush :: "'f \<Rightarrow> Status \<times> 'f" and contents :: "'f \<Rightarrow> bytes" and good :: "'f \<Rightarrow> bool"
    and cmp :: "bytes \<Rightarrow> bytes \<Rightarrow> int" and valid :: "bytes \<Rightarrow> bool"
    and separator :: "bytes \<Rightarrow> bytes \<Rightarrow> bytes" and successor :: "bytes \<Rightarrow> bytes" +
  fixes opts :: Options and compress :: "bytes \<Rightarrow> bytes option" and create :: "bytes list \<Rightarrow> bytes \<Rightarrow> bytes"
  assumes separator_short: "valid a \<Longrightarrow> valid b \<Longrightarrow> cmp a b < 0 \<Longrightarrow> length (separator a b) \<le> length a"
    and successor_short: "valid a \<Longrightarrow> length (successor a) \<le> length a"
    and opts: "Compare (opt_comparator opts) = cmp" "FindShortestSeparator (opt_comparator opts) = separator"
      "FindShortSuccessor (opt_comparator opts) = successor" "block_restart_interval opts \<ge> 1"
      "compression opts = kNoCompression \<or> compression opts = kSnappyCompression \<and> (\<forall>raw. compress raw = None)"
      "filter_policy opts = None"
begin

lemma WriteRawBlock_ok:
  assumes "good (tb_file r)" and "length raw < 2 ^ 32"
  obtains f where "WriteRawBlock Append raw kNoCompression r =
      (\<lparr>bh_offset = tb_offset r, bh_size = word_of_nat (length raw)\<rparr>,
       r\<lparr>tb_status := OK, tb_file := f, tb_offset := tb_offset r + word_of_nat (length raw) + 5\<rparr>)"
    and "good f" and "contents f = contents (tb_file r) @ raw @ trailer raw"
proof -
  obtain s1 f1 where 1: "Append (tb_file r) raw = (s1, f1)"
    by (cases "Append (tb_file r) raw")
  note a1 = out.append_ok [OF assms 1]
  obtain s2 f2 where 2: "Append f1 (trailer raw) = (s2, f2)"
    by (cases "Append f1 (trailer raw)")
  note a2 = out.append_ok [OF _ _ 2]
  show ?thesis
    by (rule that [of f2])
      (use a1 a2 1 2 in \<open>auto simp: WriteRawBlock_def trailer_def ok_def kBlockTrailerSize_def Let_def\<close>)
qed

lemma WriteBlock_ok:
  assumes "good (tb_file r)" and "tb_status r = OK" and "tb_options r = opts" and "builder_inv interval b es rs"
    and "length (block_bytes es rs) < 2 ^ 32"
  obtains f b' where "WriteBlock Append compress b r =
      Some (\<lparr>bh_offset = tb_offset r, bh_size = word_of_nat (length (block_bytes es rs))\<rparr>, BlockBuilder_Reset b',
       r\<lparr>tb_status := OK, tb_file := f, tb_offset := tb_offset r + word_of_nat (length (block_bytes es rs)) + 5\<rparr>)"
    and "good f" and "contents f = contents (tb_file r) @ block_bytes es rs @ trailer (block_bytes es rs)"
proof -
  obtain raw b' where fin: "BlockBuilder_Finish b = (raw, b')"
    by (cases "BlockBuilder_Finish b")
  then have raw: "raw = block_bytes es rs"
    using builder_Finish(1) [OF assms(4)] by simp
  then have len: "length raw < 2 ^ 32"
    using assms(5) by simp
  obtain f where f: "WriteRawBlock Append raw kNoCompression r =
      (\<lparr>bh_offset = tb_offset r, bh_size = word_of_nat (length raw)\<rparr>,
       r\<lparr>tb_status := OK, tb_file := f, tb_offset := tb_offset r + word_of_nat (length raw) + 5\<rparr>)"
    "good f" "contents f = contents (tb_file r) @ raw @ trailer raw"
    by (rule WriteRawBlock_ok [OF assms(1) len])
  show ?thesis
    by (rule that [of b' f])
      (use assms(2,3) opts(5) fin f raw in \<open>auto simp: WriteBlock_def kNoCompression_def kSnappyCompression_def\<close>)
qed

text \<open>The invariant of a builder: \<open>dones\<close> are the data blocks written, \<open>cur\<close> the entries of the
  current block, \<open>idx\<close> the entries of the index.  The part \<open>tb_core\<close> also holds inside \<open>Add\<close>.\<close>

definition tb_core ::
  "'f TableBuilder \<Rightarrow> ((bytes \<times> bytes) list \<times> BlockHandle) list \<Rightarrow> (bytes \<times> bytes) list \<Rightarrow> (bytes \<times> bytes) list \<Rightarrow> bool" where
  "tb_core r dones cur idx \<longleftrightarrow>
     tb_status r = OK \<and> tb_options r = opts \<and> filter_block r = None \<and>
     good (tb_file r) \<and> tb_offset r = word_of_nat (length (contents (tb_file r))) \<and> length (contents (tb_file r)) \<le> data_bound dones \<and>
     (\<exists>es rs. builder_inv (block_restart_interval opts) (data_block r) es rs \<and> map e_pair es = cur) \<and>
     (\<exists>es rs. builder_inv 1 (tb_index_block r) es rs \<and> map e_pair es = idx) \<and>
     list_all (\<lambda>(kvs, h). kvs \<noteq> [] \<and> block_stored (contents (tb_file r)) kvs h) dones \<and>
     index_entries cmp valid idx dones cur \<and> block_bound idx \<le> index_bound (take (length idx) dones) \<and>
     (if pending_index_entry r then cur = [] \<and> dones \<noteq> [] \<and> pending_handle r = snd (last dones) \<and> length dones = Suc (length idx)
      else length idx = length dones) \<and>
     sorted_keys cmp valid (added dones cur) \<and> num_entries r = int (length (added dones cur))"

definition tb_inv ::
  "'f TableBuilder \<Rightarrow> ((bytes \<times> bytes) list \<times> BlockHandle) list \<Rightarrow> (bytes \<times> bytes) list \<Rightarrow> (bytes \<times> bytes) list \<Rightarrow> bool" where
  "tb_inv r dones cur idx \<longleftrightarrow>
     tb_core r dones cur idx \<and> \<not> closed r \<and> (pending_index_entry r \<or> dones = [] \<or> cur \<noteq> []) \<and>
     (added dones cur \<noteq> [] \<longrightarrow> tb_last_key r = fst (last (added dones cur)))"

lemma tb_inv_new:
  assumes "good f" and "contents f = []"
  shows "\<exists>r. TableBuilder_new opts f = Some r \<and> tb_inv r [] [] []"
proof -
  obtain b i where b: "BlockBuilder_new (block_restart_interval opts) = Some b" "builder_inv (block_restart_interval opts) b [] [0]"
    "BlockBuilder_new 1 = Some i" "builder_inv 1 i [] [0]"
    using builder_inv_new [OF opts(4)] builder_inv_new [of 1] by auto
  then show ?thesis
    using assms opts(6)
    by (auto simp: TableBuilder_new_def tb_inv_def tb_core_def added_def index_entries_def data_bound_def index_bound_def block_bound_def sorted_keys_def)
qed

lemma tb_core_empty:
  assumes "tb_core r dones cur idx"
  shows "BlockBuilder_empty (data_block r) \<longleftrightarrow> cur = []"
proof -
  obtain es rs where es: "builder_inv (block_restart_interval opts) (data_block r) es rs" "map e_pair es = cur"
    using assms by (auto simp: tb_core_def)
  have "entries_bytes es = [] \<longleftrightarrow> es = []"
    using length_e_bytes [of "hd es"] by (cases es) auto
  then show ?thesis
    using es by (auto simp: BlockBuilder_empty_def builder_inv_def)
qed

lemma Flush_empty:
  assumes "tb_core r dones [] idx" and "\<not> closed r"
  shows "TableBuilder_Flush Append Flush compress create r = Some r"
  using assms tb_core_empty [OF assms(1)] by (simp add: TableBuilder_Flush_def tb_core_def)

text \<open>A block is written after the contents of the file.\<close>

lemma stored_new:
  assumes "length c + length raw < 2 ^ 64"
  shows "stored_at (c @ raw @ trailer raw) \<lparr>bh_offset = word_of_nat (length c), bh_size = word_of_nat (length raw)\<rparr> raw"
proof -
  have "unat (word_of_nat (length c) :: u64) = length c" "unat (word_of_nat (length raw) :: u64) = length raw"
    using assms by (simp_all add: unsigned_of_nat take_bit_nat_eq_self)
  then show ?thesis
    unfolding stored_at_def by (intro exI [of _ c] exI [of _ "[]"]) simp
qed

lemma Flush_block:
  assumes core: "tb_core r dones cur idx" and r: "\<not> closed r" "\<not> pending_index_entry r" and cur: "cur \<noteq> []"
    and small: "table_bound (added dones cur) < 2 ^ 31"
  obtains r' h where "TableBuilder_Flush Append Flush compress create r = Some r'"
    and "tb_core r' (dones @ [(cur, h)]) [] idx" and "pending_index_entry r'" and "\<not> closed r'" and "tb_last_key r' = tb_last_key r"
proof -
  obtain es rs where es: "builder_inv (block_restart_interval opts) (data_block r) es rs" "map e_pair es = cur"
    using core by (auto simp: tb_core_def)
  have ok: "entries_ok es rs"
    using es(1) by (simp add: builder_inv_def)
  let ?c = "contents (tb_file r)" and ?raw = "block_bytes es rs"
  let ?h = "\<lparr>bh_offset = tb_offset r, bh_size = word_of_nat (length ?raw)\<rparr>"
  have good: "good (tb_file r)" "tb_status r = OK" "tb_options r = opts" "filter_block r = None"
    and off: "tb_offset r = word_of_nat (length ?c)" "length ?c \<le> data_bound dones"
    and dones: "list_all (\<lambda>(kvs, h). kvs \<noteq> [] \<and> block_stored ?c kvs h) dones"
    using core by (simp_all add: tb_core_def)
  have raw: "length ?raw \<le> block_bound cur"
    using length_block_bytes [OF ok] es(2) by simp
  have "list_all (\<lambda>(kvs, h). kvs \<noteq> []) dones"
    using dones by (auto simp: list_all_iff)
  then have sum: "length ?c + length ?raw < 2 ^ 64"
    and raw32: "length ?raw < 2 ^ 32"
    using bounds_le [of dones cur] raw off(2) small by simp_all
  obtain f b where w: "WriteBlock Append compress (data_block r) r = Some (?h, BlockBuilder_Reset b,
       r\<lparr>tb_status := OK, tb_file := f, tb_offset := tb_offset r + word_of_nat (length ?raw) + 5\<rparr>)"
    and f: "good f" "contents f = ?c @ ?raw @ trailer ?raw"
    by (rule WriteBlock_ok [OF good(1-3) es(1) raw32])
  obtain s f' where fl: "Flush f = (s, f')"
    by (cases "Flush f")
  note f' = out.flush_ok [OF f(1) fl]
  let ?r = "r\<lparr>tb_status := s, tb_file := f', tb_offset := tb_offset r + word_of_nat (length ?raw) + 5,
      pending_handle := ?h, data_block := BlockBuilder_Reset b, pending_index_entry := True\<rparr>"
  have "TableBuilder_Flush Append Flush compress create r = Some ?r"
    using w fl r tb_core_empty [OF core] cur good(2,4) by (simp add: TableBuilder_Flush_def ok_def)
  moreover have "tb_core ?r (dones @ [(cur, ?h)]) [] idx"
  proof -
    have "s = OK"
      using f' by (simp add: ok_def)
    moreover have "block_stored (contents f') cur ?h"
      using stored_new [OF sum] ok es(2) f f' off(1) unfolding block_stored_def by auto
    moreover have "list_all (\<lambda>(kvs, h). kvs \<noteq> [] \<and> block_stored (contents f') kvs h) dones"
      using dones f f' block_stored_append [of ?c] by (auto simp: list_all_iff)
    moreover have "tb_offset r + word_of_nat (length ?raw) + 5 = word_of_nat (length (contents f'))"
      using f f' off(1) by simp
    moreover have "length (contents f') \<le> data_bound (dones @ [(cur, ?h)])"
      using f f' off(2) raw by (simp add: data_bound_def)
    moreover have "\<exists>es rs. builder_inv (block_restart_interval opts) (BlockBuilder_Reset b) es rs \<and> map e_pair es = []"
      using builder_inv_Reset [OF opts(4)] by blast
    ultimately show ?thesis
      using core r cur f' index_entries_flush [of cmp valid idx dones cur ?h]
      by (auto simp: tb_core_def added_def index_entries_def)
  qed
  ultimately show ?thesis
    using that r by simp
qed

lemma last_added:
  assumes "list_all (\<lambda>(kvs, h). kvs \<noteq> [] \<and> P kvs h) dones" and "dones \<noteq> []"
  shows "last (added dones []) = last (fst (last dones))" and "fst (last dones) \<noteq> []"
proof -
  obtain ds d where d: "dones = ds @ [d]"
    using assms(2) by (cases dones rule: rev_cases) auto
  then show "last (added dones []) = last (fst (last dones))" "fst (last dones) \<noteq> []"
    using assms(1) by (auto simp: added_def)
qed

text \<open>The entry of the index for the last block.\<close>

lemma sorted_le_last:
  assumes "sorted_keys cmp valid kvs" and "kv \<in> set kvs"
  shows "cmp (fst kv) (fst (last kvs)) \<le> 0"
proof -
  obtain as b where kvs: "kvs = as @ [b]"
    using assms(2) by (cases kvs rule: rev_cases) auto
  then show ?thesis
    using assms cmp_refl [of "fst b"] by (auto simp: sorted_keys_def sorted_wrt_append list_all_iff dest: less_imp_le)
qed

lemma add_index_entry_core:
  assumes core: "tb_core r dones [] idx" and pend: "pending_index_entry r"
    and k: "valid k" "length k \<le> length (fst (last (added dones [])))" "cmp (fst (last (added dones []))) k \<le> 0"
    and small: "table_bound (added dones []) < 2 ^ 31"
  obtains b where "add_index_entry k r = Some (r\<lparr>tb_last_key := k, tb_index_block := b, pending_index_entry := False\<rparr>)"
    and "tb_core (r\<lparr>tb_last_key := k, tb_index_block := b, pending_index_entry := False\<rparr>) dones []
      (idx @ [(k, handle_bytes (snd (last dones)))])"
proof -
  let ?c = "contents (tb_file r)" and ?h = "snd (last dones)"
  have dones: "list_all (\<lambda>(kvs, h). kvs \<noteq> [] \<and> block_stored ?c kvs h) dones" "dones \<noteq> []"
    and h: "pending_handle r = ?h" and len: "length dones = Suc (length idx)"
    and ie: "index_entries cmp valid idx dones []" and sorted: "sorted_keys cmp valid (added dones [])"
    and c: "length ?c \<le> data_bound dones" and bound: "block_bound idx \<le> index_bound (take (length idx) dones)"
    and options: "tb_options r = opts"
    using core pend by (simp_all add: tb_core_def)
  note last = last_added [OF dones]
  obtain es rs where es: "builder_inv 1 (tb_index_block r) es rs" "map e_pair es = idx"
    using core by (auto simp: tb_core_def)
  have "list_all (\<lambda>(kvs, h). kvs \<noteq> []) dones"
    using dones(1) by (auto simp: list_all_iff)
  then have "length ?c < 2 ^ 63"
    using bounds_le [of dones "[]"] c small by simp
  moreover have "block_stored ?c (fst (last dones)) ?h"
    using dones by (auto simp: list_all_iff dest!: bspec [OF _ last_in_set])
  ultimately have enc: "BlockHandle_EncodeTo (pending_handle r) [] = Some (handle_bytes ?h)"
    using stored_handle unfolding block_stored_def h by blast
  have lasti: "last dones = dones ! length idx"
    using len by (metis diff_Suc_1 last_conv_nth length_0_conv nat.simps(3))
  let ?l = "fst (last (added dones []))"
  have ins: "last (added dones []) \<in> set (fst (last dones))"
    using last by simp
  then have "last (added dones []) \<in> set (added dones [])"
    using dones(2) unfolding added_def by (auto intro!: bexI [of _ "last dones"])
  then have vl: "valid ?l"
    using sorted by (simp add: sorted_keys_def list_all_iff)
  have "cmp k (e_key (last es)) > 0" if "es \<noteq> []"
  proof -
    have ne: "idx \<noteq> []" "e_key (last es) = fst (last idx)"
      using that es(2) by (auto simp: last_map e_pair_def)
    let ?j = "length idx - 1"
    have j: "?j < length idx" "last idx = idx ! ?j"
      using ne by (simp_all add: last_conv_nth)
    have "Suc ?j = length idx"
      using j(1) by simp
    then have "last dones \<in> set (drop (Suc ?j) dones)"
      using len lasti by (simp only:) (simp add: Cons_nth_drop_Suc [symmetric])
    then have later: "last (added dones []) \<in> set (concat (map fst (drop (Suc ?j) dones)))"
      using ins by auto
    have "valid (fst (last idx))" "\<forall>kv \<in> set (concat (map fst (drop (Suc ?j) dones))). cmp (fst (last idx)) (fst kv) < 0"
      using ie j unfolding index_entries_def by (simp_all add: list_all_iff)
    with later have l: "valid (fst (last idx))" "cmp (fst (last idx)) ?l < 0"
      by blast+
    show ?thesis
      unfolding ne(2) using cmp_less_le_trans [OF l(1) vl k(1) l(2) k(3)] cmp_swap [OF k(1) l(1)] by simp
  qed
  from builder_inv_Add [of 1 "tb_index_block r" es rs cmp k, OF es(1) this] obtain b e rs' where b: "BlockBuilder_Add cmp 1 k (handle_bytes ?h) (tb_index_block r) = Some b"
    "e_pair e = (k, handle_bytes ?h)" "builder_inv 1 b (es @ [e]) rs'"
    by blast
  let ?idx = "idx @ [(k, handle_bytes ?h)]"
  have "list_all (\<lambda>kv. cmp (fst kv) k \<le> 0) (fst (last dones))"
  proof (unfold list_all_iff, rule ballI)
    fix kv
    assume "kv \<in> set (fst (last dones))"
    then have kv: "kv \<in> set (added dones [])"
      using dones(2) by (auto simp: added_def intro!: bexI [of _ "last dones"])
    then have "valid (fst kv)"
      using sorted by (simp add: sorted_keys_def list_all_iff)
    then show "cmp (fst kv) k \<le> 0"
      using cmp_trans [OF _ vl k(1) sorted_le_last [OF sorted kv] k(3)] by blast
  qed
  note ie' = index_entries_add [of cmp valid idx dones k, OF ie len k(1) this]
  have "length (handle_bytes ?h) \<le> 20"
    using length_EncodeVarint64 [of "bh_offset ?h"] length_EncodeVarint64 [of "bh_size ?h"] by (simp add: handle_bytes_def)
  moreover have "take (Suc (length idx)) dones = take (length idx) dones @ [last dones]"
    using len lasti take_Suc_conv_app_nth [of "length idx" dones] by simp
  ultimately have "block_bound ?idx \<le> index_bound (take (length ?idx) dones)"
    using bound k(2) last(1) by (simp add: block_bound_def index_bound_def case_prod_unfold)
  moreover have "\<exists>es rs. builder_inv 1 b es rs \<and> map e_pair es = ?idx"
    using b(2,3) es(2) by (intro exI [of _ "es @ [e]"] exI [of _ rs']) simp
  ultimately have "tb_core (r\<lparr>tb_last_key := k, tb_index_block := b, pending_index_entry := False\<rparr>) dones [] ?idx"
    using core pend ie' len unfolding tb_core_def by simp
  then show ?thesis
    using that b(1) enc options opts(1) by (simp add: add_index_entry_def)
qed

lemma index_below:
  assumes inv: "tb_inv r dones cur idx" and sorted: "sorted_keys cmp valid (added dones cur @ [(k, v)])" and j: "j < length idx"
  shows "cmp (fst (idx ! j)) k < 0"
proof -
  have core: "tb_core r dones cur idx"
    using inv by (simp add: tb_inv_def)
  then have ie: "index_entries cmp valid idx dones cur" and dones: "list_all (\<lambda>(kvs, h). kvs \<noteq> [] \<and> block_stored (contents (tb_file r)) kvs h) dones"
    by (simp_all add: tb_core_def)
  let ?later = "concat (map fst (drop (Suc j) dones)) @ cur"
  have "?later \<noteq> []"
  proof (cases "cur = []")
    case True
    have "length idx \<le> length dones"
      using ie by (simp add: index_entries_def)
    then have "dones \<noteq> []"
      using j by auto
    with True inv have "length dones = Suc (length idx)"
      by (auto simp: tb_inv_def tb_core_def)
    then have "dones ! Suc j \<in> set (drop (Suc j) dones)" "dones ! Suc j \<in> set dones"
      using j by (simp_all add: Cons_nth_drop_Suc [symmetric])
    then show ?thesis
      using dones by (fastforce simp: list_all_iff)
  qed simp
  then obtain kv where kv: "kv \<in> set ?later"
    by (meson last_in_set)
  then have a: "kv \<in> set (added dones cur)"
    by (auto simp: added_def dest: in_set_dropD)
  have l: "cmp (fst (idx ! j)) (fst kv) < 0" "valid (fst (idx ! j))"
    using ie j kv by (auto simp only: index_entries_def list_all_iff)
  have "valid (fst kv)" "valid k" "cmp (fst kv) k < 0"
    using sorted a by (auto simp: sorted_keys_def sorted_wrt_append list_all_iff)
  then show ?thesis
    using cmp_less_trans l by blast
qed

text \<open>The first step of \<open>Add\<close> completes the index.\<close>

lemma Add_index:
  assumes inv: "tb_inv r dones cur idx" and sorted: "sorted_keys cmp valid (added dones cur @ [(k, v)])"
    and small: "table_bound (added dones cur) < 2 ^ 31"
  obtains r' idx' where "(if pending_index_entry r then
       if \<not> BlockBuilder_empty (data_block r) then None else add_index_entry (separator (tb_last_key r) k) r else Some r) = Some r'"
    and "tb_core r' dones cur idx'" and "\<not> pending_index_entry r'" and "\<not> closed r'" and "\<forall>j < length idx'. cmp (fst (idx' ! j)) k < 0"
proof (cases "pending_index_entry r")
  case False
  then show ?thesis
    using that [of r idx] inv index_below [OF inv sorted] by (simp add: tb_inv_def)
next
  case True
  have core: "tb_core r dones cur idx"
    using inv by (simp add: tb_inv_def)
  with True have cur: "cur = []" "dones \<noteq> []"
    and dones: "list_all (\<lambda>(kvs, h). kvs \<noteq> [] \<and> block_stored (contents (tb_file r)) kvs h) dones"
    by (simp_all add: tb_core_def)
  let ?l = "fst (last (added dones []))"
  have ne: "added dones [] \<noteq> []"
    using last_added(2) [OF dones cur(2)] cur(2) last_in_set [of dones] by (auto simp: added_def)
  then have l: "tb_last_key r = ?l"
    using inv cur(1) by (simp add: tb_inv_def)
  have "valid ?l" "valid k" "cmp ?l k < 0"
    using sorted last_in_set [OF ne] cur(1) by (auto simp: sorted_keys_def sorted_wrt_append list_all_iff)
  note sep = separator_valid [OF this] separator_ge [OF this] separator_less [OF this] separator_short [OF this]
  obtain b where b: "add_index_entry (separator ?l k) r =
      Some (r\<lparr>tb_last_key := separator ?l k, tb_index_block := b, pending_index_entry := False\<rparr>)"
    "tb_core (r\<lparr>tb_last_key := separator ?l k, tb_index_block := b, pending_index_entry := False\<rparr>) dones []
      (idx @ [(separator ?l k, handle_bytes (snd (last dones)))])"
    by (rule add_index_entry_core [OF core [unfolded cur(1)] True sep(1) sep(4) sep(2)])
      (use small cur(1) in simp)
  show ?thesis
    by (rule that [OF _ b(2) [folded cur(1)]])
      (use b(1) True tb_core_empty [OF core] cur(1) l inv index_below [OF inv sorted] sep(3)
       in \<open>auto simp: tb_inv_def nth_append less_Suc_eq\<close>)
qed

lemma Add_ok:
  assumes inv: "tb_inv r dones cur idx" and sorted: "sorted_keys cmp valid (added dones cur @ [(k, v)])"
    and small: "table_bound (added dones cur @ [(k, v)]) < 2 ^ 31"
  obtains r' dones' cur' idx' where "TableBuilder_Add Append Flush compress create k v r = Some r'"
    and "tb_inv r' dones' cur' idx'" and "added dones' cur' = added dones cur @ [(k, v)]"
proof -
  have small': "table_bound (added dones cur) < 2 ^ 31"
    using small table_bound_append [of "added dones cur" "[(k, v)]"] by linarith
  have core: "tb_core r dones cur idx" "\<not> closed r"
    using inv by (simp_all add: tb_inv_def)
  obtain r1 idx1 where r1: "(if pending_index_entry r then
       if \<not> BlockBuilder_empty (data_block r) then None else add_index_entry (separator (tb_last_key r) k) r else Some r) = Some r1"
    "tb_core r1 dones cur idx1" "\<not> pending_index_entry r1" "\<not> closed r1" "\<forall>j < length idx1. cmp (fst (idx1 ! j)) k < 0"
    by (rule Add_index [OF inv sorted small'])
  obtain es rs where es: "builder_inv (block_restart_interval opts) (data_block r1) es rs" "map e_pair es = cur"
    using r1(2) by (auto simp: tb_core_def)
  have after: "cmp k (fst kv) > 0" if "kv \<in> set (added dones cur)" for kv
    using sorted that cmp_swap [of k "fst kv"] by (auto simp: sorted_keys_def sorted_wrt_append list_all_iff)
  have "cmp k (e_key (last es)) > 0" if "es \<noteq> []"
    using after [of "last cur"] that es(2) by (auto simp: added_def last_map e_pair_def)
  from builder_inv_Add [of _ "data_block r1" es rs cmp k, OF es(1) this] obtain b e rs' where
    b: "BlockBuilder_Add cmp (block_restart_interval opts) k v (data_block r1) = Some b" "e_pair e = (k, v)"
      "builder_inv (block_restart_interval opts) b (es @ [e]) rs'"
    by blast
  let ?r = "r1\<lparr>filter_block := map_option (AddKey k) (filter_block r1), tb_last_key := k, num_entries := num_entries r1 + 1, data_block := b\<rparr>"
  have "\<exists>es rs. builder_inv (block_restart_interval opts) b es rs \<and> map e_pair es = cur @ [(k, v)]"
    using b(2,3) es(2) by (intro exI [of _ "es @ [e]"] exI [of _ rs']) simp
  then have core2: "tb_core ?r dones (cur @ [(k, v)]) idx1"
    using r1(2,3) index_entries_key [of cmp valid idx1 dones cur k v, OF _ r1(5)] sorted
    unfolding tb_core_def by (elim conjE) (simp add: added_snoc)
  have last: "tb_last_key r = fst (last (added dones cur))" if "added dones cur \<noteq> []"
    using inv that by (simp add: tb_inv_def)
  have order: "\<not> (num_entries r > 0 \<and> \<not> cmp k (tb_last_key r) > 0)"
  proof (cases "added dones cur = []")
    case False
    then show ?thesis
      using after [OF last_in_set [OF False]] last by simp
  qed (use core(1) in \<open>simp add: tb_core_def\<close>)
  have st: "tb_status r = OK" "tb_options r = opts" "tb_options r1 = opts"
    using core(1) r1(2) by (simp_all add: tb_core_def)
  have step: "TableBuilder_Add Append Flush compress create k v r =
     (if CurrentSizeEstimate b \<ge> block_size opts then TableBuilder_Flush Append Flush compress create ?r else Some ?r)"
    unfolding TableBuilder_Add_def Let_def st(2) opts(1,2) r1(1) if_not_P [OF order]
    using b(1) core(2) st(1,3) by (simp add: ok_def)
  show ?thesis
  proof (cases "CurrentSizeEstimate b \<ge> block_size opts")
    case True
    obtain r' h where r': "TableBuilder_Flush Append Flush compress create ?r = Some r'"
      "tb_core r' (dones @ [(cur @ [(k, v)], h)]) [] idx1" "pending_index_entry r'" "\<not> closed r'" "tb_last_key r' = tb_last_key ?r"
      by (rule Flush_block [OF core2]) (use r1 small in \<open>auto simp: added_snoc\<close>)
    then have "tb_inv r' (dones @ [(cur @ [(k, v)], h)]) [] idx1"
      by (simp add: tb_inv_def added_snoc)
    then show ?thesis
      using that r'(1) step True by (simp add: added_snoc)
  next
    case False
    have "tb_inv ?r dones (cur @ [(k, v)]) idx1"
      using core2 r1(4) by (simp add: tb_inv_def added_snoc)
    then show ?thesis
      using that [of ?r dones "cur @ [(k, v)]" idx1] step False by (simp add: added_snoc)
  qed
qed

lemma Adds_ok:
  assumes "tb_inv r dones cur idx" and "sorted_keys cmp valid (added dones cur @ kvs)" and "table_bound (added dones cur @ kvs) < 2 ^ 31"
  shows "\<exists>r' dones' cur' idx'. TableBuilder_Adds Append Flush compress create kvs r = Some r' \<and>
    tb_inv r' dones' cur' idx' \<and> added dones' cur' = added dones cur @ kvs"
  using assms
proof (induction kvs arbitrary: r dones cur idx)
  case (Cons kv kvs)
  obtain k v where kv: "kv = (k, v)"
    by (cases kv)
  have "sorted_keys cmp valid (added dones cur @ [(k, v)])"
    using Cons.prems(2) by (auto simp: sorted_keys_def sorted_wrt_append kv)
  moreover have "table_bound (added dones cur @ [(k, v)]) < 2 ^ 31"
    using Cons.prems(3) table_bound_append [of "added dones cur @ [(k, v)]" kvs] kv by simp
  ultimately obtain r1 dones1 cur1 idx1 where 1: "TableBuilder_Add Append Flush compress create k v r = Some r1"
    "tb_inv r1 dones1 cur1 idx1" "added dones1 cur1 = added dones cur @ [(k, v)]"
    by (rule Add_ok [OF Cons.prems(1)])
  from Cons.IH [OF 1(2)] Cons.prems(2,3) 1(1,3) show ?case
    by (simp add: kv)
qed auto

lemma Flush_inv:
  assumes inv: "tb_inv r dones cur idx" and small: "table_bound (added dones cur) < 2 ^ 31"
  obtains r' dones' where "TableBuilder_Flush Append Flush compress create r = Some r'" and "tb_inv r' dones' [] idx"
    and "added dones' [] = added dones cur"
proof (cases "cur = []")
  case True
  then have "TableBuilder_Flush Append Flush compress create r = Some r"
    using inv Flush_empty [of r dones idx] by (simp add: tb_inv_def)
  then show ?thesis
    using that [of r dones] inv True by simp
next
  case False
  have core: "tb_core r dones cur idx" "\<not> closed r"
    using inv by (simp_all add: tb_inv_def)
  have "\<not> pending_index_entry r"
  proof
    assume "pending_index_entry r"
    then have "cur = []"
      using core(1) by (simp add: tb_core_def)
    then show False
      using False by simp
  qed
  then obtain r' h where r': "TableBuilder_Flush Append Flush compress create r = Some r'"
    "tb_core r' (dones @ [(cur, h)]) [] idx" "pending_index_entry r'" "\<not> closed r'" "tb_last_key r' = tb_last_key r"
    by (rule Flush_block [OF core _ False small])
  then have "tb_inv r' (dones @ [(cur, h)]) [] idx"
    using inv by (simp add: tb_inv_def)
  then show ?thesis
    using that r'(1) added_flush by blast
qed

text \<open>Completing the index in \<open>Finish\<close>, when the file has got the metaindex block already.\<close>

lemma add_index_entry_cong:
  assumes "add_index_entry k r = Some (r\<lparr>tb_last_key := k, tb_index_block := b, pending_index_entry := False\<rparr>)"
    and "pending_handle r' = pending_handle r" and "tb_options r' = tb_options r" and "tb_index_block r' = tb_index_block r"
  shows "add_index_entry k r' = Some (r'\<lparr>tb_last_key := k, tb_index_block := b, pending_index_entry := False\<rparr>)"
proof -
  obtain enc b' where b': "BlockHandle_EncodeTo (pending_handle r) [] = Some enc"
    "BlockBuilder_Add (Compare (opt_comparator (tb_options r))) 1 k enc (tb_index_block r) = Some b'"
    "r\<lparr>tb_last_key := k, tb_index_block := b', pending_index_entry := False\<rparr> = r\<lparr>tb_last_key := k, tb_index_block := b, pending_index_entry := False\<rparr>"
    using assms(1) by (auto simp: add_index_entry_def split: option.splits)
  from arg_cong [OF b'(3), of tb_index_block] have "b' = b"
    by simp
  then show ?thesis
    using b' assms(2-4) by (simp add: add_index_entry_def)
qed

lemma Finish_index:
  assumes inv: "tb_inv r dones [] idx" and small: "table_bound (added dones []) < 2 ^ 31"
  obtains b k es rs where "\<And>r'. r' = r\<lparr>closed := c, tb_status := s, tb_file := f, tb_offset := off\<rparr> \<Longrightarrow>
      (if pending_index_entry r' then add_index_entry (successor (tb_last_key r')) r' else Some r') =
      Some (r'\<lparr>tb_last_key := k, tb_index_block := b, pending_index_entry := False\<rparr>)"
    and "builder_inv 1 b es rs" and "index_entries cmp valid (map e_pair es) dones []" and "length es = length dones"
    and "block_bound (map e_pair es) \<le> index_bound dones"
proof -
  have core: "tb_core r dones [] idx"
    using inv by (simp add: tb_inv_def)
  show ?thesis
  proof (cases "pending_index_entry r")
    case False
    obtain es rs where es: "builder_inv 1 (tb_index_block r) es rs" "map e_pair es = idx"
      using core by (auto simp: tb_core_def)
    have "length idx = length dones" "index_entries cmp valid idx dones []" "block_bound idx \<le> index_bound dones"
      using core False by (auto simp: tb_core_def)
    then show ?thesis
      using that [of "tb_index_block r" "tb_last_key r" es rs] es False length_map [of e_pair es] by simp
  next
    case True
    then have dones: "list_all (\<lambda>(kvs, h). kvs \<noteq> [] \<and> block_stored (contents (tb_file r)) kvs h) dones" "dones \<noteq> []"
      using core by (simp_all add: tb_core_def)
    have ne: "added dones [] \<noteq> []"
      using last_added(2) [OF dones] dones(2) last_in_set [of dones] by (auto simp: added_def)
    let ?k = "successor (fst (last (added dones [])))"
    have l: "tb_last_key r = fst (last (added dones []))"
      using inv ne by (simp add: tb_inv_def)
    have "valid (fst (last (added dones [])))"
      using core last_in_set [OF ne] by (auto simp: tb_core_def sorted_keys_def list_all_iff)
    note sc = successor_valid [OF this] successor_ge [OF this] successor_short [OF this]
    obtain b where b: "add_index_entry ?k r = Some (r\<lparr>tb_last_key := ?k, tb_index_block := b, pending_index_entry := False\<rparr>)"
      "tb_core (r\<lparr>tb_last_key := ?k, tb_index_block := b, pending_index_entry := False\<rparr>) dones []
        (idx @ [(?k, handle_bytes (snd (last dones)))])"
      by (rule add_index_entry_core [OF core True sc(1) sc(3) sc(2) small])
    let ?idx = "idx @ [(?k, handle_bytes (snd (last dones)))]"
    obtain es rs where es: "builder_inv 1 b es rs" "map e_pair es = ?idx"
      using b(2) by (auto simp: tb_core_def)
    have "length ?idx = length dones" "index_entries cmp valid ?idx dones []" "block_bound ?idx \<le> index_bound dones"
      using b(2) by (auto simp: tb_core_def)
    then show ?thesis
      using that [of b ?k es rs] es True l add_index_entry_cong [OF b(1), of "r\<lparr>closed := c, tb_status := s, tb_file := f, tb_offset := off\<rparr>"] length_map [of e_pair es] by simp
  qed
qed

lemma finish_metaindex_ok:
  assumes "good (tb_file r)" and "tb_status r = OK" and "tb_options r = opts" and "filter_block r = None"
    and "tb_offset r = word_of_nat (length (contents (tb_file r)))" and "length (contents (tb_file r)) < 2 ^ 32"
  obtains f off h where "finish_metaindex Append compress fh r = Some (h, r\<lparr>tb_status := OK, tb_file := f, tb_offset := off\<rparr>)"
    and "good f" and "\<exists>d. contents f = contents (tb_file r) @ d \<and> length d = 13"
    and "off = word_of_nat (length (contents f))" and "block_stored (contents f) [] h"
proof -
  let ?c = "contents (tb_file r)" and ?raw = "block_bytes [] [0]"
  let ?h = "\<lparr>bh_offset = tb_offset r, bh_size = word_of_nat (length ?raw)\<rparr>"
  obtain m where m: "BlockBuilder_new (block_restart_interval opts) = Some m" "builder_inv (block_restart_interval opts) m [] [0]"
    using builder_inv_new [OF opts(4)] by blast
  obtain f b where w: "WriteBlock Append compress m r = Some (?h, BlockBuilder_Reset b,
       r\<lparr>tb_status := OK, tb_file := f, tb_offset := tb_offset r + word_of_nat (length ?raw) + 5\<rparr>)"
    and f: "good f" "contents f = ?c @ ?raw @ trailer ?raw"
    by (rule WriteBlock_ok [OF assms(1-3) m(2)]) (simp add: block_bytes_def)
  have len: "length ?raw = 8"
    by (simp add: block_bytes_def)
  have "entries_ok [] [0]"
    using m(2) by (simp add: builder_inv_def)
  then have "block_stored (contents f) [] ?h"
    using stored_new [of ?c ?raw] assms(5,6) f(2) len unfolding block_stored_def
    by (intro exI [of _ "[]"] exI [of _ "[0]"]) simp
  moreover have "tb_offset r + word_of_nat (length ?raw) + 5 = word_of_nat (length (contents f))"
    using assms(5) f(2) by simp
  ultimately show ?thesis
    using that [of ?h "tb_offset r + word_of_nat (length ?raw) + 5" f] w f m(1) assms(2-4) len by (simp add: finish_metaindex_def)
qed

lemma finish_index_ok:
  assumes pend: "(if pending_index_entry r then add_index_entry (successor (tb_last_key r)) r else Some r) =
      Some (r\<lparr>tb_last_key := k, tb_index_block := b, pending_index_entry := False\<rparr>)" and b: "builder_inv 1 b es rs"
    and "good (tb_file r)" and "tb_status r = OK" and "tb_options r = opts"
    and "tb_offset r = word_of_nat (length (contents (tb_file r)))"
    and "length (contents (tb_file r)) + block_bound (map e_pair es) < 2 ^ 32"
  obtains r' h where "finish_index Append compress r = Some (h, r')" and "tb_status r' = OK" and "closed r' = closed r"
    and "good (tb_file r')" and "\<exists>d. contents (tb_file r') = contents (tb_file r) @ d \<and> length d \<le> block_bound (map e_pair es) + 5"
    and "tb_offset r' = word_of_nat (length (contents (tb_file r')))" and "block_stored (contents (tb_file r')) (map e_pair es) h"
proof -
  let ?c = "contents (tb_file r)" and ?raw = "block_bytes es rs" and ?r = "r\<lparr>tb_last_key := k, tb_index_block := b, pending_index_entry := False\<rparr>"
  let ?h = "\<lparr>bh_offset = tb_offset r, bh_size = word_of_nat (length ?raw)\<rparr>"
  have ok: "entries_ok es rs"
    using b by (simp add: builder_inv_def)
  have len: "length ?raw \<le> block_bound (map e_pair es)"
    by (rule length_block_bytes [OF ok])
  then have raw32: "length ?raw < 2 ^ 32"
    using assms(7) by simp
  obtain f b' where w: "WriteBlock Append compress b ?r = Some (?h, BlockBuilder_Reset b',
       ?r\<lparr>tb_status := OK, tb_file := f, tb_offset := tb_offset r + word_of_nat (length ?raw) + 5\<rparr>)"
    and f: "good f" "contents f = ?c @ ?raw @ trailer ?raw"
    by (rule WriteBlock_ok [of ?r 1 b es rs]) (use assms(3-5) b raw32 in auto)
  have "block_stored (contents f) (map e_pair es) ?h"
    using stored_new [of ?c ?raw] assms(6,7) f(2) len ok unfolding block_stored_def by (intro exI [of _ es] exI [of _ rs]) simp
  moreover have "tb_offset r + word_of_nat (length ?raw) + 5 = word_of_nat (length (contents f))"
    using assms(6) f(2) by simp
  moreover have "finish_index Append compress r = Some (?h, ?r\<lparr>tb_status := OK, tb_file := f,
      tb_offset := tb_offset r + word_of_nat (length ?raw) + 5, tb_index_block := BlockBuilder_Reset b'\<rparr>)"
    unfolding finish_index_def assms(5) opts(3) pend using w assms(4) by (simp add: ok_def)
  ultimately show ?thesis
    using that f len by simp
qed

lemma Finish_ok:
  assumes inv: "tb_inv r dones cur idx" and small: "table_bound (added dones cur) < 2 ^ 31"
  shows "\<exists>r' blocks. TableBuilder_Finish Append Flush compress create r = Some (OK, r') \<and> closed r' \<and> good (tb_file r') \<and>
    tb_offset r' = word_of_nat (length (contents (tb_file r'))) \<and>
    table_file cmp valid (contents (tb_file r')) blocks \<and> concat blocks = added dones cur"
proof -
  obtain r1 dones1 where r1: "TableBuilder_Flush Append Flush compress create r = Some r1" "tb_inv r1 dones1 [] idx"
    "added dones1 [] = added dones cur"
    by (rule Flush_inv [OF inv small])
  let ?c1 = "contents (tb_file r1)"
  have core: "tb_core r1 dones1 [] idx" "\<not> closed r1"
    using r1(2) by (simp_all add: tb_inv_def)
  then have f1: "good (tb_file r1)" "tb_status r1 = OK" "tb_options r1 = opts" "filter_block r1 = None"
    "tb_offset r1 = word_of_nat (length ?c1)" "length ?c1 \<le> data_bound dones1"
    and dones: "list_all (\<lambda>(kvs, h). kvs \<noteq> [] \<and> block_stored ?c1 kvs h) dones1" and sorted: "sorted_keys cmp valid (added dones1 [])"
    by (simp_all add: tb_core_def)
  have "list_all (\<lambda>(kvs, h). kvs \<noteq> []) dones1"
    using dones by (auto simp: list_all_iff)
  from bounds_le [OF this, of "[]"] have bound: "data_bound dones1 + index_bound dones1 + 100 < 2 ^ 31"
    using small r1(3) by simp
  let ?r2 = "r1\<lparr>closed := True\<rparr>"
  obtain f3 off3 mh where r3: "finish_metaindex Append compress BlockHandle_new ?r2 =
      Some (mh, ?r2\<lparr>tb_status := OK, tb_file := f3, tb_offset := off3\<rparr>)"
    and f3: "good f3" "\<exists>d. contents f3 = contents (tb_file ?r2) @ d \<and> length d = 13"
      "off3 = word_of_nat (length (contents f3))" "block_stored (contents f3) [] mh"
    by (rule finish_metaindex_ok [of ?r2 BlockHandle_new]) (use f1 bound in simp_all)
  let ?r3 = "r1\<lparr>closed := True, tb_status := OK, tb_file := f3, tb_offset := off3\<rparr>"
  obtain b k es rs where b: "(if pending_index_entry ?r3 then add_index_entry (successor (tb_last_key ?r3)) ?r3 else Some ?r3) =
      Some (?r3\<lparr>tb_last_key := k, tb_index_block := b, pending_index_entry := False\<rparr>)"
    and es: "builder_inv 1 b es rs" "index_entries cmp valid (map e_pair es) dones1 []" "length es = length dones1"
      "block_bound (map e_pair es) \<le> index_bound dones1"
    by (rule Finish_index [OF r1(2), where c = True and s = OK and f = f3 and off = off3]) (use small r1(3) in auto)
  have len3: "length (contents f3) = length ?c1 + 13"
    using f3(2) by auto
  obtain r5 ih where r5: "finish_index Append compress ?r3 = Some (ih, r5)" "tb_status r5 = OK" "closed r5 = closed ?r3"
    "good (tb_file r5)" "\<exists>d. contents (tb_file r5) = contents (tb_file ?r3) @ d \<and> length d \<le> block_bound (map e_pair es) + 5"
    "tb_offset r5 = word_of_nat (length (contents (tb_file r5)))" "block_stored (contents (tb_file r5)) (map e_pair es) ih"
    by (rule finish_index_ok [OF b es(1)]) (use f1 f3 len3 bound es(4) in simp_all)
  let ?c5 = "contents (tb_file r5)"
  obtain d where d: "?c5 = contents f3 @ d" "length d \<le> block_bound (map e_pair es) + 5"
    using r5(5) by auto
  have mh: "block_stored ?c5 [] mh"
    using f3(4) block_stored_append d(1) by simp
  have len5: "length ?c5 + 48 < 2 ^ 31"
    using d len3 bound f1(6) es(4) by simp
  have set: "bh_offset h \<noteq> - 1 \<and> bh_size h \<noteq> - 1" if st: "block_stored ?c5 kvs h" for kvs h
  proof -
    obtain raw where "stored_at ?c5 h raw"
      using st by (auto simp: block_stored_def)
    from stored_handle [OF this] len5 show ?thesis
      by (simp add: BlockHandle_EncodeTo_def split: if_splits)
  qed
  obtain enc where enc: "Footer_EncodeTo \<lparr>metaindex_handle = mh, index_handle = ih\<rparr> [] = Some enc" "length enc = kEncodedLength"
    using Footer_encoded [of "\<lparr>metaindex_handle = mh, index_handle = ih\<rparr>"] set [OF mh] set [OF r5(7)] by auto
  obtain s f6 where s: "Append (tb_file r5) enc = (s, f6)"
    by (cases "Append (tb_file r5) enc")
  note f6 = out.append_ok [OF r5(4) _ s, unfolded enc(2) kEncodedLength_def kMaxEncodingLength_def, simplified]
  let ?r6 = "r5\<lparr>tb_status := OK, tb_file := f6, tb_offset := tb_offset r5 + word_of_nat (length enc)\<rparr>"
  have footer: "finish_footer Append mh ih r5 = Some ?r6"
    using enc(1) s f6 r5(2) by (simp add: finish_footer_def ok_def)
  have "TableBuilder_Finish Append Flush compress create r = Some (OK, ?r6)"
    using r1(1) core(2) r3 r5(1) footer f1(4) by (simp add: TableBuilder_Finish_def finish_filter_def)
  moreover have "table_file cmp valid (contents f6) (map fst dones1)"
  proof -
    have all: "list_all (\<lambda>(kvs, h). kvs \<noteq> [] \<and> block_bound kvs < 2 ^ 31 \<and> block_stored (?c5 @ enc) kvs h) dones1"
    proof (unfold list_all_iff, clarify)
      fix kvs h
      assume kvs: "(kvs, h) \<in> set dones1"
      obtain d3 where "contents f3 = ?c1 @ d3"
        using f3(2) by auto
      then have "?c5 @ enc = ?c1 @ (d3 @ d @ enc)"
        using d(1) by simp
      moreover have "kvs \<noteq> []" "block_stored ?c1 kvs h"
        using dones kvs by (auto simp: list_all_iff)
      moreover have "block_bound kvs + 5 \<le> data_bound dones1"
        using member_le_sum_list [of "block_bound kvs + 5" "map (\<lambda>(kvs, h). block_bound kvs + 5) dones1"] kvs
        by (force simp: data_bound_def)
      ultimately show "kvs \<noteq> [] \<and> block_bound kvs < 2 ^ 31 \<and> block_stored (?c5 @ enc) kvs h"
        using block_stored_append bound by simp
    qed
    have "contents f6 = ?c5 @ enc" "length (contents f6) < 2 ^ 31"
      using f6 len5 enc(2) by (simp_all add: kEncodedLength_def kMaxEncodingLength_def)
    moreover have "concat (map fst dones1) = added dones1 []"
      by (simp add: added_def)
    moreover have "block_bound (map e_pair es) < 2 ^ 31" "length (map e_pair es) = length dones1"
      using bound es(3,4) by simp_all
    ultimately show ?thesis
      using table_fileI [of "?c5 @ enc" cmp valid dones1 "map e_pair es" ih mh enc ?c5]
        all sorted es(2) enc block_stored_append [OF mh, of enc] block_stored_append [OF r5(7), of enc] by simp
  qed
  moreover have "concat (map fst dones1) = added dones cur"
    using r1(3) by (simp add: added_def)
  moreover have "tb_offset r5 + word_of_nat (length enc) = word_of_nat (length (contents f6))"
    using f6 r5(6) by simp
  ultimately show ?thesis
    using f6 r5(3) by (intro exI [of _ ?r6] exI [of _ "map fst dones1"]) simp
qed

end

end
