(* ===== verification/Table_Errors.thy ===== *)
theory Table_Errors
  imports Table_Builder
begin

text \<open>
  Errors of the file a table is written to: the builder reports success exactly when no call on the file failed.
\<close>

section \<open>The status follows the file\<close>

text \<open>\<open>failed f\<close> says that a call on the file object \<open>f\<close> has returned an error.\<close>

definition records_errors :: "('f \<Rightarrow> bytes \<Rightarrow> Status \<times> 'f) \<Rightarrow> ('f \<Rightarrow> Status \<times> 'f) \<Rightarrow> ('f \<Rightarrow> bool) \<Rightarrow> bool" where
  "records_errors Append Flush failed \<longleftrightarrow>
     (\<forall>f d s f'. Append f d = (s, f') \<longrightarrow> (failed f' \<longleftrightarrow> failed f \<or> \<not> ok s)) \<and>
     (\<forall>f s f'. Flush f = (s, f') \<longrightarrow> (failed f' \<longleftrightarrow> failed f \<or> \<not> ok s))"

definition honest :: "('f \<Rightarrow> bool) \<Rightarrow> 'f TableBuilder \<Rightarrow> bool" where
  "honest failed r \<longleftrightarrow> (ok (tb_status r) \<longleftrightarrow> \<not> failed (tb_file r))"

lemma honest_update:
  "honest failed r \<Longrightarrow> tb_status r' = tb_status r \<Longrightarrow> tb_file r' = tb_file r \<Longrightarrow> honest failed r'"
  by (simp add: honest_def)

lemma WriteRawBlock_honest:
  assumes "records_errors Append Flush failed" and "honest failed r" and "ok (tb_status r)"
    and "WriteRawBlock Append contents t r = (h, r')"
  shows "honest failed r' \<and> closed r' = closed r"
  using assms unfolding records_errors_def WriteRawBlock_def honest_def Let_def
  by (auto split: prod.splits if_splits)

lemma WriteBlock_honest:
  assumes "records_errors Append Flush failed" and "honest failed r" and "WriteBlock Append compress b r = Some (h, b', r')"
  shows "honest failed r' \<and> closed r' = closed r"
proof -
  have k: "ok (tb_status r)"
    using assms(3) by (auto simp: WriteBlock_def split: if_splits)
  obtain contents t where "WriteRawBlock Append contents t r = (h, r')"
    using assms(3) k unfolding WriteBlock_def Let_def by (auto split: prod.splits)
  from WriteRawBlock_honest [OF assms(1,2) k this] show ?thesis .
qed

lemma Flush_honest:
  assumes rec: "records_errors Append Flush failed" and h: "honest failed r" and f: "TableBuilder_Flush Append Flush compress create r = Some r'"
  shows "honest failed r'"
proof (cases "ok (tb_status r) \<and> \<not> BlockBuilder_empty (data_block r)")
  case True
  then obtain handle block r1 where w: "WriteBlock Append compress (data_block r) r = Some (handle, block, r1)"
    using f by (auto simp: TableBuilder_Flush_def split: if_splits option.splits)
  obtain s g where fl: "Flush (tb_file r1) = (s, g)"
    by fastforce
  let ?r2 = "r1\<lparr>pending_handle := handle, data_block := block\<rparr>"
  let ?r3 = "if ok (tb_status ?r2) then ?r2\<lparr>pending_index_entry := True, tb_status := s, tb_file := g\<rparr> else ?r2"
  have "honest failed r1"
    using WriteBlock_honest [OF rec h w] by blast
  then have "honest failed ?r3"
    using rec fl by (auto simp: honest_def records_errors_def)
  moreover have "tb_status r' = tb_status ?r3 \<and> tb_file r' = tb_file ?r3"
    using f True w fl by (auto simp: TableBuilder_Flush_def Let_def split: if_splits option.splits)
  ultimately show ?thesis
    using honest_update by blast
next
  case False
  then have "r' = r"
    using f by (auto simp: TableBuilder_Flush_def split: if_splits)
  then show ?thesis
    using h by simp
qed

lemma add_index_entry_same: "add_index_entry k r = Some r' \<Longrightarrow> tb_status r' = tb_status r \<and> tb_file r' = tb_file r"
  by (auto simp: add_index_entry_def split: option.splits)

lemma Add_honest:
  assumes rec: "records_errors Append Flush failed" and h: "honest failed r" and a: "TableBuilder_Add Append Flush compress create k v r = Some r'"
  shows "honest failed r'"
proof (cases "ok (tb_status r)")
  case False
  then show ?thesis
    using a h by (auto simp: TableBuilder_Add_def Let_def split: if_splits)
next
  case True
  obtain r1 where r1: "(if pending_index_entry r then
        if \<not> BlockBuilder_empty (data_block r) then None
        else add_index_entry (FindShortestSeparator (opt_comparator (tb_options r)) (tb_last_key r) k) r
      else Some r) = Some r1"
    using a True unfolding TableBuilder_Add_def Let_def by (auto split: if_splits option.splits)
  have same: "tb_status r1 = tb_status r" "tb_file r1 = tb_file r"
    using r1 add_index_entry_same by (auto split: if_splits)
  obtain b where b: "r' = r1\<lparr>filter_block := map_option (AddKey k) (filter_block r1), tb_last_key := k, num_entries := num_entries r1 + 1, data_block := b\<rparr> \<or>
    TableBuilder_Flush Append Flush compress create
      (r1\<lparr>filter_block := map_option (AddKey k) (filter_block r1), tb_last_key := k, num_entries := num_entries r1 + 1, data_block := b\<rparr>) = Some r'"
    using a True r1 unfolding TableBuilder_Add_def Let_def by (auto split: if_splits option.splits)
  have "honest failed (r1\<lparr>filter_block := map_option (AddKey k) (filter_block r1), tb_last_key := k, num_entries := num_entries r1 + 1, data_block := b\<rparr>)"
    using h same by (simp add: honest_def)
  then show ?thesis
    using b Flush_honest [OF rec] by blast
qed

lemma Adds_honest:
  assumes "records_errors Append Flush failed"
  shows "honest failed r \<Longrightarrow> TableBuilder_Adds Append Flush compress create kvs r = Some r' \<Longrightarrow> honest failed r'"
proof (induction kvs arbitrary: r)
  case (Cons kv kvs)
  obtain r1 where "TableBuilder_Add Append Flush compress create (fst kv) (snd kv) r = Some r1"
    "TableBuilder_Adds Append Flush compress create kvs r1 = Some r'"
    using Cons.prems(2) by (cases kv) (auto simp: bind_eq_Some_conv)
  then show ?case
    using Cons.IH Add_honest [OF assms Cons.prems(1)] by blast
qed simp

lemma Finish_honest:
  assumes rec: "records_errors Append Flush failed" and h: "honest failed r" and f: "TableBuilder_Finish Append Flush compress create r = Some (s, r')"
  shows "honest failed r' \<and> s = tb_status r'"
proof -
  obtain r1 where r1: "TableBuilder_Flush Append Flush compress create r = Some r1"
    using f by (auto simp: TableBuilder_Finish_def bind_eq_Some_conv)
  obtain fh r2 where r2: "finish_filter Append create (r1\<lparr>closed := True\<rparr>) = (fh, r2)"
    by fastforce
  obtain mh r3 where r3: "finish_metaindex Append compress fh r2 = Some (mh, r3)"
    using f r1 r2 by (auto simp: TableBuilder_Finish_def bind_eq_Some_conv split: if_splits)
  obtain ih r4 where r4: "finish_index Append compress r3 = Some (ih, r4)"
    using f r1 r2 r3 by (auto simp: TableBuilder_Finish_def bind_eq_Some_conv split: if_splits)
  have r5: "finish_footer Append mh ih r4 = Some r'" "s = tb_status r'"
    using f r1 r2 r3 r4 by (auto simp: TableBuilder_Finish_def split: if_splits)
  have "honest failed (r1\<lparr>closed := True\<rparr>)"
    using Flush_honest [OF rec h r1] by (simp add: honest_def)
  then have h2: "honest failed r2"
  proof (cases "\<exists>fb. filter_block r1 = Some fb \<and> ok (tb_status r1)")
    case True
    then obtain fb where fb: "filter_block r1 = Some fb" "ok (tb_status r1)"
      by blast
    obtain contents fb' where c: "FilterBlock_Finish create fb = (contents, fb')"
      by fastforce
    let ?r = "r1\<lparr>closed := True, filter_block := Some fb'\<rparr>"
    have "WriteRawBlock Append contents kNoCompression ?r = (fh, r2)"
      using r2 fb c by (simp add: finish_filter_def)
    moreover have "honest failed ?r" "ok (tb_status ?r)"
      using \<open>honest failed (r1\<lparr>closed := True\<rparr>)\<close> fb by (simp_all add: honest_def)
    ultimately show ?thesis
      using WriteRawBlock_honest [OF rec] by blast
  qed (use r2 in \<open>auto simp: finish_filter_def split: option.splits\<close>)
  have h3: "honest failed r3"
  proof (cases "ok (tb_status r2)")
    case True
    then obtain meta hd b where "WriteBlock Append compress meta r2 = Some (hd, b, r3)"
      using r3 by (auto simp: finish_metaindex_def bind_eq_Some_conv)
    then show ?thesis
      using WriteBlock_honest [OF rec h2] by blast
  qed (use r3 h2 in \<open>simp add: finish_metaindex_def\<close>)
  have h4: "honest failed r4"
  proof (cases "ok (tb_status r3)")
    case True
    then obtain ra rb hd b where w: "(if pending_index_entry r3
         then add_index_entry (FindShortSuccessor (opt_comparator (tb_options r3)) (tb_last_key r3)) r3 else Some r3) = Some ra"
      "WriteBlock Append compress (tb_index_block ra) ra = Some (hd, b, rb)" "r4 = rb\<lparr>tb_index_block := b\<rparr>"
      using r4 by (auto simp: finish_index_def bind_eq_Some_conv)
    have "honest failed ra"
      using w(1) h3 add_index_entry_same honest_update by (metis option.inject)
    from WriteBlock_honest [OF rec this w(2)] show ?thesis
      using w(3) by (simp add: honest_def)
  qed (use r4 h3 in \<open>simp add: finish_index_def\<close>)
  have "honest failed r'"
    using r5(1) h4 rec by (auto simp: finish_footer_def honest_def records_errors_def Let_def split: if_splits option.splits prod.splits)
  then show ?thesis
    using r5(2) by blast
qed

section \<open>Properties\<close>

text \<open>C12. No error is lost: \<open>Finish\<close> of a table builder returns success exactly when no call of \<open>Append\<close> or \<open>Flush\<close> of
  the file failed since the builder was made, whatever the file does, for all options and filter policies.\<close>

theorem builder_reports_errors:
  assumes "records_errors Append Flush failed" and "\<not> failed f" and "TableBuilder_new opts f = Some r"
    and "TableBuilder_Adds Append Flush compress create kvs r = Some r1" and "TableBuilder_Finish Append Flush compress create r1 = Some (s, r2)"
  shows "ok s \<longleftrightarrow> \<not> failed (tb_file r2)"
proof -
  have "tb_status r = OK" "tb_file r = f"
    using assms(3) by (auto simp: TableBuilder_new_def Let_def split: option.splits)
  then have "honest failed r"
    using assms(2) by (simp add: honest_def)
  from Adds_honest [OF assms(1) this assms(4)] Finish_honest [OF assms(1) _ assms(5)] show ?thesis
    by (auto simp: honest_def)
qed

text \<open>A file whose \<open>Append\<close> always fails.\<close>

theorem builder_reports_errors_witness:
  "\<exists>r r2 s. TableBuilder_new Options_new False = Some r \<and>
     TableBuilder_Finish (\<lambda>f d. (IOError (str ''full'') [], True)) (\<lambda>f. (OK, f)) (\<lambda>_. None) (\<lambda>_ dst. dst) r = Some (s, r2) \<and> \<not> ok s"
proof -
  let ?A = "\<lambda>(f :: bool) (d :: bytes). (IOError (str ''full'') [], True)" and ?F = "\<lambda>f :: bool. (OK, f)"
    and ?c = "\<lambda>_ :: bytes. None :: bytes option" and ?k = "\<lambda>_ dst. dst :: bytes"
  have err: "\<not> ok (IOError (str ''full'') [])"
    by (simp add: IOError_def)
  have rec: "records_errors ?A ?F id"
    using err by (simp add: records_errors_def)
  obtain r where r: "TableBuilder_new Options_new False = Some r" "closed r = False" "tb_status r = OK" "filter_block r = None"
    "compression (tb_options r) = kNoCompression \<or> compression (tb_options r) = kSnappyCompression" "block_restart_interval (tb_options r) = 16"
    "BlockBuilder_empty (data_block r)"
    by (simp add: TableBuilder_new_def Options_new_def BlockBuilder_new_def BlockBuilder_empty_def)
  have raw: "tb_status (snd (WriteRawBlock ?A contents t q)) = IOError (str ''full'') [] \<and> tb_file (snd (WriteRawBlock ?A contents t q))"
    for contents t and q :: "bool TableBuilder"
    using err by (simp add: WriteRawBlock_def Let_def)
  have block: "\<exists>h b2 r2. WriteBlock ?A ?c b q = Some (h, b2, r2) \<and> tb_status r2 = IOError (str ''full'') [] \<and> tb_file r2"
    if "ok (tb_status q)" for b and q :: "bool TableBuilder"
    using that by (simp only: WriteBlock_def Let_def split_def if_False not_True_eq_False) (simp add: raw)
  obtain meta where meta: "BlockBuilder_new 16 = Some meta"
    by (simp add: BlockBuilder_new_def)
  obtain h b2 r2 where w: "WriteBlock ?A ?c meta (r\<lparr>closed := True\<rparr>) = Some (h, b2, r2)" "tb_status r2 = IOError (str ''full'') []" "tb_file r2"
    using block [of "r\<lparr>closed := True\<rparr>" meta] r(3) by auto
  then have m: "finish_metaindex ?A ?c BlockHandle_new (r\<lparr>closed := True\<rparr>) = Some (h, r2)" "tb_status r2 = IOError (str ''full'') []" "tb_file r2"
    using meta r(3,4,6) by (simp_all add: finish_metaindex_def)
  have "TableBuilder_Flush ?A ?F ?c ?k r = Some r" "finish_filter ?A ?k (r\<lparr>closed := True\<rparr>) = (BlockHandle_new, r\<lparr>closed := True\<rparr>)"
    "finish_index ?A ?c r2 = Some (BlockHandle_new, r2)" "finish_footer ?A h BlockHandle_new r2 = Some r2"
    using r m(2) err by (simp_all add: TableBuilder_Flush_def finish_filter_def finish_index_def finish_footer_def)
  then have f: "TableBuilder_Finish ?A ?F ?c ?k r = Some (tb_status r2, r2)"
    using r(2) m(1) by (simp add: TableBuilder_Finish_def)
  have "\<not> id False" "TableBuilder_Adds ?A ?F ?c ?k [] r = Some r"
    by simp_all
  from builder_reports_errors [OF rec this(1) r(1) this(2) f] m(3) have "\<not> ok (tb_status r2)"
    by simp
  then show ?thesis
    using r(1) f by blast
qed

end
