(* ===== verification/Cache.thy ===== *)
theory Cache
  imports Coding Slice Bloom
begin

text \<open>
  The cache (\<^verbatim>\<open>include/leveldb/cache.h\<close>, \<^verbatim>\<open>util/cache.cpp\<close>): a hash table of reference-counted entries
  that are also kept in a circular doubly linked list in the order of their last use.

  The memory is modelled one field at a time: \<open>lru_next\<close>, \<open>lru_prev\<close> and \<open>next_hash\<close> map an address to
  the pointer stored there, \<open>handles\<close> maps it to the other fields of a \<open>LRUHandle\<close>, or to
  \<^const>\<open>None\<close> when nothing is allocated there; the address 0 is the list head \<open>lru_\<close>.  Loops along pointers are partial functions.
  \<^const>\<open>None\<close> stands for a failed assertion, the use of freed memory, or a loop that does not end.
  The mutex is held during each operation, so operations are atomic steps.
\<close>

unbundle bit_operations_syntax

section \<open>The interface\<close>

text \<open>A call of a method on a cache in state \<open>'c\<close>; handles have type \<open>'h\<close>.  The deleter passed to \<open>Insert\<close> is a
  value of type \<open>'d\<close>.\<close>

record ('v, 'd, 'h, 'c) Cache =
  Cache_Insert :: "bytes \<Rightarrow> 'v \<Rightarrow> nat \<Rightarrow> 'd \<Rightarrow> 'c \<Rightarrow> ('h \<times> 'c) option"
  Cache_Lookup :: "bytes \<Rightarrow> 'c \<Rightarrow> ('h option \<times> 'c) option"
  Cache_Release :: "'h \<Rightarrow> 'c \<Rightarrow> 'c option"
  Cache_Value :: "'h \<Rightarrow> 'c \<Rightarrow> 'v option"
  Cache_Erase :: "bytes \<Rightarrow> 'c \<Rightarrow> 'c option"
  Cache_NewId :: "'c \<Rightarrow> u64 \<times> 'c"

section \<open>State\<close>

text \<open>The field \<open>in_cache\<close> is never written or read.\<close>

record ('v, 'd) LRUHandle =
  h_value :: 'v
  h_deleter :: 'd
  h_charge :: u64
  h_key :: bytes
  h_refs :: u32
  h_hash :: u32

record HandleTable =
  ht_length :: u32
  ht_elems :: u32
  ht_list :: "nat option list"

text \<open>\<open>deleted\<close> are the calls of deleters so far.\<close>

record ('v, 'd) LRUCache =
  capacity :: u64
  usage :: u64
  lru_next :: "nat \<Rightarrow> nat"
  lru_prev :: "nat \<Rightarrow> nat"
  next_hash :: "nat \<Rightarrow> nat option"
  handles :: "nat \<Rightarrow> ('v, 'd) LRUHandle option"
  lru_table :: HandleTable
  deleted :: "('d \<times> bytes \<times> 'v) list"

text \<open>\<open>LRUHandle::key\<close>; an entry linked to itself would have its value read as a slice.\<close>

definition handle_key :: "('v, 'd) LRUCache \<Rightarrow> nat \<Rightarrow> bytes option" where
  "handle_key c e = (if lru_next c e = e then None else map_option h_key (handles c e))"

section \<open>HandleTable\<close>

text \<open>A pointer to a pointer: an element of the array, or the field \<open>next_hash\<close> of an entry.\<close>

datatype slot = Bucket nat | NextHash nat

fun slot_get :: "('v, 'd) LRUCache \<Rightarrow> slot \<Rightarrow> nat option" where
  "slot_get c (Bucket i) = ht_list (lru_table c) ! i"
| "slot_get c (NextHash e) = next_hash c e"

fun slot_set :: "slot \<Rightarrow> nat option \<Rightarrow> ('v, 'd) LRUCache \<Rightarrow> ('v, 'd) LRUCache" where
  "slot_set (Bucket i) p c = c\<lparr>lru_table := (lru_table c)\<lparr>ht_list := (ht_list (lru_table c))[i := p]\<rparr>\<rparr>"
| "slot_set (NextHash e) p c = c\<lparr>next_hash := (next_hash c)(e := p)\<rparr>"

partial_function (option) FindPointer_loop :: "('v, 'd) LRUCache \<Rightarrow> bytes \<Rightarrow> u32 \<Rightarrow> slot \<Rightarrow> slot option" where
  [code]: "FindPointer_loop c k hash ptr =
     (case slot_get c ptr of
        None \<Rightarrow> Some ptr
      | Some e \<Rightarrow>
          Option.bind (handles c e) (\<lambda>h.
            if h_hash h \<noteq> hash then FindPointer_loop c k hash (NextHash e)
            else
              Option.bind (handle_key c e) (\<lambda>ek.
                if \<not> Slice_eq k ek then FindPointer_loop c k hash (NextHash e) else Some ptr)))"

definition FindPointer :: "('v, 'd) LRUCache \<Rightarrow> bytes \<Rightarrow> u32 \<Rightarrow> slot option" where
  "FindPointer c k hash =
     (let i = unat (hash AND (ht_length (lru_table c) - 1)) in
      if i < length (ht_list (lru_table c)) then FindPointer_loop c k hash (Bucket i) else None)"

partial_function (option) Resize_length :: "u32 \<Rightarrow> u32 \<Rightarrow> u32 option" where
  [code]: "Resize_length elems new_length =
     (if new_length < elems then Resize_length elems (new_length * 2) else Some new_length)"

text \<open>The loop over the entries of one bucket; the state is the new array, the field \<open>next_hash\<close> and
  \<open>count\<close>.\<close>

partial_function (option) Resize_chain ::
  "(nat \<Rightarrow> ('v, 'd) LRUHandle option) \<Rightarrow> u32 \<Rightarrow> nat option \<Rightarrow> nat option list \<times> (nat \<Rightarrow> nat option) \<times> u32 \<Rightarrow>
     (nat option list \<times> (nat \<Rightarrow> nat option) \<times> u32) option" where
  [code]: "Resize_chain hs new_length p st =
     (case p of
        None \<Rightarrow> Some st
      | Some e \<Rightarrow>
          (case st of (new_list, nh, count) \<Rightarrow>
             Option.bind (hs e) (\<lambda>h.
               let i = unat (h_hash h AND (new_length - 1)) in
               if i < length new_list
               then Resize_chain hs new_length (nh e) (new_list[i := Some e], nh(e := new_list ! i), count + 1)
               else None)))"

definition HandleTable_Resize :: "('v, 'd) LRUCache \<Rightarrow> ('v, 'd) LRUCache option" where
  "HandleTable_Resize c =
     (let t = lru_table c in
      Option.bind (Resize_length (ht_elems t) 4) (\<lambda>new_length.
      Option.bind
        (fold (\<lambda>i st. Option.bind st (Resize_chain (handles c) new_length (ht_list t ! i))) [0..<unat (ht_length t)]
          (Some (replicate (unat new_length) None, next_hash c, 0)))
        (\<lambda>(new_list, nh, count).
           if ht_elems t = count
           then Some (c\<lparr>next_hash := nh, lru_table := \<lparr>ht_length = new_length, ht_elems = ht_elems t, ht_list = new_list\<rparr>\<rparr>)
           else None)))"

definition HandleTable_Lookup :: "bytes \<Rightarrow> u32 \<Rightarrow> ('v, 'd) LRUCache \<Rightarrow> nat option option" where
  "HandleTable_Lookup k hash c = map_option (slot_get c) (FindPointer c k hash)"

definition HandleTable_Insert :: "nat \<Rightarrow> ('v, 'd) LRUCache \<Rightarrow> (nat option \<times> ('v, 'd) LRUCache) option" where
  "HandleTable_Insert e c =
     (case (handles c e, handle_key c e) of
        (Some h, Some k) \<Rightarrow>
          Option.bind (FindPointer c k (h_hash h)) (\<lambda>ptr.
            let old = slot_get c ptr;
                c = c\<lparr>next_hash := (next_hash c)(e := (case old of None \<Rightarrow> None | Some x \<Rightarrow> next_hash c x))\<rparr>;
                c = slot_set ptr (Some e) c
            in if old = None then
                 let c = c\<lparr>lru_table := (lru_table c)\<lparr>ht_elems := ht_elems (lru_table c) + 1\<rparr>\<rparr>
                 in if ht_elems (lru_table c) > ht_length (lru_table c)
                    then map_option (\<lambda>c. (old, c)) (HandleTable_Resize c) else Some (old, c)
               else Some (old, c))
      | _ \<Rightarrow> None)"

definition HandleTable_Remove :: "bytes \<Rightarrow> u32 \<Rightarrow> ('v, 'd) LRUCache \<Rightarrow> (nat option \<times> ('v, 'd) LRUCache) option" where
  "HandleTable_Remove k hash c =
     Option.bind (FindPointer c k hash) (\<lambda>ptr.
       case slot_get c ptr of
         None \<Rightarrow> Some (None, c)
       | Some e \<Rightarrow>
           let c = slot_set ptr (next_hash c e) c
           in Some (Some e, c\<lparr>lru_table := (lru_table c)\<lparr>ht_elems := ht_elems (lru_table c) - 1\<rparr>\<rparr>))"

section \<open>LRUCache\<close>

definition LRUCache_new :: "('v, 'd) LRUCache option" where
  "LRUCache_new =
     HandleTable_Resize \<lparr>capacity = 0, usage = 0, lru_next = (\<lambda>_. 0), lru_prev = (\<lambda>_. 0), next_hash = (\<lambda>_. None),
       handles = (\<lambda>_. None), lru_table = \<lparr>ht_length = 0, ht_elems = 0, ht_list = []\<rparr>, deleted = []\<rparr>"

definition SetCapacity :: "u64 \<Rightarrow> ('v, 'd) LRUCache \<Rightarrow> ('v, 'd) LRUCache" where
  "SetCapacity n c = c\<lparr>capacity := n\<rparr>"

definition LRU_Remove :: "nat \<Rightarrow> ('v, 'd) LRUCache \<Rightarrow> ('v, 'd) LRUCache" where
  "LRU_Remove e c =
     (let c = c\<lparr>lru_prev := (lru_prev c)(lru_next c e := lru_prev c e)\<rparr>
      in c\<lparr>lru_next := (lru_next c)(lru_prev c e := lru_next c e)\<rparr>)"

definition LRU_Append :: "nat \<Rightarrow> ('v, 'd) LRUCache \<Rightarrow> ('v, 'd) LRUCache" where
  "LRU_Append e c =
     (let c = c\<lparr>lru_next := (lru_next c)(e := 0)\<rparr>;
          c = c\<lparr>lru_prev := (lru_prev c)(e := lru_prev c 0)\<rparr>;
          c = c\<lparr>lru_next := (lru_next c)(lru_prev c e := e)\<rparr>
      in c\<lparr>lru_prev := (lru_prev c)(lru_next c e := e)\<rparr>)"

definition Unref :: "nat \<Rightarrow> ('v, 'd) LRUCache \<Rightarrow> ('v, 'd) LRUCache option" where
  "Unref e c =
     Option.bind (handles c e) (\<lambda>h.
       if \<not> h_refs h > 0 then None
       else
         let h = h\<lparr>h_refs := h_refs h - 1\<rparr>;
             c = c\<lparr>handles := (handles c)(e \<mapsto> h)\<rparr>
         in if h_refs h \<le> 0 then
              map_option (\<lambda>k. c\<lparr>usage := usage c - h_charge h, deleted := deleted c @ [(h_deleter h, k, h_value h)],
                handles := (handles c)(e := None)\<rparr>) (handle_key c e)
            else Some c)"

partial_function (option) LRUCache_delete_loop :: "nat \<Rightarrow> ('v, 'd) LRUCache \<Rightarrow> ('v, 'd) LRUCache option" where
  [code]: "LRUCache_delete_loop e c =
     (if e = 0 then Some c
      else
        let nxt = lru_next c e in
        Option.bind (handles c e) (\<lambda>h.
          if h_refs h = 1 then Option.bind (Unref e c) (LRUCache_delete_loop nxt) else None))"

definition LRUCache_delete :: "('v, 'd) LRUCache \<Rightarrow> ('v, 'd) LRUCache option" where
  "LRUCache_delete c = LRUCache_delete_loop (lru_next c 0) c"

definition LRUCache_Lookup :: "bytes \<Rightarrow> u32 \<Rightarrow> ('v, 'd) LRUCache \<Rightarrow> (nat option \<times> ('v, 'd) LRUCache) option" where
  "LRUCache_Lookup k hash c =
     Option.bind (HandleTable_Lookup k hash c) (\<lambda>e.
       case e of
         None \<Rightarrow> Some (None, c)
       | Some a \<Rightarrow>
           map_option (\<lambda>h. (e, LRU_Append a (LRU_Remove a (c\<lparr>handles := (handles c)(a \<mapsto> h\<lparr>h_refs := h_refs h + 1\<rparr>)\<rparr>))))
             (handles c a))"

definition LRUCache_Release :: "nat \<Rightarrow> ('v, 'd) LRUCache \<Rightarrow> ('v, 'd) LRUCache option" where
  "LRUCache_Release e c = Unref e c"

partial_function (option) evict :: "('v, 'd) LRUCache \<Rightarrow> ('v, 'd) LRUCache option" where
  [code]: "evict c =
     (if usage c > capacity c \<and> lru_next c 0 \<noteq> 0 then
        let old = lru_next c 0;
            c = LRU_Remove old c
        in (case (handle_key c old, handles c old) of
              (Some k, Some h) \<Rightarrow>
                Option.bind (HandleTable_Remove k (h_hash h) c) (\<lambda>(_, c). Option.bind (Unref old c) evict)
            | _ \<Rightarrow> None)
      else Some c)"

text \<open>\<open>e\<close> is the address that \<open>malloc\<close> returns.\<close>

definition LRUCache_Insert ::
  "nat \<Rightarrow> bytes \<Rightarrow> u32 \<Rightarrow> 'v \<Rightarrow> u64 \<Rightarrow> 'd \<Rightarrow> ('v, 'd) LRUCache \<Rightarrow> (nat \<times> ('v, 'd) LRUCache) option" where
  "LRUCache_Insert e k hash v chg del c =
     (let c = c\<lparr>handles := (handles c)(e \<mapsto>
            \<lparr>h_value = v, h_deleter = del, h_charge = chg, h_key = k, h_refs = 2, h_hash = hash\<rparr>)\<rparr>;
          c = LRU_Append e c;
          c = c\<lparr>usage := usage c + chg\<rparr>
      in Option.bind (HandleTable_Insert e c) (\<lambda>(old, c).
         Option.bind (case old of None \<Rightarrow> Some c | Some x \<Rightarrow> Unref x (LRU_Remove x c)) (\<lambda>c.
           map_option (\<lambda>c. (e, c)) (evict c))))"

definition LRUCache_Erase :: "bytes \<Rightarrow> u32 \<Rightarrow> ('v, 'd) LRUCache \<Rightarrow> ('v, 'd) LRUCache option" where
  "LRUCache_Erase k hash c =
     Option.bind (HandleTable_Remove k hash c) (\<lambda>(e, c).
       case e of None \<Rightarrow> Some c | Some a \<Rightarrow> Unref a (LRU_Remove a c))"

section \<open>ShardedLRUCache\<close>

definition kNumShardBits :: nat where
  "kNumShardBits = 4"

definition kNumShards :: nat where
  "kNumShards = 2 ^ kNumShardBits"

record ('v, 'd) ShardedLRUCache =
  shards :: "('v, 'd) LRUCache list"
  last_id :: u64

definition HashSlice :: "bytes \<Rightarrow> u32" where
  "HashSlice s = Hash s 0"

definition Shard :: "u32 \<Rightarrow> nat" where
  "Shard hash = unat (drop_bit (32 - kNumShardBits) hash)"

definition NewLRUCache :: "u64 \<Rightarrow> ('v, 'd) ShardedLRUCache option" where
  "NewLRUCache cap =
     map_option (\<lambda>c. \<lparr>shards = replicate kNumShards (SetCapacity ((cap + word_of_nat (kNumShards - 1)) div word_of_nat kNumShards) c),
        last_id = 0\<rparr>) LRUCache_new"

text \<open>The shards share one address space: an address is allocated in at most one of them.\<close>

definition handle_at :: "nat \<Rightarrow> ('v, 'd) ShardedLRUCache \<Rightarrow> ('v, 'd) LRUHandle option" where
  "handle_at e s = (case filter (\<lambda>c. handles c e \<noteq> None) (shards s) of [] \<Rightarrow> None | c # _ \<Rightarrow> handles c e)"

definition on_shard ::
  "u32 \<Rightarrow> (('v, 'd) LRUCache \<Rightarrow> ('r \<times> ('v, 'd) LRUCache) option) \<Rightarrow> ('v, 'd) ShardedLRUCache \<Rightarrow> ('r \<times> ('v, 'd) ShardedLRUCache) option" where
  "on_shard hash f s =
     (let i = Shard hash in
      if i < length (shards s) then map_option (\<lambda>(r, c). (r, s\<lparr>shards := (shards s)[i := c]\<rparr>)) (f (shards s ! i)) else None)"

definition Sharded_Insert ::
  "nat \<Rightarrow> bytes \<Rightarrow> 'v \<Rightarrow> nat \<Rightarrow> 'd \<Rightarrow> ('v, 'd) ShardedLRUCache \<Rightarrow> (nat \<times> ('v, 'd) ShardedLRUCache) option" where
  "Sharded_Insert e k v chg del s =
     (let hash = HashSlice k in on_shard hash (LRUCache_Insert e k hash v (word_of_nat chg) del) s)"

definition Sharded_Lookup :: "bytes \<Rightarrow> ('v, 'd) ShardedLRUCache \<Rightarrow> (nat option \<times> ('v, 'd) ShardedLRUCache) option" where
  "Sharded_Lookup k s = (let hash = HashSlice k in on_shard hash (LRUCache_Lookup k hash) s)"

definition Sharded_Release :: "nat \<Rightarrow> ('v, 'd) ShardedLRUCache \<Rightarrow> ('v, 'd) ShardedLRUCache option" where
  "Sharded_Release e s =
     Option.bind (handle_at e s) (\<lambda>h.
       map_option snd (on_shard (h_hash h) (map_option (Pair ()) \<circ> LRUCache_Release e) s))"

definition Sharded_Erase :: "bytes \<Rightarrow> ('v, 'd) ShardedLRUCache \<Rightarrow> ('v, 'd) ShardedLRUCache option" where
  "Sharded_Erase k s =
     (let hash = HashSlice k in map_option snd (on_shard hash (map_option (Pair ()) \<circ> LRUCache_Erase k hash) s))"

definition Sharded_Value :: "nat \<Rightarrow> ('v, 'd) ShardedLRUCache \<Rightarrow> 'v option" where
  "Sharded_Value e s = map_option h_value (handle_at e s)"

definition Sharded_NewId :: "('v, 'd) ShardedLRUCache \<Rightarrow> u64 \<times> ('v, 'd) ShardedLRUCache" where
  "Sharded_NewId s = (let n = last_id s + 1 in (n, s\<lparr>last_id := n\<rparr>))"

definition Sharded_delete :: "('v, 'd) ShardedLRUCache \<Rightarrow> ('d \<times> bytes \<times> 'v) list option" where
  "Sharded_delete s =
     map_option (concat \<circ> map deleted)
       (those (map LRUCache_delete (shards s)))"

text \<open>The interface; \<open>malloc\<close> gives the address of the next allocation.\<close>

definition ShardedLRUCache_ops :: "(('v, 'd) ShardedLRUCache \<Rightarrow> nat) \<Rightarrow> ('v, 'd, nat, ('v, 'd) ShardedLRUCache) Cache" where
  "ShardedLRUCache_ops malloc =
     \<lparr>Cache_Insert = (\<lambda>k v chg del s. Sharded_Insert (malloc s) k v chg del s), Cache_Lookup = Sharded_Lookup,
      Cache_Release = Sharded_Release, Cache_Value = Sharded_Value, Cache_Erase = Sharded_Erase, Cache_NewId = Sharded_NewId\<rparr>"

end
