(* ===== verification/Cache_Table.thy ===== *)
theory Cache_Table
  imports Cache "HOL-Library.Multiset"
begin

text \<open>
  The data structures of the cache: the circular list holds a sequence of addresses, and the hash table, over
  its chains and its resizing, a finite map from keys to addresses.
\<close>

unbundle bit_operations_syntax

section \<open>The doubly linked list\<close>

text \<open>The pointers lead from \<open>a\<close> over \<open>xs\<close> to \<open>b\<close> and back.\<close>

fun dseg :: "(nat \<Rightarrow> nat) \<Rightarrow> (nat \<Rightarrow> nat) \<Rightarrow> nat \<Rightarrow> nat list \<Rightarrow> nat \<Rightarrow> bool" where
  "dseg nxt prv a [] b \<longleftrightarrow> nxt a = b \<and> prv b = a"
| "dseg nxt prv a (x # xs) b \<longleftrightarrow> nxt a = x \<and> prv x = a \<and> dseg nxt prv x xs b"

definition lru_list :: "('v, 'd) LRUCache \<Rightarrow> nat list \<Rightarrow> bool" where
  "lru_list c xs \<longleftrightarrow> dseg (lru_next c) (lru_prev c) 0 xs 0 \<and> distinct xs \<and> 0 \<notin> set xs"

lemma dseg_append: "dseg nxt prv a (xs @ y # ys) b \<longleftrightarrow> dseg nxt prv a xs y \<and> dseg nxt prv y ys b"
  by (induction xs arbitrary: a) auto

lemma dseg_frame:
  assumes "u \<notin> set (a # xs)" and "v \<notin> set xs" and "v \<noteq> b"
  shows "dseg (nxt(u := p)) (prv(v := q)) a xs b \<longleftrightarrow> dseg nxt prv a xs b"
  using assms by (induction xs arbitrary: a) auto

lemma dseg_ends:
  assumes "dseg nxt prv a xs b"
  shows "nxt a = hd (xs @ [b])" and "prv b = last (a # xs)"
  using assms by (induction xs arbitrary: a) auto

lemma dseg_snoc: "dseg nxt prv a (xs @ [y]) b \<longleftrightarrow> dseg nxt prv a xs y \<and> nxt y = b \<and> prv b = y"
  by (simp add: dseg_append)

lemma dseg_remove:
  assumes seg: "dseg nxt prv 0 (ys @ e # zs) 0" and dist: "distinct (ys @ e # zs)" "0 \<notin> set (ys @ e # zs)"
  shows "dseg (nxt(prv e := nxt e)) (prv(nxt e := prv e)) 0 (ys @ zs) 0"
proof -
  have ys: "dseg nxt prv 0 ys e" and zs: "dseg nxt prv e zs 0"
    using seg by (simp_all add: dseg_append)
  have p: "prv e = last (0 # ys)" and n: "nxt e = hd (zs @ [0])"
    using dseg_ends [OF ys] dseg_ends [OF zs] by simp_all
  show ?thesis
  proof (cases zs)
    case Nil
    show ?thesis
    proof (cases ys rule: rev_cases)
      case (snoc ys' y)
      have "dseg nxt prv 0 ys' y"
        using ys snoc by (simp add: dseg_append)
      then have "dseg (nxt(y := 0)) (prv(0 := y)) 0 ys' y"
        using dist snoc Nil by (subst dseg_frame) auto
      then show ?thesis
        using p n Nil snoc by (simp add: dseg_append)
    qed (use p n Nil in simp)
  next
    case (Cons z zs')
    have z: "dseg nxt prv z zs' 0"
      using zs Cons by simp
    show ?thesis
    proof (cases ys rule: rev_cases)
      case Nil
      have "dseg (nxt(0 := z)) (prv(z := 0)) z zs' 0"
        using z dist Cons Nil by (subst dseg_frame) auto
      then show ?thesis
        using p n Cons Nil by simp
    next
      case (snoc ys' y)
      have y: "dseg nxt prv 0 ys' y"
        using ys snoc by (simp add: dseg_append)
      have "dseg (nxt(y := z)) (prv(z := y)) 0 ys' y" "dseg (nxt(y := z)) (prv(z := y)) z zs' 0"
        using y z dist Cons snoc by (subst dseg_frame; auto)+
      then show ?thesis
        using p n Cons snoc by (simp add: dseg_append)
    qed
  qed
qed

lemma LRU_Remove_list:
  assumes "lru_list c (ys @ e # zs)"
  shows "lru_list (LRU_Remove e c) (ys @ zs)"
proof -
  have seg: "dseg (lru_next c) (lru_prev c) 0 (ys @ e # zs) 0" and dist: "distinct (ys @ e # zs)" "0 \<notin> set (ys @ e # zs)"
    using assms by (simp_all add: lru_list_def)
  have "lru_next c e = hd (zs @ [0])"
    using dseg_ends(1) [of "lru_next c" "lru_prev c" e zs 0] seg by (simp add: dseg_append)
  then have ne: "lru_next c e \<noteq> e"
    using dist by (cases zs) auto
  have "lru_next (LRU_Remove e c) = (lru_next c)(lru_prev c e := lru_next c e)"
    "lru_prev (LRU_Remove e c) = (lru_prev c)(lru_next c e := lru_prev c e)"
    using ne by (auto simp: LRU_Remove_def Let_def)
  then show ?thesis
    using dseg_remove [OF seg dist] dist by (simp add: lru_list_def)
qed

lemma LRU_Append_list:
  assumes "lru_list c xs" and "e \<notin> set xs" and "e \<noteq> 0"
  shows "lru_list (LRU_Append e c) (xs @ [e])"
proof -
  have seg: "dseg (lru_next c) (lru_prev c) 0 xs 0" and dist: "distinct xs" "0 \<notin> set xs"
    using assms(1) by (simp_all add: lru_list_def)
  have l: "lru_prev c 0 = last (0 # xs)"
    by (rule dseg_ends(2) [OF seg])
  have eqs: "lru_next (LRU_Append e c) = (lru_next c)(e := 0, lru_prev c 0 := e)"
    "lru_prev (LRU_Append e c) = (lru_prev c)(e := lru_prev c 0, 0 := e)"
    using assms(2,3) l by (auto simp: LRU_Append_def Let_def)
  have "dseg (lru_next (LRU_Append e c)) (lru_prev (LRU_Append e c)) 0 (xs @ [e]) 0"
  proof (cases xs rule: rev_cases)
    case Nil
    then show ?thesis
      using l assms(3) by (simp add: eqs)
  next
    case (snoc ys y)
    have "dseg (lru_next c) (lru_prev c) 0 ys y"
      using seg snoc by (simp add: dseg_append)
    then have "dseg ((lru_next c)(e := 0, y := e)) ((lru_prev c)(e := y, 0 := e)) 0 ys y"
      using dist assms(2,3) snoc by (subst dseg_frame; auto)+
    then show ?thesis
      using l snoc dist assms(2,3) by (simp add: eqs dseg_append)
  qed
  then show ?thesis
    using dist assms(2,3) by (simp add: lru_list_def)
qed

section \<open>Chains of the hash table\<close>

fun chain :: "(nat \<Rightarrow> nat option) \<Rightarrow> nat option \<Rightarrow> nat list \<Rightarrow> bool" where
  "chain nh p [] \<longleftrightarrow> p = None"
| "chain nh p (x # xs) \<longleftrightarrow> p = Some x \<and> chain nh (nh x) xs"

lemma chain_frame: "x \<notin> set xs \<Longrightarrow> chain (nh(x := q)) p xs \<longleftrightarrow> chain nh p xs"
  by (induction xs arbitrary: p) auto

lemma chain_append: "chain nh p (ys @ y # zs) \<Longrightarrow> chain nh (nh y) zs"
  by (induction ys arbitrary: p) auto

lemma chain_update:
  assumes "chain nh p (ys @ zs)" and "ys \<noteq> []" and "distinct ys" and "chain nh q ws" and "last ys \<notin> set ws"
  shows "chain (nh(last ys := q)) p (ys @ ws)"
  using assms
proof (induction ys arbitrary: p)
  case (Cons y ys)
  show ?case
  proof (cases "ys = []")
    case True
    then show ?thesis
      using Cons.prems chain_frame [of y ws nh q q] by (simp add: fun_upd_def)
  next
    case False
    then have "last ys \<noteq> y"
      using Cons.prems(3) last_in_set by auto
    then show ?thesis
      using Cons False by simp
  qed
qed simp

text \<open>The entry at \<open>x\<close> is the one looked for.\<close>

definition matches :: "(nat \<Rightarrow> ('v, 'd) LRUHandle option) \<Rightarrow> bytes \<Rightarrow> u32 \<Rightarrow> nat \<Rightarrow> bool" where
  "matches hs k hash x \<longleftrightarrow> (\<exists>h. hs x = Some h \<and> h_hash h = hash \<and> h_key h = k)"

definition keyed :: "('v, 'd) LRUCache \<Rightarrow> nat \<Rightarrow> bool" where
  "keyed c x \<longleftrightarrow> handles c x \<noteq> None \<and> lru_next c x \<noteq> x"

lemma FindPointer_loop_spec:
  assumes "chain (next_hash c) (slot_get c ptr) xs" and "list_all (keyed c) xs"
  shows "\<exists>ys zs. xs = ys @ zs \<and> list_all (\<lambda>x. \<not> matches (handles c) k hash x) ys \<and>
    (zs \<noteq> [] \<longrightarrow> matches (handles c) k hash (hd zs)) \<and>
    FindPointer_loop c k hash ptr = Some (if ys = [] then ptr else NextHash (last ys)) \<and>
    slot_get c (if ys = [] then ptr else NextHash (last ys)) = (if zs = [] then None else Some (hd zs))"
  using assms
proof (induction xs arbitrary: ptr)
  case Nil
  then show ?case
    by (subst FindPointer_loop.simps) simp
next
  case (Cons x xs)
  obtain h where h: "handles c x = Some h" "handle_key c x = Some (h_key h)"
    using Cons.prems(2) by (auto simp: keyed_def handle_key_def)
  have x: "slot_get c ptr = Some x"
    using Cons.prems(1) by simp
  show ?case
  proof (cases "matches (handles c) k hash x")
    case True
    then have "FindPointer_loop c k hash ptr = Some ptr"
      using x h by (subst FindPointer_loop.simps) (simp add: matches_def Slice_eq_iff)
    then show ?thesis
      using x True by (intro exI [of _ "[]"] exI [of _ "x # xs"]) simp
  next
    case False
    then have step: "FindPointer_loop c k hash ptr = FindPointer_loop c k hash (NextHash x)"
      using x h by (subst FindPointer_loop.simps) (auto simp: matches_def Slice_eq_iff)
    have "chain (next_hash c) (slot_get c (NextHash x)) xs" "list_all (keyed c) xs"
      using Cons.prems by simp_all
    from Cons.IH [OF this] obtain ys zs where ih: "xs = ys @ zs" "list_all (\<lambda>x. \<not> matches (handles c) k hash x) ys"
      "zs \<noteq> [] \<longrightarrow> matches (handles c) k hash (hd zs)"
      "FindPointer_loop c k hash (NextHash x) = Some (if ys = [] then NextHash x else NextHash (last ys))"
      "slot_get c (if ys = [] then NextHash x else NextHash (last ys)) = (if zs = [] then None else Some (hd zs))"
      by blast
    then show ?thesis
      using step False by (intro exI [of _ "x # ys"] exI [of _ zs]) auto
  qed
qed

section \<open>The invariant of the hash table\<close>

definition bucket_of :: "u32 \<Rightarrow> ('v, 'd) LRUHandle \<Rightarrow> nat" where
  "bucket_of len h = unat (h_hash h AND (len - 1))"

text \<open>\<open>bss\<close> are the entries of the buckets.\<close>

definition buckets ::
  "(nat \<Rightarrow> ('v, 'd) LRUHandle option) \<Rightarrow> u32 \<Rightarrow> nat option list \<Rightarrow> (nat \<Rightarrow> nat option) \<Rightarrow> nat list list \<Rightarrow> bool" where
  "buckets hs len ps nh bss \<longleftrightarrow>
     length ps = unat len \<and> length bss = unat len \<and> distinct (concat bss) \<and>
     (\<forall>i < length bss. chain nh (ps ! i) (bss ! i) \<and>
        (\<forall>x \<in> set (bss ! i). \<exists>h. hs x = Some h \<and> bucket_of len h = i))"

definition unique_keys :: "(nat \<Rightarrow> ('v, 'd) LRUHandle option) \<Rightarrow> nat set \<Rightarrow> bool" where
  "unique_keys hs X \<longleftrightarrow> (\<forall>k hash. \<forall>x \<in> X. \<forall>y \<in> X. matches hs k hash x \<longrightarrow> matches hs k hash y \<longrightarrow> x = y)"

lemma unique_keys_mono: "unique_keys hs Y \<Longrightarrow> X \<subseteq> Y \<Longrightarrow> unique_keys hs X"
  unfolding unique_keys_def by blast

definition ht_inv :: "('v, 'd) LRUCache \<Rightarrow> nat list list \<Rightarrow> bool" where
  "ht_inv c bss \<longleftrightarrow>
     ht_length (lru_table c) > 0 \<and> buckets (handles c) (ht_length (lru_table c)) (ht_list (lru_table c)) (next_hash c) bss \<and>
     ht_elems (lru_table c) = word_of_nat (length (concat bss)) \<and>
     (\<forall>x \<in> set (concat bss). keyed c x) \<and> unique_keys (handles c) (set (concat bss))"

lemma ht_invI:
  assumes "ht_length (lru_table c) > 0" and "buckets (handles c) (ht_length (lru_table c)) (ht_list (lru_table c)) (next_hash c) bss"
    and "ht_elems (lru_table c) = word_of_nat (length (concat bss))"
    and "\<And>x. x \<in> set (concat bss) \<Longrightarrow> keyed c x" and "unique_keys (handles c) (set (concat bss))"
  shows "ht_inv c bss"
  unfolding ht_inv_def using assms by blast

lemma ht_invD:
  assumes "ht_inv c bss"
  shows "ht_length (lru_table c) > 0" and "buckets (handles c) (ht_length (lru_table c)) (ht_list (lru_table c)) (next_hash c) bss"
    and "ht_elems (lru_table c) = word_of_nat (length (concat bss))"
    and "x \<in> set (concat bss) \<Longrightarrow> keyed c x" and "unique_keys (handles c) (set (concat bss))"
  using assms unfolding ht_inv_def by blast+

lemma bucketsD:
  assumes "buckets hs len ps nh bss" and "i < length bss"
  shows "chain nh (ps ! i) (bss ! i)" and "x \<in> set (bss ! i) \<Longrightarrow> \<exists>h. hs x = Some h \<and> bucket_of len h = i"
  using assms unfolding buckets_def by blast+

lemma and_less: "(len :: u32) > 0 \<Longrightarrow> unat (w AND (len - 1)) < unat len"
  by (metis less_eq_dec_iff unat_mono word_and_le1 word_gt_0)

lemma concat_update:
  "i < length bss \<Longrightarrow> concat (bss[i := ws]) = concat (take i bss) @ ws @ concat (drop (Suc i) bss)"
  by (simp add: upd_conv_take_nth_drop)

lemma distinct_concat_disjoint:
  assumes "distinct (concat bss)" and "i < length bss" and "j < length bss" and "i \<noteq> j"
  shows "set (bss ! i) \<inter> set (bss ! j) = {}"
proof -
  have "set (bss ! j) \<subseteq> set (concat (take i bss)) \<union> set (concat (drop (Suc i) bss))"
  proof (cases "j < i")
    case True
    then have "bss ! j \<in> set (take i bss)"
      using assms(2) by (auto simp: in_set_conv_nth intro!: exI [of _ j])
    then show ?thesis
      by auto
  next
    case False
    then have "bss ! j \<in> set (drop (Suc i) bss)"
      using assms(3,4) by (auto simp: in_set_conv_nth intro!: exI [of _ "j - Suc i"])
    then show ?thesis
      by auto
  qed
  moreover have "distinct (concat (take i bss) @ bss ! i @ concat (drop (Suc i) bss))"
    using assms(1) concat_split_nth [OF assms(2)] by simp
  ultimately show ?thesis
    unfolding distinct_append set_append by blast
qed

lemma buckets_frame:
  assumes b: "buckets hs len ps nh bss" and e: "e \<notin> set (concat bss)"
  shows "buckets hs len ps (nh(e := q)) bss"
  unfolding buckets_def
proof (intro conjI allI impI)
  show "length ps = unat len" "length bss = unat len" "distinct (concat bss)"
    using b by (simp_all add: buckets_def)
  fix j
  assume j: "j < length bss"
  have "e \<notin> set (bss ! j)"
    using e nth_mem [OF j] by auto
  then show "chain (nh(e := q)) (ps ! j) (bss ! j)"
    using bucketsD(1) [OF b j] by (simp add: chain_frame)
  show "\<forall>x \<in> set (bss ! j). \<exists>h. hs x = Some h \<and> bucket_of len h = j"
    using bucketsD(2) [OF b j] by blast
qed

lemma buckets_replace:
  assumes b: "buckets hs len ps nh bss" and i: "i < length bss" "bss ! i = ys @ zs"
    and q: "chain nh q ws" and dist: "distinct (concat (bss[i := ys @ ws]))"
    and ws: "\<forall>x \<in> set ws. \<exists>h. hs x = Some h \<and> bucket_of len h = i"
  shows "buckets hs len (if ys = [] then ps[i := q] else ps) (if ys = [] then nh else nh(last ys := q)) (bss[i := ys @ ws])"
proof -
  let ?nh = "if ys = [] then nh else nh(last ys := q)" and ?ps = "if ys = [] then ps[i := q] else ps"
  have b': "distinct (concat bss)" "length ps = unat len" "length bss = unat len"
    "\<And>j. j < length bss \<Longrightarrow> chain nh (ps ! j) (bss ! j)"
    "\<And>j x. j < length bss \<Longrightarrow> x \<in> set (bss ! j) \<Longrightarrow> \<exists>h. hs x = Some h \<and> bucket_of len h = j"
    using b by (auto simp: buckets_def)
  have d: "distinct (ys @ ws)"
    using dist unfolding concat_update [OF i(1)] by (simp only: distinct_append)
  have "chain ?nh (?ps ! j) (bss[i := ys @ ws] ! j)" if j: "j < length bss" for j
  proof (cases "j = i")
    case True
    have "last ys \<notin> set ws" if "ys \<noteq> []"
      using d that last_in_set by fastforce
    then show ?thesis
      using True q b'(2,3) b'(4) [OF i(1)] i chain_update [of nh "ps ! i" ys zs q ws] d by auto
  next
    case False
    have "last ys \<notin> set (bss ! j)" if "ys \<noteq> []"
      using distinct_concat_disjoint [OF b'(1) i(1) j] False i(2) last_in_set [OF that] by auto
    then show ?thesis
      using False b'(4) [OF j] by (auto simp: chain_frame)
  qed
  moreover have "\<exists>h. hs x = Some h \<and> bucket_of len h = j" if "j < length bss" "x \<in> set (bss[i := ys @ ws] ! j)" for j x
    using that ws b'(5) [of j x] i by (cases "j = i") auto
  ultimately show ?thesis
    using b'(2,3) dist by (simp add: buckets_def)
qed

lemma FindPointer_inv:
  fixes hash :: u32
  assumes inv: "ht_inv c bss"
  defines "i \<equiv> unat (hash AND (ht_length (lru_table c) - 1))"
  obtains ys zs where "FindPointer c k hash = Some (if ys = [] then Bucket i else NextHash (last ys))"
    and "i < length bss" and "bss ! i = ys @ zs"
    and "slot_get c (if ys = [] then Bucket i else NextHash (last ys)) = (if zs = [] then None else Some (hd zs))"
    and "zs \<noteq> [] \<longrightarrow> matches (handles c) k hash (hd zs)"
    and "zs = [] \<longrightarrow> (\<forall>x \<in> set (concat bss). \<not> matches (handles c) k hash x)"
proof -
  let ?t = "lru_table c"
  have b: "buckets (handles c) (ht_length ?t) (ht_list ?t) (next_hash c) bss" and len: "ht_length ?t > 0"
    and keyed: "\<forall>x \<in> set (concat bss). keyed c x"
    using inv by (simp_all add: ht_inv_def)
  have i: "i < length bss" "i < length (ht_list ?t)"
    using b and_less [OF len] by (simp_all add: i_def buckets_def)
  have "chain (next_hash c) (slot_get c (Bucket i)) (bss ! i)" "list_all (keyed c) (bss ! i)"
    using bucketsD(1) [OF b i(1)] i keyed nth_mem [OF i(1)] by (auto simp: list_all_iff)
  from FindPointer_loop_spec [OF this, of k hash] obtain ys zs where ys: "bss ! i = ys @ zs"
    "list_all (\<lambda>x. \<not> matches (handles c) k hash x) ys" "zs \<noteq> [] \<longrightarrow> matches (handles c) k hash (hd zs)"
    "FindPointer_loop c k hash (Bucket i) = Some (if ys = [] then Bucket i else NextHash (last ys))"
    "slot_get c (if ys = [] then Bucket i else NextHash (last ys)) = (if zs = [] then None else Some (hd zs))"
    by blast
  have "\<not> matches (handles c) k hash x" if zs: "zs = []" and x: "x \<in> set (concat bss)" for x
  proof
    assume m: "matches (handles c) k hash x"
    obtain j where j: "j < length bss" "x \<in> set (bss ! j)"
      using x by (metis UN_E in_set_conv_nth set_concat)
    then obtain h where h: "handles c x = Some h" "bucket_of (ht_length ?t) h = j"
      using b unfolding buckets_def by blast
    then have "j = i"
      using m by (auto simp: matches_def i_def bucket_of_def)
    then show False
      using j ys(1,2) zs m by (auto simp: list_all_iff)
  qed
  moreover have "FindPointer c k hash = Some (if ys = [] then Bucket i else NextHash (last ys))"
    using i ys(4) by (simp add: FindPointer_def i_def)
  ultimately show ?thesis
    using that i(1) ys(1,3,5) by blast
qed

lemma ht_Lookup:
  assumes "ht_inv c bss"
  shows "\<exists>r. HandleTable_Lookup k hash c = Some r \<and>
    (case r of None \<Rightarrow> \<forall>x \<in> set (concat bss). \<not> matches (handles c) k hash x
     | Some x \<Rightarrow> x \<in> set (concat bss) \<and> matches (handles c) k hash x)"
proof -
  let ?i = "unat (hash AND (ht_length (lru_table c) - 1))"
  obtain ys zs where f: "FindPointer c k hash = Some (if ys = [] then Bucket ?i else NextHash (last ys))"
    "?i < length bss" "bss ! ?i = ys @ zs"
    "slot_get c (if ys = [] then Bucket ?i else NextHash (last ys)) = (if zs = [] then None else Some (hd zs))"
    "zs \<noteq> [] \<longrightarrow> matches (handles c) k hash (hd zs)"
    "zs = [] \<longrightarrow> (\<forall>x \<in> set (concat bss). \<not> matches (handles c) k hash x)"
    by (rule FindPointer_inv [OF assms, where k = k and hash = hash])
  have "hd zs \<in> set (concat bss)" if "zs \<noteq> []"
    using f(2,3) that nth_mem [OF f(2)] hd_in_set [OF that] by (auto intro!: bexI [of _ "bss ! ?i"])
  then show ?thesis
    using f by (cases "zs = []") (auto simp: HandleTable_Lookup_def)
qed

text \<open>Operations of the table change nothing else.\<close>

definition same_entries :: "('v, 'd) LRUCache \<Rightarrow> ('v, 'd) LRUCache \<Rightarrow> bool" where
  "same_entries c c' \<longleftrightarrow> (\<exists>nh t. c' = c\<lparr>next_hash := nh, lru_table := t\<rparr>)"

lemma same_entries_trans: "same_entries a b \<Longrightarrow> same_entries b c \<Longrightarrow> same_entries a c"
  unfolding same_entries_def by (elim exE) (rule exI, rule exI, simp)

lemma same_entries_simps:
  assumes "same_entries c c'"
  shows "handles c' = handles c" and "lru_next c' = lru_next c" and "lru_prev c' = lru_prev c" and "usage c' = usage c"
    and "capacity c' = capacity c" and "deleted c' = deleted c"
  using assms by (auto simp: same_entries_def)

text \<open>Writing to the slot after \<open>ys\<close>.\<close>

definition slot_after :: "nat \<Rightarrow> nat list \<Rightarrow> slot" where
  "slot_after i ys = (if ys = [] then Bucket i else NextHash (last ys))"

lemma slot_set_after:
  "slot_set (slot_after i ys) q c =
     c\<lparr>next_hash := (if ys = [] then next_hash c else (next_hash c)(last ys := q)),
       lru_table := (lru_table c)\<lparr>ht_list := (if ys = [] then (ht_list (lru_table c))[i := q] else ht_list (lru_table c))\<rparr>\<rparr>"
  by (simp add: slot_after_def)

lemma ht_Remove:
  assumes inv: "ht_inv c bss"
  shows "\<exists>r c' bss'. HandleTable_Remove k hash c = Some (r, c') \<and> same_entries c c' \<and> ht_inv c' bss' \<and>
    (case r of None \<Rightarrow> mset (concat bss') = mset (concat bss) \<and> (\<forall>x \<in> set (concat bss). \<not> matches (handles c) k hash x)
     | Some x \<Rightarrow> matches (handles c) k hash x \<and> mset (concat bss) = add_mset x (mset (concat bss')))"
proof -
  let ?t = "lru_table c" and ?i = "unat (hash AND (ht_length (lru_table c) - 1))"
  obtain ys zs where f: "FindPointer c k hash = Some (slot_after ?i ys)" "?i < length bss" "bss ! ?i = ys @ zs"
    "slot_get c (slot_after ?i ys) = (if zs = [] then None else Some (hd zs))"
    "zs \<noteq> [] \<longrightarrow> matches (handles c) k hash (hd zs)"
    "zs = [] \<longrightarrow> (\<forall>x \<in> set (concat bss). \<not> matches (handles c) k hash x)"
    unfolding slot_after_def by (rule FindPointer_inv [OF inv, where k = k and hash = hash])
  show ?thesis
  proof (cases zs)
    case Nil
    then have "HandleTable_Remove k hash c = Some (None, c)"
      using f by (simp add: HandleTable_Remove_def)
    moreover have "same_entries c c"
      unfolding same_entries_def by (intro exI [of _ "next_hash c"] exI [of _ "lru_table c"]) simp
    ultimately show ?thesis
      using Nil f(6) inv by (intro exI [of _ None] exI [of _ c] exI [of _ bss]) simp
  next
    case (Cons z zs')
    have b: "buckets (handles c) (ht_length ?t) (ht_list ?t) (next_hash c) bss"
      using inv by (simp add: ht_inv_def)
    have dist: "distinct (concat bss)"
      using b by (simp add: buckets_def)
    have split: "concat bss = concat (take ?i bss) @ (ys @ z # zs') @ concat (drop (Suc ?i) bss)"
      using concat_split_nth [OF f(2)] f(3) Cons by simp
    let ?bss = "bss[?i := ys @ zs']"
    have split': "concat ?bss = concat (take ?i bss) @ (ys @ zs') @ concat (drop (Suc ?i) bss)"
      by (rule concat_update [OF f(2)])
    have m: "mset (concat bss) = add_mset z (mset (concat ?bss))"
      unfolding split split' by simp
    have dist': "distinct (concat ?bss)" and sub: "set (concat ?bss) \<subseteq> set (concat bss)"
      using dist unfolding split split' by (auto simp del: set_concat)
    have ch: "chain (next_hash c) (next_hash c z) zs'"
      using bucketsD(1) [OF b f(2)] f(3) Cons chain_append [of "next_hash c" "ht_list ?t ! ?i" ys z zs'] by simp
    have zs: "\<forall>x \<in> set zs'. \<exists>h. handles c x = Some h \<and> bucket_of (ht_length ?t) h = ?i"
      using bucketsD(2) [OF b f(2)] f(3) Cons by simp
    let ?c = "(slot_set (slot_after ?i ys) (next_hash c z) c)"
    let ?c' = "?c\<lparr>lru_table := (lru_table ?c)\<lparr>ht_elems := ht_elems (lru_table ?c) - 1\<rparr>\<rparr>"
    have "HandleTable_Remove k hash c = Some (Some z, ?c')"
      using f(1,4) Cons by (simp add: HandleTable_Remove_def Let_def)
    moreover have same: "same_entries c ?c'"
      unfolding slot_set_after same_entries_def by (rule exI, rule exI) simp
    moreover have "ht_inv ?c' ?bss"
    proof (rule ht_invI)
      show "0 < ht_length (lru_table ?c')"
        using ht_invD(1) [OF inv] by (simp add: slot_set_after)
      show "buckets (handles ?c') (ht_length (lru_table ?c')) (ht_list (lru_table ?c')) (next_hash ?c') ?bss"
        using buckets_replace [OF b f(2,3) ch dist' zs] by (simp add: slot_set_after)
      have "length (concat bss) = Suc (length (concat ?bss))"
        unfolding split split' by simp
      then show "ht_elems (lru_table ?c') = word_of_nat (length (concat ?bss))"
        using ht_invD(3) [OF inv] by (simp add: slot_set_after)
      show "keyed ?c' x" if "x \<in> set (concat ?bss)" for x
        using ht_invD(4) [OF inv, of x] subsetD [OF sub that] by (simp add: slot_set_after keyed_def)
      show "unique_keys (handles ?c') (set (concat ?bss))"
        using unique_keys_mono [OF ht_invD(5) [OF inv] sub] by (simp add: slot_set_after)
    qed
    ultimately show ?thesis
      using f(5) Cons m by (intro exI [of _ "Some z"] exI [of _ ?c'] exI [of _ ?bss]) simp
  qed
qed

section \<open>Resizing\<close>

lemma Resize_length_ok:
  assumes "unat elems \<le> 2 ^ 31" and "n > 0"
  shows "\<exists>m. Resize_length elems n = Some m \<and> m > 0"
  using assms(2)
proof (induction "unat elems - unat n" arbitrary: n rule: less_induct)
  case less
  show ?case
  proof (cases "n < elems")
    case True
    then have n: "unat n < 2 ^ 31" "unat n > 0" "unat n < unat elems"
      using assms(1) less.prems by (simp_all add: word_less_nat_alt)
    then have d: "unat (n * 2) = 2 * unat n"
      by (simp add: unat_word_ariths)
    then have "unat elems - unat (n * 2) < unat elems - unat n" "n * 2 > 0"
      using n by (simp_all add: word_less_nat_alt)
    from less.hyps [OF this] show ?thesis
      using True by (subst Resize_length.simps) simp
  qed (use less.prems in \<open>simp add: Resize_length.simps\<close>)
qed

lemma chain_cong: "(\<And>y. y \<in> set xs \<Longrightarrow> nh y = nh' y) \<Longrightarrow> chain nh p xs \<longleftrightarrow> chain nh' p xs"
  by (induction xs arbitrary: p) auto

lemma Resize_chain_ok:
  assumes "buckets hs len nl nh nbs" and "chain nh p xs" and "distinct (concat nbs @ xs)" and "\<forall>x \<in> set xs. hs x \<noteq> None"
    and "len > 0" and "cnt = word_of_nat (length (concat nbs))"
  shows "\<exists>nl' nh' cnt' nbs'. Resize_chain hs len p (nl, nh, cnt) = Some (nl', nh', cnt') \<and> buckets hs len nl' nh' nbs' \<and>
    mset (concat nbs') = mset (concat nbs @ xs) \<and> cnt' = word_of_nat (length (concat nbs')) \<and> (\<forall>y. y \<notin> set xs \<longrightarrow> nh' y = nh y)"
  using assms
proof (induction xs arbitrary: p nl nh cnt nbs)
  case Nil
  then show ?case
    by (subst Resize_chain.simps) auto
next
  case (Cons e xs)
  note b = Cons.prems(1)
  obtain h where h: "hs e = Some h"
    using Cons.prems(4) by auto
  let ?i = "bucket_of len h"
  have i: "?i < length nl" "?i < length nbs"
    using b and_less [OF Cons.prems(5)] by (simp_all add: buckets_def bucket_of_def)
  have p: "p = Some e" "chain nh (nh e) xs"
    using Cons.prems(2) by simp_all
  let ?nh = "nh(e := nl ! ?i)" and ?nl = "nl[?i := Some e]" and ?nbs = "nbs[?i := e # nbs ! ?i]"
  have split: "concat ?nbs = concat (take ?i nbs) @ (e # nbs ! ?i) @ concat (drop (Suc ?i) nbs)"
    by (rule concat_update [OF i(2)])
  have m: "mset (concat ?nbs) = add_mset e (mset (concat nbs))"
    unfolding split concat_split_nth [OF i(2)] by simp
  have e: "e \<notin> set (concat nbs)" "e \<notin> set xs" "distinct (concat nbs)"
    using Cons.prems(3) by (auto simp del: set_concat)
  have dist: "distinct (concat ?nbs)"
    using m e mset_eq_imp_distinct_iff [of "concat ?nbs" "e # concat nbs"] by simp
  note b1 = buckets_frame [OF b e(1), of "nl ! ?i"]
  have ch: "chain ?nh (Some e) (e # nbs ! ?i)"
    using bucketsD(1) [OF b1 i(2)] by simp
  have "\<forall>x \<in> set (e # nbs ! ?i). \<exists>h. hs x = Some h \<and> bucket_of len h = ?i"
    using bucketsD(2) [OF b i(2)] h by auto
  from buckets_replace [OF b1 i(2), of "[]", OF _ ch _ this] dist have b2: "buckets hs len ?nl ?nh ?nbs"
    by simp
  have "chain ?nh (nh e) xs"
    using p(2) e(2) by (simp add: chain_frame)
  moreover have "distinct (concat ?nbs @ xs)"
    using m Cons.prems(3) mset_eq_imp_distinct_iff [of "concat ?nbs @ xs" "concat nbs @ e # xs"] by simp
  moreover have "\<forall>x \<in> set xs. hs x \<noteq> None"
    using Cons.prems(4) by simp
  moreover have "length (concat ?nbs) = Suc (length (concat nbs))"
    using arg_cong [OF m, of size] by simp
  then have "cnt + 1 = word_of_nat (length (concat ?nbs))"
    using Cons.prems(6) by (simp add: add.commute)
  ultimately obtain nl' nh' cnt' nbs' where ih: "Resize_chain hs len (nh e) (?nl, ?nh, cnt + 1) = Some (nl', nh', cnt')"
    "buckets hs len nl' nh' nbs'" "mset (concat nbs') = mset (concat ?nbs @ xs)" "cnt' = word_of_nat (length (concat nbs'))"
    "\<forall>y. y \<notin> set xs \<longrightarrow> nh' y = ?nh y"
    using Cons.IH [OF b2 _ _ _ Cons.prems(5)] by blast
  have step: "Resize_chain hs len p (nl, nh, cnt) = Some (nl', nh', cnt')"
    using ih(1) p(1) h i(1) by (subst Resize_chain.simps) (simp add: bucket_of_def)
  show ?case
    using step ih(2-5) m by (intro exI [of _ nl'] exI [of _ nh'] exI [of _ cnt'] exI [of _ nbs']) simp
qed

lemma Resize_fold_ok:
  assumes "buckets hs len nl nh nbs" and "\<forall>i \<in> set js. chain nh (ps ! i) (bss ! i)"
    and "distinct (concat nbs @ concat (map ((!) bss) js))" and "\<forall>x \<in> set (concat (map ((!) bss) js)). hs x \<noteq> None"
    and "len > 0" and "cnt = word_of_nat (length (concat nbs))"
  shows "\<exists>nl' nh' cnt' nbs'. fold (\<lambda>i st. Option.bind st (Resize_chain hs len (ps ! i))) js (Some (nl, nh, cnt)) = Some (nl', nh', cnt') \<and>
    buckets hs len nl' nh' nbs' \<and> mset (concat nbs') = mset (concat nbs @ concat (map ((!) bss) js)) \<and>
    cnt' = word_of_nat (length (concat nbs'))"
  using assms
proof (induction js arbitrary: nl nh cnt nbs)
  case (Cons j js)
  let ?xs = "bss ! j" and ?rest = "concat (map ((!) bss) js)"
  have d: "distinct (concat nbs @ ?xs)" "set ?xs \<inter> set ?rest = {}"
    using Cons.prems(3) by (auto simp del: set_concat)
  have "\<forall>x \<in> set ?xs. hs x \<noteq> None" "chain nh (ps ! j) ?xs"
    using Cons.prems(2,4) by auto
  from Resize_chain_ok [OF Cons.prems(1) this(2) d(1) this(1) Cons.prems(5,6)] obtain nl1 nh1 cnt1 nbs1 where
    1: "Resize_chain hs len (ps ! j) (nl, nh, cnt) = Some (nl1, nh1, cnt1)" "buckets hs len nl1 nh1 nbs1"
      "mset (concat nbs1) = mset (concat nbs @ ?xs)" "cnt1 = word_of_nat (length (concat nbs1))" "\<forall>y. y \<notin> set ?xs \<longrightarrow> nh1 y = nh y"
    by blast
  have "\<forall>i \<in> set js. chain nh1 (ps ! i) (bss ! i)"
  proof
    fix i
    assume i: "i \<in> set js"
    have "nh1 y = nh y" if "y \<in> set (bss ! i)" for y
    proof -
      have "y \<in> set ?rest"
        using that i by auto
      then show ?thesis
        using 1(5) d(2) by blast
    qed
    then show "chain nh1 (ps ! i) (bss ! i)"
      using chain_cong [of "bss ! i" nh1 nh] Cons.prems(2) i by simp
  qed
  moreover have "distinct (concat nbs1 @ ?rest)"
    using Cons.prems(3) 1(3) mset_eq_imp_distinct_iff [of "concat nbs1 @ ?rest" "concat nbs @ ?xs @ ?rest"] by simp
  moreover have "\<forall>x \<in> set ?rest. hs x \<noteq> None"
    using Cons.prems(4) by simp
  ultimately obtain nl' nh' cnt' nbs' where
    "fold (\<lambda>i st. Option.bind st (Resize_chain hs len (ps ! i))) js (Some (nl1, nh1, cnt1)) = Some (nl', nh', cnt')"
    "buckets hs len nl' nh' nbs'" "mset (concat nbs') = mset (concat nbs1 @ ?rest)" "cnt' = word_of_nat (length (concat nbs'))"
    using Cons.IH [OF 1(2) _ _ _ Cons.prems(5) 1(4)] by blast
  then show ?case
    using 1(1,3) by (intro exI [of _ nl'] exI [of _ nh'] exI [of _ cnt'] exI [of _ nbs']) simp
qed auto

lemma ht_Resize:
  assumes b: "buckets (handles c) (ht_length (lru_table c)) (ht_list (lru_table c)) (next_hash c) bss"
    and elems: "ht_elems (lru_table c) = word_of_nat (length (concat bss))" and small: "length (concat bss) \<le> 2 ^ 31"
    and keyed: "\<forall>x \<in> set (concat bss). keyed c x" and unique: "unique_keys (handles c) (set (concat bss))"
  shows "\<exists>c' bss'. HandleTable_Resize c = Some c' \<and> same_entries c c' \<and> ht_inv c' bss' \<and> mset (concat bss') = mset (concat bss)"
proof -
  let ?t = "lru_table c"
  have "unat (ht_elems ?t) \<le> 2 ^ 31"
    using small by (simp add: elems unsigned_of_nat take_bit_nat_eq_self)
  from Resize_length_ok [OF this, of 4] obtain m where m: "Resize_length (ht_elems ?t) 4 = Some m" "m > 0"
    by auto
  have len: "length bss = unat (ht_length ?t)"
    using b by (simp add: buckets_def)
  have all: "map ((!) bss) [0..<unat (ht_length ?t)] = bss"
    unfolding len [symmetric] by (rule map_nth)
  have "buckets (handles c) m (replicate (unat m) None) (next_hash c) (replicate (unat m) [])"
    by (auto simp: buckets_def)
  moreover have "\<forall>i \<in> set [0..<unat (ht_length ?t)]. chain (next_hash c) (ht_list ?t ! i) (bss ! i)"
    using bucketsD(1) [OF b] len by auto
  moreover have "distinct (concat bss)" "\<forall>x \<in> set (concat bss). handles c x \<noteq> None"
    using b keyed by (auto simp: buckets_def keyed_def)
  moreover have "concat (replicate (unat m) []) = ([] :: nat list)"
    by simp
  ultimately obtain nl nh cnt nbs where r: "fold (\<lambda>i st. Option.bind st (Resize_chain (handles c) m (ht_list ?t ! i))) [0..<unat (ht_length ?t)]
      (Some (replicate (unat m) None, next_hash c, 0)) = Some (nl, nh, cnt)"
    "buckets (handles c) m nl nh nbs" "mset (concat nbs) = mset (concat bss)" "cnt = word_of_nat (length (concat nbs))"
    using Resize_fold_ok [of "handles c" m "replicate (unat m) None" "next_hash c" "replicate (unat m) []"
      "[0..<unat (ht_length ?t)]" "ht_list ?t" bss 0] m(2) by (auto simp: all)
  have len': "length (concat nbs) = length (concat bss)" and set: "set (concat nbs) = set (concat bss)"
    using r(3) by (metis size_mset, metis set_mset_mset)
  let ?c = "c\<lparr>next_hash := nh, lru_table := \<lparr>ht_length = m, ht_elems = ht_elems ?t, ht_list = nl\<rparr>\<rparr>"
  have "HandleTable_Resize c = Some ?c"
    using m(1) r(1,4) elems len' by (simp add: HandleTable_Resize_def Let_def)
  moreover have "same_entries c ?c"
    unfolding same_entries_def by blast
  moreover have "ht_inv ?c nbs"
    by (rule ht_invI) (use m(2) r(2) elems len' keyed unique set in \<open>auto simp: keyed_def simp del: set_concat\<close>)
  ultimately show ?thesis
    using r(3) by blast
qed

section \<open>Inserting\<close>

text \<open>The state before the number of elements is updated.\<close>

lemma ht_Insert_link:
  assumes inv: "ht_inv c bss" and e: "e \<notin> set (concat bss)" "handles c e = Some h" "keyed c e"
  obtains ys zs c1 bss1 where "FindPointer c (h_key h) (h_hash h) = Some (slot_after (bucket_of (ht_length (lru_table c)) h) ys)"
    and "slot_get c (slot_after (bucket_of (ht_length (lru_table c)) h) ys) = (if zs = [] then None else Some (hd zs))"
    and "c1 = slot_set (slot_after (bucket_of (ht_length (lru_table c)) h) ys) (Some e)
      (c\<lparr>next_hash := (next_hash c)(e := (if zs = [] then None else next_hash c (hd zs)))\<rparr>)"
    and "same_entries c c1" and "buckets (handles c) (ht_length (lru_table c)) (ht_list (lru_table c1)) (next_hash c1) bss1"
    and "unique_keys (handles c) (set (concat bss1))"
    and "zs = [] \<longrightarrow> mset (concat bss1) = add_mset e (mset (concat bss)) \<and> (\<forall>x \<in> set (concat bss). \<not> matches (handles c) (h_key h) (h_hash h) x)"
    and "zs \<noteq> [] \<longrightarrow> add_mset (hd zs) (mset (concat bss1)) = add_mset e (mset (concat bss)) \<and> matches (handles c) (h_key h) (h_hash h) (hd zs) \<and> hd zs \<in> set (concat bss)"
proof -
  let ?t = "lru_table c" and ?i = "bucket_of (ht_length (lru_table c)) h"
  obtain ys zs where f: "FindPointer c (h_key h) (h_hash h) = Some (slot_after ?i ys)" "?i < length bss" "bss ! ?i = ys @ zs"
    "slot_get c (slot_after ?i ys) = (if zs = [] then None else Some (hd zs))"
    "zs \<noteq> [] \<longrightarrow> matches (handles c) (h_key h) (h_hash h) (hd zs)"
    "zs = [] \<longrightarrow> (\<forall>x \<in> set (concat bss). \<not> matches (handles c) (h_key h) (h_hash h) x)"
    unfolding slot_after_def bucket_of_def by (rule FindPointer_inv [OF inv, where k = "h_key h" and hash = "h_hash h"])
  note b = ht_invD(2) [OF inv]
  have dist: "distinct (concat bss)"
    using b by (simp add: buckets_def)
  let ?q = "if zs = [] then None else next_hash c (hd zs)"
  let ?ws = "e # tl zs" and ?bss = "bss[?i := ys @ e # tl zs]"
  let ?c1 = "slot_set (slot_after ?i ys) (Some e) (c\<lparr>next_hash := (next_hash c)(e := ?q)\<rparr>)"
  have split: "concat bss = concat (take ?i bss) @ (ys @ zs) @ concat (drop (Suc ?i) bss)"
    using concat_split_nth [OF f(2)] f(3) by simp
  have split': "concat ?bss = concat (take ?i bss) @ (ys @ e # tl zs) @ concat (drop (Suc ?i) bss)"
    by (rule concat_update [OF f(2)])
  have m0: "zs = [] \<longrightarrow> mset (concat ?bss) = add_mset e (mset (concat bss))"
    unfolding split split' by simp
  have m1: "zs \<noteq> [] \<longrightarrow> add_mset (hd zs) (mset (concat ?bss)) = add_mset e (mset (concat bss))"
    unfolding split split' by (cases zs) simp_all
  have mem: "zs \<noteq> [] \<longrightarrow> hd zs \<in> set (concat bss)"
    unfolding split by (cases zs) simp_all
  have dist': "distinct (concat ?bss)" and sub: "set (concat ?bss) \<subseteq> insert e (set (concat bss) - set (take 1 zs))"
    using dist e(1) unfolding split split' by (cases zs; auto simp del: set_concat)+
  have tl: "chain ((next_hash c)(e := ?q)) ?q (tl zs)"
  proof (cases zs)
    case (Cons z zs')
    have "e \<notin> set zs'"
      using e(1) unfolding split by (auto simp: Cons)
    then show ?thesis
      using bucketsD(1) [OF b f(2)] f(3) Cons chain_append [of "next_hash c" "ht_list ?t ! ?i" ys z zs'] by (simp add: chain_frame)
  qed simp
  have ws: "\<forall>x \<in> set ?ws. \<exists>h. handles c x = Some h \<and> bucket_of (ht_length ?t) h = ?i"
    using bucketsD(2) [OF b f(2)] f(3) e(2) by (cases zs) auto
  have "buckets (handles c) (ht_length ?t) (ht_list (lru_table ?c1)) (next_hash ?c1) ?bss"
    using buckets_replace [OF buckets_frame [OF b e(1)] f(2,3) _ dist' ws, of ?q "Some e"] tl by (simp add: slot_set_after split del: if_split cong: if_cong)
  moreover have "same_entries c ?c1"
    unfolding slot_set_after same_entries_def by (rule exI, rule exI) simp
  moreover have "unique_keys (handles c) (set (concat ?bss))"
  proof -
    have u: "unique_keys (handles c) (set (concat bss))"
      by (rule ht_invD(5) [OF inv])
    have none: "\<not> matches (handles c) k hash x" if x: "x \<in> set (concat bss) - set (take 1 zs)" and me: "matches (handles c) k hash e" for k hash x
    proof -
      have k: "k = h_key h" "hash = h_hash h"
        using me e(2) by (auto simp: matches_def)
      show ?thesis
      proof (cases zs)
        case Nil
        then show ?thesis
          using f(6) x k by blast
      next
        case (Cons z zs')
        have "z \<in> set (concat bss)" "matches (handles c) k hash z" "x \<noteq> z"
          using f(5) Cons k x unfolding split by simp_all
        then show ?thesis
          using u x unfolding unique_keys_def by blast
      qed
    qed
    show ?thesis
      unfolding unique_keys_def
    proof (intro allI ballI impI)
      fix k hash x y
      assume x: "x \<in> set (concat ?bss)" and y: "y \<in> set (concat ?bss)" and m: "matches (handles c) k hash x" "matches (handles c) k hash y"
      have x': "x = e \<or> x \<in> set (concat bss) - set (take 1 zs)" and y': "y = e \<or> y \<in> set (concat bss) - set (take 1 zs)"
        using subsetD [OF sub x] subsetD [OF sub y] by blast+
      show "x = y"
        using x' y' m none u unfolding unique_keys_def by blast
    qed
  qed
  ultimately show ?thesis
    using that [OF f(1,4) refl] f(5,6) m0 m1 mem by (simp del: set_concat)
qed

lemma ht_Insert:
  assumes inv: "ht_inv c bss" and e: "e \<notin> set (concat bss)" "handles c e = Some h" "keyed c e" and small: "length (concat bss) < 2 ^ 31"
  shows "\<exists>old c' bss'. HandleTable_Insert e c = Some (old, c') \<and> same_entries c c' \<and> ht_inv c' bss' \<and>
    (case old of
       None \<Rightarrow> mset (concat bss') = add_mset e (mset (concat bss)) \<and> (\<forall>x \<in> set (concat bss). \<not> matches (handles c) (h_key h) (h_hash h) x)
     | Some x \<Rightarrow> add_mset x (mset (concat bss')) = add_mset e (mset (concat bss)) \<and> matches (handles c) (h_key h) (h_hash h) x \<and> x \<in> set (concat bss))"
proof -
  let ?i = "bucket_of (ht_length (lru_table c)) h"
  obtain ys zs c1 bss1 where f: "FindPointer c (h_key h) (h_hash h) = Some (slot_after ?i ys)"
    "slot_get c (slot_after ?i ys) = (if zs = [] then None else Some (hd zs))"
    "c1 = slot_set (slot_after ?i ys) (Some e) (c\<lparr>next_hash := (next_hash c)(e := (if zs = [] then None else next_hash c (hd zs)))\<rparr>)"
    and same: "same_entries c c1" and b: "buckets (handles c) (ht_length (lru_table c)) (ht_list (lru_table c1)) (next_hash c1) bss1"
    and unique: "unique_keys (handles c) (set (concat bss1))"
    and z0: "zs = [] \<longrightarrow> mset (concat bss1) = add_mset e (mset (concat bss)) \<and> (\<forall>x \<in> set (concat bss). \<not> matches (handles c) (h_key h) (h_hash h) x)"
    and z1: "zs \<noteq> [] \<longrightarrow> add_mset (hd zs) (mset (concat bss1)) = add_mset e (mset (concat bss)) \<and> matches (handles c) (h_key h) (h_hash h) (hd zs) \<and> hd zs \<in> set (concat bss)"
    by (rule ht_Insert_link [OF inv e])
  note s = same_entries_simps [OF same]
  have len: "ht_length (lru_table c1) = ht_length (lru_table c)" and el: "ht_elems (lru_table c1) = ht_elems (lru_table c)"
    unfolding f(3) slot_set_after by simp_all
  have keyed: "\<forall>x \<in> set (concat bss1). keyed c x"
  proof
    fix x
    assume "x \<in> set (concat bss1)"
    then have "x \<in># add_mset e (mset (concat bss))"
      using z0 z1 by (metis insert_iff set_mset_add_mset_insert set_mset_mset)
    then show "keyed c x"
      using e(3) ht_invD(4) [OF inv, of x] by (auto simp del: set_concat)
  qed
  have ek: "handle_key c e = Some (h_key h)"
    using e(2,3) by (simp add: keyed_def handle_key_def)
  show ?thesis
  proof (cases zs)
    case (Cons z zs')
    have "length (concat bss1) = length (concat bss)"
      using arg_cong [OF conjunct1 [OF mp [OF z1]], of size] Cons by simp
    then have "ht_inv c1 bss1"
      using ht_invD(1,3) [OF inv] b unique keyed by (intro ht_invI) (simp_all add: len el s keyed_def del: set_concat)
    moreover have "HandleTable_Insert e c = Some (Some z, c1)"
      using e(2) ek f Cons by (simp add: HandleTable_Insert_def Let_def)
    ultimately show ?thesis
      using same z1 Cons by (intro exI [of _ "Some z"] exI [of _ c1] exI [of _ bss1]) (simp del: set_concat)
  next
    case Nil
    let ?c2 = "c1\<lparr>lru_table := (lru_table c1)\<lparr>ht_elems := ht_elems (lru_table c1) + 1\<rparr>\<rparr>"
    have m: "mset (concat bss1) = add_mset e (mset (concat bss))"
      using z0 Nil by blast
    then have l: "length (concat bss1) = Suc (length (concat bss))"
      by (metis size_add_mset size_mset)
    have el2: "ht_elems (lru_table ?c2) = word_of_nat (length (concat bss1))"
      using ht_invD(3) [OF inv] l by (simp add: el)
    have same2: "same_entries c ?c2"
      using same unfolding same_entries_def by (elim exE) (rule exI, rule exI, simp)
    have k2: "\<forall>x \<in> set (concat bss1). keyed ?c2 x" and u2: "unique_keys (handles ?c2) (set (concat bss1))"
      and b2: "buckets (handles ?c2) (ht_length (lru_table ?c2)) (ht_list (lru_table ?c2)) (next_hash ?c2) bss1"
      using keyed unique b by (simp_all add: s keyed_def len del: set_concat)
    have ins: "HandleTable_Insert e c =
        (if ht_elems (lru_table ?c2) > ht_length (lru_table ?c2) then map_option (\<lambda>c. (None, c)) (HandleTable_Resize ?c2) else Some (None, ?c2))"
      using e(2) ek f Nil by (simp add: HandleTable_Insert_def Let_def)
    show ?thesis
    proof (cases "ht_elems (lru_table ?c2) > ht_length (lru_table ?c2)")
      case True
      obtain c3 bss3 where "HandleTable_Resize ?c2 = Some c3" "same_entries ?c2 c3" "ht_inv c3 bss3" "mset (concat bss3) = mset (concat bss1)"
        using ht_Resize [OF b2 el2 _ k2 u2] l small by auto
      then show ?thesis
        using ins True same_entries_trans [OF same2] m z0 Nil by (intro exI [of _ None] exI [of _ c3] exI [of _ bss3]) simp
    next
      case False
      have "ht_inv ?c2 bss1"
        using ht_invD(1) [OF inv] b2 el2 k2 u2 by (intro ht_invI) (simp_all add: len del: set_concat)
      then show ?thesis
        using ins False same2 m z0 Nil by (intro exI [of _ None] exI [of _ ?c2] exI [of _ bss1]) simp
    qed
  qed
qed

end
