(* ===== verification/Cache_Correct.thy ===== *)
theory Cache_Correct
  imports Cache_Table
begin

text \<open>
  The cache refines an abstract one, without pointers and hash table: the addresses of the entries in the order of their
  last use, and the entries that are live.
\<close>

section \<open>The abstract cache\<close>

text \<open>\<open>order\<close> are the addresses of the entries in the cache, least recently used first; \<open>live\<close> are the entries that
  are allocated, in the cache or held by a client.\<close>

record ('v, 'd) lru =
  order :: "nat list"
  live :: "nat \<Rightarrow> ('v, 'd) LRUHandle option"
  dels :: "('d \<times> bytes \<times> 'v) list"

definition total_charge :: "(nat \<Rightarrow> ('v, 'd) LRUHandle option) \<Rightarrow> u64" where
  "total_charge hs = (\<Sum>x \<in> dom hs. h_charge (the (hs x)))"

definition spec_unref :: "nat \<Rightarrow> ('v, 'd) lru \<Rightarrow> ('v, 'd) lru" where
  "spec_unref e a =
     (case live a e of
        None \<Rightarrow> a
      | Some h \<Rightarrow>
          if h_refs h = 1 then a\<lparr>live := (live a)(e := None), dels := dels a @ [(h_deleter h, h_key h, h_value h)]\<rparr>
          else a\<lparr>live := (live a)(e \<mapsto> h\<lparr>h_refs := h_refs h - 1\<rparr>)\<rparr>)"

definition spec_drop :: "nat \<Rightarrow> ('v, 'd) lru \<Rightarrow> ('v, 'd) lru" where
  "spec_drop e a = spec_unref e (a\<lparr>order := remove1 e (order a)\<rparr>)"

text \<open>The entry with a given key among \<open>ys\<close>.\<close>

definition lookup_in :: "(nat \<Rightarrow> ('v, 'd) LRUHandle option) \<Rightarrow> bytes \<Rightarrow> u32 \<Rightarrow> nat list \<Rightarrow> nat option" where
  "lookup_in hs k hash ys = List.find (matches hs k hash) ys"

definition spec_find :: "bytes \<Rightarrow> u32 \<Rightarrow> ('v, 'd) lru \<Rightarrow> nat option" where
  "spec_find k hash a = lookup_in (live a) k hash (order a)"

definition spec_Lookup :: "bytes \<Rightarrow> u32 \<Rightarrow> ('v, 'd) lru \<Rightarrow> nat option \<times> ('v, 'd) lru" where
  "spec_Lookup k hash a =
     (case spec_find k hash a of
        None \<Rightarrow> (None, a)
      | Some e \<Rightarrow>
          (Some e, a\<lparr>order := remove1 e (order a) @ [e],
             live := (live a)(e := map_option (\<lambda>h. h\<lparr>h_refs := h_refs h + 1\<rparr>) (live a e))\<rparr>))"

definition spec_Erase :: "bytes \<Rightarrow> u32 \<Rightarrow> ('v, 'd) lru \<Rightarrow> ('v, 'd) lru" where
  "spec_Erase k hash a = (case spec_find k hash a of None \<Rightarrow> a | Some e \<Rightarrow> spec_drop e a)"

lemma order_drop [simp]: "order (spec_drop e a) = remove1 e (order a)"
  by (simp add: spec_drop_def spec_unref_def split: option.splits)

function spec_evict :: "u64 \<Rightarrow> ('v, 'd) lru \<Rightarrow> ('v, 'd) lru" where
  "spec_evict cap a =
     (case order a of [] \<Rightarrow> a | e # es \<Rightarrow> if total_charge (live a) > cap then spec_evict cap (spec_drop e a) else a)"
  by pat_completeness auto
termination
  by (relation "measure (\<lambda>(cap, a). length (order a))") auto

declare spec_evict.simps [simp del]

definition new_handle :: "bytes \<Rightarrow> u32 \<Rightarrow> 'v \<Rightarrow> u64 \<Rightarrow> 'd \<Rightarrow> ('v, 'd) LRUHandle" where
  "new_handle k hash v chg del = \<lparr>h_value = v, h_deleter = del, h_charge = chg, h_key = k, h_refs = 2, h_hash = hash\<rparr>"

definition spec_Insert ::
  "u64 \<Rightarrow> nat \<Rightarrow> bytes \<Rightarrow> u32 \<Rightarrow> 'v \<Rightarrow> u64 \<Rightarrow> 'd \<Rightarrow> ('v, 'd) lru \<Rightarrow> ('v, 'd) lru" where
  "spec_Insert cap e k hash v chg del a =
     (let a1 = a\<lparr>order := order a @ [e], live := (live a)(e \<mapsto> new_handle k hash v chg del)\<rparr>
      in spec_evict cap (case spec_find k hash a of None \<Rightarrow> a1 | Some x \<Rightarrow> spec_drop x a1))"

text \<open>The invariant; every live entry is in the cache or held by a client, so its count is not 0.\<close>

definition lru_inv :: "('v, 'd) lru \<Rightarrow> bool" where
  "lru_inv a \<longleftrightarrow>
     distinct (order a) \<and> set (order a) \<subseteq> dom (live a) \<and> finite (dom (live a)) \<and> 0 \<notin> dom (live a) \<and>
     unique_keys (live a) (set (order a)) \<and> (\<forall>x h. live a x = Some h \<longrightarrow> h_refs h \<noteq> 0)"

section \<open>Refinement\<close>

text \<open>The list has the entries \<open>xs\<close>, the table \<open>ys\<close>.\<close>

definition cache_rel :: "('v, 'd) LRUCache \<Rightarrow> nat list \<Rightarrow> nat list \<Rightarrow> bool" where
  "cache_rel c xs ys \<longleftrightarrow>
     lru_list c xs \<and> (\<exists>bss. ht_inv c bss \<and> mset (concat bss) = mset ys) \<and> set xs \<subseteq> dom (handles c) \<and>
     finite (dom (handles c)) \<and> 0 \<notin> dom (handles c) \<and> usage c = total_charge (handles c) \<and> (\<forall>x \<in> dom (handles c). lru_next c x \<noteq> x)"

definition represents :: "('v, 'd) LRUCache \<Rightarrow> ('v, 'd) lru \<Rightarrow> bool" where
  "represents c a \<longleftrightarrow> lru_inv a \<and> cache_rel c (order a) (order a) \<and> handles c = live a \<and> deleted c = dels a"

definition same_keys :: "(nat \<Rightarrow> ('v, 'd) LRUHandle option) \<Rightarrow> (nat \<Rightarrow> ('v, 'd) LRUHandle option) \<Rightarrow> nat set \<Rightarrow> bool" where
  "same_keys hs hs' X \<longleftrightarrow>
     (\<forall>x \<in> X. \<exists>h h'. hs x = Some h \<and> hs' x = Some h' \<and> h_hash h' = h_hash h \<and> h_key h' = h_key h)"

lemma same_keys_matches: "same_keys hs hs' X \<Longrightarrow> x \<in> X \<Longrightarrow> matches hs' k hash x \<longleftrightarrow> matches hs k hash x"
  by (auto simp: same_keys_def matches_def)

lemma unique_keys_cong: "same_keys hs hs' X \<Longrightarrow> unique_keys hs X \<Longrightarrow> unique_keys hs' X"
  using same_keys_matches unfolding unique_keys_def by metis

lemma ht_inv_cong:
  assumes inv: "ht_inv c bss" and t: "lru_table c' = lru_table c" "next_hash c' = next_hash c"
    and same: "same_keys (handles c) (handles c') (set (concat bss))" and nx: "\<forall>x \<in> set (concat bss). lru_next c' x \<noteq> x"
  shows "ht_inv c' bss"
proof (rule ht_invI)
  note b = ht_invD(2) [OF inv]
  show "0 < ht_length (lru_table c')" "ht_elems (lru_table c') = word_of_nat (length (concat bss))"
    using ht_invD(1,3) [OF inv] by (simp_all add: t)
  show "buckets (handles c') (ht_length (lru_table c')) (ht_list (lru_table c')) (next_hash c') bss"
    unfolding buckets_def t
  proof (intro conjI allI impI ballI)
    show "length (ht_list (lru_table c)) = unat (ht_length (lru_table c))" "length bss = unat (ht_length (lru_table c))" "distinct (concat bss)"
      using b by (simp_all add: buckets_def)
    fix i
    assume i: "i < length bss"
    show "chain (next_hash c) (ht_list (lru_table c) ! i) (bss ! i)"
      by (rule bucketsD(1) [OF b i])
    fix x
    assume x: "x \<in> set (bss ! i)"
    then have "x \<in> set (concat bss)"
      using nth_mem [OF i] by auto
    then show "\<exists>h. handles c' x = Some h \<and> bucket_of (ht_length (lru_table c)) h = i"
      using same bucketsD(2) [OF b i x] by (auto simp: same_keys_def bucket_of_def simp del: set_concat dest!: bspec)
  qed
  show "keyed c' x" if "x \<in> set (concat bss)" for x
    using same nx that by (auto simp: same_keys_def keyed_def simp del: set_concat dest!: bspec)
  show "unique_keys (handles c') (set (concat bss))"
    by (rule unique_keys_cong [OF same ht_invD(5) [OF inv]])
qed

section \<open>Updates of the heap\<close>

lemma total_remove:
  assumes "finite (dom hs)" and "hs e = Some h"
  shows "total_charge (hs(e := None)) = total_charge hs - h_charge h"
proof -
  have "e \<in> dom hs"
    using assms(2) by auto
  from sum.remove [OF assms(1) this, of "\<lambda>x. h_charge (the (hs x))"] have "total_charge hs = h_charge h + (\<Sum>x \<in> dom hs - {e}. h_charge (the (hs x)))"
    by (simp add: total_charge_def assms(2))
  moreover have "total_charge (hs(e := None)) = (\<Sum>x \<in> dom hs - {e}. h_charge (the (hs x)))"
    unfolding total_charge_def by (rule sum.cong) auto
  ultimately show ?thesis
    by simp
qed

lemma total_add:
  assumes "finite (dom hs)" and "hs e = None"
  shows "total_charge (hs(e \<mapsto> h)) = total_charge hs + h_charge h"
  using total_remove [of "hs(e \<mapsto> h)" e h] assms by (simp add: fun_upd_idem)

lemma total_same:
  assumes "hs e = Some h" and "h_charge h' = h_charge h"
  shows "total_charge (hs(e \<mapsto> h')) = total_charge hs"
  unfolding total_charge_def using assms by (intro sum.cong) auto

lemma LRU_Remove_simps [simp]:
  "handles (LRU_Remove e c) = handles c" "lru_table (LRU_Remove e c) = lru_table c" "next_hash (LRU_Remove e c) = next_hash c"
  "usage (LRU_Remove e c) = usage c" "capacity (LRU_Remove e c) = capacity c" "deleted (LRU_Remove e c) = deleted c"
  by (simp_all add: LRU_Remove_def Let_def)

lemma LRU_Append_simps [simp]:
  "handles (LRU_Append e c) = handles c" "lru_table (LRU_Append e c) = lru_table c" "next_hash (LRU_Append e c) = next_hash c"
  "usage (LRU_Append e c) = usage c" "capacity (LRU_Append e c) = capacity c" "deleted (LRU_Append e c) = deleted c"
  by (simp_all add: LRU_Append_def Let_def)

lemma lru_list_next:
  assumes "lru_list c xs" and "x \<in> set xs"
  shows "lru_next c x \<noteq> x" and "lru_prev c x \<in> insert 0 (set xs)"
proof -
  obtain ys zs where xs: "xs = ys @ x # zs"
    using assms(2) by (meson split_list)
  have y: "dseg (lru_next c) (lru_prev c) 0 ys x" and z: "dseg (lru_next c) (lru_prev c) x zs 0"
    using assms(1) by (simp_all add: lru_list_def xs dseg_append)
  have "lru_next c x = hd (zs @ [0])" "lru_prev c x = last (0 # ys)"
    using dseg_ends(1) [OF z] dseg_ends(2) [OF y] by simp_all
  then show "lru_next c x \<noteq> x" "lru_prev c x \<in> insert 0 (set xs)"
    using assms(1) last_in_set [of ys] by (cases zs; auto simp: lru_list_def xs)+
qed

lemma lru_list_prev0: "lru_list c xs \<Longrightarrow> lru_prev c 0 \<in> insert 0 (set xs)"
  using dseg_ends(2) [of "lru_next c" "lru_prev c" 0 xs 0] last_in_set [of xs] by (auto simp: lru_list_def split: if_splits)

lemma LRU_Remove_next:
  assumes xs: "lru_list c xs" "e \<in> set xs" and x: "x \<noteq> 0" "lru_next c x \<noteq> x"
  shows "lru_next (LRU_Remove e c) x \<noteq> x"
proof -
  obtain ys zs where split: "xs = ys @ e # zs"
    using xs(2) by (meson split_list)
  note l = LRU_Remove_list [OF xs(1) [unfolded split]]
  show ?thesis
  proof (cases "x \<in> set (ys @ zs)")
    case True
    then show ?thesis
      by (rule lru_list_next(1) [OF l])
  next
    case False
    have "lru_prev c e \<noteq> e"
    proof -
      have "dseg (lru_next c) (lru_prev c) 0 ys e" "e \<notin> set ys" "e \<noteq> 0"
        using xs by (auto simp: lru_list_def split dseg_append)
      then show ?thesis
        using dseg_ends(2) [of "lru_next c" "lru_prev c" 0 ys e] last_in_set [of ys] by (auto split: if_splits)
    qed
    then have "lru_prev c e \<in> insert 0 (set (ys @ zs))" "lru_next c e \<noteq> e"
      using lru_list_next [OF xs] split by auto
    then have "lru_next (LRU_Remove e c) x = lru_next c x"
      using False x(1) by (auto simp: LRU_Remove_def Let_def)
    then show ?thesis
      using x(2) by simp
  qed
qed

lemma LRU_Append_next:
  assumes xs: "lru_list c xs" "e \<notin> set xs" "e \<noteq> 0" and x: "x \<noteq> 0" "x \<noteq> e \<longrightarrow> lru_next c x \<noteq> x"
  shows "lru_next (LRU_Append e c) x \<noteq> x"
proof (cases "x \<in> set (xs @ [e])")
  case True
  then show ?thesis
    by (rule lru_list_next(1) [OF LRU_Append_list [OF xs]])
next
  case False
  then have "lru_next (LRU_Append e c) x = lru_next c x"
    using x(1) lru_list_prev0 [OF xs(1)] by (auto simp: LRU_Append_def Let_def)
  then show ?thesis
    using x False by simp
qed

section \<open>Steps of the operations\<close>

lemma cache_relI:
  assumes "lru_list c xs" and "ht_inv c bss" and "mset (concat bss) = mset ys" and "set xs \<subseteq> dom (handles c)"
    and "finite (dom (handles c))" and "0 \<notin> dom (handles c)" and "usage c = total_charge (handles c)"
    and "\<And>x. x \<in> dom (handles c) \<Longrightarrow> lru_next c x \<noteq> x"
  shows "cache_rel c xs ys"
  unfolding cache_rel_def using assms by blast

lemma cache_relE:
  assumes "cache_rel c xs ys"
  obtains bss where "lru_list c xs" and "ht_inv c bss" and "mset (concat bss) = mset ys" and "set xs \<subseteq> dom (handles c)"
    and "finite (dom (handles c))" and "0 \<notin> dom (handles c)" and "usage c = total_charge (handles c)"
    and "\<forall>x \<in> dom (handles c). lru_next c x \<noteq> x"
  using assms unfolding cache_rel_def by blast

lemma same_keys_refl: "X \<subseteq> dom hs \<Longrightarrow> same_keys hs hs X"
  by (auto simp: same_keys_def)

lemma ht_inv_dom: "ht_inv c bss \<Longrightarrow> set (concat bss) \<subseteq> dom (handles c)"
  using ht_invD(4) by (fastforce simp: keyed_def simp del: set_concat)

lemma Remove_rel:
  assumes "cache_rel c xs ys" and e: "e \<in> set xs"
  shows "cache_rel (LRU_Remove e c) (remove1 e xs) ys"
  using assms(1)
proof (rule cache_relE)
  fix bss
  assume l: "lru_list c xs" and h: "ht_inv c bss" "mset (concat bss) = mset ys" and d: "set xs \<subseteq> dom (handles c)"
    "finite (dom (handles c))" "0 \<notin> dom (handles c)" and u: "usage c = total_charge (handles c)"
    and n: "\<forall>x \<in> dom (handles c). lru_next c x \<noteq> x"
  obtain as bs where s: "xs = as @ e # bs"
    using e by (meson split_list)
  have r: "remove1 e xs = as @ bs"
    using l by (simp add: s lru_list_def remove1_append)
  have n': "lru_next (LRU_Remove e c) x \<noteq> x" if "x \<in> dom (handles c)" for x
    using LRU_Remove_next [OF l e] n d(3) that by metis
  have "ht_inv (LRU_Remove e c) bss"
    using ht_inv_dom [OF h(1)] n' by (intro ht_inv_cong [OF h(1)]) (simp_all add: same_keys_refl subsetD del: set_concat)
  moreover have "lru_list (LRU_Remove e c) (remove1 e xs)"
    using LRU_Remove_list [of c as e bs] l s r by simp
  ultimately show ?thesis
    using h(2) d u n' subset_trans [OF set_remove1_subset d(1)] by (intro cache_relI) simp_all
qed

lemma Append_rel:
  assumes "cache_rel c xs ys" and e: "e \<in> dom (handles c)" "e \<notin> set xs"
  shows "cache_rel (LRU_Append e c) (xs @ [e]) ys"
  using assms(1)
proof (rule cache_relE)
  fix bss
  assume l: "lru_list c xs" and h: "ht_inv c bss" "mset (concat bss) = mset ys" and d: "set xs \<subseteq> dom (handles c)"
    "finite (dom (handles c))" "0 \<notin> dom (handles c)" and u: "usage c = total_charge (handles c)"
    and n: "\<forall>x \<in> dom (handles c). lru_next c x \<noteq> x"
  have e0: "e \<noteq> 0"
    using d(3) e(1) by metis
  have n': "lru_next (LRU_Append e c) x \<noteq> x" if "x \<in> dom (handles c)" for x
    using LRU_Append_next [OF l e(2) e0] n d(3) that by metis
  have "ht_inv (LRU_Append e c) bss"
    using ht_inv_dom [OF h(1)] n' by (intro ht_inv_cong [OF h(1)]) (simp_all add: same_keys_refl subsetD del: set_concat)
  then show ?thesis
    using LRU_Append_list [OF l e(2) e0] h(2) d u n' e(1) by (intro cache_relI) simp_all
qed

text \<open>The entries after a reference to \<open>e\<close> is dropped.\<close>

definition unref_handles :: "nat \<Rightarrow> ('v, 'd) LRUHandle \<Rightarrow> (nat \<Rightarrow> ('v, 'd) LRUHandle option) \<Rightarrow> nat \<Rightarrow> ('v, 'd) LRUHandle option" where
  "unref_handles e h hs = hs(e := (if h_refs h = 1 then None else Some (h\<lparr>h_refs := h_refs h - 1\<rparr>)))"

definition unref_dels :: "('v, 'd) LRUHandle \<Rightarrow> ('d \<times> bytes \<times> 'v) list" where
  "unref_dels h = (if h_refs h = 1 then [(h_deleter h, h_key h, h_value h)] else [])"

lemma Unref_eq:
  assumes "handles c e = Some h" and "h_refs h \<noteq> 0" and "lru_next c e \<noteq> e"
  shows "Unref e c = Some (c\<lparr>usage := (if h_refs h = 1 then usage c - h_charge h else usage c),
    deleted := deleted c @ unref_dels h, handles := unref_handles e h (handles c)\<rparr>)"
proof (cases "h_refs h = 1")
  case True
  then show ?thesis
    using assms by (simp add: Unref_def handle_key_def Let_def unref_dels_def unref_handles_def)
next
  case False
  then have "h_refs h - 1 \<noteq> 0"
    by simp
  then show ?thesis
    using assms False by (simp add: Unref_def Let_def word_gt_0 unref_dels_def unref_handles_def)
qed

lemma unref_same_keys:
  assumes "hs e = Some h" and "h_refs h = 1 \<longrightarrow> e \<notin> X" and "X \<subseteq> dom hs"
  shows "same_keys hs (unref_handles e h hs) X"
  using assms by (auto simp: same_keys_def unref_handles_def)

lemma unref_dom: "hs e = Some h \<Longrightarrow> dom (unref_handles e h hs) = (if h_refs h = 1 then dom hs - {e} else dom hs)"
  by (auto simp: unref_handles_def)

lemma Unref_rel:
  assumes "cache_rel c xs ys" and h: "handles c e = Some h" "h_refs h \<noteq> 0" "h_refs h = 1 \<longrightarrow> e \<notin> set xs \<and> e \<notin> set ys"
  obtains c' where "Unref e c = Some c'" and "cache_rel c' xs ys" and "handles c' = unref_handles e h (handles c)"
    and "deleted c' = deleted c @ unref_dels h" and "capacity c' = capacity c"
  using assms(1)
proof (rule cache_relE)
  fix bss
  assume l: "lru_list c xs" and t: "ht_inv c bss" "mset (concat bss) = mset ys" and d: "set xs \<subseteq> dom (handles c)"
    "finite (dom (handles c))" "0 \<notin> dom (handles c)" and u: "usage c = total_charge (handles c)"
    and n: "\<forall>x \<in> dom (handles c). lru_next c x \<noteq> x"
  let ?c = "c\<lparr>usage := (if h_refs h = 1 then usage c - h_charge h else usage c),
    deleted := deleted c @ unref_dels h, handles := unref_handles e h (handles c)\<rparr>"
  have "set (concat bss) = set ys"
    using t(2) by (rule mset_eq_setD)
  then have "same_keys (handles c) (handles ?c) (set (concat bss))"
    using unref_same_keys [where hs = "handles c" and e = e and h = h and X = "set (concat bss)"] h(1) h(3) ht_inv_dom [OF t(1)] by simp
  moreover have "\<forall>x \<in> set (concat bss). lru_next ?c x \<noteq> x"
    using ht_inv_dom [OF t(1)] n by (simp add: subset_iff del: set_concat)
  ultimately have "ht_inv ?c bss"
    by (intro ht_inv_cong [OF t(1)]) simp_all
  moreover have "usage ?c = total_charge (handles ?c)"
    using total_remove [where hs = "handles c" and e = e] d(2) h(1) total_same [where hs = "handles c" and e = e and h = h and h' = "h\<lparr>h_refs := h_refs h - 1\<rparr>"] u by (simp add: unref_handles_def)
  moreover have "lru_list ?c xs"
    using l by (simp add: lru_list_def)
  ultimately have "cache_rel ?c xs ys"
    using t(2) d n h(1,3) by (intro cache_relI) (auto simp: unref_dom split: if_splits)
  then show thesis
    using that [of ?c] Unref_eq [OF h(1,2)] n h(1) by (simp add: domI)
qed

lemma spec_unref_eq:
  assumes "live a e = Some h"
  shows "spec_unref e a = a\<lparr>live := unref_handles e h (live a), dels := dels a @ unref_dels h\<rparr>"
  using assms by (simp add: spec_unref_def unref_handles_def unref_dels_def)

lemma spec_drop_eq:
  assumes "live a e = Some h"
  shows "spec_drop e a = a\<lparr>order := remove1 e (order a), live := unref_handles e h (live a), dels := dels a @ unref_dels h\<rparr>"
  unfolding spec_drop_def using spec_unref_eq [of "a\<lparr>order := remove1 e (order a)\<rparr>" e h] assms by simp

section \<open>The table as a map\<close>

lemma lookup_in_eqI:
  assumes "unique_keys hs (set ys)"
    and "case r of None \<Rightarrow> \<forall>x \<in> set ys. \<not> matches hs k hash x | Some x \<Rightarrow> x \<in> set ys \<and> matches hs k hash x"
  shows "lookup_in hs k hash ys = r"
proof (cases r)
  case None
  then show ?thesis
    using assms(2) by (simp add: lookup_in_def find_None_iff)
next
  case (Some x)
  then have "List.find (matches hs k hash) ys \<noteq> None"
    using assms(2) by (auto simp: find_None_iff)
  then obtain y where y: "List.find (matches hs k hash) ys = Some y"
    by blast
  then have "y \<in> set ys" "matches hs k hash y"
    by (auto simp: find_Some_iff)
  then have "y = x"
    using assms Some unfolding unique_keys_def by auto
  then show ?thesis
    using y Some by (simp add: lookup_in_def)
qed

lemma lookup_in_SomeD: "lookup_in hs k hash ys = Some x \<Longrightarrow> x \<in> set ys \<and> matches hs k hash x"
  by (auto simp: lookup_in_def find_Some_iff)

lemma lookup_in_NoneD: "lookup_in hs k hash ys = None \<Longrightarrow> x \<in> set ys \<Longrightarrow> \<not> matches hs k hash x"
  by (simp add: lookup_in_def find_None_iff)

lemma cache_rel_unique: "cache_rel c xs ys \<Longrightarrow> unique_keys (handles c) (set ys)"
  by (metis cache_relE ht_invD(5) mset_eq_setD)

lemma cache_rel_subset: "cache_rel c xs ys \<Longrightarrow> set ys \<subseteq> dom (handles c)"
  by (metis cache_relE ht_inv_dom mset_eq_setD)

lemma cache_rel_mset: "cache_rel c xs ys \<Longrightarrow> mset ys = mset zs \<Longrightarrow> cache_rel c xs zs"
  unfolding cache_rel_def by simp

lemma Table_Lookup_rel:
  assumes "cache_rel c xs ys"
  shows "HandleTable_Lookup k hash c = Some (lookup_in (handles c) k hash ys)"
  using assms
proof (rule cache_relE)
  fix bss
  assume h: "ht_inv c bss" "mset (concat bss) = mset ys"
  have set: "set (concat bss) = set ys"
    using h(2) by (rule mset_eq_setD)
  obtain r where r: "HandleTable_Lookup k hash c = Some r"
    "case r of None \<Rightarrow> \<forall>x \<in> set ys. \<not> matches (handles c) k hash x | Some x \<Rightarrow> x \<in> set ys \<and> matches (handles c) k hash x"
    using ht_Lookup [OF h(1), of k hash] unfolding set by blast
  then show ?thesis
    using lookup_in_eqI [OF cache_rel_unique [OF assms]] by metis
qed

lemma table_frame:
  assumes "cache_rel c xs ys" and "same_entries c c'" and "ht_inv c' bss" and "mset (concat bss) = mset zs"
  shows "cache_rel c' xs zs"
  using assms(1)
proof (rule cache_relE)
  note s = same_entries_simps [OF assms(2)]
  assume "lru_list c xs" "set xs \<subseteq> dom (handles c)" "finite (dom (handles c))" "0 \<notin> dom (handles c)"
    "usage c = total_charge (handles c)" "\<forall>x \<in> dom (handles c). lru_next c x \<noteq> x"
  then show ?thesis
    using assms(3,4) by (intro cache_relI) (simp_all add: s lru_list_def)
qed

lemma Table_Remove_rel:
  assumes "cache_rel c xs ys"
  obtains c' where "HandleTable_Remove k hash c = Some (lookup_in (handles c) k hash ys, c')" and "same_entries c c'"
    and "cache_rel c' xs (case lookup_in (handles c) k hash ys of None \<Rightarrow> ys | Some x \<Rightarrow> remove1 x ys)"
  using assms
proof (rule cache_relE)
  fix bss
  assume h: "ht_inv c bss" "mset (concat bss) = mset ys"
  have set: "set (concat bss) = set ys"
    using h(2) by (rule mset_eq_setD)
  obtain r c' bss' where r: "HandleTable_Remove k hash c = Some (r, c')" "same_entries c c'" "ht_inv c' bss'"
    "case r of None \<Rightarrow> mset (concat bss') = mset ys \<and> (\<forall>x \<in> set ys. \<not> matches (handles c) k hash x)
     | Some x \<Rightarrow> matches (handles c) k hash x \<and> mset ys = add_mset x (mset (concat bss'))"
    using ht_Remove [OF h(1), of k hash] unfolding set h(2) by blast
  have in_ys: "x \<in> set ys" if x: "r = Some x" for x
  proof -
    have "mset ys = add_mset x (mset (concat bss'))"
      using r(4) x by simp
    from arg_cong [OF this, of set_mset] show ?thesis
      unfolding set_mset_mset by (simp del: set_concat)
  qed
  have e: "lookup_in (handles c) k hash ys = r"
    by (rule lookup_in_eqI [OF cache_rel_unique [OF assms]]) (use r(4) in_ys in \<open>cases r; simp\<close>)
  have "mset (concat bss') = mset (case r of None \<Rightarrow> ys | Some x \<Rightarrow> remove1 x ys)"
    using r(4) by (cases r) simp_all
  from table_frame [OF assms r(2,3) this] show thesis
    using that r(1,2) e by simp
qed

lemma Table_Insert_rel:
  assumes rel: "cache_rel c xs ys" and e: "e \<notin> set ys" "handles c e = Some h" and small: "length ys < 2 ^ 31"
  obtains c' where "HandleTable_Insert e c = Some (lookup_in (handles c) (h_key h) (h_hash h) ys, c')" and "same_entries c c'"
    and "cache_rel c' xs (e # (case lookup_in (handles c) (h_key h) (h_hash h) ys of None \<Rightarrow> ys | Some x \<Rightarrow> remove1 x ys))"
  using rel
proof (rule cache_relE)
  fix bss
  assume h: "ht_inv c bss" "mset (concat bss) = mset ys" and n: "\<forall>x \<in> dom (handles c). lru_next c x \<noteq> x"
  have set: "set (concat bss) = set ys"
    using h(2) by (rule mset_eq_setD)
  have len: "length (concat bss) = length ys"
    using h(2) by (rule mset_eq_length)
  have keyed: "keyed c e"
    using e(2) n by (auto simp: keyed_def)
  obtain r c' bss' where r: "HandleTable_Insert e c = Some (r, c')" "same_entries c c'" "ht_inv c' bss'"
    "case r of None \<Rightarrow> mset (concat bss') = add_mset e (mset ys) \<and> (\<forall>x \<in> set ys. \<not> matches (handles c) (h_key h) (h_hash h) x)
     | Some x \<Rightarrow> add_mset x (mset (concat bss')) = add_mset e (mset ys) \<and> matches (handles c) (h_key h) (h_hash h) x \<and> x \<in> set ys"
    using ht_Insert [where c = c and e = e and h = h and bss = bss, unfolded set h(2) len, OF h(1) e keyed small] by blast
  have in_ys: "x \<in> set ys" if "r = Some x" for x
    using r(4) that by simp
  have eq: "lookup_in (handles c) (h_key h) (h_hash h) ys = r"
    by (rule lookup_in_eqI [OF cache_rel_unique [OF rel]]) (use r(4) in_ys in \<open>cases r; simp\<close>)
  have "mset (concat bss') = mset (e # (case r of None \<Rightarrow> ys | Some x \<Rightarrow> remove1 x ys))"
  proof (cases r)
    case (Some x)
    then have "add_mset x (mset (concat bss')) = add_mset x (mset (e # remove1 x ys))"
      using r(4) in_ys [OF Some] by simp
    then show ?thesis
      using Some by simp
  qed (use r(4) in simp)
  from table_frame [OF rel r(2,3) this] show thesis
    using that r(1,2) eq by simp
qed

section \<open>The operations refine the abstract ones\<close>

lemma representsI:
  assumes "lru_inv a" and "cache_rel c (order a) ys" and "mset ys = mset (order a)" and "handles c = live a" and "deleted c = dels a"
  shows "represents c a"
  unfolding represents_def using assms cache_rel_mset by blast

lemma representsD:
  assumes "represents c a"
  shows "lru_inv a" and "cache_rel c (order a) (order a)" and "handles c = live a" and "deleted c = dels a"
  using assms by (simp_all add: represents_def)

lemma lru_invD:
  assumes "lru_inv a"
  shows "distinct (order a)" and "x \<in> set (order a) \<Longrightarrow> \<exists>h. live a x = Some h" and "finite (dom (live a))" and "live a 0 = None"
    and "unique_keys (live a) (set (order a))" and "live a x = Some h \<Longrightarrow> h_refs h \<noteq> 0"
  using assms by (auto simp: lru_inv_def)

lemma lru_inv_unref:
  assumes inv: "lru_inv a" and h: "live a e = Some h" "e \<in> set (order a) \<longrightarrow> h_refs h \<noteq> 1"
  shows "lru_inv (spec_unref e a)"
proof -
  have sub: "set (order a) \<subseteq> dom (live a)"
    using inv by (simp add: lru_inv_def)
  have "same_keys (live a) (unref_handles e h (live a)) (set (order a))"
    using h sub by (intro unref_same_keys) auto
  then have "unique_keys (unref_handles e h (live a)) (set (order a))"
    by (rule unique_keys_cong [OF _ lru_invD(5) [OF inv]])
  moreover have "\<forall>x h'. unref_handles e h (live a) x = Some h' \<longrightarrow> h_refs h' \<noteq> 0"
    using lru_invD(6) [OF inv] by (auto simp: unref_handles_def split: if_splits)
  moreover have "e \<noteq> 0"
    using h(1) lru_invD(4) [OF inv] by (metis option.distinct(1))
  then have "set (order a) \<subseteq> dom (unref_handles e h (live a))" "finite (dom (unref_handles e h (live a)))"
    "unref_handles e h (live a) 0 = None"
    using h sub lru_invD(3,4) [OF inv] by (auto simp: unref_dom unref_handles_def)
  ultimately show ?thesis
    using lru_invD(1) [OF inv] unfolding lru_inv_def spec_unref_eq [OF h(1)] by (simp add: domIff)
qed

lemma lru_inv_remove: "lru_inv a \<Longrightarrow> lru_inv (a\<lparr>order := remove1 e (order a)\<rparr>)"
  using set_remove1_subset [of e "order a"] unique_keys_mono [of "live a" "set (order a)" "set (remove1 e (order a))"]
  by (auto simp: lru_inv_def)

lemma lru_inv_drop:
  assumes "lru_inv a" and "e \<in> set (order a)"
  shows "lru_inv (spec_drop e a)"
proof -
  obtain h where "live a e = Some h"
    using lru_invD(2) [OF assms] by blast
  then show ?thesis
    unfolding spec_drop_def using lru_invD(1) [OF assms(1)] by (intro lru_inv_unref [OF lru_inv_remove [OF assms(1)]]) simp_all
qed

lemma drop_rel:
  assumes rel: "cache_rel c xs ys" and x: "x \<in> set xs" "x \<notin> set ys" "handles c x = Some h" "h_refs h \<noteq> 0"
  obtains c' where "Unref x (LRU_Remove x c) = Some c'" and "cache_rel c' (remove1 x xs) ys"
    and "handles c' = unref_handles x h (handles c)" and "deleted c' = deleted c @ unref_dels h" and "capacity c' = capacity c"
proof -
  have "distinct xs"
    using rel by (auto simp: cache_rel_def lru_list_def)
  then obtain c' where "Unref x (LRU_Remove x c) = Some c'" "cache_rel c' (remove1 x xs) ys"
    "handles c' = unref_handles x h (handles (LRU_Remove x c))" "deleted c' = deleted (LRU_Remove x c) @ unref_dels h"
    "capacity c' = capacity (LRU_Remove x c)"
    using x by (elim Unref_rel [OF Remove_rel [OF rel x(1)], of x h, rotated 3]) auto
  then show thesis
    using that by simp
qed

text \<open>An entry that is no longer in the table leaves the cache.\<close>

lemma shard_drop_represents:
  assumes inv: "lru_inv (a\<lparr>order := remove1 x (order a)\<rparr>)" and rel: "cache_rel c (order a) ys" "handles c = live a" "deleted c = dels a"
    and x: "x \<in> set (order a)" "live a x = Some h" "mset ys = mset (remove1 x (order a))"
  obtains c' where "Unref x (LRU_Remove x c) = Some c'" and "represents c' (spec_drop x a)" and "capacity c' = capacity c"
proof -
  have "distinct (order a)"
    using rel(1) by (auto simp: cache_rel_def lru_list_def)
  then have nx: "x \<notin> set (remove1 x (order a))"
    by simp
  then have "x \<notin> set ys"
    using mset_eq_setD [OF x(3)] by simp
  from drop_rel [OF rel(1) x(1) this] x(2) obtain c' where c': "Unref x (LRU_Remove x c) = Some c'" "cache_rel c' (remove1 x (order a)) ys"
    "handles c' = unref_handles x h (live a)" "deleted c' = dels a @ unref_dels h" "capacity c' = capacity c"
    using lru_invD(6) [OF inv, of x h] unfolding rel(2,3) by auto
  have "lru_inv (spec_drop x a)"
    unfolding spec_drop_def by (rule lru_inv_unref [OF inv]) (use x(2) nx in simp_all)
  then have "represents c' (spec_drop x a)"
    by (rule representsI) (use c' x(3) spec_drop_eq [OF x(2)] in simp_all)
  then show thesis
    using that c'(1,5) by blast
qed

lemma shard_Release_represents:
  assumes "represents c a" and h: "live a e = Some h" "e \<in> set (order a) \<longrightarrow> h_refs h \<noteq> 1"
  obtains c' where "LRUCache_Release e c = Some c'" and "represents c' (spec_unref e a)" and "capacity c' = capacity c"
proof -
  note r = representsD [OF assms(1)]
  obtain c' where c': "Unref e c = Some c'" "cache_rel c' (order a) (order a)" "handles c' = unref_handles e h (handles c)"
    "deleted c' = deleted c @ unref_dels h" "capacity c' = capacity c"
    using h lru_invD(6) [OF r(1) h(1)] by (elim Unref_rel [OF r(2), of e h, rotated 3]) (auto simp: r(3))
  have "represents c' (spec_unref e a)"
    by (rule representsI [OF lru_inv_unref [OF r(1) h]]) (use c' in \<open>simp_all add: spec_unref_eq [OF h(1)] r(3,4)\<close>)
  then show thesis
    using that c'(1,5) by (simp add: LRUCache_Release_def)
qed

lemma shard_Erase_represents:
  assumes "represents c a"
  obtains c' where "LRUCache_Erase k hash c = Some c'" and "represents c' (spec_Erase k hash a)" and "capacity c' = capacity c"
proof -
  note r = representsD [OF assms]
  obtain c1 where c1: "HandleTable_Remove k hash c = Some (spec_find k hash a, c1)" "same_entries c c1"
    "cache_rel c1 (order a) (case spec_find k hash a of None \<Rightarrow> order a | Some x \<Rightarrow> remove1 x (order a))"
    by (rule Table_Remove_rel [OF r(2), of k hash]) (simp add: spec_find_def r(3))
  note s = same_entries_simps [OF c1(2)]
  show thesis
  proof (cases "spec_find k hash a")
    case None
    have "represents c1 a"
      by (rule representsI [OF r(1)]) (use c1(3) None in \<open>simp_all add: s r\<close>)
    then show thesis
      using that [of c1] None c1(1) by (simp add: LRUCache_Erase_def spec_Erase_def s)
  next
    case (Some x)
    then have "x \<in> set (order a)"
      using lookup_in_SomeD unfolding spec_find_def by metis
    then obtain h where h: "x \<in> set (order a)" "live a x = Some h"
      using lru_invD(2) [OF r(1)] by blast
    from shard_drop_represents [OF lru_inv_remove [OF r(1)] _ _ _ h] c1(3) Some obtain c' where "Unref x (LRU_Remove x c1) = Some c'"
      "represents c' (spec_drop x a)" "capacity c' = capacity c1"
      by (metis option.simps(5) r(3,4) s(1,6))
    then show thesis
      using that [of c'] Some c1(1) by (simp add: LRUCache_Erase_def spec_Erase_def s)
  qed
qed

lemma handles_rel:
  assumes "cache_rel c xs ys" and h: "handles c e = Some h" "h_charge h' = h_charge h" "h_key h' = h_key h" "h_hash h' = h_hash h"
  shows "cache_rel (c\<lparr>handles := (handles c)(e \<mapsto> h')\<rparr>) xs ys"
  using assms(1)
proof (rule cache_relE)
  fix bss
  let ?c = "c\<lparr>handles := (handles c)(e \<mapsto> h')\<rparr>"
  assume l: "lru_list c xs" and t: "ht_inv c bss" "mset (concat bss) = mset ys" and d: "set xs \<subseteq> dom (handles c)"
    "finite (dom (handles c))" "0 \<notin> dom (handles c)" and u: "usage c = total_charge (handles c)"
    and n: "\<forall>x \<in> dom (handles c). lru_next c x \<noteq> x"
  have dom: "dom ((handles c)(e \<mapsto> h')) = dom (handles c)"
    using h(1) by auto
  have "same_keys (handles c) (handles ?c) (set (concat bss))"
    using h ht_inv_dom [OF t(1)] by (auto simp: same_keys_def simp del: set_concat)
  then have "ht_inv ?c bss"
    using ht_inv_dom [OF t(1)] n by (intro ht_inv_cong [OF t(1)]) (simp_all add: subset_iff del: set_concat)
  then show ?thesis
    using l t(2) d u n total_same [where hs = "handles c" and e = e, OF h(1,2)]
    by (intro cache_relI) (simp_all add: lru_list_def dom del: dom_fun_upd)
qed

lemma shard_Lookup_represents:
  assumes "represents c a" and few: "\<And>x h. live a x = Some h \<Longrightarrow> h_refs h + 1 \<noteq> 0"
  obtains c' where "LRUCache_Lookup k hash c = Some (fst (spec_Lookup k hash a), c')"
    and "represents c' (snd (spec_Lookup k hash a))" and "capacity c' = capacity c"
proof -
  note r = representsD [OF assms(1)]
  have find: "HandleTable_Lookup k hash c = Some (spec_find k hash a)"
    using Table_Lookup_rel [OF r(2)] by (simp add: spec_find_def r(3))
  show thesis
  proof (cases "spec_find k hash a")
    case None
    then show thesis
      using that [of c] assms(1) find by (simp add: LRUCache_Lookup_def spec_Lookup_def)
  next
    case (Some x)
    then have x: "x \<in> set (order a)"
      using lookup_in_SomeD unfolding spec_find_def by metis
    obtain h where h: "live a x = Some h"
      using lru_invD(2) [OF r(1) x] by blast
    let ?h = "h\<lparr>h_refs := h_refs h + 1\<rparr>"
    let ?c = "c\<lparr>handles := (handles c)(x \<mapsto> ?h)\<rparr>" and ?a = "a\<lparr>order := remove1 x (order a) @ [x], live := (live a)(x \<mapsto> ?h)\<rparr>"
    have "cache_rel ?c (order a) (order a)"
      by (rule handles_rel [OF r(2)]) (use h in \<open>simp_all add: r(3)\<close>)
    then have "cache_rel (LRU_Append x (LRU_Remove x ?c)) (order ?a) (order a)"
      using lru_invD(1) [OF r(1)] Append_rel [OF Remove_rel [OF _ x], of ?c "order a"] by simp
    moreover have "lru_inv ?a"
    proof -
      have "same_keys (live a) (live ?a) (set (order a))"
        using lru_invD(2) [OF r(1)] h by (fastforce simp: same_keys_def)
      from unique_keys_cong [OF this lru_invD(5) [OF r(1)]] have "unique_keys (live ?a) (insert x (set (order a) - {x}))"
        using x by (simp add: insert_absorb)
      moreover have "set (order a) \<subseteq> dom (live a)" "0 \<notin> dom (live a)"
        using r(1) by (simp_all add: lru_inv_def)
      ultimately show ?thesis
        using r(1) few h x by (auto simp: lru_inv_def)
    qed
    ultimately have "represents (LRU_Append x (LRU_Remove x ?c)) ?a"
      using x by (intro representsI) (simp_all add: r(3,4))
    then show thesis
      using that [of "LRU_Append x (LRU_Remove x ?c)"] find Some h by (simp add: LRUCache_Lookup_def spec_Lookup_def r(3))
  qed
qed

lemma lru_head: "lru_list c xs \<Longrightarrow> lru_next c 0 = hd (xs @ [0])"
  unfolding lru_list_def by (blast intro: dseg_ends(1))

lemma shard_evict_represents:
  "represents c a \<Longrightarrow> \<exists>c'. evict c = Some c' \<and> represents c' (spec_evict (capacity c) a) \<and> capacity c' = capacity c"
proof (induction "length (order a)" arbitrary: c a rule: less_induct)
  case less
  note r = representsD [OF less.prems]
  have l: "lru_list c (order a)" and u: "usage c = total_charge (live a)"
    using r(2,3) by (simp_all add: cache_rel_def)
  note nx = lru_head [OF l]
  show ?case
  proof (cases "usage c > capacity c \<and> order a \<noteq> []")
    case False
    then have "\<not> (usage c > capacity c \<and> lru_next c 0 \<noteq> 0)" "spec_evict (capacity c) a = a"
      using nx u by (auto simp: spec_evict.simps [of _ a] split: list.splits)
    then show ?thesis
      using less.prems by (subst evict.simps) auto
  next
    case True
    then obtain e es where o: "order a = e # es"
      by (cases "order a") auto
    have e: "e \<in> set (order a)" "lru_next c 0 = e"
      using o nx by simp_all
    obtain h where h: "live a e = Some h"
      using lru_invD(2) [OF r(1) e(1)] by blast
    have "e \<noteq> 0"
      using h lru_invD(4) [OF r(1)] by (metis option.distinct(1))
    let ?c = "LRU_Remove e c"
    have rel: "cache_rel ?c (remove1 e (order a)) (order a)"
      by (rule Remove_rel [OF r(2) e(1)])
    then have "lru_next ?c e \<noteq> e"
      using h by (auto simp: cache_rel_def r(3))
    then have key: "handle_key ?c e = Some (h_key h)"
      using h by (simp add: handle_key_def r(3))
    have find: "lookup_in (handles c) (h_key h) (h_hash h) (order a) = Some e"
      using lru_invD(5) [OF r(1)] e(1) h by (intro lookup_in_eqI) (simp_all add: r(3) matches_def)
    obtain c1 where c1: "HandleTable_Remove (h_key h) (h_hash h) ?c = Some (Some e, c1)" "same_entries ?c c1"
      "cache_rel c1 (remove1 e (order a)) (remove1 e (order a))"
      by (rule Table_Remove_rel [OF rel, of "h_key h" "h_hash h"]) (simp add: find)
    note s = same_entries_simps [OF c1(2)]
    have "e \<notin> set (remove1 e (order a))"
      using lru_invD(1) [OF r(1)] by simp
    then obtain c2 where c2: "Unref e c1 = Some c2" "cache_rel c2 (remove1 e (order a)) (remove1 e (order a))"
      "handles c2 = unref_handles e h (handles c1)" "deleted c2 = deleted c1 @ unref_dels h" "capacity c2 = capacity c1"
      using h lru_invD(6) [OF r(1) h] by (elim Unref_rel [OF c1(3), of e h, rotated 3]) (auto simp: s r(3))
    have "represents c2 (spec_drop e a)"
      by (rule representsI [OF lru_inv_drop [OF r(1) e(1)], where ys = "remove1 e (order a)"]) (use c2 in \<open>simp_all add: spec_drop_eq [OF h] s r(3,4)\<close>)
    moreover have "length (order (spec_drop e a)) < length (order a)"
      using o by simp
    ultimately obtain c' where c': "evict c2 = Some c'" "represents c' (spec_evict (capacity c2) (spec_drop e a))" "capacity c' = capacity c2"
      using less.hyps by blast
    have "evict c = evict c2"
      using True e(2) \<open>e \<noteq> 0\<close> key h c1(1) c2(1) by (subst evict.simps) (simp add: Let_def r(3))
    moreover have "spec_evict (capacity c) a = spec_evict (capacity c) (spec_drop e a)"
      using True o u by (subst spec_evict.simps) simp
    ultimately show ?thesis
      using c' c2(5) by (simp add: s)
  qed
qed

lemma lookup_in_cong: "same_keys hs hs' (set ys) \<Longrightarrow> lookup_in hs' k hash ys = lookup_in hs k hash ys"
  unfolding lookup_in_def by (rule find_cong) (simp_all add: same_keys_matches)

text \<open>The new entry is linked into the list.\<close>

lemma new_entry_rel:
  assumes "cache_rel c xs ys" and e: "handles c e = None" "e \<noteq> 0"
  shows "cache_rel ((LRU_Append e (c\<lparr>handles := (handles c)(e \<mapsto> h)\<rparr>))\<lparr>usage := usage c + h_charge h\<rparr>) (xs @ [e]) ys"
  using assms(1)
proof (rule cache_relE)
  fix bss
  let ?b = "c\<lparr>handles := (handles c)(e \<mapsto> h)\<rparr>"
  let ?c = "(LRU_Append e ?b)\<lparr>usage := usage c + h_charge h\<rparr>"
  assume l: "lru_list c xs" and t: "ht_inv c bss" "mset (concat bss) = mset ys" and d: "set xs \<subseteq> dom (handles c)"
    "finite (dom (handles c))" "0 \<notin> dom (handles c)" and u: "usage c = total_charge (handles c)"
    and n: "\<forall>x \<in> dom (handles c). lru_next c x \<noteq> x"
  have e': "e \<notin> set xs" "e \<notin> set (concat bss)"
    using e(1) d(1) ht_inv_dom [OF t(1)] by (auto simp del: set_concat)
  have l0: "lru_list ?b xs"
    using l by (simp add: lru_list_def)
  have nx: "lru_next ?c x \<noteq> x" if "x \<in> dom (handles ?c)" for x
  proof -
    have "x \<noteq> 0" "x \<noteq> e \<longrightarrow> lru_next ?b x \<noteq> x"
      using that d(3) n e(2) by (auto split: if_splits)
    from LRU_Append_next [OF l0 e'(1) e(2) this] show ?thesis
      by simp
  qed
  have sub: "set (concat bss) \<subseteq> dom (handles c)"
    by (rule ht_inv_dom [OF t(1)])
  have "same_keys (handles c) (handles ?c) (set (concat bss))"
    using e'(2) sub by (auto simp: same_keys_def simp del: set_concat)
  moreover have "\<forall>x \<in> set (concat bss). lru_next ?c x \<noteq> x"
    using nx sub by (auto simp del: set_concat)
  ultimately have "ht_inv ?c bss"
    by (intro ht_inv_cong [OF t(1)]) simp_all
  moreover have "lru_list ?c (xs @ [e])"
    using LRU_Append_list [OF l0 e'(1) e(2)] by (simp add: lru_list_def)
  moreover have "usage ?c = total_charge (handles ?c)"
    using total_add [where hs = "handles c" and e = e and h = h] d(2) e(1) u by simp
  ultimately show ?thesis
    using t(2) d e(2) nx by (intro cache_relI) auto
qed

lemma lru_inv_new:
  assumes inv: "lru_inv a" and e: "live a e = None" "e \<noteq> 0" "h_refs h \<noteq> 0"
    and none: "\<And>y. y \<in> set (order a) \<Longrightarrow> \<not> matches (live a) (h_key h) (h_hash h) y"
  shows "lru_inv (a\<lparr>order := order a @ [e], live := (live a)(e \<mapsto> h)\<rparr>)"
proof -
  have e': "e \<notin> set (order a)"
    using lru_invD(2) [OF inv, of e] e(1) by auto
  have m: "matches ((live a)(e \<mapsto> h)) k hash y \<longleftrightarrow> (if y = e then k = h_key h \<and> hash = h_hash h else matches (live a) k hash y)" for k hash y
    by (auto simp: matches_def)
  have "unique_keys ((live a)(e \<mapsto> h)) (insert e (set (order a)))"
    using lru_invD(5) [OF inv] none e' unfolding unique_keys_def m by auto
  then show ?thesis
    using inv e e' by (auto simp: lru_inv_def)
qed

lemma shard_Insert_represents:
  assumes "represents c a" and e: "live a e = None" "e \<noteq> 0" and small: "length (order a) < 2 ^ 31"
  obtains c' where "LRUCache_Insert e k hash v chg del c = Some (e, c')"
    and "represents c' (spec_Insert (capacity c) e k hash v chg del a)" and "capacity c' = capacity c"
proof -
  note r = representsD [OF assms(1)]
  define h where "h = new_handle k hash v chg del"
  have h: "h_key h = k" "h_hash h = hash" "h_charge h = chg" "h_refs h = 2"
    by (simp_all add: h_def new_handle_def)
  define c1 where "c1 = (LRU_Append e (c\<lparr>handles := (handles c)(e \<mapsto> h)\<rparr>))\<lparr>usage := usage c + h_charge h\<rparr>"
  define a1 where "a1 = a\<lparr>order := order a @ [e], live := (live a)(e \<mapsto> h)\<rparr>"
  have rel1: "cache_rel c1 (order a1) (order a)"
    unfolding c1_def a1_def using new_entry_rel [OF r(2), of e h] e by (simp add: r(3))
  have c1: "handles c1 = live a1" "deleted c1 = dels a1" "capacity c1 = capacity c"
    by (simp_all add: c1_def a1_def r(3,4))
  have e': "e \<notin> set (order a)"
    using lru_invD(2) [OF r(1)] e(1) by fastforce
  have "same_keys (live a) (live a1) (set (order a))"
    using lru_invD(2) [OF r(1)] e' by (fastforce simp: same_keys_def a1_def)
  then have find: "lookup_in (live a1) k hash (order a) = spec_find k hash a"
    unfolding spec_find_def by (rule lookup_in_cong)
  obtain c2 where c2: "HandleTable_Insert e c1 = Some (spec_find k hash a, c2)" "same_entries c1 c2"
    "cache_rel c2 (order a1) (e # (case spec_find k hash a of None \<Rightarrow> order a | Some x \<Rightarrow> remove1 x (order a)))"
    by (rule Table_Insert_rel [OF rel1 e' _ small, of h]) (simp_all add: c1 a1_def h find [unfolded a1_def, simplified])
  note s = same_entries_simps [OF c2(2)]
  define a2 where "a2 = (case spec_find k hash a of None \<Rightarrow> a1 | Some x \<Rightarrow> spec_drop x a1)"
  have "\<exists>c3. (case spec_find k hash a of None \<Rightarrow> Some c2 | Some x \<Rightarrow> Unref x (LRU_Remove x c2)) = Some c3 \<and>
    represents c3 a2 \<and> capacity c3 = capacity c"
  proof (cases "spec_find k hash a")
    case None
    have inv1: "lru_inv a1"
      unfolding a1_def by (rule lru_inv_new [OF r(1) e]) (use lookup_in_NoneD [of "live a" k hash "order a"] None in \<open>simp_all add: h spec_find_def\<close>)
    have "represents c2 a1"
      by (rule representsI [OF inv1 c2(3)]) (use None in \<open>simp_all add: s c1 a1_def\<close>)
    then show ?thesis
      using None by (simp add: a2_def s c1)
  next
    case (Some x)
    then have x: "x \<in> set (order a)"
      using lookup_in_SomeD unfolding spec_find_def by metis
    then obtain hx where hx: "live a x = Some hx"
      using lru_invD(2) [OF r(1)] by blast
    have "matches (live a) k hash x"
      using lookup_in_SomeD Some unfolding spec_find_def by metis
    then have none: "\<not> matches (live a) k hash y" if "y \<in> set (remove1 x (order a))" for y
      using lru_invD(1,5) [OF r(1)] x that unfolding unique_keys_def by (auto dest: notin_set_remove1)
    have "lru_inv (a\<lparr>order := remove1 x (order a)\<rparr>)"
      by (rule lru_inv_remove [OF r(1)])
    from lru_inv_new [OF this, of e h] have "lru_inv (a\<lparr>order := remove1 x (order a) @ [e], live := (live a)(e \<mapsto> h)\<rparr>)"
      using e none by (simp add: h)
    moreover have "a1\<lparr>order := remove1 x (order a1)\<rparr> = a\<lparr>order := remove1 x (order a) @ [e], live := (live a)(e \<mapsto> h)\<rparr>"
      using x by (intro lru.equality) (simp_all add: a1_def remove1_append)
    ultimately have "lru_inv (a1\<lparr>order := remove1 x (order a1)\<rparr>)"
      by simp
    moreover have "x \<in> set (order a1)" "live a1 x = Some hx" "mset (e # remove1 x (order a)) = mset (remove1 x (order a1))"
      using x hx e by (auto simp: a1_def remove1_append)
    ultimately obtain c3 where "Unref x (LRU_Remove x c2) = Some c3" "represents c3 (spec_drop x a1)" "capacity c3 = capacity c2"
      using c2(3) Some by (elim shard_drop_represents [where a = a1 and x = x and c = c2 and ys = "e # remove1 x (order a)" and h = hx, rotated 7]) (simp_all add: s c1)
    then show ?thesis
      using Some by (simp add: a2_def s c1)
  qed
  then obtain c3 where c3: "(case spec_find k hash a of None \<Rightarrow> Some c2 | Some x \<Rightarrow> Unref x (LRU_Remove x c2)) = Some c3"
    "represents c3 a2" "capacity c3 = capacity c"
    by blast
  obtain c' where c': "evict c3 = Some c'" "represents c' (spec_evict (capacity c) a2)" "capacity c' = capacity c"
    using shard_evict_represents [OF c3(2)] c3(3) by auto
  have "LRUCache_Insert e k hash v chg del c = Some (e, c')"
    using c2(1) c3(1) c'(1) by (simp add: LRUCache_Insert_def Let_def c1_def h_def new_handle_def)
  moreover have "spec_evict (capacity c) a2 = spec_Insert (capacity c) e k hash v chg del a"
    unfolding spec_Insert_def Let_def a2_def a1_def h_def ..
  ultimately show thesis
    using that c'(2,3) by simp
qed

end
