(* ===== verification/Cache_Lru.thy ===== *)
theory Cache_Lru
  imports Cache_Correct
begin

text \<open>
  A cache and its clients: the steps of a shard whose clients release only the handles that they hold.  The
  reference counts are exact in all reachable states, no operation fails, and no entry is freed or changed
  while a client holds it.
\<close>

section \<open>The start\<close>

definition spec_new :: "('v, 'd) lru" where
  "spec_new = \<lparr>order = [], live = Map.empty, dels = []\<rparr>"

lemma shard_new_represents:
  obtains c :: "('v, 'd) LRUCache" where "LRUCache_new = Some c" and "represents (SetCapacity n c) spec_new"
proof -
  let ?c = "\<lparr>capacity = 0, usage = 0, lru_next = (\<lambda>_. 0), lru_prev = (\<lambda>_. 0), next_hash = (\<lambda>_. None),
       handles = (\<lambda>_. None), lru_table = \<lparr>ht_length = 0, ht_elems = 0, ht_list = []\<rparr>, deleted = []\<rparr> :: ('v, 'd) LRUCache"
  have "\<exists>c' bss'. HandleTable_Resize ?c = Some c' \<and> same_entries ?c c' \<and> ht_inv c' bss' \<and> mset (concat bss') = mset (concat [])"
    by (rule ht_Resize) (simp_all add: buckets_def unique_keys_def)
  then obtain c bss where c: "HandleTable_Resize ?c = Some c" "same_entries ?c c" "ht_inv c bss" "mset (concat bss) = mset []"
    by auto
  note s = same_entries_simps [OF c(2)]
  have "ht_inv (SetCapacity n c) bss"
    using c(4) by (intro ht_inv_cong [OF c(3)]) (auto simp: SetCapacity_def same_keys_def)
  then have "cache_rel (SetCapacity n c) [] []"
    using c(4) by (intro cache_relI) (simp_all add: SetCapacity_def s lru_list_def total_charge_def)
  then have "represents (SetCapacity n c) spec_new"
    by (simp add: represents_def spec_new_def lru_inv_def unique_keys_def SetCapacity_def s)
  then show thesis
    using that [of c] c(1) by (simp add: LRUCache_new_def)
qed

section \<open>Reference counts\<close>

text \<open>\<open>held x\<close> is the number of handles of the entry \<open>x\<close> that clients hold.\<close>

definition counted :: "('v, 'd) lru \<Rightarrow> (nat \<Rightarrow> nat) \<Rightarrow> bool" where
  "counted a held \<longleftrightarrow>
     distinct (order a) \<and> set (order a) \<subseteq> dom (live a) \<and>
     (\<forall>x. case live a x of None \<Rightarrow> held x = 0 | Some h \<Rightarrow> unat (h_refs h) = held x + of_bool (x \<in> set (order a)))"

lemma countedI:
  assumes "distinct (order a)" and "\<And>x. x \<in> set (order a) \<Longrightarrow> live a x \<noteq> None" and "\<And>x. live a x = None \<Longrightarrow> held x = 0"
    and "\<And>x h. live a x = Some h \<Longrightarrow> unat (h_refs h) = held x + of_bool (x \<in> set (order a))"
  shows "counted a held"
  unfolding counted_def using assms by (auto split: option.splits)

lemma countedD:
  assumes "counted a held"
  shows "distinct (order a)" and "x \<in> set (order a) \<Longrightarrow> \<exists>h. live a x = Some h" and "live a x = None \<Longrightarrow> held x = 0"
    and "live a x = Some h \<Longrightarrow> unat (h_refs h) = held x + of_bool (x \<in> set (order a))"
proof -
  have "case live a x of None \<Rightarrow> held x = 0 | Some h \<Rightarrow> unat (h_refs h) = held x + of_bool (x \<in> set (order a))"
    using assms unfolding counted_def by blast
  then show "live a x = None \<Longrightarrow> held x = 0" "live a x = Some h \<Longrightarrow> unat (h_refs h) = held x + of_bool (x \<in> set (order a))"
    by simp_all
qed (use assms in \<open>auto simp: counted_def\<close>)

lemma unat_refs_1: "unat (w :: u32) = 1 \<longleftrightarrow> w = 1"
  by (metis unat_1 unsigned_word_eqI)

lemma unat_dec: "(w :: u32) \<noteq> 0 \<Longrightarrow> unat (w - 1) = unat w - 1"
  by (simp add: unat_minus_one)

lemma counted_unref:
  assumes "counted a held" and "held e > 0"
  shows "counted (spec_unref e a) (held(e := held e - 1))"
proof -
  obtain h where h: "live a e = Some h"
    using countedD(3) [OF assms(1), of e] assms(2) by (cases "live a e") auto
  have refs: "unat (h_refs h) = held e + of_bool (e \<in> set (order a))"
    by (rule countedD(4) [OF assms(1) h])
  then have nz: "h_refs h \<noteq> 0"
    using assms(2) by auto
  have one: "h_refs h = 1 \<longleftrightarrow> held e = 1 \<and> e \<notin> set (order a)"
    using refs assms(2) unat_refs_1 [of "h_refs h"] by auto
  show ?thesis
    unfolding spec_unref_eq [OF h]
    by (rule countedI) (use countedD [OF assms(1)] refs one assms(2) in \<open>auto simp: unref_handles_def unat_dec [OF nz] split: if_splits\<close>)
qed

lemma counted_drop:
  assumes "counted a held" and "e \<in> set (order a)"
  shows "counted (spec_drop e a) held"
proof -
  obtain h where h: "live a e = Some h"
    using countedD(2) [OF assms] by blast
  have refs: "unat (h_refs h) = held e + 1"
    using countedD(4) [OF assms(1) h] assms(2) by simp
  then have nz: "h_refs h \<noteq> 0"
    by auto
  have one: "h_refs h = 1 \<longleftrightarrow> held e = 0"
    using refs unat_refs_1 [of "h_refs h"] by auto
  show ?thesis
    unfolding spec_drop_eq [OF h]
    by (rule countedI) (use countedD [OF assms(1)] refs one in \<open>auto simp: unref_handles_def unat_dec [OF nz] split: if_splits\<close>)
qed

lemma counted_evict: "counted a held \<Longrightarrow> counted (spec_evict cap a) held"
proof (induction cap a rule: spec_evict.induct)
  case (1 cap a)
  show ?case
  proof (cases "order a")
    case (Cons e es)
    then have "counted (spec_drop e a) held"
      using counted_drop [OF 1(2)] by simp
    then show ?thesis
      using 1 Cons by (subst spec_evict.simps) simp
  qed (use 1(2) in \<open>simp add: spec_evict.simps\<close>)
qed

lemma counted_Lookup:
  assumes "counted a held" and few: "\<And>x. held x < 2 ^ 32 - 2" and r: "spec_Lookup k hash a = (r, a')"
  shows "counted a' (case r of None \<Rightarrow> held | Some x \<Rightarrow> held(x := held x + 1))"
proof (cases "spec_find k hash a")
  case None
  then show ?thesis
    using assms by (auto simp: spec_Lookup_def)
next
  case (Some e)
  then have e: "e \<in> set (order a)"
    using lookup_in_SomeD unfolding spec_find_def by metis
  obtain h where h: "live a e = Some h"
    using countedD(2) [OF assms(1) e] by blast
  have refs: "unat (h_refs h) = held e + 1"
    using countedD(4) [OF assms(1) h] e by simp
  have "unat (h_refs h + 1) = held e + 2"
    using refs few [of e] by (simp add: unat_word_ariths)
  moreover have "r = Some e" "a' = a\<lparr>order := remove1 e (order a) @ [e], live := (live a)(e \<mapsto> h\<lparr>h_refs := h_refs h + 1\<rparr>)\<rparr>"
    using r Some h by (simp_all add: spec_Lookup_def)
  ultimately show ?thesis
    using countedD [OF assms(1)] e by (intro countedI) (auto split: if_splits)
qed

lemma counted_new:
  assumes "counted a held" and "live a e = None" and "h_refs h = 2"
  shows "counted (a\<lparr>order := order a @ [e], live := (live a)(e \<mapsto> h)\<rparr>) (held(e := held e + 1))"
proof -
  have "e \<notin> set (order a)"
    using countedD(2) [OF assms(1), of e] assms(2) by auto
  then show ?thesis
    using assms(2,3) countedD [OF assms(1)] by (intro countedI) (auto split: if_splits)
qed

lemma counted_Insert:
  assumes "counted a held" and "live a e = None"
  shows "counted (spec_Insert cap e k hash v chg del a) (held(e := held e + 1))"
proof -
  note new = counted_new [OF assms, of "new_handle k hash v chg del"]
  show ?thesis
    unfolding spec_Insert_def Let_def
  proof (rule counted_evict, cases "spec_find k hash a")
    case (Some x)
    then have "x \<in> set (order a)"
      using lookup_in_SomeD unfolding spec_find_def by metis
    then show "counted (case spec_find k hash a of None \<Rightarrow> a\<lparr>order := order a @ [e], live := (live a)(e \<mapsto> new_handle k hash v chg del)\<rparr>
        | Some x \<Rightarrow> spec_drop x (a\<lparr>order := order a @ [e], live := (live a)(e \<mapsto> new_handle k hash v chg del)\<rparr>)) (held(e := held e + 1))"
      using Some counted_drop [OF new] by (simp add: new_handle_def)
  qed (use new in \<open>simp add: new_handle_def\<close>)
qed

section \<open>Deleters\<close>

text \<open>The values that were passed to their deleter, and those that still will be.\<close>

definition deletion :: "('v, 'd) LRUHandle \<Rightarrow> 'd \<times> bytes \<times> 'v" where
  "deletion h = (h_deleter h, h_key h, h_value h)"

definition pending :: "(nat \<Rightarrow> ('v, 'd) LRUHandle option) \<Rightarrow> ('d \<times> bytes \<times> 'v) multiset" where
  "pending hs = image_mset (\<lambda>x. deletion (the (hs x))) (mset_set (dom hs))"

lemma pending_update:
  assumes "finite (dom hs)" and "hs e = None"
  shows "pending (hs(e \<mapsto> h)) = add_mset (deletion h) (pending hs)"
proof -
  have "e \<notin> dom hs"
    using assms(2) by auto
  moreover have "image_mset (\<lambda>x. deletion (the ((hs(e \<mapsto> h)) x))) (mset_set (dom hs)) = pending hs"
    unfolding pending_def using assms by (intro image_mset_cong) auto
  ultimately show ?thesis
    using assms(1) unfolding pending_def by simp
qed

lemma pending_remove:
  assumes "finite (dom hs)" and "hs e = Some h"
  shows "pending hs = add_mset (deletion h) (pending (hs(e := None)))"
  using pending_update [of "hs(e := None)" e h] assms by (simp add: fun_upd_idem)

lemma pending_same:
  assumes "finite (dom hs)" and "hs e = Some h" and "deletion h' = deletion h"
  shows "pending (hs(e \<mapsto> h')) = pending hs"
  using pending_remove [OF assms(1,2)] pending_update [of "hs(e := None)" e h'] assms by simp

definition bag :: "('v, 'd) lru \<Rightarrow> ('d \<times> bytes \<times> 'v) multiset" where
  "bag a = mset (dels a) + pending (live a)"

lemma unref_finite: "finite (dom hs) \<Longrightarrow> finite (dom (unref_handles e h hs))"
  by (auto simp: unref_handles_def)

lemma pending_unref:
  assumes "finite (dom hs)" and "hs e = Some h"
  shows "mset (unref_dels h) + pending (unref_handles e h hs) = pending hs"
  using assms by (simp add: unref_dels_def unref_handles_def pending_remove [OF assms] pending_same deletion_def)

lemma bag_unref: "finite (dom (live a)) \<Longrightarrow> live a e = Some h \<Longrightarrow> bag (spec_unref e a) = bag a"
  by (simp add: bag_def spec_unref_eq pending_unref [symmetric])

lemma bag_drop:
  assumes "finite (dom (live a))"
  shows "bag (spec_drop e a) = bag a" and "finite (dom (live (spec_drop e a)))"
proof -
  have "bag (spec_drop e a) = bag a \<and> finite (dom (live (spec_drop e a)))"
  proof (cases "live a e")
    case None
    then show ?thesis
      using assms by (simp add: spec_drop_def spec_unref_def bag_def)
  next
    case (Some h)
    then show ?thesis
      using assms by (simp add: spec_drop_eq bag_def pending_unref [symmetric] unref_finite)
  qed
  then show "bag (spec_drop e a) = bag a" "finite (dom (live (spec_drop e a)))"
    by blast+
qed

lemma bag_evict: "finite (dom (live a)) \<Longrightarrow> bag (spec_evict cap a) = bag a"
proof (induction cap a rule: spec_evict.induct)
  case (1 cap a)
  then show ?case
    by (subst spec_evict.simps) (auto simp: bag_drop split: list.split)
qed

lemma bag_Lookup:
  assumes "finite (dom (live a))"
  shows "bag (snd (spec_Lookup k hash a)) = bag a"
proof (cases "spec_find k hash a")
  case (Some e)
  have "pending ((live a)(e := map_option (\<lambda>h. h\<lparr>h_refs := h_refs h + 1\<rparr>) (live a e))) = pending (live a)"
    using assms by (cases "live a e") (simp_all add: fun_upd_idem pending_same deletion_def)
  then show ?thesis
    using Some by (simp add: spec_Lookup_def bag_def)
qed (simp add: spec_Lookup_def)

lemma bag_Erase: "finite (dom (live a)) \<Longrightarrow> bag (spec_Erase k hash a) = bag a"
  by (simp add: spec_Erase_def bag_drop split: option.split)

lemma bag_Insert:
  assumes "finite (dom (live a))" and "live a e = None"
  shows "bag (spec_Insert cap e k hash v chg del a) = add_mset (del, k, v) (bag a)"
proof -
  let ?a = "a\<lparr>order := order a @ [e], live := (live a)(e \<mapsto> new_handle k hash v chg del)\<rparr>"
  have "finite (dom (live ?a))"
    using assms(1) by simp
  moreover have "bag ?a = add_mset (del, k, v) (bag a)"
    using assms by (simp add: bag_def pending_update deletion_def new_handle_def)
  ultimately show ?thesis
    unfolding spec_Insert_def Let_def by (cases "spec_find k hash a") (simp_all add: bag_evict bag_drop)
qed

section \<open>Entries do not change\<close>

text \<open>Only the counts differ, and no entry is new.\<close>

definition older :: "(nat \<Rightarrow> ('v, 'd) LRUHandle option) \<Rightarrow> (nat \<Rightarrow> ('v, 'd) LRUHandle option) \<Rightarrow> bool" where
  "older hs hs' \<longleftrightarrow> (\<forall>x h'. hs' x = Some h' \<longrightarrow> (\<exists>h. hs x = Some h \<and> h' = h\<lparr>h_refs := h_refs h'\<rparr>))"

lemma older_refl: "older hs hs"
  by (simp add: older_def)

lemma older_trans: "older a b \<Longrightarrow> older b c \<Longrightarrow> older a c"
  unfolding older_def by (metis LRUHandle.update_convs(5) LRUHandle.surjective)

lemma olderD: "older hs hs' \<Longrightarrow> hs x = Some h \<Longrightarrow> hs' x = Some h' \<Longrightarrow> h' = h\<lparr>h_refs := h_refs h'\<rparr>"
  unfolding older_def by fastforce

lemma older_all: "older hs hs' \<Longrightarrow> \<forall>x h h'. hs x = Some h \<longrightarrow> hs' x = Some h' \<longrightarrow> h' = h\<lparr>h_refs := h_refs h'\<rparr>"
  using olderD by blast

lemma older_unref: "older (live a) (live (spec_unref e a))"
proof (cases "live a e")
  case None
  then show ?thesis
    by (simp add: spec_unref_def older_refl)
next
  case (Some h)
  then show ?thesis
    by (auto simp: spec_unref_eq older_def unref_handles_def)
qed

lemma older_drop: "older (live a) (live (spec_drop e a))"
  using older_unref [of "a\<lparr>order := remove1 e (order a)\<rparr>" e] by (simp add: spec_drop_def)

lemma older_evict: "older (live a) (live (spec_evict cap a))"
proof (induction cap a rule: spec_evict.induct)
  case (1 cap a)
  then show ?case
    using older_trans [OF older_drop] by (subst spec_evict.simps) (auto simp: older_refl split: list.split)
qed

lemma older_Lookup: "older (live a) (live (snd (spec_Lookup k hash a)))"
  by (auto simp: spec_Lookup_def older_def split: option.splits)

lemma older_Erase: "older (live a) (live (spec_Erase k hash a))"
  by (auto simp: spec_Erase_def older_refl older_drop split: option.split)

lemma older_Insert: "older ((live a)(e \<mapsto> new_handle k hash v chg del)) (live (spec_Insert cap e k hash v chg del a))"
proof -
  let ?a = "a\<lparr>order := order a @ [e], live := (live a)(e \<mapsto> new_handle k hash v chg del)\<rparr>"
  have "older (live ?a) (live (case spec_find k hash a of None \<Rightarrow> ?a | Some x \<Rightarrow> spec_drop x ?a))"
    using older_drop [of ?a] by (cases "spec_find k hash a") (simp_all add: older_refl)
  from older_trans [OF this older_evict] show ?thesis
    unfolding spec_Insert_def Let_def by simp
qed

section \<open>Clients\<close>

text \<open>A step of a client, with the number of handles held before and after.\<close>

inductive lru_step :: "('v, 'd) LRUCache \<Rightarrow> (nat \<Rightarrow> nat) \<Rightarrow> ('v, 'd) LRUCache \<Rightarrow> (nat \<Rightarrow> nat) \<Rightarrow> ('d \<times> bytes \<times> 'v) list \<Rightarrow> bool" where
  Insert: "e \<noteq> 0 \<Longrightarrow> handles c e = None \<Longrightarrow> unat (ht_elems (lru_table c)) < 2 ^ 31 \<Longrightarrow>
    LRUCache_Insert e k hash v chg del c = Some (r, c') \<Longrightarrow> lru_step c held c' (held(r := held r + 1)) [(del, k, v)]"
| Lookup: "\<forall>x. held x < 2 ^ 32 - 2 \<Longrightarrow> LRUCache_Lookup k hash c = Some (r, c') \<Longrightarrow>
    lru_step c held c' (case r of None \<Rightarrow> held | Some x \<Rightarrow> held(x := held x + 1)) []"
| Release: "held e > 0 \<Longrightarrow> LRUCache_Release e c = Some c' \<Longrightarrow> lru_step c held c' (held(e := held e - 1)) []"
| Erase: "LRUCache_Erase k hash c = Some c' \<Longrightarrow> lru_step c held c' held []"

text \<open>The states that are reached, with the handles held and the values inserted.\<close>

inductive lru_reach :: "u64 \<Rightarrow> ('v, 'd) LRUCache \<Rightarrow> (nat \<Rightarrow> nat) \<Rightarrow> ('d \<times> bytes \<times> 'v) list \<Rightarrow> bool" for cap where
  new: "LRUCache_new = Some c \<Longrightarrow> lru_reach cap (SetCapacity cap c) (\<lambda>_. 0) []"
| step: "lru_reach cap c held ins \<Longrightarrow> lru_step c held c' held' new \<Longrightarrow> lru_reach cap c' held' (ins @ new)"

definition client_inv :: "u64 \<Rightarrow> ('v, 'd) LRUCache \<Rightarrow> (nat \<Rightarrow> nat) \<Rightarrow> ('d \<times> bytes \<times> 'v) list \<Rightarrow> ('v, 'd) lru \<Rightarrow> bool" where
  "client_inv cap c held ins a \<longleftrightarrow>
     represents c a \<and> counted a held \<and> capacity c = cap \<and> length (order a) \<le> 2 ^ 31 \<and> bag a = mset ins"

lemma client_invD:
  assumes "client_inv cap c held ins a"
  shows "represents c a" and "counted a held" and "capacity c = cap" and "length (order a) \<le> 2 ^ 31" and "bag a = mset ins"
    and "finite (dom (live a))"
  using assms representsD(1) [of c a] lru_invD(3) by (auto simp: client_inv_def)

lemma elems_order:
  assumes "represents c a" and "length (order a) \<le> 2 ^ 31"
  shows "unat (ht_elems (lru_table c)) = length (order a)"
  using representsD(2) [OF assms(1)]
proof (rule cache_relE)
  fix bss
  assume "ht_inv c bss" "mset (concat bss) = mset (order a)"
  then have "ht_elems (lru_table c) = word_of_nat (length (order a))"
    using ht_invD(3) [of c bss] mset_eq_length [of "concat bss" "order a"] by simp
  then show ?thesis
    using assms(2) by (simp add: unsigned_of_nat take_bit_nat_eq_self)
qed

lemma length_evict: "length (order (spec_evict cap a)) \<le> length (order a)"
proof (induction cap a rule: spec_evict.induct)
  case (1 cap a)
  then show ?case
    by (subst spec_evict.simps) (fastforce split: list.split)
qed

lemma length_Insert: "length (order (spec_Insert cap e k hash v chg del a)) \<le> Suc (length (order a))"
  unfolding spec_Insert_def Let_def
  by (rule order_trans [OF length_evict]) (auto simp: length_remove1 split: option.split)

lemma spec_find_order: "spec_find k hash a = Some e \<Longrightarrow> e \<in> set (order a)"
  using lookup_in_SomeD unfolding spec_find_def by metis

lemma length_Lookup: "length (order (snd (spec_Lookup k hash a))) = length (order a)"
  by (auto simp: spec_Lookup_def length_remove1 dest!: spec_find_order length_pos_if_in_set split: option.split)

lemma counted_refs_max:
  assumes "counted a held" and "\<forall>x. held x < 2 ^ 32 - 2" and "live a x = Some h"
  shows "h_refs h + 1 \<noteq> 0"
proof
  assume "h_refs h + 1 = 0"
  then have "h_refs h = - 1"
    by (simp add: eq_neg_iff_add_eq_0)
  then have "unat (h_refs h) = 2 ^ 32 - 1"
    by (simp add: unsigned_minus_1_eq_mask mask_eq_exp_minus_1)
  moreover have "held x < 2 ^ 32 - 2"
    using assms(2) by blast
  ultimately show False
    using countedD(4) [OF assms(1,3)] by (auto simp: of_bool_def split: if_splits)
qed

lemma counted_held:
  assumes "counted a held" and "held e > 0"
  obtains h where "live a e = Some h" and "e \<in> set (order a) \<longrightarrow> h_refs h \<noteq> 1" and "held e \<le> unat (h_refs h)"
proof -
  obtain h where h: "live a e = Some h"
    using countedD(3) [OF assms(1), of e] assms(2) by (cases "live a e") auto
  moreover have "unat (h_refs h) = held e + of_bool (e \<in> set (order a))"
    by (rule countedD(4) [OF assms(1) h])
  ultimately show thesis
    using that [of h] assms(2) by (auto simp: unat_refs_1 [symmetric])
qed

text \<open>A step keeps the invariant, and the entries that are held before and after it.\<close>

lemma step_inv:
  assumes "lru_step c held c' held' new" and "client_inv cap c held ins a"
  shows "\<exists>a'. client_inv cap c' held' (ins @ new) a' \<and>
    (\<forall>x h h'. live a x = Some h \<longrightarrow> live a' x = Some h' \<longrightarrow> h' = h\<lparr>h_refs := h_refs h'\<rparr>)"
  using assms
proof (induction rule: lru_step.induct)
  case (Insert e c k hash v chg del r c' held)
  note i = client_invD [OF Insert(5)]
  have e: "live a e = None"
    using Insert(2) representsD(3) [OF i(1)] by simp
  have len: "length (order a) < 2 ^ 31"
    using Insert(3) elems_order [OF i(1,4)] by simp
  let ?a = "spec_Insert cap e k hash v chg del a"
  obtain c1 where "LRUCache_Insert e k hash v chg del c = Some (e, c1)" "represents c1 ?a" "capacity c1 = cap"
    using shard_Insert_represents [OF i(1) e Insert(1) len] i(3) by metis
  then have r: "r = e" "represents c' ?a" "capacity c' = cap"
    using Insert(4) by simp_all
  have "counted ?a (held(r := held r + 1))"
    unfolding r(1) by (rule counted_Insert [OF i(2) e])
  moreover have "length (order ?a) \<le> 2 ^ 31"
    using length_Insert [of cap e k hash v chg del a] len by linarith
  moreover have "bag ?a = mset (ins @ [(del, k, v)])"
    using bag_Insert [OF i(6) e] i(5) by simp
  moreover have "h' = h\<lparr>h_refs := h_refs h'\<rparr>" if "live a x = Some h" "live ?a x = Some h'" for x h h'
    using older_Insert [of a e k hash v chg del cap] that e unfolding older_def by (metis fun_upd_other option.inject option.distinct(1))
  ultimately have "client_inv cap c' (held(r := held r + 1)) (ins @ [(del, k, v)]) ?a"
    "\<forall>x h h'. live a x = Some h \<longrightarrow> live ?a x = Some h' \<longrightarrow> h' = h\<lparr>h_refs := h_refs h'\<rparr>"
    using r(2,3) unfolding client_inv_def by blast+
  then show ?case
    by blast
next
  case (Lookup held k hash c r c')
  note i = client_invD [OF Lookup(3)]
  obtain c1 where "LRUCache_Lookup k hash c = Some (fst (spec_Lookup k hash a), c1)" "represents c1 (snd (spec_Lookup k hash a))"
    "capacity c1 = cap"
    by (rule shard_Lookup_represents [OF i(1), of k hash]) (use counted_refs_max [OF i(2) Lookup(1)] i(3) in auto)
  then have r: "r = fst (spec_Lookup k hash a)" "represents c' (snd (spec_Lookup k hash a))" "capacity c' = cap"
    using Lookup(2) by simp_all
  have "counted (snd (spec_Lookup k hash a)) (case r of None \<Rightarrow> held | Some x \<Rightarrow> held(x := held x + 1))"
    using counted_Lookup [OF i(2)] Lookup(1) r(1) by (metis prod.collapse)
  moreover have "length (order (snd (spec_Lookup k hash a))) \<le> 2 ^ 31"
    using i(4) length_Lookup [of k hash a] by simp
  ultimately show ?case
    using r(2,3) older_all [OF older_Lookup [of a k hash]] bag_Lookup [OF i(6), of k hash] i(5)
    by (intro exI [of _ "snd (spec_Lookup k hash a)"] conjI) (simp_all add: client_inv_def)
next
  case (Release held e c c')
  note i = client_invD [OF Release(3)]
  obtain h where h: "live a e = Some h" "e \<in> set (order a) \<longrightarrow> h_refs h \<noteq> 1"
    using counted_held [OF i(2) Release(1)] by blast
  obtain c1 where "LRUCache_Release e c = Some c1" "represents c1 (spec_unref e a)" "capacity c1 = cap"
    using shard_Release_represents [OF i(1) h] i(3) by metis
  moreover have "order (spec_unref e a) = order a"
    by (simp add: spec_unref_eq [OF h(1)])
  ultimately show ?case
    using Release(2) older_all [OF older_unref [of a e]] bag_unref [OF i(6) h(1)] i(4,5) counted_unref [OF i(2) Release(1)]
    by (intro exI [of _ "spec_unref e a"] conjI) (simp_all add: client_inv_def del: One_nat_def fun_upd_apply)
next
  case (Erase k hash c c' held)
  note i = client_invD [OF Erase(2)]
  obtain c1 where c1: "LRUCache_Erase k hash c = Some c1" "represents c1 (spec_Erase k hash a)" "capacity c1 = cap"
    using shard_Erase_represents [OF i(1)] i(3) by metis
  have "length (order (spec_Erase k hash a)) \<le> 2 ^ 31"
    using i(4) by (auto simp: spec_Erase_def length_remove1 split: option.split)
  moreover have "counted (spec_Erase k hash a) held"
    using i(2) counted_drop [OF i(2)] spec_find_order [of k hash a] by (simp add: spec_Erase_def split: option.split)
  ultimately show ?case
    using Erase(1) c1 older_all [OF older_Erase [of a k hash]] bag_Erase [OF i(6), of k hash] i(5)
    by (intro exI [of _ "spec_Erase k hash a"] conjI) (simp_all add: client_inv_def)
qed

lemma reach_inv:
  fixes c :: "('v, 'd) LRUCache"
  assumes "lru_reach cap c held ins"
  shows "\<exists>a. client_inv cap c held ins a"
  using assms
proof (induction rule: lru_reach.induct)
  case (new c)
  obtain c1 :: "('v, 'd) LRUCache" where "LRUCache_new = Some c1" "represents (SetCapacity cap c1) spec_new"
    by (rule shard_new_represents)
  moreover from this(1) have "c1 = c"
    using new by (metis option.inject)
  ultimately have "represents (SetCapacity cap c) spec_new"
    by simp
  moreover have "counted (spec_new :: ('v, 'd) lru) (\<lambda>_. 0)" "bag (spec_new :: ('v, 'd) lru) = mset []"
    by (simp_all add: counted_def spec_new_def bag_def pending_def)
  ultimately show ?case
    by (intro exI [of _ spec_new]) (simp add: client_inv_def SetCapacity_def, simp add: spec_new_def)
next
  case (step c held ins c' held' new)
  then show ?case
    using step_inv by blast
qed

section \<open>Inserting\<close>

lemma spec_evict_bound: "total_charge (live (spec_evict cap a)) \<le> cap \<or> order (spec_evict cap a) = []"
proof (induction cap a rule: spec_evict.induct)
  case (1 cap a)
  then show ?case
    by (subst (1 2) spec_evict.simps) (auto split: list.split)
qed

text \<open>Eviction drops a prefix of the list.\<close>

lemma spec_evict_suffix: "\<exists>ys. order a = ys @ order (spec_evict cap a)"
proof (induction cap a rule: spec_evict.induct)
  case (1 cap a)
  show ?case
  proof (cases "order a")
    case (Cons e es)
    have "\<exists>ys. es = ys @ order (spec_evict cap (spec_drop e a))" if "total_charge (live a) > cap"
      using 1 [OF Cons that] Cons by simp
    then show ?thesis
      using Cons by (subst spec_evict.simps) (auto intro: exI [of _ "e # ys" for ys])
  qed (simp add: spec_evict.simps)
qed

lemma spec_Insert_last:
  assumes "e \<notin> set (order a)" and "order (spec_Insert cap e k hash v chg del a) \<noteq> []"
  shows "e \<in> set (order (spec_Insert cap e k hash v chg del a))"
proof -
  let ?a = "a\<lparr>order := order a @ [e], live := (live a)(e \<mapsto> new_handle k hash v chg del)\<rparr>"
  let ?b = "case spec_find k hash a of None \<Rightarrow> ?a | Some x \<Rightarrow> spec_drop x ?a"
  have b: "\<exists>zs. order ?b = zs @ [e]"
  proof (cases "spec_find k hash a")
    case (Some x)
    then have "x \<in> set (order a)"
      by (rule spec_find_order)
    then show ?thesis
      using Some by (simp add: remove1_append)
  qed simp
  obtain ys where "order ?b = ys @ order (spec_Insert cap e k hash v chg del a)"
    using spec_evict_suffix [of ?b cap] by (auto simp: spec_Insert_def Let_def)
  then show ?thesis
    using b assms(2) by (metis last_append last_in_set last_snoc)
qed

section \<open>Destruction\<close>

lemma delete_loop:
  assumes "dseg (lru_next c) prv p xs 0" and "distinct xs" and "0 \<notin> set xs"
    and "\<And>x. x \<in> set xs \<Longrightarrow> \<exists>h. handles c x = Some h \<and> h_refs h = 1 \<and> lru_next c x \<noteq> x"
  shows "\<exists>c'. LRUCache_delete_loop (hd (xs @ [0])) c = Some c' \<and> handles c' = (\<lambda>x. if x \<in> set xs then None else handles c x) \<and>
    deleted c' = deleted c @ map (\<lambda>x. deletion (the (handles c x))) xs"
  using assms
proof (induction xs arbitrary: p c)
  case Nil
  then show ?case
    by (subst LRUCache_delete_loop.simps) simp
next
  case (Cons x xs)
  obtain h where h: "handles c x = Some h" "h_refs h = 1" "lru_next c x \<noteq> x"
    using Cons.prems(4) [of x] by auto
  have nxt: "lru_next c x = hd (xs @ [0])" and seg: "dseg (lru_next c) prv x xs 0"
    using Cons.prems(1) dseg_ends(1) by auto
  obtain c1 where c1: "Unref x c = Some c1" "handles c1 = (handles c)(x := None)" "lru_next c1 = lru_next c"
    "deleted c1 = deleted c @ [deletion h]"
    using Unref_eq [OF h(1) _ h(3)] h(2) by (auto simp: unref_dels_def unref_handles_def deletion_def)
  have "\<exists>c'. LRUCache_delete_loop (hd (xs @ [0])) c1 = Some c' \<and> handles c' = (\<lambda>y. if y \<in> set xs then None else handles c1 y) \<and>
    deleted c' = deleted c1 @ map (\<lambda>y. deletion (the (handles c1 y))) xs"
  proof (rule Cons.IH)
    show "dseg (lru_next c1) prv x xs 0"
      using seg by (simp add: c1(3))
    show "\<exists>h. handles c1 y = Some h \<and> h_refs h = 1 \<and> lru_next c1 y \<noteq> y" if "y \<in> set xs" for y
      using Cons.prems(2) Cons.prems(4) [of y] that by (auto simp: c1(2,3))
  qed (use Cons.prems(2,3) in simp_all)
  then obtain c' where c': "LRUCache_delete_loop (hd (xs @ [0])) c1 = Some c'" "handles c' = (\<lambda>y. if y \<in> set xs then None else handles c1 y)"
    "deleted c' = deleted c1 @ map (\<lambda>y. deletion (the (handles c1 y))) xs"
    by blast
  have "LRUCache_delete_loop x c = Some c'"
    using Cons.prems(3) h c1(1) c'(1) nxt by (subst LRUCache_delete_loop.simps) (simp add: Let_def)
  moreover have "map (\<lambda>y. deletion (the (handles c1 y))) xs = map (\<lambda>y. deletion (the (handles c y))) xs"
    using Cons.prems(2) by (auto simp: c1(2))
  ultimately show ?case
    using c' h(1) by (auto simp: c1 fun_eq_iff)
qed

lemma shard_delete_represents:
  assumes "client_inv cap c (\<lambda>_. 0) ins a"
  obtains c' where "LRUCache_delete c = Some c'" and "handles c' = Map.empty" and "mset (deleted c') = mset ins"
proof -
  note i = client_invD [OF assms]
  note r = representsD [OF i(1)]
  have refs: "x \<in> set (order a) \<and> h_refs h = 1" if h: "live a x = Some h" for x h
    using countedD(4) [OF i(2) h] lru_invD(6) [OF r(1) h] unat_refs_1 [of "h_refs h"]
    by (cases "x \<in> set (order a)") (simp_all add: unsigned_eq_0_iff)
  have dom: "dom (live a) = set (order a)"
    using refs countedD(2) [OF i(2)] by blast
  have l: "dseg (lru_next c) (lru_prev c) 0 (order a) 0" "distinct (order a)" "0 \<notin> set (order a)"
    and n: "\<And>x. x \<in> set (order a) \<Longrightarrow> lru_next c x \<noteq> x"
    using r(2) by (auto simp: cache_rel_def lru_list_def dom r(3))
  have "\<exists>c'. LRUCache_delete_loop (hd (order a @ [0])) c = Some c' \<and> handles c' = (\<lambda>x. if x \<in> set (order a) then None else handles c x) \<and>
    deleted c' = deleted c @ map (\<lambda>x. deletion (the (handles c x))) (order a)"
    by (rule delete_loop [OF l]) (use n refs dom in \<open>force simp: r(3)\<close>)
  then obtain c' where c': "LRUCache_delete c = Some c'" "handles c' = (\<lambda>x. if x \<in> set (order a) then None else live a x)"
    "deleted c' = dels a @ map (\<lambda>x. deletion (the (live a x))) (order a)"
    unfolding LRUCache_delete_def dseg_ends(1) [OF l(1)] r(3,4) by blast
  have "handles c' = Map.empty"
    using dom by (auto simp: c'(2) fun_eq_iff)
  moreover have "mset (deleted c') = bag a"
    using l(2) by (simp add: c'(3) bag_def pending_def dom mset_set_set [symmetric])
  ultimately show thesis
    using that c'(1) i(5) by simp
qed

section \<open>Properties\<close>

text \<open>C9. The cache refines the abstract one: from a new cache on, each operation of a shard, called the way its interface
  allows, returns, and results in a representation of the state that the abstract operation results in.  The abstract state
  is the list of entries in the order of their last use and the finite map of the live entries.\<close>

theorem lru_refines:
  assumes "represents c a"
  shows "(\<exists>c'. LRUCache_Erase k hash c = Some c' \<and> represents c' (spec_Erase k hash a)) \<and>
    ((\<forall>x h. live a x = Some h \<longrightarrow> h_refs h + 1 \<noteq> 0) \<longrightarrow>
       (\<exists>c'. LRUCache_Lookup k hash c = Some (fst (spec_Lookup k hash a), c') \<and> represents c' (snd (spec_Lookup k hash a)))) \<and>
    (live a e = None \<and> e \<noteq> 0 \<and> length (order a) < 2 ^ 31 \<longrightarrow>
       (\<exists>c'. LRUCache_Insert e k hash v chg del c = Some (e, c') \<and> represents c' (spec_Insert (capacity c) e k hash v chg del a))) \<and>
    (live a x = Some h \<and> (x \<in> set (order a) \<longrightarrow> h_refs h \<noteq> 1) \<longrightarrow>
       (\<exists>c'. LRUCache_Release x c = Some c' \<and> represents c' (spec_unref x a)))"
proof (intro conjI impI; (elim conjE)?)
  show "\<exists>c'. LRUCache_Erase k hash c = Some c' \<and> represents c' (spec_Erase k hash a)"
    using shard_Erase_represents [OF assms] by metis
  show "\<exists>c'. LRUCache_Lookup k hash c = Some (fst (spec_Lookup k hash a), c') \<and> represents c' (snd (spec_Lookup k hash a))"
    if "\<forall>x h. live a x = Some h \<longrightarrow> h_refs h + 1 \<noteq> 0"
    by (rule shard_Lookup_represents [OF assms, of k hash]) (use that in auto)
  show "\<exists>c'. LRUCache_Insert e k hash v chg del c = Some (e, c') \<and> represents c' (spec_Insert (capacity c) e k hash v chg del a)"
    if "live a e = None" "e \<noteq> 0" "length (order a) < 2 ^ 31"
    using shard_Insert_represents [OF assms that] by metis
  show "\<exists>c'. LRUCache_Release x c = Some c' \<and> represents c' (spec_unref x a)"
    if "live a x = Some h" "x \<in> set (order a) \<longrightarrow> h_refs h \<noteq> 1"
    using shard_Release_represents [OF assms that] by metis
qed

theorem lru_refines_witness:
  "\<exists>c c' :: (nat, unit) LRUCache. LRUCache_Insert 8 (str ''k'') 7 42 1 () c = Some (8, c') \<and>
     represents c' (spec_Insert 10 8 (str ''k'') 7 42 1 () spec_new)"
proof -
  obtain c :: "(nat, unit) LRUCache" where "represents (SetCapacity 10 c) spec_new"
    by (rule shard_new_represents)
  from lru_refines [OF this, where e = 8 and k = "str ''k''" and hash = 7 and v = 42 and chg = 1 and del = "()"] show ?thesis
    by (auto simp: SetCapacity_def spec_new_def)
qed

text \<open>C15. A cache and its clients are well formed in every reachable state: the list and the hash table hold the same
  entries, \<open>usage_\<close> is the total charge of the live entries, and the count of an entry is the number
  of handles that clients hold, plus one while the entry is in the cache.\<close>

theorem lru_well_formed:
  assumes "lru_reach cap c held ins"
  shows "\<exists>xs. cache_rel c xs xs \<and> unat (ht_elems (lru_table c)) = length xs \<and> usage c = total_charge (handles c) \<and>
    (\<forall>x. (handles c x = None \<longleftrightarrow> held x = 0 \<and> x \<notin> set xs) \<and>
       (\<forall>h. handles c x = Some h \<longrightarrow> unat (h_refs h) = held x + of_bool (x \<in> set xs)))"
proof -
  obtain a where a: "client_inv cap c held ins a"
    using reach_inv [OF assms] by blast
  note i = client_invD [OF a]
  note r = representsD [OF i(1)]
  have "held x = 0 \<and> x \<notin> set (order a)" if "live a x = None" for x
    using countedD(2,3) [OF i(2), of x] that by auto
  moreover have "live a x = None" if "held x = 0" "x \<notin> set (order a)" for x
    using countedD(4) [OF i(2), of x] lru_invD(6) [OF r(1), of x] that by (cases "live a x") (auto simp: unsigned_eq_0_iff)
  moreover have "unat (h_refs h) = held x + of_bool (x \<in> set (order a))" if "live a x = Some h" for x h
    by (rule countedD(4) [OF i(2) that])
  moreover have "usage c = total_charge (handles c)"
    using r(2) by (simp add: cache_rel_def)
  ultimately show ?thesis
    using r(2) elems_order [OF i(1,4)] unfolding r(3) by (intro exI [of _ "order a"]) blast
qed

lemma reach_new: "\<exists>c :: ('v, 'd) LRUCache. lru_reach cap c (\<lambda>_. 0) [] \<and> capacity c = cap"
proof -
  obtain c :: "('v, 'd) LRUCache" where "LRUCache_new = Some c"
    by (rule shard_new_represents)
  from lru_reach.new [OF this, of cap] show ?thesis
    by (auto simp: SetCapacity_def)
qed

lemma reach_Insert:
  assumes "lru_reach cap c held ins" and "e \<noteq> 0" and "handles c e = None" and "unat (ht_elems (lru_table c)) < 2 ^ 31"
  obtains c' where "LRUCache_Insert e k hash v chg del c = Some (e, c')" and "lru_reach cap c' (held(e := held e + 1)) (ins @ [(del, k, v)])"
proof -
  obtain a where a: "client_inv cap c held ins a"
    using reach_inv [OF assms(1)] by blast
  note i = client_invD [OF a]
  have "live a e = None" "length (order a) < 2 ^ 31"
    using assms(3,4) representsD(3) [OF i(1)] elems_order [OF i(1,4)] by simp_all
  then obtain c' where c': "LRUCache_Insert e k hash v chg del c = Some (e, c')"
    using shard_Insert_represents [OF i(1) _ assms(2)] by metis
  show thesis
    using that [OF c'] lru_reach.step [OF assms(1) lru_step.Insert [OF assms(2-4) c']] by blast
qed

lemma reach_one:
  obtains c c' :: "(nat, unit) LRUCache" where "LRUCache_Insert 8 (str ''k'') 7 42 1 () c = Some (8, c')"
    and "lru_reach 10 c (\<lambda>_. 0) []" and "handles c 8 = None" and "unat (ht_elems (lru_table c)) < 2 ^ 31"
    and "lru_reach 10 c' ((\<lambda>_. 0)(8 := 1)) [((), str ''k'', 42)]"
proof -
  obtain c :: "(nat, unit) LRUCache" where c: "lru_reach 10 c (\<lambda>_. 0) []"
    using reach_new by blast
  obtain a where a: "client_inv 10 c (\<lambda>_. 0) [] a"
    using reach_inv [OF c] by blast
  have "bag a = {#}"
    using client_invD(5) [OF a] by simp
  then have "dom (live a) = {}"
    using client_invD(6) [OF a] by (auto simp: bag_def pending_def mset_set_empty_iff)
  moreover from this have "order a = []"
    using countedD(2) [OF client_invD(2) [OF a]] by (cases "order a") auto
  ultimately have new: "handles c 8 = None" "unat (ht_elems (lru_table c)) < 2 ^ 31"
    using representsD(3) [OF client_invD(1) [OF a]] elems_order [OF client_invD(1,4) [OF a]] by auto
  then obtain c' where "LRUCache_Insert 8 (str ''k'') 7 42 1 () c = Some (8, c')"
    "lru_reach 10 c' ((\<lambda>_. 0)(8 := 0 + 1)) ([] @ [((), str ''k'', 42)])"
    by (elim reach_Insert [OF c, rotated 3]) simp_all
  then show thesis
    using that c new by simp
qed

theorem lru_well_formed_witness:
  "\<exists>(c :: (nat, unit) LRUCache) c' xs h.
     LRUCache_Insert 8 (str ''k'') 7 42 1 () c = Some (8, c') \<and> lru_reach 10 c' ((\<lambda>_. 0)(8 := 1)) [((), str ''k'', 42)] \<and>
     cache_rel c' xs xs \<and> usage c' = total_charge (handles c') \<and>
     handles c' 8 = Some h \<and> unat (h_refs h) = 1 + of_bool (8 \<in> set xs)"
proof -
  obtain c c' :: "(nat, unit) LRUCache" where c: "LRUCache_Insert 8 (str ''k'') 7 42 1 () c = Some (8, c')"
    and c': "lru_reach 10 c' ((\<lambda>_. 0)(8 := 1)) [((), str ''k'', 42)]"
    by (rule reach_one)
  obtain xs where xs: "cache_rel c' xs xs" "usage c' = total_charge (handles c')"
    "\<forall>x. (handles c' x = None \<longleftrightarrow> ((\<lambda>_. 0)(8 := 1)) x = (0 :: nat) \<and> x \<notin> set xs) \<and>
       (\<forall>h. handles c' x = Some h \<longrightarrow> unat (h_refs h) = ((\<lambda>_. 0)(8 := 1)) x + of_bool (x \<in> set xs))"
    using lru_well_formed [OF c'] by blast
  then obtain h where "handles c' 8 = Some h"
    by (cases "handles c' 8") auto
  with xs(3) have "handles c' 8 = Some h \<and> unat (h_refs h) = 1 + of_bool (8 \<in> set xs)"
    by (metis fun_upd_same)
  with c c' xs(1,2) show ?thesis
    by blast
qed

text \<open>C14. A handle is valid while a client holds it: the entry is not freed, it can be released, and no step of any client that leaves
  it held changes more of it than its count.  No assertion fails, no freed memory is used and no loop runs forever in any operation
  of a client.\<close>

theorem lru_handles_safe:
  assumes "lru_reach cap c held ins"
  shows "(held x > 0 \<longrightarrow> (\<exists>h. handles c x = Some h \<and> (\<exists>c'. LRUCache_Release x c = Some c') \<and>
       (\<forall>c' held' new. lru_step c held c' held' new \<and> held' x > 0 \<longrightarrow> (\<exists>n. handles c' x = Some (h\<lparr>h_refs := n\<rparr>))))) \<and>
    (e \<noteq> 0 \<and> handles c e = None \<and> unat (ht_elems (lru_table c)) < 2 ^ 31 \<longrightarrow>
       (\<exists>c'. LRUCache_Insert e k hash v chg del c = Some (e, c'))) \<and>
    ((\<forall>y. held y < 2 ^ 32 - 2) \<longrightarrow> (\<exists>r c'. LRUCache_Lookup k hash c = Some (r, c'))) \<and>
    (\<exists>c'. LRUCache_Erase k hash c = Some c')"
proof -
  obtain a where a: "client_inv cap c held ins a"
    using reach_inv [OF assms] by blast
  note i = client_invD [OF a]
  note r = representsD [OF i(1)]
  have valid: "\<exists>h. handles c x = Some h \<and> (\<exists>c'. LRUCache_Release x c = Some c') \<and>
       (\<forall>c' held' new. lru_step c held c' held' new \<and> held' x > 0 \<longrightarrow> (\<exists>n. handles c' x = Some (h\<lparr>h_refs := n\<rparr>)))" if x: "held x > 0"
  proof -
    obtain h where h: "live a x = Some h" "x \<in> set (order a) \<longrightarrow> h_refs h \<noteq> 1"
      by (rule counted_held [OF i(2) x])
    obtain c1 where c1: "LRUCache_Release x c = Some c1"
      by (rule shard_Release_represents [OF i(1) h])
    have "\<exists>n. handles c' x = Some (h\<lparr>h_refs := n\<rparr>)" if st: "lru_step c held c' held' new" and x': "held' x > 0" for c' held' new
    proof -
      obtain a' where a': "client_inv cap c' held' (ins @ new) a'"
        and same: "\<forall>x h h'. live a x = Some h \<longrightarrow> live a' x = Some h' \<longrightarrow> h' = h\<lparr>h_refs := h_refs h'\<rparr>"
        using step_inv [OF st a] by blast
      obtain h' where h': "live a' x = Some h'"
        by (rule counted_held [OF client_invD(2) [OF a'] x'])
      have "h' = h\<lparr>h_refs := h_refs h'\<rparr>"
        using same h(1) h' by blast
      then show ?thesis
        using h' representsD(3) [OF client_invD(1) [OF a']] by metis
    qed
    then show ?thesis
      using h(1) c1 unfolding r(3) by blast
  qed
  have insert: "\<exists>c'. LRUCache_Insert e k hash v chg del c = Some (e, c')"
    if "e \<noteq> 0" "handles c e = None" "unat (ht_elems (lru_table c)) < 2 ^ 31"
    using reach_Insert [OF assms that] by metis
  have lookup: "\<exists>r c'. LRUCache_Lookup k hash c = Some (r, c')" if "\<forall>y. held y < 2 ^ 32 - 2"
    by (rule shard_Lookup_represents [OF i(1), of k hash]) (use counted_refs_max [OF i(2) that] in blast)+
  have "\<exists>c'. LRUCache_Erase k hash c = Some c'"
    using shard_Erase_represents [OF i(1)] by metis
  then show ?thesis
    using valid insert lookup by blast
qed

theorem lru_handles_safe_witness:
  "\<exists>c c' c'' :: (nat, unit) LRUCache. LRUCache_Insert 8 (str ''k'') 7 42 1 () c = Some (8, c') \<and> LRUCache_Release 8 c' = Some c''"
proof -
  obtain c c' :: "(nat, unit) LRUCache" where c': "LRUCache_Insert 8 (str ''k'') 7 42 1 () c = Some (8, c')"
    "lru_reach 10 c' ((\<lambda>_. 0)(8 := 1)) [((), str ''k'', 42)]"
    by (rule reach_one)
  have "((\<lambda>_. 0)(8 := 1)) (8 :: nat) > (0 :: nat)"
    by simp
  with lru_handles_safe [OF c'(2), of 8] have "\<exists>c''. LRUCache_Release 8 c' = Some c''"
    by blast
  then show ?thesis
    using c'(1) by blast
qed

text \<open>C13. Each value is deleted exactly once: when all handles are released, the destructor of the cache succeeds, frees all
  entries, and the calls of deleters over the life of the cache are exactly those for the values inserted.\<close>

theorem lru_deleted_once:
  assumes "lru_reach cap c held ins" and "\<forall>x. held x = 0"
  shows "\<exists>c'. LRUCache_delete c = Some c' \<and> handles c' = Map.empty \<and> mset (deleted c') = mset ins"
proof -
  have "held = (\<lambda>_. 0)"
    using assms(2) by auto
  then obtain a where "client_inv cap c (\<lambda>_. 0) ins a"
    using reach_inv [OF assms(1)] by blast
  from shard_delete_represents [OF this] show ?thesis
    by metis
qed

theorem lru_deleted_once_witness:
  "\<exists>c :: (nat, unit) LRUCache. \<exists>c'. LRUCache_delete c = Some c' \<and> mset (deleted c') = {#((), str ''k'', 42)#}"
proof -
  obtain c c' :: "(nat, unit) LRUCache" where c': "lru_reach 10 c' ((\<lambda>_. 0)(8 := 1)) [((), str ''k'', 42)]"
    by (rule reach_one)
  obtain a where a: "client_inv 10 c' ((\<lambda>_. 0)(8 := 1)) [((), str ''k'', 42)] a"
    using reach_inv [OF c'] by blast
  obtain h where h: "live a 8 = Some h" "8 \<in> set (order a) \<longrightarrow> h_refs h \<noteq> 1"
    by (rule counted_held [OF client_invD(2) [OF a], of 8]) auto
  obtain c2 where "LRUCache_Release 8 c' = Some c2"
    by (rule shard_Release_represents [OF client_invD(1) [OF a] h])
  from lru_step.Release [of "(\<lambda>_. 0)(8 := 1)" 8, OF _ this] have "lru_step c' ((\<lambda>_. 0)(8 := 1)) c2 (\<lambda>_. 0) []"
    by (simp add: fun_upd_idem)
  from lru_reach.step [OF c' this] have "lru_reach 10 c2 (\<lambda>_. 0) [((), str ''k'', 42)]"
    by simp
  from lru_deleted_once [OF this] show ?thesis
    by auto
qed

text \<open>C16. Inserting keeps the cache within its capacity: afterwards the total charge is within the capacity, unless everything was
  evicted, in which case the rest of the charge is held by clients.  If anything is left in the cache, the new entry is, and a lookup of its
  key finds it.\<close>

theorem lru_Insert_bound:
  assumes "lru_reach cap c held ins" and "e \<noteq> 0" and "handles c e = None" and "unat (ht_elems (lru_table c)) < 2 ^ 31"
    and "LRUCache_Insert e k hash v chg del c = Some (e, c')"
  shows "(usage c' \<le> cap \<or> lru_next c' 0 = 0) \<and>
    (lru_next c' 0 \<noteq> 0 \<longrightarrow> (\<exists>c''. LRUCache_Lookup k hash c' = Some (Some e, c''))) \<and> map_option h_value (handles c' e) = Some v"
proof -
  obtain a where a: "client_inv cap c held ins a"
    using reach_inv [OF assms(1)] by blast
  note i = client_invD [OF a]
  note r = representsD [OF i(1)]
  have e: "live a e = None" "length (order a) < 2 ^ 31"
    using assms(3,4) r(3) elems_order [OF i(1,4)] by simp_all
  let ?a = "spec_Insert cap e k hash v chg del a"
  have r': "represents c' ?a"
    using shard_Insert_represents [OF i(1) e(1) assms(2) e(2)] assms(5) i(3) by (metis Pair_inject option.inject)
  note s = representsD [OF r']
  have l: "lru_next c' 0 = hd (order ?a @ [0])"
    using s(2) by (auto simp: cache_rel_def intro: lru_head)
  have notin: "e \<notin> set (order a)"
    using lru_invD(2) [OF r(1), of e] e(1) by auto
  have "usage c' \<le> cap \<or> order ?a = []"
    using s(2,3) spec_evict_bound unfolding cache_rel_def spec_Insert_def Let_def by metis
  moreover have cnt: "counted ?a (held(e := held e + 1))"
    by (rule counted_Insert [OF i(2) e(1)])
  obtain h where h: "live ?a e = Some h"
    by (rule counted_held [OF cnt, of e]) auto
  have "h = (new_handle k hash v chg del)\<lparr>h_refs := h_refs h\<rparr>"
    using olderD [OF older_Insert _ h] by simp
  then have hk: "h_key h = k" "h_hash h = hash" "h_value h = v"
    by (cases h; simp add: new_handle_def)+
  have "\<exists>c''. LRUCache_Lookup k hash c' = Some (Some e, c'')" if "order ?a \<noteq> []"
  proof -
    have "lookup_in (live ?a) k hash (order ?a) = Some e"
      using lru_invD(5) [OF s(1)] spec_Insert_last [OF notin that] h hk by (intro lookup_in_eqI) (simp_all add: matches_def)
    then show ?thesis
      using Table_Lookup_rel [OF s(2), of k hash] h by (simp add: LRUCache_Lookup_def s(3))
  qed
  ultimately show ?thesis
    using l h hk(3) by (cases "order ?a = []") (simp_all add: s(3))
qed

theorem lru_Insert_bound_witness:
  "\<exists>c c' :: (nat, unit) LRUCache. LRUCache_Insert 8 (str ''k'') 7 42 1 () c = Some (8, c') \<and> map_option h_value (handles c' 8) = Some 42"
proof -
  obtain c c' :: "(nat, unit) LRUCache" where c: "LRUCache_Insert 8 (str ''k'') 7 42 1 () c = Some (8, c')"
    "lru_reach 10 c (\<lambda>_. 0) []" "handles c 8 = None" "unat (ht_elems (lru_table c)) < 2 ^ 31"
    by (rule reach_one)
  from lru_Insert_bound [OF c(2) _ c(3,4,1)] show ?thesis
    using c(1) by auto
qed

end
