(* ===== verification/Cache_Sharded.thy ===== *)
theory Cache_Sharded
  imports Cache_Lru
begin

text \<open>
  The contract that clients of a \<open>Cache\<close> rely on, as a locale, and the proof that the sharded cache of
  \<open>NewLRUCache\<close> keeps it.
\<close>

section \<open>The contract of caches\<close>

text \<open>\<open>cache_inv P c held\<close> says that the cache is well formed, that clients hold \<open>held h\<close> copies of the handle \<open>h\<close>, and that \<open>P\<close> is true of every key
  and its value in the cache.  The cache may drop entries that are not held at any time, so a lookup may always fail, but what it finds
  was inserted under the key.  The counts of references and of entries are of 32 bits, hence the bounds.\<close>

locale shared_cache =
  fixes ops :: "('v, 'd, 'h, 'c) Cache" and cache_inv :: "(bytes \<Rightarrow> 'v \<Rightarrow> bool) \<Rightarrow> 'c \<Rightarrow> ('h \<Rightarrow> nat) \<Rightarrow> bool" and room :: "'c \<Rightarrow> bool"
  assumes Lookup_ok: "cache_inv P c held \<Longrightarrow> (\<And>h. held h < 2 ^ 32 - 2) \<Longrightarrow>
      \<exists>r c'. Cache_Lookup ops k c = Some (r, c') \<and>
        (case r of None \<Rightarrow> cache_inv P c' held \<and> (room c \<longrightarrow> room c')
         | Some h \<Rightarrow> cache_inv P c' (held(h := held h + 1)) \<and> (\<exists>v. Cache_Value ops h c' = Some v \<and> P k v))"
    and Insert_ok: "cache_inv P c held \<Longrightarrow> room c \<Longrightarrow> P k v \<Longrightarrow>
      \<exists>h c'. Cache_Insert ops k v chg d c = Some (h, c') \<and> cache_inv P c' (held(h := held h + 1)) \<and> Cache_Value ops h c' = Some v"
    and Release_ok: "cache_inv P c held \<Longrightarrow> held h > 0 \<Longrightarrow> \<exists>c'. Cache_Release ops h c = Some c' \<and> cache_inv P c' (held(h := held h - 1))"
begin

text \<open>Looking for a key and inserting it when it is missing yields a handle of a value that is right for the key, and
  releasing the handle gives back the state.\<close>

lemma find_or_insert:
  assumes "cache_inv P c (\<lambda>_. 0)" and "room c" and "P k v"
  obtains h c1 where "Cache_Lookup ops k c = Some (Some h, c1)" and "cache_inv P c1 ((\<lambda>_. 0)(h := 1))" and "\<exists>v. Cache_Value ops h c1 = Some v \<and> P k v"
  | h c1 c2 where "Cache_Lookup ops k c = Some (None, c1)" and "Cache_Insert ops k v chg d c1 = Some (h, c2)"
    and "cache_inv P c2 ((\<lambda>_. 0)(h := 1))" and "Cache_Value ops h c2 = Some v"
proof -
  obtain r c1 where r: "Cache_Lookup ops k c = Some (r, c1)"
    "case r of None \<Rightarrow> cache_inv P c1 (\<lambda>_. 0) \<and> (room c \<longrightarrow> room c1)
     | Some h \<Rightarrow> cache_inv P c1 ((\<lambda>_. 0)(h := 1)) \<and> (\<exists>v. Cache_Value ops h c1 = Some v \<and> P k v)"
    using Lookup_ok [OF assms(1), of k, unfolded add_0] by auto
  show thesis
  proof (cases r)
    case None
    then have "cache_inv P c1 (\<lambda>_. 0)" "room c1"
      using r(2) assms(2) by simp_all
    then obtain h c2 where "Cache_Insert ops k v chg d c1 = Some (h, c2)" "cache_inv P c2 ((\<lambda>_. 0)(h := 1))" "Cache_Value ops h c2 = Some v"
      using Insert_ok [of P c1 "\<lambda>_. 0" k v chg d, unfolded add_0] assms(3) by blast
    then show thesis
      using that(2) r(1) None by blast
  next
    case (Some h)
    then show thesis
      using that(1) r by simp
  qed
qed

end

section \<open>The sharded cache\<close>

text \<open>What \<open>malloc\<close> promises.\<close>

definition malloc_ok :: "(('v, 'd) ShardedLRUCache \<Rightarrow> nat) \<Rightarrow> bool" where
  "malloc_ok malloc \<longleftrightarrow>
     (\<forall>s. (\<forall>c \<in> set (shards s). finite (dom (handles c))) \<longrightarrow> malloc s \<noteq> 0 \<and> (\<forall>c \<in> set (shards s). handles c (malloc s) = None))"

definition shard_held :: "('v, 'd) LRUCache \<Rightarrow> (nat \<Rightarrow> nat) \<Rightarrow> nat \<Rightarrow> nat" where
  "shard_held c held = (\<lambda>x. if handles c x = None then 0 else held x)"

definition entry_ok :: "(bytes \<Rightarrow> 'v \<Rightarrow> bool) \<Rightarrow> nat \<Rightarrow> ('v, 'd) LRUHandle \<Rightarrow> bool" where
  "entry_ok P i h \<longleftrightarrow> P (h_key h) (h_value h) \<and> h_hash h = HashSlice (h_key h) \<and> Shard (h_hash h) = i"

definition shard_ok :: "(bytes \<Rightarrow> 'v \<Rightarrow> bool) \<Rightarrow> (nat \<Rightarrow> nat) \<Rightarrow> nat \<Rightarrow> ('v, 'd) LRUCache \<Rightarrow> bool" where
  "shard_ok P held i c \<longleftrightarrow>
     (\<exists>cap ins. lru_reach cap c (shard_held c held) ins) \<and> (\<forall>x h. handles c x = Some h \<longrightarrow> entry_ok P i h)"

definition sharded_inv :: "(('v, 'd) ShardedLRUCache \<Rightarrow> nat) \<Rightarrow> (bytes \<Rightarrow> 'v \<Rightarrow> bool) \<Rightarrow> ('v, 'd) ShardedLRUCache \<Rightarrow> (nat \<Rightarrow> nat) \<Rightarrow> bool" where
  "sharded_inv malloc P s held \<longleftrightarrow>
     malloc_ok malloc \<and> length (shards s) = kNumShards \<and> (\<forall>i < kNumShards. shard_ok P held i (shards s ! i)) \<and>
     (\<forall>x. held x > 0 \<longrightarrow> (\<exists>i < kNumShards. handles (shards s ! i) x \<noteq> None)) \<and>
     (\<forall>i < kNumShards. \<forall>j < kNumShards. \<forall>x. handles (shards s ! i) x \<noteq> None \<longrightarrow> handles (shards s ! j) x \<noteq> None \<longrightarrow> i = j)"

definition sharded_room :: "('v, 'd) ShardedLRUCache \<Rightarrow> bool" where
  "sharded_room s \<longleftrightarrow> (\<forall>c \<in> set (shards s). unat (ht_elems (lru_table c)) < 2 ^ 31)"

lemma sharded_invD:
  assumes "sharded_inv malloc P s held"
  shows "malloc_ok malloc" and "length (shards s) = kNumShards" and "i < kNumShards \<Longrightarrow> shard_ok P held i (shards s ! i)"
    and "held x > 0 \<Longrightarrow> \<exists>i < kNumShards. handles (shards s ! i) x \<noteq> None"
    and "i < kNumShards \<Longrightarrow> j < kNumShards \<Longrightarrow> handles (shards s ! i) x \<noteq> None \<Longrightarrow> handles (shards s ! j) x \<noteq> None \<Longrightarrow> i = j"
  using assms unfolding sharded_inv_def by blast+

lemma Shard_less: "Shard hash < kNumShards"
proof -
  have "unat hash < 2 ^ 32"
    using unat_bound32 [of hash] by simp
  then show ?thesis
    unfolding Shard_def kNumShards_def kNumShardBits_def unat_drop_bit by simp
qed

text \<open>Replacing a shard after an operation on it.\<close>

lemma sharded_update:
  assumes inv: "sharded_inv malloc P s held" and i: "i < kNumShards" and c': "shard_ok P held' i c'"
    and dom: "\<And>x. handles c' x \<noteq> None \<Longrightarrow> handles (shards s ! i) x \<noteq> None \<or> (\<forall>j < kNumShards. handles (shards s ! j) x = None)"
    and same: "\<And>x j. j < kNumShards \<Longrightarrow> j \<noteq> i \<Longrightarrow> handles (shards s ! j) x \<noteq> None \<Longrightarrow> held' x = held x"
    and held: "\<And>x. held' x > 0 \<Longrightarrow> handles c' x \<noteq> None \<or> (\<exists>j < kNumShards. j \<noteq> i \<and> handles (shards s ! j) x \<noteq> None)"
  shows "sharded_inv malloc P (s\<lparr>shards := (shards s)[i := c']\<rparr>) held'"
proof -
  note d = sharded_invD [OF inv]
  have nth: "(shards s)[i := c'] ! j = (if j = i then c' else shards s ! j)" if "j < kNumShards" for j
    using that d(2) by simp
  have "shard_ok P held' j ((shards s)[i := c'] ! j)" if j: "j < kNumShards" for j
  proof (cases "j = i")
    case False
    have "shard_held (shards s ! j) held' = shard_held (shards s ! j) held"
      using same [OF j False] by (auto simp: shard_held_def)
    then show ?thesis
      using d(3) [OF j] False by (simp add: nth [OF j] shard_ok_def)
  qed (use c' nth [OF j] in simp)
  moreover have "\<exists>j < kNumShards. handles ((shards s)[i := c'] ! j) x \<noteq> None" if "held' x > 0" for x
    using held [OF that] i nth by metis
  moreover have "j = k" if "j < kNumShards" "k < kNumShards" "handles ((shards s)[i := c'] ! j) x \<noteq> None" "handles ((shards s)[i := c'] ! k) x \<noteq> None" for j k x
    using that dom [of x] d(5) [of j k x] d(5) [of i k x] d(5) [of j i x] i by (auto simp: nth split: if_splits)
  ultimately show ?thesis
    using d(1,2) unfolding sharded_inv_def by simp
qed

lemma handle_at_shard:
  assumes inv: "sharded_inv malloc P s held" and i: "i < kNumShards" "handles (shards s ! i) e = Some h"
  shows "handle_at e s = Some h"
proof -
  note d = sharded_invD [OF inv]
  let ?cs = "filter (\<lambda>c. handles c e \<noteq> None) (shards s)"
  have "shards s ! i \<in> set ?cs"
    using i d(2) by simp
  then obtain c cs where c: "?cs = c # cs"
    by (metis list.set_cases)
  then have "c \<in> set ?cs"
    by simp
  then have "c \<in> set (shards s)" "handles c e \<noteq> None"
    by simp_all
  then obtain j where j: "j < kNumShards" "c = shards s ! j" "handles (shards s ! j) e \<noteq> None"
    using d(2) by (metis in_set_conv_nth)
  then have "j = i"
    using d(5) [OF j(1) i(1) j(3)] i(2) by simp
  then show ?thesis
    using c j(2) i(2) by (simp add: handle_at_def)
qed

section \<open>Operations on a shard\<close>

lemma on_shard_eq:
  "length (shards s) = kNumShards \<Longrightarrow>
   on_shard hash f s = map_option (\<lambda>(r, c). (r, s\<lparr>shards := (shards s)[Shard hash := c]\<rparr>)) (f (shards s ! Shard hash))"
  using Shard_less [of hash] by (simp add: on_shard_def Let_def)

lemma shard_reach:
  assumes "shard_ok P held i c"
  obtains cap ins a where "lru_reach cap c (shard_held c held) ins" and "client_inv cap c (shard_held c held) ins a" and "handles c = live a"
proof -
  obtain cap ins where r: "lru_reach cap c (shard_held c held) ins"
    using assms by (auto simp: shard_ok_def)
  obtain a where a: "client_inv cap c (shard_held c held) ins a"
    using reach_inv [OF r] by blast
  show thesis
    using that [OF r a] representsD(3) [OF client_invD(1) [OF a]] by blast
qed

lemma shard_finite: "shard_ok P held i c \<Longrightarrow> finite (dom (handles c))"
  by (erule shard_reach) (simp add: client_invD(6))

text \<open>A step of a shard that changes the number of handles held of one entry.\<close>

lemma sharded_step:
  assumes inv: "sharded_inv malloc P s held" and i: "i < kNumShards" and st: "lru_step (shards s ! i) (shard_held (shards s ! i) held) c' hs new"
    and hs: "hs = (shard_held (shards s ! i) held)(e := n)" and n: "n > 0 \<longrightarrow> handles c' e \<noteq> None"
    and e: "handles (shards s ! i) e \<noteq> None \<or> (\<forall>j < kNumShards. handles (shards s ! j) e = None)"
    and old: "\<And>x h'. x \<noteq> e \<or> handles (shards s ! i) e \<noteq> None \<Longrightarrow> handles c' x = Some h' \<Longrightarrow> \<exists>h. handles (shards s ! i) x = Some h \<and> h' = h\<lparr>h_refs := h_refs h'\<rparr>"
    and new: "\<And>h. handles (shards s ! i) e = None \<Longrightarrow> handles c' e = Some h \<Longrightarrow> entry_ok P i h"
  shows "sharded_inv malloc P (s\<lparr>shards := (shards s)[i := c']\<rparr>) (held(e := n))"
proof (rule sharded_update [OF inv i])
  note d = sharded_invD [OF inv]
  let ?c = "shards s ! i"
  obtain cap ins where r: "lru_reach cap ?c (shard_held ?c held) ins"
    by (rule shard_reach [OF d(3) [OF i]])
  have r': "lru_reach cap c' hs (ins @ new)"
    by (rule lru_reach.step [OF r st])
  obtain a' where a': "client_inv cap c' hs (ins @ new) a'"
    using reach_inv [OF r'] by blast
  have dead: "hs x = 0" if "handles c' x = None" for x
    using countedD(3) [OF client_invD(2) [OF a']] representsD(3) [OF client_invD(1) [OF a']] that by simp
  have live: "handles ?c x \<noteq> None" if "handles c' x \<noteq> None" "x \<noteq> e" for x
    using old [of x] that by auto
  have "hs x = shard_held c' (held(e := n)) x" for x
    using dead [of x] live [of x] by (auto simp: hs shard_held_def)
  then have "hs = shard_held c' (held(e := n))"
    by blast
  moreover have "entry_ok P i h'" if h': "handles c' x = Some h'" for x h'
  proof (cases "x = e \<and> handles ?c e = None")
    case False
    then obtain h where h: "handles ?c x = Some h" "h' = h\<lparr>h_refs := h_refs h'\<rparr>"
      using old [OF _ h'] by blast
    then have "entry_ok P i h"
      using d(3) [OF i] by (simp add: shard_ok_def)
    then show ?thesis
      by (subst h(2)) (auto simp: entry_ok_def)
  qed (use new h' in blast)
  ultimately show "shard_ok P (held(e := n)) i c'"
    using r' unfolding shard_ok_def by metis
  show "handles ?c x \<noteq> None \<or> (\<forall>j < kNumShards. handles (shards s ! j) x = None)" if "handles c' x \<noteq> None" for x
    using live [of x] e that by (cases "x = e") auto
  show "(held(e := n)) x = held x" if "j < kNumShards" "j \<noteq> i" "handles (shards s ! j) x \<noteq> None" for x j
    using d(5) [OF that(1) i that(3)] e that by auto
  show "handles c' x \<noteq> None \<or> (\<exists>j < kNumShards. j \<noteq> i \<and> handles (shards s ! j) x \<noteq> None)" if x: "(held(e := n)) x > 0" for x
  proof (cases "x = e")
    case False
    then have "held x > 0"
      using x by simp
    then obtain j where j: "j < kNumShards" "handles (shards s ! j) x \<noteq> None"
      using d(4) by blast
    have "hs x = held x" if "j = i"
      using j(2) that False by (auto simp: hs shard_held_def)
    then have "handles c' x \<noteq> None" if "j = i"
      using dead [of x] \<open>held x > 0\<close> that by auto
    then show ?thesis
      using j by blast
  qed (use x n in simp)
qed

lemma sharded_Release:
  assumes inv: "sharded_inv malloc P s held" and h: "held e > 0"
  shows "\<exists>s'. Sharded_Release e s = Some s' \<and> sharded_inv malloc P s' (held(e := held e - 1))"
proof -
  note d = sharded_invD [OF inv]
  obtain i x where i: "i < kNumShards" "handles (shards s ! i) e = Some x"
    using d(4) [OF h] by blast
  let ?c = "shards s ! i"
  obtain cap ins a where a: "client_inv cap ?c (shard_held ?c held) ins a" "handles ?c = live a"
    by (rule shard_reach [OF d(3) [OF i(1)]])
  note ci = client_invD [OF a(1)]
  have shard: "Shard (h_hash x) = i"
    using d(3) [OF i(1)] i(2) unfolding shard_ok_def entry_ok_def by blast
  have pos: "shard_held ?c held e > 0"
    using h i(2) by (simp add: shard_held_def)
  obtain y where y: "live a e = Some y" "e \<in> set (order a) \<longrightarrow> h_refs y \<noteq> 1"
    by (rule counted_held [OF ci(2) pos])
  obtain c' where c': "LRUCache_Release e ?c = Some c'" "represents c' (spec_unref e a)"
    by (rule shard_Release_represents [OF ci(1) y])
  have st: "lru_step ?c (shard_held ?c held) c' ((shard_held ?c held)(e := held e - 1)) []"
    using lru_step.Release [where held = "shard_held ?c held" and e = e, OF pos c'(1)] i(2) by (simp add: shard_held_def)
  have cnt: "counted (spec_unref e a) ((shard_held ?c held)(e := shard_held ?c held e - 1))"
    by (rule counted_unref [OF ci(2) pos])
  note r' = representsD [OF c'(2)]
  have "sharded_inv malloc P (s\<lparr>shards := (shards s)[i := c']\<rparr>) (held(e := held e - 1))"
  proof (rule sharded_step [OF inv i(1) st refl])
    show "held e - 1 > 0 \<longrightarrow> handles c' e \<noteq> None"
      using countedD(3) [OF cnt, of e] i(2) by (cases "live (spec_unref e a) e") (auto simp: r'(3) shard_held_def)
    show "\<exists>h. handles ?c y = Some h \<and> h' = h\<lparr>h_refs := h_refs h'\<rparr>" if "handles c' y = Some h'" for y h'
      using older_unref [of a e] that unfolding older_def r'(3) a(2) by blast
  qed (use i in simp_all)
  moreover have "Sharded_Release e s = Some (s\<lparr>shards := (shards s)[i := c']\<rparr>)"
    using handle_at_shard [OF inv i] c'(1) d(2) shard by (simp add: Sharded_Release_def on_shard_eq)
  ultimately show ?thesis
    by blast
qed

lemma sharded_Lookup:
  assumes inv: "sharded_inv malloc P s held" and few: "\<And>x. held x < 2 ^ 32 - 2"
  shows "\<exists>r s'. Sharded_Lookup k s = Some (r, s') \<and>
    (case r of None \<Rightarrow> sharded_inv malloc P s' held \<and> (sharded_room s \<longrightarrow> sharded_room s')
     | Some h \<Rightarrow> sharded_inv malloc P s' (held(h := held h + 1)) \<and> (\<exists>v. Sharded_Value h s' = Some v \<and> P k v))"
proof -
  note d = sharded_invD [OF inv]
  define i where "i = Shard (HashSlice k)"
  have i: "i < kNumShards"
    by (simp add: i_def Shard_less)
  let ?c = "shards s ! i"
  obtain cap ins a where a: "client_inv cap ?c (shard_held ?c held) ins a" "handles ?c = live a"
    by (rule shard_reach [OF d(3) [OF i]])
  note ci = client_invD [OF a(1)]
  have few': "\<forall>x. shard_held ?c held x < 2 ^ 32 - 2"
    using few by (simp add: shard_held_def)
  let ?a = "snd (spec_Lookup k (HashSlice k) a)"
  obtain c' where c': "LRUCache_Lookup k (HashSlice k) ?c = Some (fst (spec_Lookup k (HashSlice k) a), c')" "represents c' ?a"
    by (rule shard_Lookup_represents [OF ci(1), of k "HashSlice k"]) (use counted_refs_max [OF ci(2) few'] in auto)
  note r' = representsD [OF c'(2)]
  note st = lru_step.Lookup [OF few' c'(1)]
  have look: "Sharded_Lookup k s = Some (fst (spec_Lookup k (HashSlice k) a), s\<lparr>shards := (shards s)[i := c']\<rparr>)"
    using c'(1) d(2) by (simp add: Sharded_Lookup_def Let_def on_shard_eq i_def)
  show ?thesis
  proof (cases "spec_find k (HashSlice k) a")
    case None
    then have "c' = ?c"
      using c'(1) Table_Lookup_rel [OF representsD(2) [OF ci(1)], of k "HashSlice k"]
      by (simp add: LRUCache_Lookup_def spec_Lookup_def spec_find_def a(2))
    then have "s\<lparr>shards := (shards s)[i := c']\<rparr> = s"
      by simp
    then show ?thesis
      using look None inv by (simp add: spec_Lookup_def)
  next
    case (Some e)
    then have fst: "fst (spec_Lookup k (HashSlice k) a) = Some e"
      by (simp add: spec_Lookup_def)
    have m: "matches (live a) k (HashSlice k) e"
      using lookup_in_SomeD Some unfolding spec_find_def by metis
    then obtain h where h: "live a e = Some h" "h_key h = k"
      by (auto simp: matches_def)
    have live': "handles c' e = Some (h\<lparr>h_refs := h_refs h + 1\<rparr>)"
      using Some h by (simp add: r'(3) spec_Lookup_def)
    have st': "lru_step ?c (shard_held ?c held) c' ((shard_held ?c held)(e := held e + 1)) []"
      using st h(1) unfolding fst by (simp add: shard_held_def a(2))
    have inv': "sharded_inv malloc P (s\<lparr>shards := (shards s)[i := c']\<rparr>) (held(e := held e + 1))"
    proof (rule sharded_step [OF inv i st' refl])
      show "\<exists>h. handles ?c y = Some h \<and> h' = h\<lparr>h_refs := h_refs h'\<rparr>" if "handles c' y = Some h'" for y h'
        using older_Lookup [of a k "HashSlice k"] that unfolding older_def r'(3) a(2) by blast
    qed (use live' h(1) in \<open>simp_all add: a(2)\<close>)
    have "handle_at e (s\<lparr>shards := (shards s)[i := c']\<rparr>) = Some (h\<lparr>h_refs := h_refs h + 1\<rparr>)"
      by (rule handle_at_shard [OF inv' i]) (use live' i d(2) in simp)
    then have "Sharded_Value e (s\<lparr>shards := (shards s)[i := c']\<rparr>) = Some (h_value h)"
      by (simp add: Sharded_Value_def)
    moreover have "P k (h_value h)"
      using d(3) [OF i] h by (auto simp: shard_ok_def entry_ok_def a(2))
    ultimately show ?thesis
      using look inv' by (simp add: fst)
  qed
qed

lemma sharded_Insert:
  assumes inv: "sharded_inv malloc P s held" and room: "sharded_room s" and P: "P k v"
  shows "\<exists>h s'. Sharded_Insert (malloc s) k v chg del s = Some (h, s') \<and> sharded_inv malloc P s' (held(h := held h + 1)) \<and> Sharded_Value h s' = Some v"
proof -
  note d = sharded_invD [OF inv]
  define i where "i = Shard (HashSlice k)"
  have i: "i < kNumShards"
    by (simp add: i_def Shard_less)
  let ?c = "shards s ! i" and ?e = "malloc s" and ?chg = "word_of_nat chg :: u64"
  obtain cap ins a where r: "lru_reach cap ?c (shard_held ?c held) ins" "client_inv cap ?c (shard_held ?c held) ins a" "handles ?c = live a"
    by (rule shard_reach [OF d(3) [OF i]])
  note ci = client_invD [OF r(2)]
  have "finite (dom (handles c))" if "c \<in> set (shards s)" for c
    using that d(2,3) shard_finite by (metis in_set_conv_nth)
  then have e: "?e \<noteq> 0" "\<forall>j < kNumShards. handles (shards s ! j) ?e = None"
    using d(1,2) by (simp_all add: malloc_ok_def)
  have room': "unat (ht_elems (lru_table ?c)) < 2 ^ 31"
    using room i d(2) by (simp add: sharded_room_def)
  have e'': "handles ?c ?e = None"
    using e(2) i by blast
  then have e': "live a ?e = None" "length (order a) < 2 ^ 31"
    using room' elems_order [OF ci(1,4)] unfolding r(3) by simp_all
  let ?a = "spec_Insert cap ?e k (HashSlice k) v ?chg del a"
  obtain c' where c': "LRUCache_Insert ?e k (HashSlice k) v ?chg del ?c = Some (?e, c')" "represents c' ?a"
    using shard_Insert_represents [OF ci(1) e'(1) e(1) e'(2)] ci(3) by metis
  note r' = representsD [OF c'(2)]
  have h0: "held ?e = 0"
    using d(4) [of ?e] e(2) by (metis gr_zeroI)
  have st: "lru_step ?c (shard_held ?c held) c' ((shard_held ?c held)(?e := held ?e + 1)) [(del, k, v)]"
    using lru_step.Insert [OF e(1) e'' room' c'(1), of "shard_held ?c held"] e'' h0 by (simp add: shard_held_def)
  have cnt: "counted ?a ((shard_held ?c held)(?e := shard_held ?c held ?e + 1))"
    by (rule counted_Insert [OF ci(2) e'(1)])
  obtain h where h: "live ?a ?e = Some h"
    by (rule counted_held [OF cnt, of ?e]) simp
  have hk: "h = (new_handle k (HashSlice k) v ?chg del)\<lparr>h_refs := h_refs h\<rparr>"
    using olderD [OF older_Insert _ h] by simp
  have inv': "sharded_inv malloc P (s\<lparr>shards := (shards s)[i := c']\<rparr>) (held(?e := held ?e + 1))"
  proof (rule sharded_step [OF inv i st refl])
    show "\<exists>h. handles ?c x = Some h \<and> h' = h\<lparr>h_refs := h_refs h'\<rparr>"
      if "x \<noteq> ?e \<or> handles ?c ?e \<noteq> None" "handles c' x = Some h'" for x h'
    proof -
      have "x \<noteq> ?e"
        using that(1) e'' by blast
      then show ?thesis
        using older_Insert [of a ?e k "HashSlice k" v ?chg del cap] that(2) unfolding older_def r'(3) r(3) by fastforce
    qed
    show "entry_ok P i h'" if "handles c' ?e = Some h'" for h'
    proof -
      have "h' = h"
        using that h by (simp add: r'(3))
      then show ?thesis
        using P by (subst \<open>h' = h\<close>, subst hk) (simp add: entry_ok_def new_handle_def i_def)
    qed
  qed (use e(2) h in \<open>simp_all add: r'(3)\<close>)
  have "handle_at ?e (s\<lparr>shards := (shards s)[i := c']\<rparr>) = Some h"
    by (rule handle_at_shard [OF inv' i]) (use h i d(2) in \<open>simp add: r'(3)\<close>)
  moreover have "h_value h = v"
    by (subst hk) (simp add: new_handle_def)
  moreover have "Sharded_Insert ?e k v chg del s = Some (?e, s\<lparr>shards := (shards s)[i := c']\<rparr>)"
    using c'(1) d(2) by (simp add: Sharded_Insert_def Let_def on_shard_eq i_def)
  ultimately show ?thesis
    using inv' by (auto simp: Sharded_Value_def)
qed

lemma ShardedLRUCache_ops_simps:
  "Cache_Insert (ShardedLRUCache_ops malloc) k v chg del s = Sharded_Insert (malloc s) k v chg del s"
  "Cache_Lookup (ShardedLRUCache_ops malloc) = Sharded_Lookup" "Cache_Release (ShardedLRUCache_ops malloc) = Sharded_Release"
  "Cache_Value (ShardedLRUCache_ops malloc) = Sharded_Value"
  by (simp_all add: ShardedLRUCache_ops_def)

interpretation sharded: shared_cache "ShardedLRUCache_ops malloc" "sharded_inv malloc" sharded_room
  for malloc :: "('v, 'd) ShardedLRUCache \<Rightarrow> nat"
  unfolding shared_cache_def ShardedLRUCache_ops_simps
  by (intro conjI allI impI; rule sharded_Lookup sharded_Insert sharded_Release; blast)

text \<open>A new cache satisfies the contract, and there is room.\<close>

lemma NewLRUCache_ok:
  fixes malloc :: "('v, 'd) ShardedLRUCache \<Rightarrow> nat"
  assumes "malloc_ok malloc"
  shows "\<exists>s. NewLRUCache cap = Some s \<and> sharded_inv malloc P s (\<lambda>_. 0) \<and> sharded_room s"
proof -
  define m where "m = (cap + word_of_nat (kNumShards - 1)) div word_of_nat kNumShards"
  obtain c :: "('v, 'd) LRUCache" where c: "LRUCache_new = Some c" "represents (SetCapacity m c) spec_new"
    by (rule shard_new_represents)
  let ?c = "SetCapacity m c"
  let ?s = "\<lparr>shards = replicate kNumShards ?c, last_id = 0\<rparr> :: ('v, 'd) ShardedLRUCache"
  have h: "handles ?c = Map.empty"
    using representsD(3) [OF c(2)] by (simp add: spec_new_def)
  have "shard_held ?c (\<lambda>_. 0) = (\<lambda>_. 0)"
    by (auto simp: shard_held_def)
  then have "shard_ok P (\<lambda>_. 0) i ?c" for i
    using lru_reach.new [OF c(1), of m] h unfolding shard_ok_def by auto
  then have "sharded_inv malloc P ?s (\<lambda>_. 0)"
    using assms h by (simp add: sharded_inv_def)
  moreover have "sharded_room ?s"
    using elems_order [OF c(2)] by (simp add: sharded_room_def spec_new_def)
  moreover have "NewLRUCache cap = Some ?s"
    unfolding NewLRUCache_def c(1) by (simp add: m_def)
  ultimately show ?thesis
    by blast
qed

text \<open>An allocator that uses the first free address.\<close>

definition first_free :: "('v, 'd) ShardedLRUCache \<Rightarrow> nat" where
  "first_free s = (LEAST e. e \<noteq> 0 \<and> (\<forall>c \<in> set (shards s). handles c e = None))"

lemma first_free_ok: "malloc_ok first_free"
  unfolding malloc_ok_def
proof (intro allI impI)
  fix s :: "('v, 'd) ShardedLRUCache"
  let ?free = "\<lambda>e. e \<noteq> 0 \<and> (\<forall>c \<in> set (shards s). handles c e = None)"
  assume "\<forall>c \<in> set (shards s). finite (dom (handles c))"
  then have "finite (insert 0 (\<Union>c \<in> set (shards s). dom (handles c)))"
    by simp
  from ex_new_if_finite [OF infinite_UNIV_nat this] have "\<exists>e. ?free e"
    by auto
  then have "?free (LEAST e. ?free e)"
    by (rule LeastI_ex)
  then show "first_free s \<noteq> 0 \<and> (\<forall>c \<in> set (shards s). handles c (first_free s) = None)"
    unfolding first_free_def .
qed

end
