(* ===== verification/Table.thy ===== *)
theory Table
  imports Table_Builder Two_Level Cache
begin

text \<open>
  Reading table files (\<^verbatim>\<open>include/leveldb/table.h\<close>, \<^verbatim>\<open>table/table.cpp\<close>), and the round trip with the
  builder.

  A file is given by its \<open>Read\<close>.  A block iterator is an \<open>Iter\<close> of the block or an iterator that
  is empty, given by its status.  \<^const>\<open>None\<close> stands for a failed assertion, an access outside a
  buffer, or a call that does not return.
\<close>

section \<open>Block iterators\<close>

text \<open>The virtual calls on the result of \<open>Block::NewIterator\<close>.\<close>

definition BlockIterators :: "(bytes \<Rightarrow> bytes \<Rightarrow> int) \<Rightarrow> (Status + BlockIter) Iterator" where
  "BlockIterators cmp =
     (let e = EmptyIterator; b = BlockIterator cmp in
      \<lparr>it_Valid = case_sum (it_Valid e) (it_Valid b),
       it_SeekToFirst = case_sum (map_option Inl \<circ> it_SeekToFirst e) (map_option Inr \<circ> it_SeekToFirst b),
       it_SeekToLast = case_sum (map_option Inl \<circ> it_SeekToLast e) (map_option Inr \<circ> it_SeekToLast b),
       it_Seek = (\<lambda>k. case_sum (map_option Inl \<circ> it_Seek e k) (map_option Inr \<circ> it_Seek b k)),
       it_Next = case_sum (map_option Inl \<circ> it_Next e) (map_option Inr \<circ> it_Next b),
       it_Prev = case_sum (map_option Inl \<circ> it_Prev e) (map_option Inr \<circ> it_Prev b),
       it_key = case_sum (it_key e) (it_key b), it_value = case_sum (it_value e) (it_value b),
       it_status = case_sum (it_status e) (it_status b)\<rparr>)"

section \<open>Opening a table\<close>

record ReadOptions =
  verify_checksums :: bool
  fill_cache :: bool

definition ReadOptions_new :: ReadOptions where
  "ReadOptions_new = \<lparr>verify_checksums = False, fill_cache = True\<rparr>"

text \<open>\<open>filter_data\<close> is freed with the table.  \<open>cache_id\<close> is what \<open>block_cache->NewId()\<close> gave, or 0.\<close>

record Table =
  t_options :: Options
  t_file :: read_at
  cache_id :: u64
  t_filter :: "FilterBlockReader option"
  filter_data :: "bytes option"
  t_metaindex_handle :: BlockHandle
  t_index_block :: Block

definition ReadFilter :: "snappy \<Rightarrow> (nat \<Rightarrow> bytes) \<Rightarrow> bytes \<Rightarrow> Table \<Rightarrow> Table option" where
  "ReadFilter lib garbage filter_handle_value t =
     (let (s, filter_handle, v) = BlockHandle_DecodeFrom BlockHandle_new filter_handle_value in
      if \<not> ok s then Some t
      else
        (case ReadBlock lib garbage (t_file t) (paranoid_checks (t_options t)) filter_handle of
           None \<Rightarrow> None
         | Some (s, block) \<Rightarrow>
             if \<not> ok s then Some t
             else
               let t = (if heap_allocated block then t\<lparr>filter_data := Some (bc_data block)\<rparr> else t)
               in Some (t\<lparr>t_filter := Some (FilterBlockReader_new (bc_data block))\<rparr>)))"

definition ReadMeta :: "snappy \<Rightarrow> (nat \<Rightarrow> bytes) \<Rightarrow> Footer \<Rightarrow> Table \<Rightarrow> Table option" where
  "ReadMeta lib garbage footer t =
     (case filter_policy (t_options t) of
        None \<Rightarrow> Some t
      | Some policy \<Rightarrow>
          (case ReadBlock lib garbage (t_file t) (paranoid_checks (t_options t)) (metaindex_handle footer) of
             None \<Rightarrow> None
           | Some (s, contents) \<Rightarrow>
               if \<not> ok s then Some t
               else
                 let ops = BlockIterators Bytewise_Compare; k = str ''filter.'' @ policy_Name policy in
                 Option.bind (Block_new contents) (\<lambda>meta.
                 Option.bind (Block_NewIterator meta) (\<lambda>iter.
                 Option.bind (it_Seek ops k iter) (\<lambda>iter.
                   if it_Valid ops iter then
                     Option.bind (it_key ops iter) (\<lambda>key.
                       if Slice_eq key k then Option.bind (it_value ops iter) (\<lambda>v. ReadFilter lib garbage v t)
                       else Some t)
                   else Some t)))))"

definition Table_Open ::
  "snappy \<Rightarrow> (nat \<Rightarrow> bytes) \<Rightarrow> u64 \<Rightarrow> Options \<Rightarrow> read_at \<Rightarrow> u64 \<Rightarrow> (Status \<times> Table option) option" where
  "Table_Open lib garbage new_id options f sz =
     (if sz < word_of_nat kEncodedLength then
        Some (Corruption (str ''file is too short to be an sstable'') [], None)
      else
        (case f (sz - word_of_nat kEncodedLength) (word_of_nat kEncodedLength) of
           None \<Rightarrow> None
         | Some (s, footer_input, _) \<Rightarrow>
             if \<not> ok s then Some (s, None)
             else
               (case Footer_DecodeFrom \<lparr>metaindex_handle = BlockHandle_new, index_handle = BlockHandle_new\<rparr> footer_input of
                  None \<Rightarrow> None
                | Some (s, footer, _) \<Rightarrow>
                    if \<not> ok s then Some (s, None)
                    else
                      (case ReadBlock lib garbage f (paranoid_checks options) (index_handle footer) of
                         None \<Rightarrow> None
                       | Some (s, contents) \<Rightarrow>
                           if \<not> ok s then Some (s, None)
                           else
                             Option.bind (Block_new contents) (\<lambda>index_block.
                               map_option (\<lambda>t. (s, Some t))
                                 (ReadMeta lib garbage footer
                                    \<lparr>t_options = options, t_file = f, cache_id = new_id, t_filter = None, filter_data = None,
                                     t_metaindex_handle = metaindex_handle footer, t_index_block = index_block\<rparr>))))))"

section \<open>Reading data blocks\<close>

text \<open>The cleanup functions registered with a block iterator: they delete the block or release
  the handle of the cache.\<close>

datatype 'h block_cleanup = DeleteBlock Block | ReleaseBlock 'h

text \<open>The block cache is \<^const>\<open>None\<close> when \<open>options.block_cache\<close> is \<open>NULL\<close>, and its state otherwise.  Entries are inserted
  with the deleter \<open>DeleteCacheBlock\<close>, here \<open>()\<close>.\<close>

definition block_cache_key :: "u64 \<Rightarrow> u64 \<Rightarrow> bytes" where
  "block_cache_key cid off = EncodeFixed64 cid @ EncodeFixed64 off"

definition read_new_block ::
  "snappy \<Rightarrow> (nat \<Rightarrow> bytes) \<Rightarrow> Table \<Rightarrow> ReadOptions \<Rightarrow> BlockHandle \<Rightarrow> (Status \<times> BlockContents \<times> Block option) option" where
  "read_new_block lib garbage t options handle =
     (case ReadBlock lib garbage (t_file t) (verify_checksums options) handle of
        None \<Rightarrow> None
      | Some (s, contents) \<Rightarrow>
          if ok s then map_option (\<lambda>b. (s, contents, Some b)) (Block_new contents) else Some (s, contents, None))"

definition BlockReader_block ::
  "snappy \<Rightarrow> (nat \<Rightarrow> bytes) \<Rightarrow> (Block, unit, 'h, 'c) Cache \<Rightarrow> Table \<Rightarrow> ReadOptions \<Rightarrow> BlockHandle \<Rightarrow> 'c option \<Rightarrow>
     (Status \<times> Block option \<times> 'h option \<times> 'c option) option" where
  "BlockReader_block lib garbage cops t options handle block_cache =
     (case block_cache of
        Some cache \<Rightarrow>
          let k = block_cache_key (cache_id t) (bh_offset handle) in
          Option.bind (Cache_Lookup cops k cache) (\<lambda>(cache_handle, cache).
            case cache_handle of
              Some h \<Rightarrow> map_option (\<lambda>b. (OK, Some b, Some h, Some cache)) (Cache_Value cops h cache)
            | None \<Rightarrow>
                Option.bind (read_new_block lib garbage t options handle) (\<lambda>(s, contents, block).
                  case block of
                    Some b \<Rightarrow>
                      if cacheable contents \<and> fill_cache options
                      then map_option (\<lambda>(h, cache). (s, block, Some h, Some cache)) (Cache_Insert cops k b (b_size b) () cache)
                      else Some (s, block, None, Some cache)
                  | None \<Rightarrow> Some (s, None, None, Some cache)))
      | None \<Rightarrow>
          map_option (\<lambda>(s, contents, block). (s, block, None, None)) (read_new_block lib garbage t options handle))"

definition BlockReader ::
  "snappy \<Rightarrow> (nat \<Rightarrow> bytes) \<Rightarrow> (Block, unit, 'h, 'c) Cache \<Rightarrow> Table \<Rightarrow> ReadOptions \<Rightarrow> bytes \<Rightarrow> 'c option \<Rightarrow>
     ((Status + BlockIter) \<times> 'h block_cleanup list \<times> 'c option) option" where
  "BlockReader lib garbage cops t options index_value block_cache =
     (let (s, handle, _) = BlockHandle_DecodeFrom BlockHandle_new index_value in
      Option.bind
        (if ok s then BlockReader_block lib garbage cops t options handle block_cache else Some (s, None, None, block_cache))
        (\<lambda>(s, block, cache_handle, block_cache).
           case block of
             Some b \<Rightarrow>
               map_option (\<lambda>iter. (iter, [case cache_handle of None \<Rightarrow> DeleteBlock b | Some h \<Rightarrow> ReleaseBlock h], block_cache))
                 (Block_NewIterator b)
           | None \<Rightarrow> Some (Inl (NewErrorIterator s), [], block_cache)))"

text \<open>The block function of a table without a block cache; a call through the null pointer never happens.\<close>

definition null_cache :: "(Block, unit, unit, unit) Cache" where
  "null_cache = \<lparr>Cache_Insert = (\<lambda>_ _ _ _ _. None), Cache_Lookup = (\<lambda>_ _. None), Cache_Release = (\<lambda>_ _. None),
     Cache_Value = (\<lambda>_ _. None), Cache_Erase = (\<lambda>_ _. None), Cache_NewId = (\<lambda>c. (0, c))\<rparr>"

definition block_function :: "snappy \<Rightarrow> (nat \<Rightarrow> bytes) \<Rightarrow> Table \<Rightarrow> ReadOptions \<Rightarrow> bytes \<Rightarrow> (Status + BlockIter) option" where
  "block_function lib garbage t options index_value =
     map_option fst (BlockReader lib garbage null_cache t options index_value None)"

section \<open>Operations\<close>

definition Table_ops :: "snappy \<Rightarrow> (nat \<Rightarrow> bytes) \<Rightarrow> Table \<Rightarrow> ReadOptions \<Rightarrow> (Status + BlockIter, Status + BlockIter) TwoLevel Iterator" where
  "Table_ops lib garbage t options =
     (let ops = BlockIterators (Compare (opt_comparator (t_options t)))
      in TwoLevelIterator ops ops (block_function lib garbage t options))"

definition Table_NewIterator :: "Table \<Rightarrow> (Status + BlockIter, Status + BlockIter) TwoLevel option" where
  "Table_NewIterator t =
     Option.bind (Block_NewIterator (t_index_block t))
       (NewTwoLevelIterator (BlockIterators (Compare (opt_comparator (t_options t)))))"

text \<open>The index iterator at the first entry whose key is not below \<open>k\<close>.\<close>

definition index_seek :: "Table \<Rightarrow> bytes \<Rightarrow> (Status + BlockIter) option" where
  "index_seek t k =
     Option.bind (Block_NewIterator (t_index_block t)) (it_Seek (BlockIterators (Compare (opt_comparator (t_options t)))) k)"

text \<open>\<open>InternalGet\<close>: the status, the pair passed to \<open>saver\<close> if it is called, and the block cache.  The filter hides the
  block only when its answer is no; the cleanup functions of the block iterator run at the end.\<close>

definition run_block_cleanup :: "('v, 'd, 'h, 'c) Cache \<Rightarrow> 'h block_cleanup \<Rightarrow> 'c option \<Rightarrow> 'c option option" where
  "run_block_cleanup cops f block_cache =
     (case f of
        DeleteBlock _ \<Rightarrow> Some block_cache
      | ReleaseBlock h \<Rightarrow> (case block_cache of None \<Rightarrow> None | Some c \<Rightarrow> map_option Some (Cache_Release cops h c)))"

definition filter_hides :: "Table \<Rightarrow> bytes \<Rightarrow> bytes \<Rightarrow> bool option" where
  "filter_hides t handle_value k =
     (case (t_filter t, filter_policy (t_options t)) of
        (Some flt, Some policy) \<Rightarrow>
          (let (s, handle, _) = BlockHandle_DecodeFrom BlockHandle_new handle_value in
           if ok s then map_option Not (FilterBlock_KeyMayMatch (policy_KeyMayMatch policy) flt (bh_offset handle) k)
           else Some False)
      | _ \<Rightarrow> Some False)"

definition InternalGet ::
  "snappy \<Rightarrow> (nat \<Rightarrow> bytes) \<Rightarrow> (Block, unit, 'h, 'c) Cache \<Rightarrow> Table \<Rightarrow> ReadOptions \<Rightarrow> bytes \<Rightarrow> 'c option \<Rightarrow>
     (Status \<times> (bytes \<times> bytes) option \<times> 'c option) option" where
  "InternalGet lib garbage cops t options k block_cache =
     (let ops = BlockIterators (Compare (opt_comparator (t_options t))) in
      Option.bind (index_seek t k) (\<lambda>iiter.
        map_option (\<lambda>(s, saved, block_cache). (if ok s then it_status ops iiter else s, saved, block_cache))
          (if it_Valid ops iiter then
             Option.bind (it_value ops iiter) (\<lambda>handle_value.
             Option.bind (filter_hides t handle_value k) (\<lambda>hides.
               if hides then Some (OK, None, block_cache)
               else
                 Option.bind (BlockReader lib garbage cops t options handle_value block_cache) (\<lambda>(block_iter, cleanup, block_cache).
                 Option.bind (it_Seek ops k block_iter) (\<lambda>block_iter.
                 Option.bind
                   (if it_Valid ops block_iter
                    then (case (it_key ops block_iter, it_value ops block_iter) of (Some k, Some v) \<Rightarrow> Some (Some (k, v)) | _ \<Rightarrow> None)
                    else Some None) (\<lambda>saved.
                 map_option (\<lambda>block_cache. (it_status ops block_iter, saved, block_cache))
                   (fold (\<lambda>f c. Option.bind c (run_block_cleanup cops f)) cleanup (Some block_cache)))))))
           else Some (OK, None, block_cache))))"

definition ApproximateOffsetOf :: "Table \<Rightarrow> bytes \<Rightarrow> u64 option" where
  "ApproximateOffsetOf t k =
     (let ops = BlockIterators (Compare (opt_comparator (t_options t))) in
      Option.bind (index_seek t k) (\<lambda>index_iter.
        if it_Valid ops index_iter then
          Option.bind (it_value ops index_iter) (\<lambda>input.
            case BlockHandle_DecodeFrom BlockHandle_new input of
              (s, handle, _) \<Rightarrow> Some (if ok s then bh_offset handle else bh_offset (t_metaindex_handle t)))
        else Some (bh_offset (t_metaindex_handle t))))"

section \<open>Reading what the builder wrote\<close>

text \<open>Reads inside the contents \<open>c\<close> succeed.\<close>

definition reads_ok :: "read_at \<Rightarrow> bytes \<Rightarrow> bool" where
  "reads_ok read c \<longleftrightarrow> (\<forall>off n. unat off + unat n \<le> length c \<longrightarrow>
     (\<exists>scratch. read off n = Some (OK, take (unat n) (drop (unat off) c), scratch)))"

lemma ReadBlock_stored:
  assumes stored: "stored_at c h raw" and read: "reads_ok read c" and small: "length c < 2 ^ 31"
  shows "\<exists>scratch. ReadBlock lib garbage read verify h = Some (OK, \<lparr>bc_data = raw, cacheable = scratch, heap_allocated = scratch\<rparr>)"
proof -
  obtain pre post where c: "c = pre @ raw @ trailer raw @ post" "length pre = unat (bh_offset h)" "length raw = unat (bh_size h)"
    using stored by (auto simp: stored_at_def)
  let ?n = "bh_size h + word_of_nat kBlockTrailerSize" and ?d = "raw @ trailer raw"
  have "unat (bh_size h) + unat (5 :: u64) < 2 ^ 64"
    using c small by simp
  then have n: "unat ?n = unat (bh_size h) + 5"
    by (simp add: kBlockTrailerSize_def unat_word_ariths)
  then have d: "take (unat ?n) (drop (unat (bh_offset h)) c) = ?d"
    using c by simp
  have "unat (bh_offset h) + unat ?n \<le> length c"
    using n c(1) unfolding c(2,3) [symmetric] by simp
  then obtain scratch where r: "read (bh_offset h) ?n = Some (OK, ?d, scratch)"
    using read d unfolding reads_ok_def by metis
  have "length ?d = unat ?n"
    using n c(3) by simp
  then have len: "word_of_nat (length ?d) = ?n"
    by (simp del: length_append)
  have crc: "DecodeFixed32 (drop (unat (bh_size h) + 1) ?d) = Some (Mask (Extend (Value raw) [kNoCompression]))"
    unfolding c(3) [symmetric] by (simp add: trailer_def)
  have "take (unat (bh_size h) + 1) ?d = raw @ [kNoCompression]" "take (unat (bh_size h)) ?d = raw" "?d ! unat (bh_size h) = kNoCompression"
    unfolding c(3) [symmetric] by (simp_all add: trailer_def nth_append)
  then show ?thesis
    using r len crc c(3) by (cases verify) (simp_all add: ReadBlock_def Let_def Value_append)
qed

definition blocks_at ::
  "(bytes \<Rightarrow> bytes \<Rightarrow> int) \<Rightarrow> (bytes \<Rightarrow> bool) \<Rightarrow> Status + BlockIter \<Rightarrow> (bytes \<times> bytes) list \<Rightarrow> nat \<Rightarrow> bool" where
  "blocks_at cmp valid s kvs i \<longleftrightarrow> (\<exists>it. s = Inr it \<and> block_at cmp valid it kvs i)"

context bytes_order
begin

lemma blocks_iterator: "iterator cmp valid (BlockIterators cmp) (blocks_at cmp valid)"
  by (rule iterator.intro [OF key_order_axioms], unfold_locales)
    (auto simp: BlockIterators_def Let_def blocks_at_def block.Valid_at block.status_at
      dest: block.at_sorted block.at_le block.key_at block.value_at block.SeekToFirst_at block.SeekToLast_at block.Seek_at block.Next_at block.Prev_at)

lemma block_opened:
  assumes "block_stored c kvs h" and "sorted_keys cmp valid kvs" and "block_bound kvs < 2 ^ 31"
    and "reads_ok read c" and "length c < 2 ^ 31"
  obtains contents b it where "ReadBlock lib garbage read verify h = Some (OK, contents)" and "Block_new contents = Some b"
    and "Block_NewIterator b = Some it" and "blocks_at cmp valid it kvs (length kvs)"
proof -
  obtain es rs where es: "entries_ok es rs" "map e_pair es = kvs" "stored_at c h (block_bytes es rs)"
    using assms(1) by (auto simp: block_stored_def)
  obtain scratch where r: "ReadBlock lib garbage read verify h =
      Some (OK, \<lparr>bc_data = block_bytes es rs, cacheable = scratch, heap_allocated = scratch\<rparr>)"
    using ReadBlock_stored [OF es(3) assms(4,5)] by blast
  obtain b it where b: "Block_new \<lparr>bc_data = block_bytes es rs, cacheable = scratch, heap_allocated = scratch\<rparr> = Some b"
    "Block_NewIterator b = Some (Inr it)" "block_wf it es rs" "bi_current it = bi_restarts it"
    by (rule Block_new_builder [OF es(1)]) (use assms(3) es(2) in auto)
  have "block_at cmp valid it (map e_pair es) (length es)"
    by (rule block_atI [of _ _ _ _ _ rs]) (use assms(2) es(2) b in \<open>auto simp: at_end_def\<close>)
  then show ?thesis
    using that [OF r b(1,2)] es(2) by (auto simp: blocks_at_def)
qed

lemma blocks_two_level:
  "two_level cmp valid (BlockIterators cmp) (blocks_at cmp valid) (BlockIterators cmp) (blocks_at cmp valid)"
  by (rule two_level.intro [OF blocks_iterator blocks_iterator])

lemma index_entriesD:
  assumes "index_entries cmp valid idx dones cur" and "i < length idx"
  shows "valid (fst (idx ! i))" and "i = j \<Longrightarrow> kv \<in> set (fst (dones ! j)) \<Longrightarrow> cmp (fst kv) (fst (idx ! i)) \<le> 0"
    and "i < j \<Longrightarrow> j < length dones \<Longrightarrow> kv \<in> set (fst (dones ! j)) \<Longrightarrow> cmp (fst (idx ! i)) (fst kv) < 0"
proof -
  show "valid (fst (idx ! i))" "i = j \<Longrightarrow> kv \<in> set (fst (dones ! j)) \<Longrightarrow> cmp (fst kv) (fst (idx ! i)) \<le> 0"
    using assms by (auto simp: index_entries_def list_all_iff)
  assume j: "i < j" "j < length dones" and kv: "kv \<in> set (fst (dones ! j))"
  then have "dones ! j \<in> set (drop (Suc i) dones)"
    by (auto simp: in_set_conv_nth intro!: exI [of _ "j - Suc i"])
  moreover have "list_all (\<lambda>kv. cmp (fst (idx ! i)) (fst kv) < 0) (concat (map fst (drop (Suc i) dones)))"
    using assms by (simp add: index_entries_def)
  ultimately show "cmp (fst (idx ! i)) (fst kv) < 0"
    using kv by (auto simp: list_all_iff)
qed

lemma index_sorted:
  assumes ie: "index_entries cmp valid idx dones []" and len: "length idx = length dones"
    and ne: "list_all (\<lambda>(kvs, h). kvs \<noteq> []) dones" and sorted: "sorted_keys cmp valid (concat (map fst dones))"
  shows "sorted_keys cmp valid idx"
proof -
  note v = index_entriesD(1) [OF ie]
  have "cmp (fst (idx ! i)) (fst (idx ! j)) < 0" if ij: "i < j" "j < length idx" for i j
  proof -
    have "fst (dones ! j) \<noteq> []"
      using ne ij(2) len by (auto simp: list_all_length case_prod_unfold)
    then obtain kv where kv: "kv \<in> set (fst (dones ! j))"
      by (meson last_in_set)
    have "cmp (fst (idx ! i)) (fst kv) < 0" "cmp (fst kv) (fst (idx ! j)) \<le> 0"
      using index_entriesD(3) [OF ie, of i j] index_entriesD(2) [OF ie, of j j] ij kv len by simp_all
    moreover have "valid (fst kv)"
      using sorted kv ij(2) len nth_mem [of j dones] by (auto simp: sorted_keys_def list_all_iff)
    moreover note v [of i] v [of j]
    ultimately show ?thesis
      using cmp_less_le_trans [of "fst (idx ! i)" "fst kv" "fst (idx ! j)"] ij by simp
  qed
  then show ?thesis
    using v by (simp add: sorted_keys_def sorted_wrt_iff_nth_less list_all_length)
qed

text \<open>What \<open>InternalGet\<close> looks at: in the block that the index gives for \<open>k\<close>, the first entry not
  below \<open>k\<close>.\<close>

definition table_get :: "(bytes \<times> bytes) list \<Rightarrow> (bytes \<times> bytes) list list \<Rightarrow> bytes \<Rightarrow> (bytes \<times> bytes) option" where
  "table_get idx blocks k =
     (let j = seek_pos cmp k idx; p = seek_pos cmp k (blocks ! j)
      in if j < length blocks \<and> p < length (blocks ! j) then Some (blocks ! j ! p) else None)"

text \<open>A table that has been opened: the index of its blocks, and where they are.\<close>

definition open_table :: "Options \<Rightarrow> read_at \<Rightarrow> Table \<Rightarrow> bytes \<Rightarrow> (bytes \<times> bytes) list \<Rightarrow> ((bytes \<times> bytes) list \<times> BlockHandle) list \<Rightarrow> bool" where
  "open_table opts read t c idx dones \<longleftrightarrow>
     t_options t = opts \<and> t_file t = read \<and> t_filter t = None \<and> reads_ok read c \<and> length c < 2 ^ 31 \<and>
     sorted_keys cmp valid (concat (map fst dones)) \<and>
     list_all (\<lambda>(kvs, h). kvs \<noteq> [] \<and> block_bound kvs < 2 ^ 31 \<and> block_stored c kvs h) dones \<and>
     index_entries cmp valid idx dones [] \<and> length idx = length dones \<and>
     (\<exists>it. Block_NewIterator (t_index_block t) = Some it \<and> blocks_at cmp valid it idx (length idx))"

lemma Table_opened:
  assumes tf: "table_file cmp valid c blocks" and read: "reads_ok read c" and opts: "filter_policy opts = None"
  obtains t idx dones where "Table_Open lib garbage new_id opts read (word_of_nat (length c)) = Some (OK, Some t)"
    and "open_table opts read t c idx dones" and "blocks = map fst dones"
proof -
  have c: "length c < 2 ^ 31" and sorted: "sorted_keys cmp valid (concat blocks)"
    using tf by (simp_all add: table_file_def)
  obtain dones idx mh ih pre enc where blocks: "blocks = map fst dones"
    and dones: "list_all (\<lambda>(kvs, h). kvs \<noteq> [] \<and> block_bound kvs < 2 ^ 31 \<and> block_stored c kvs h) dones"
    and idx: "index_entries cmp valid idx dones []" "length idx = length dones" "block_bound idx < 2 ^ 31" "block_stored c idx ih"
    and enc: "Footer_EncodeTo \<lparr>metaindex_handle = mh, index_handle = ih\<rparr> [] = Some enc" "length enc = kEncodedLength" "c = pre @ enc"
    using tf unfolding table_file_def by blast
  let ?f = "\<lparr>metaindex_handle = mh, index_handle = ih\<rparr>" and ?sz = "word_of_nat (length c) :: u64"
  have k: "kEncodedLength = 48"
    by (simp add: kEncodedLength_def kMaxEncodingLength_def)
  have kw: "word_of_nat kEncodedLength = (48 :: u64)"
    unfolding k by simp
  have sz: "unat ?sz = length c"
    using c by (simp add: unsigned_of_nat take_bit_nat_eq_self)
  have len: "length c = length pre + 48"
    using enc(2,3) k by simp
  have ge: "\<not> ?sz < 48"
    using sz len unfolding word_less_nat_alt by simp
  then have off: "unat (?sz - 48) = length pre"
    using sz len unat_sub [of 48 ?sz] by simp
  moreover have "length enc = 48"
    using enc(2) k by metis
  ultimately have "unat (?sz - 48) + unat (48 :: u64) \<le> length c" "take (unat (48 :: u64)) (drop (unat (?sz - 48)) c) = enc"
    using len enc(3) by simp_all
  then obtain scratch where footer: "read (?sz - 48) 48 = Some (OK, enc, scratch)"
    using read unfolding reads_ok_def by metis
  have "bh_offset mh \<noteq> - 1 \<and> bh_size mh \<noteq> - 1 \<and> bh_offset ih \<noteq> - 1 \<and> bh_size ih \<noteq> - 1"
    using enc(1) by (auto simp: Footer_EncodeTo_def BlockHandle_EncodeTo_def Let_def split: option.splits if_splits)
  from Footer_encoded [of ?f _ "[]"] this enc(1) have dec: "Footer_DecodeFrom f0 enc = Some (OK, ?f, [])" for f0
    by auto
  have "list_all (\<lambda>(kvs, h). kvs \<noteq> []) dones"
    using dones by (auto simp: list_all_iff)
  from index_sorted [OF idx(1,2) this] sorted blocks have isorted: "sorted_keys cmp valid idx"
    by simp
  obtain contents b it where b: "ReadBlock lib garbage read (paranoid_checks opts) ih = Some (OK, contents)" "Block_new contents = Some b"
    "Block_NewIterator b = Some it" "blocks_at cmp valid it idx (length idx)"
    by (rule block_opened [OF idx(4) isorted idx(3) read c])
  let ?t = "\<lparr>t_options = opts, t_file = read, cache_id = new_id, t_filter = None, filter_data = None,
      t_metaindex_handle = mh, t_index_block = b\<rparr>"
  have "Table_Open lib garbage new_id opts read ?sz = Some (OK, Some ?t)"
    unfolding Table_Open_def kw using ge footer dec b(1,2) opts by (simp add: ReadMeta_def)
  moreover have "open_table opts read ?t c idx dones"
    using read c sorted blocks dones idx(1,2) b(3,4) by (simp add: open_table_def)
  ultimately show ?thesis
    using that blocks by blast
qed

lemma handle_decoded [simp]: "BlockHandle_DecodeFrom h0 (handle_bytes h) = (OK, h, [])"
proof -
  have "BlockHandle_DecodeFrom h0 (handle_bytes h @ []) = (OK, h, [])"
    unfolding handle_bytes_def append_assoc by (simp add: BlockHandle_DecodeFrom_def del: append_Nil2)
  then show ?thesis
    by simp
qed

lemma BlockReader_open:
  assumes t: "open_table opts read t c idx dones" and j: "j < length dones"
  obtains b it where "BlockReader lib garbage cops t ro (snd (idx ! j)) None = Some (it, [DeleteBlock b], None)"
    and "blocks_at cmp valid it (fst (dones ! j)) (length (fst (dones ! j)))"
proof -
  let ?kvs = "fst (dones ! j)" and ?h = "snd (dones ! j)"
  have d: "block_bound ?kvs < 2 ^ 31" "block_stored c ?kvs ?h"
    using t j by (auto simp: open_table_def list_all_length case_prod_unfold)
  have v: "snd (idx ! j) = handle_bytes ?h"
    using t j by (simp add: open_table_def index_entries_def)
  have "sorted_keys cmp valid (concat (map fst dones))"
    using t by (simp add: open_table_def)
  then have sorted: "sorted_keys cmp valid ?kvs"
    using j concat_split_nth [of j "map fst dones"] by (simp add: sorted_keys_def sorted_wrt_append)
  have r: "reads_ok read c" "length c < 2 ^ 31" "t_file t = read"
    using t by (simp_all add: open_table_def)
  obtain contents b it where b: "ReadBlock lib garbage read (verify_checksums ro) ?h = Some (OK, contents)" "Block_new contents = Some b"
    "Block_NewIterator b = Some it" "blocks_at cmp valid it ?kvs (length ?kvs)"
    by (rule block_opened [OF d(2) sorted d(1) r(1,2)])
  have "BlockReader lib garbage cops t ro (snd (idx ! j)) None = Some (it, [DeleteBlock b], None)"
    using b(1-3) r(3) by (simp add: BlockReader_def BlockReader_block_def read_new_block_def v)
  then show ?thesis
    using that b(4) by blast
qed

lemma index_of_open:
  assumes t: "open_table opts read t c idx dones"
  shows "index_of cmp (blocks_at cmp valid) (block_function lib garbage t ro) idx (map fst dones)"
proof -
  have "\<exists>d p. block_function lib garbage t ro (snd (idx ! j)) = Some d \<and> blocks_at cmp valid d (fst (dones ! j)) p" if j: "j < length dones" for j
  proof -
    obtain b it where "BlockReader lib garbage null_cache t ro (snd (idx ! j)) None = Some (it, [DeleteBlock b], None)"
      "blocks_at cmp valid it (fst (dones ! j)) (length (fst (dones ! j)))"
      by (rule BlockReader_open [OF t j])
    then show ?thesis
      by (auto simp: block_function_def)
  qed
  then show ?thesis
    using t by (auto simp: index_of_def open_table_def index_entries_def drop_map)
qed

text \<open>The iterator of an open table.\<close>

lemma Table_iterator:
  assumes t: "open_table opts read t c idx dones" and opts: "Compare (opt_comparator opts) = cmp"
  obtains at it where "Table_NewIterator t = Some it" and "at it (concat (map fst dones)) (length (concat (map fst dones)))"
    and "iterator cmp valid (Table_ops lib garbage t ro) at"
proof -
  have o: "t_options t = opts" "sorted_keys cmp valid (concat (map fst dones))"
    using t by (simp_all add: open_table_def)
  obtain i where i: "Block_NewIterator (t_index_block t) = Some i" "blocks_at cmp valid i idx (length idx)"
    using t by (auto simp: open_table_def)
  from two_level.NewTwoLevelIterator_at [OF blocks_two_level index_of_open [OF t] o(2) i(2)]
  obtain it where it: "NewTwoLevelIterator (BlockIterators cmp) i = Some it"
    "tl_at cmp valid (BlockIterators cmp) (blocks_at cmp valid) (BlockIterators cmp) (blocks_at cmp valid)
      (block_function lib garbage t ro) it (concat (map fst dones)) (length (concat (map fst dones)))"
    by blast
  let ?at = "tl_at cmp valid (BlockIterators cmp) (blocks_at cmp valid) (BlockIterators cmp) (blocks_at cmp valid) (block_function lib garbage t ro)"
  show ?thesis
  proof (rule that [of it ?at])
    show "?at it (concat (map fst dones)) (length (concat (map fst dones)))"
      by (rule it(2))
    show "Table_NewIterator t = Some it"
      using it(1) i(1) o(1) opts by (simp add: Table_NewIterator_def)
    show "iterator cmp valid (Table_ops lib garbage t ro) ?at"
      using two_level.two_level_iterator [OF blocks_two_level] o(1) opts by (simp add: Table_ops_def Let_def)
  qed
qed

lemma index_seek_open:
  assumes t: "open_table opts read t c idx dones" and opts: "Compare (opt_comparator opts) = cmp" and k: "valid k"
  obtains it where "index_seek t k = Some it" and "blocks_at cmp valid it idx (seek_pos cmp k idx)"
proof -
  obtain i where i: "Block_NewIterator (t_index_block t) = Some i" "blocks_at cmp valid i idx (length idx)" "t_options t = opts"
    using t by (auto simp: open_table_def)
  from iterator.Seek_at [OF blocks_iterator i(2) k] show ?thesis
    using that i(1,3) opts by (auto simp: index_seek_def)
qed

lemma InternalGet_open:
  assumes t: "open_table opts read t c idx dones" and opts: "Compare (opt_comparator opts) = cmp" and k: "valid k"
  shows "InternalGet lib garbage cops t ro k None = Some (OK, table_get idx (map fst dones) k, None)"
proof -
  note it = blocks_iterator
  let ?j = "seek_pos cmp k idx"
  obtain i where i: "index_seek t k = Some i" "blocks_at cmp valid i idx ?j"
    by (rule index_seek_open [OF t opts k])
  have len: "length idx = length dones" and o: "t_options t = opts" "t_filter t = None"
    using t by (simp_all add: open_table_def)
  note facts = iterator.Valid_at [OF it i(2)] iterator.status_at [OF it i(2)]
  show ?thesis
  proof (cases "?j < length idx")
    case False
    then show ?thesis
      using i(1) facts o opts len by (simp add: InternalGet_def table_get_def Let_def)
  next
    case True
    then have j: "?j < length dones"
      using len by simp
    let ?kvs = "fst (dones ! ?j)"
    obtain b bi where b: "BlockReader lib garbage cops t ro (snd (idx ! ?j)) None = Some (bi, [DeleteBlock b], None)"
      "blocks_at cmp valid bi ?kvs (length ?kvs)"
      by (rule BlockReader_open [OF t j])
    obtain bi' where bi': "it_Seek (BlockIterators cmp) k bi = Some bi'" "blocks_at cmp valid bi' ?kvs (seek_pos cmp k ?kvs)"
      using iterator.Seek_at [OF it b(2) k] by blast
    note bf = iterator.Valid_at [OF it bi'(2)] iterator.status_at [OF it bi'(2)] iterator.key_at [OF it bi'(2)] iterator.value_at [OF it bi'(2)]
    have "filter_hides t (snd (idx ! ?j)) k = Some False"
      using o(2) by (simp add: filter_hides_def)
    then show ?thesis
      using i(1) facts o(1) opts True j iterator.value_at [OF it i(2) True] b(1) bi'(1) bf
      by (simp add: InternalGet_def table_get_def run_block_cleanup_def Let_def)
  qed
qed

lemma table_get_found:
  assumes t: "open_table opts read t c idx dones" and kv: "kv \<in> set (concat (map fst dones))" and k: "valid k" "cmp (fst kv) k = 0"
  shows "table_get idx (map fst dones) k = Some kv"
proof -
  obtain m p where m: "m < length dones" "p < length (fst (dones ! m))" "fst (dones ! m) ! p = kv"
    using kv by (auto simp: in_set_conv_nth)
  have sorted: "sorted_keys cmp valid (concat (map fst dones))" and ie: "index_entries cmp valid idx dones []" and len: "length idx = length dones"
    using t by (simp_all add: open_table_def)
  have sorted_m: "sorted_keys cmp valid (fst (dones ! m))"
    using sorted m(1) concat_split_nth [of m "map fst dones"] by (simp add: sorted_keys_def sorted_wrt_append)
  have vkv: "valid (fst kv)"
    using sorted kv by (auto simp: sorted_keys_def list_all_iff)
  note vi = index_entriesD(1) [OF ie]
  have kv_m: "kv \<in> set (fst (dones ! m))"
    using m(2,3) nth_mem by blast
  have "cmp (fst (idx ! i)) k < 0" if i: "i < m" for i
  proof -
    have "cmp (fst (idx ! i)) (fst kv) < 0"
      using index_entriesD(3) [OF ie _ i m(1) kv_m] i m(1) len by simp
    then show ?thesis
      using cmp_less_le_trans [of "fst (idx ! i)" "fst kv" k] vi i m(1) len vkv k by simp
  qed
  moreover have "\<not> cmp (fst (idx ! m)) k < 0"
  proof -
    have "cmp (fst kv) (fst (idx ! m)) \<le> 0"
      using index_entriesD(2) [OF ie, of m m, OF _ refl kv_m] m(1) len by simp
    then have "\<not> cmp (fst (idx ! m)) (fst kv) < 0"
      using cmp_le_iff vkv vi m(1) len by simp
    moreover have "cmp k (fst kv) \<le> 0"
      using k vkv cmp_swap [of "fst kv" k] cmp_swap [of k "fst kv"] by simp
    ultimately show ?thesis
      using cmp_less_le_trans [of "fst (idx ! m)" k "fst kv"] vi m(1) len vkv k(1) by auto
  qed
  ultimately have "takeWhile (\<lambda>kv. cmp (fst kv) k < 0) idx = take m idx"
    using m(1) len by (intro takeWhile_eq_take_P_nth) simp_all
  then have "seek_pos cmp k idx = m"
    using m(1) len by (simp add: seek_pos_def)
  moreover have "seek_pos cmp k (fst (dones ! m)) = p"
    by (rule block.seek_pos_hit [OF sorted_m m(2) _ k(1)]) (use m(3) k(2) in simp)
  ultimately show ?thesis
    using m by (simp add: table_get_def)
qed

lemma table_get_first:
  assumes t: "open_table opts read t c idx dones" and k: "valid k" and get: "table_get idx (map fst dones) k = Some kv"
  shows "seek_pos cmp k (concat (map fst dones)) < length (concat (map fst dones)) \<and>
    kv = concat (map fst dones) ! seek_pos cmp k (concat (map fst dones))"
proof -
  let ?bs = "map fst dones" and ?j = "seek_pos cmp k idx"
  let ?p = "seek_pos cmp k (?bs ! ?j)"
  have j: "?j < length ?bs" "?p < length (?bs ! ?j)" "kv = ?bs ! ?j ! ?p"
    using get by (auto simp: table_get_def Let_def split: if_splits)
  have sorted: "sorted_keys cmp valid (concat ?bs)"
    using t by (simp add: open_table_def)
  obtain i where i: "blocks_at cmp valid i idx (length idx)"
    using t by (auto simp: open_table_def)
  have "seek_pos cmp k (concat ?bs) = before ?bs ?j + ?p"
    using two_level.seek_pos_concat [OF blocks_two_level index_of_open [OF t] sorted iterator.at_sorted [OF blocks_iterator i] k] j by simp
  moreover have "before ?bs ?j + ?p < length (concat ?bs)"
    using before_Suc [OF j(1)] before_le [of ?bs "Suc ?j"] j(2) by linarith
  ultimately show ?thesis
    using nth_concat_before [OF j(1,2)] j(3) by simp
qed

end

end
