(* ===== verification/Table_Files.thy ===== *)
theory Table_Files
  imports Table Log Dbformat
begin

text \<open>
  Tables through files: what a table builder writes to a file, a table that is opened on the file
  reads back.  The comparators of user keys and of internal keys, and files of the POSIX
  environment, provide the interfaces this relies on.
\<close>

section \<open>Writing and reading\<close>

context table_build
begin

lemma table_built:
  assumes "good f" and "contents f = []" and "sorted_keys cmp valid kvs" and "table_bound kvs < 2 ^ 31"
  obtains r r1 r2 blocks where "TableBuilder_new opts f = Some r" and "TableBuilder_Adds Append Flush compress create kvs r = Some r1"
    and "TableBuilder_Finish Append Flush compress create r1 = Some (OK, r2)"
    and "FileSize r2 = word_of_nat (length (contents (tb_file r2)))"
    and "table_file cmp valid (contents (tb_file r2)) blocks" and "concat blocks = kvs"
proof -
  obtain r where r: "TableBuilder_new opts f = Some r" "tb_inv r [] [] []"
    using tb_inv_new [OF assms(1,2)] by blast
  obtain r1 dones cur idx where r1: "TableBuilder_Adds Append Flush compress create kvs r = Some r1" "tb_inv r1 dones cur idx"
    "added dones cur = kvs"
    using Adds_ok [OF r(2), of kvs] assms(3,4) by (auto simp: added_def)
  obtain r2 blocks where "TableBuilder_Finish Append Flush compress create r1 = Some (OK, r2)"
    "tb_offset r2 = word_of_nat (length (contents (tb_file r2)))" "table_file cmp valid (contents (tb_file r2)) blocks"
    "concat blocks = kvs"
    using Finish_ok [OF r1(2)] r1(3) assms(4) by auto
  then show ?thesis
    using that r(1) r1(1) by (simp add: FileSize_def)
qed

lemma table_order: "bytes_order cmp valid"
  by (rule bytes_order.intro [OF key_order_axioms])

end

text \<open>What reading a table of \<open>sz\<close> bytes should give for the entries \<open>kvs\<close>: it opens, its iterator
  satisfies the contract and a scan yields the entries; \<open>InternalGet\<close> saves every entry whose key is asked
  for, and otherwise nothing but the first entry after the key.\<close>

definition table_yields ::
  "(bytes \<Rightarrow> bytes \<Rightarrow> int) \<Rightarrow> (bytes \<Rightarrow> bool) \<Rightarrow> snappy \<Rightarrow> (nat \<Rightarrow> bytes) \<Rightarrow> (Block, unit, 'h, 'c) Cache \<Rightarrow>
     u64 \<Rightarrow> Options \<Rightarrow> ReadOptions \<Rightarrow> read_at \<Rightarrow> u64 \<Rightarrow> (bytes \<times> bytes) list \<Rightarrow> bool" where
  "table_yields cmp valid lib garbage cops cid opts ro read sz kvs \<longleftrightarrow>
     (\<exists>t at it it'. Table_Open lib garbage cid opts read sz = Some (OK, Some t) \<and>
        iterator cmp valid (Table_ops lib garbage t ro) at \<and> Table_NewIterator t = Some it \<and> at it kvs (length kvs) \<and>
        it_SeekToFirst (Table_ops lib garbage t ro) it = Some it' \<and> scan (Table_ops lib garbage t ro) (length kvs) it' = Some kvs \<and>
        (\<forall>k. valid k \<longrightarrow> (\<exists>saved. InternalGet lib garbage cops t ro k None = Some (OK, saved, None) \<and>
           (\<forall>kv \<in> set kvs. cmp (fst kv) k = 0 \<longrightarrow> saved = Some kv) \<and>
           (\<forall>kv. saved = Some kv \<longrightarrow> seek_pos cmp k kvs < length kvs \<and> kv = kvs ! seek_pos cmp k kvs))))"

context bytes_order
begin

lemma table_read:
  assumes tf: "table_file cmp valid c blocks" and read: "reads_ok read c"
    and opts: "Compare (opt_comparator opts) = cmp" "filter_policy opts = None"
  shows "table_yields cmp valid lib garbage cops cid opts ro read (word_of_nat (length c)) (concat blocks)"
proof -
  obtain t idx dones where t: "Table_Open lib garbage cid opts read (word_of_nat (length c)) = Some (OK, Some t)"
    "open_table opts read t c idx dones" "blocks = map fst dones"
    by (rule Table_opened [OF tf read opts(2)])
  obtain at it where it: "Table_NewIterator t = Some it" "at it (concat blocks) (length (concat blocks))"
    "iterator cmp valid (Table_ops lib garbage t ro) at"
    by (rule Table_iterator [OF t(2) opts(1), folded t(3)])
  obtain it' where it': "it_SeekToFirst (Table_ops lib garbage t ro) it = Some it'" "at it' (concat blocks) 0"
    using iterator.SeekToFirst_at [OF it(3,2)] by blast
  have scan: "scan (Table_ops lib garbage t ro) (length (concat blocks)) it' = Some (concat blocks)"
    using iterator.scan_at [OF it(3) it'(2)] by simp
  have get: "\<exists>saved. InternalGet lib garbage cops t ro k None = Some (OK, saved, None) \<and>
      (\<forall>kv \<in> set (concat blocks). cmp (fst kv) k = 0 \<longrightarrow> saved = Some kv) \<and>
      (\<forall>kv. saved = Some kv \<longrightarrow> seek_pos cmp k (concat blocks) < length (concat blocks) \<and>
         kv = concat blocks ! seek_pos cmp k (concat blocks))" if k: "valid k" for k
  proof (rule exI, intro conjI ballI impI allI)
    show "InternalGet lib garbage cops t ro k None = Some (OK, table_get idx (map fst dones) k, None)"
      by (rule InternalGet_open [OF t(2) opts(1) k])
    show "table_get idx (map fst dones) k = Some kv" if "kv \<in> set (concat blocks)" "cmp (fst kv) k = 0" for kv
      using table_get_found [OF t(2) _ k that(2)] that(1) t(3) by simp
    show "seek_pos cmp k (concat blocks) < length (concat blocks)" "kv = concat blocks ! seek_pos cmp k (concat blocks)"
      if "table_get idx (map fst dones) k = Some kv" for kv
      using table_get_first [OF t(2) k that] t(3) by simp_all
  qed
  show ?thesis
    unfolding table_yields_def
    by (rule exI [of _ t], rule exI [of _ at], rule exI [of _ it], rule exI [of _ it'])
      (use t(1) it it'(1) scan get in blast)
qed

end

text \<open>C3. Tables are read back: a builder that is given sorted entries meets all its assertions,
  whatever the block size and the restart interval, and \<open>Finish\<close> succeeds.  Opening the file
  succeeds, the iterator of the table satisfies the contract of iterators (both directions, seeks)
  and yields exactly the entries added; \<open>InternalGet\<close> finds every key that was added and otherwise
  passes on nothing but the first entry after the key.  This covers every comparator, every writable file and random-access
  file that satisfy their interfaces, tables without filter policy and without compression.\<close>

theorem table_roundtrip:
  assumes "table_build Append Flush contents good cmp valid separator successor opts compress"
    and "random_access_file Read rcontents rgood" and "good f" and "contents f = []"
    and "sorted_keys cmp valid kvs" and "table_bound kvs < 2 ^ 31"
  shows "\<exists>r r1 r2. TableBuilder_new opts f = Some r \<and> TableBuilder_Adds Append Flush compress create kvs r = Some r1 \<and>
    TableBuilder_Finish Append Flush compress create r1 = Some (OK, r2) \<and>
    length (contents (tb_file r2)) = unat (FileSize r2) \<and> length (contents (tb_file r2)) < 2 ^ 31 \<and>
    (\<forall>g. rgood g \<and> rcontents g = contents (tb_file r2) \<longrightarrow>
       table_yields cmp valid lib garbage cops cid opts ro (Read g) (FileSize r2) kvs)"
proof -
  note tb = assms(1)
  have opts: "Compare (opt_comparator opts) = cmp" "filter_policy opts = None"
    using table_build.opts [OF tb] by simp_all
  obtain r r1 r2 blocks where r: "TableBuilder_new opts f = Some r" "TableBuilder_Adds Append Flush compress create kvs r = Some r1"
    "TableBuilder_Finish Append Flush compress create r1 = Some (OK, r2)"
    and sz: "FileSize r2 = word_of_nat (length (contents (tb_file r2)))"
    and tf: "table_file cmp valid (contents (tb_file r2)) blocks" and kvs: "concat blocks = kvs"
    by (rule table_build.table_built [OF tb assms(3-6)])
  have small: "length (contents (tb_file r2)) < 2 ^ 31"
    using tf by (simp add: table_file_def)
  then have len: "length (contents (tb_file r2)) = unat (FileSize r2)"
    unfolding sz by (simp add: unsigned_of_nat take_bit_nat_eq_self)
  have "table_yields cmp valid lib garbage cops cid opts ro (Read g) (FileSize r2) kvs"
    if g: "rgood g" "rcontents g = contents (tb_file r2)" for g
  proof -
    have "reads_ok (Read g) (contents (tb_file r2))"
      using random_access_file.read_inside [OF assms(2) g(1)] g(2) by (simp add: reads_ok_def)
    from bytes_order.table_read [OF table_build.table_order [OF tb] tf this opts] show ?thesis
      unfolding sz kvs .
  qed
  then show ?thesis
    using r len small by blast
qed

section \<open>The interfaces\<close>

text \<open>The default options, with the comparator of user keys, and in a build without the snappy library;
  the same for internal keys.\<close>

definition InternalKeyComparator :: "Comparator \<Rightarrow> Comparator" where
  "InternalKeyComparator c =
     \<lparr>cmp_address = Suc (cmp_address c), Compare = icmp (Compare c),
      FindShortestSeparator = iseparator (Compare c) (FindShortestSeparator c),
      FindShortSuccessor = isuccessor (Compare c) (FindShortSuccessor c)\<rparr>"

interpretation user_tables: table_build "posix_Append memory_os" "posix_Flush memory_os" "stream_contents stored" "stream_good fd (\<lambda>_. True)"
  Bytewise_Compare "\<lambda>_. True" Bytewise_FindShortestSeparator Bytewise_FindShortSuccessor Options_new "\<lambda>_. None" create for fd create
  by unfold_locales (simp_all add: separator_bytewise_short successor_bytewise_short Options_new_def BytewiseComparator_def)

interpretation internal_tables: table_build "posix_Append memory_os" "posix_Flush memory_os" "stream_contents stored" "stream_good fd (\<lambda>_. True)"
  "icmp Bytewise_Compare" "ivalid (\<lambda>_. True)" "iseparator Bytewise_Compare Bytewise_FindShortestSeparator"
  "isuccessor Bytewise_Compare Bytewise_FindShortSuccessor"
  "Options_new\<lparr>opt_comparator := InternalKeyComparator BytewiseComparator\<rparr>" "\<lambda>_. None" create for fd create
  by unfold_locales
    (simp_all add: bytewise_user.iseparator_short bytewise_user.isuccessor_short Options_new_def BytewiseComparator_def InternalKeyComparator_def)

interpretation table_iterator: two_level Bytewise_Compare "\<lambda>_. True" "BlockIterators Bytewise_Compare" "blocks_at Bytewise_Compare (\<lambda>_. True)"
  "BlockIterators Bytewise_Compare" "blocks_at Bytewise_Compare (\<lambda>_. True)" "block_function lib garbage t ro" for lib garbage t ro
  by (rule bytewise_order.blocks_two_level)

theorem table_roundtrip_witness:
  "\<exists>r r1 r2 g. TableBuilder_new Options_new sample_file = Some r \<and>
     TableBuilder_Adds (posix_Append memory_os) (posix_Flush memory_os) (\<lambda>_. None) (\<lambda>_ dst. dst) [(str ''a'', [1]), (str ''b'', [])] r = Some r1 \<and>
     TableBuilder_Finish (posix_Append memory_os) (posix_Flush memory_os) (\<lambda>_. None) (\<lambda>_ dst. dst) r1 = Some (OK, r2) \<and>
     mmap_base g = stream_contents stored (tb_file r2) \<and>
     table_yields Bytewise_Compare (\<lambda>_. True) no_snappy (\<lambda>n. replicate n 0) null_cache 0 Options_new ReadOptions_new
       (mmap_Read memory_os g) (FileSize r2) [(str ''a'', [1]), (str ''b'', [])]"
proof -
  let ?kvs = "[(str ''a'', [1]), (str ''b'', [])] :: (bytes \<times> bytes) list"
  have sorted: "sorted_keys Bytewise_Compare (\<lambda>_. True) ?kvs"
    by (simp add: sorted_keys_def Bytewise_Compare_def) code_simp
  have small: "table_bound ?kvs < 2 ^ 31"
    by (simp add: table_bound_def str_def)
  have f: "stream_good 3 (\<lambda>_. True) sample_file" "stream_contents stored sample_file = []"
    by (simp_all add: sample_file_def stream_good_def stream_contents_def PosixWritableFile_new_def)
  obtain r r1 r2 where r: "TableBuilder_new Options_new sample_file = Some r"
     "TableBuilder_Adds (posix_Append memory_os) (posix_Flush memory_os) (\<lambda>_. None) (\<lambda>_ dst. dst) ?kvs r = Some r1"
     "TableBuilder_Finish (posix_Append memory_os) (posix_Flush memory_os) (\<lambda>_. None) (\<lambda>_ dst. dst) r1 = Some (OK, r2)"
     "length (stream_contents stored (tb_file r2)) < 2 ^ 31"
     and all: "\<forall>g. length (mmap_base g) < 2 ^ 64 \<and> mmap_base g = stream_contents stored (tb_file r2) \<longrightarrow>
       table_yields Bytewise_Compare (\<lambda>_. True) no_snappy (\<lambda>n. replicate n 0) null_cache 0 Options_new ReadOptions_new
         (mmap_Read memory_os g) (FileSize r2) ?kvs"
    using table_roundtrip [OF user_tables.table_build_axioms mmap_file.random_access_file_axioms [of memory_os] f sorted small]
    by blast
  obtain g :: PosixMmapReadableFile where g: "mmap_base g = stream_contents stored (tb_file r2)"
    by (meson PosixMmapReadableFile.select_convs)
  with all r(4) have "table_yields Bytewise_Compare (\<lambda>_. True) no_snappy (\<lambda>n. replicate n 0) null_cache 0 Options_new ReadOptions_new
         (mmap_Read memory_os g) (FileSize r2) ?kvs"
    by simp
  with r(1-3) g show ?thesis
    by blast
qed

text \<open>A table with one entry, in a file that is mapped.\<close>

lemma sample_table_file:
  obtains g c blocks where "table_file Bytewise_Compare (\<lambda>_. True) c blocks" and "concat blocks = [(str ''a'', [1])]"
    and "reads_ok (mmap_Read memory_os g) c"
proof -
  let ?kvs = "[(str ''a'', [1])] :: (bytes \<times> bytes) list"
  have sorted: "sorted_keys Bytewise_Compare (\<lambda>_. True) ?kvs"
    by (simp add: sorted_keys_def)
  have small: "table_bound ?kvs < 2 ^ 31"
    by (simp add: table_bound_def str_def)
  have f: "stream_good 3 (\<lambda>_. True) sample_file" "stream_contents stored sample_file = []"
    by (simp_all add: sample_file_def stream_good_def stream_contents_def PosixWritableFile_new_def)
  obtain c blocks where tf: "table_file Bytewise_Compare (\<lambda>_. True) c blocks" "concat blocks = ?kvs"
    by (rule user_tables.table_built [OF f sorted small])
  obtain g :: PosixMmapReadableFile where g: "mmap_base g = c"
    by (meson PosixMmapReadableFile.select_convs)
  have "length (mmap_base g) < 2 ^ 64"
    using tf(1) g by (simp add: table_file_def)
  from mmap_file.read_inside [OF this] have "reads_ok (mmap_Read memory_os g) c"
    unfolding reads_ok_def g by blast
  then show thesis
    using that tf by blast
qed

end
