(* ===== verification/Block_Cache.thy ===== *)
theory Block_Cache
  imports Table_Files Cache_Sharded
begin

text \<open>
  Tables that read their blocks through a block cache: the results are those of reading the file,
  and no handle of the cache is leaked.
\<close>

section \<open>Reading a block through the cache\<close>

text \<open>The value for the identifier of a table and an offset is a block with the entries \<open>entries cid off\<close>.\<close>

definition right_block ::
  "(bytes \<Rightarrow> bytes \<Rightarrow> int) \<Rightarrow> (bytes \<Rightarrow> bool) \<Rightarrow> (u64 \<Rightarrow> u64 \<Rightarrow> (bytes \<times> bytes) list) \<Rightarrow> bytes \<Rightarrow> Block \<Rightarrow> bool" where
  "right_block cmp valid entries k b \<longleftrightarrow>
     (\<forall>cid off. k = block_cache_key cid off \<longrightarrow>
        (\<exists>it. Block_NewIterator b = Some it \<and> blocks_at cmp valid it (entries cid off) (length (entries cid off))))"

lemma block_cache_key_inject: "block_cache_key a b = block_cache_key c d \<longleftrightarrow> a = c \<and> b = d"
proof
  assume "block_cache_key a b = block_cache_key c d"
  then have "EncodeFixed64 a = EncodeFixed64 c" "EncodeFixed64 b = EncodeFixed64 d"
    by (simp_all add: block_cache_key_def)
  then show "a = c \<and> b = d"
    by (metis DecodeFixed64_EncodeFixed64 option.inject)
qed simp

text \<open>\<open>held\<close> are the handles that the cleanup functions release.\<close>

fun cleanup_held :: "'h block_cleanup list \<Rightarrow> 'h \<Rightarrow> nat" where
  "cleanup_held [ReleaseBlock h] = (\<lambda>_. 0)(h := 1)"
| "cleanup_held _ = (\<lambda>_. 0)"

lemma run_cleanup:
  assumes sc: "shared_cache cops cache_inv room" and inv: "cache_inv P c (cleanup_held cl)" and cl: "length cl = 1"
  shows "\<exists>c'. fold (\<lambda>f c. Option.bind c (run_block_cleanup cops f)) cl (Some (Some c)) = Some (Some c') \<and> cache_inv P c' (\<lambda>_. 0)"
proof -
  obtain f where f: "cl = [f]"
    using cl by (cases cl) auto
  show ?thesis
  proof (cases f)
    case (DeleteBlock b)
    then show ?thesis
      using inv f by (simp add: run_block_cleanup_def)
  next
    case (ReleaseBlock h)
    have held: "cache_inv P c ((\<lambda>_. 0)(h := 1))"
      using inv f ReleaseBlock by simp
    have "\<exists>c'. Cache_Release cops h c = Some c' \<and> cache_inv P c' ((\<lambda>_. 0)(h := 1, h := ((\<lambda>_. 0)(h := 1)) h - 1))"
      by (rule shared_cache.Release_ok [where h = h and held = "(\<lambda>_. 0)(h := 1)"], rule sc, rule held, simp)
    then obtain c' where "Cache_Release cops h c = Some c'" "cache_inv P c' (\<lambda>_. 0)"
      by (auto simp: fun_upd_idem)
    then show ?thesis
      using f ReleaseBlock by (simp add: run_block_cleanup_def)
  qed
qed

context bytes_order
begin

lemma BlockReader_cached:
  assumes sc: "shared_cache cops cache_inv room" and inv: "cache_inv (right_block cmp valid entries) c0 (\<lambda>_. 0)" and room: "room c0"
    and t: "open_table opts read t c idx dones" and j: "j < length dones"
    and entries: "entries (cache_id t) (bh_offset (snd (dones ! j))) = fst (dones ! j)"
  obtains it cl c1 where "BlockReader lib garbage cops t ro (snd (idx ! j)) (Some c0) = Some (it, cl, Some c1)"
    and "blocks_at cmp valid it (fst (dones ! j)) (length (fst (dones ! j)))"
    and "cache_inv (right_block cmp valid entries) c1 (cleanup_held cl)" and "length cl = 1"
proof -
  let ?kvs = "fst (dones ! j)" and ?h = "snd (dones ! j)" and ?P = "right_block cmp valid entries"
  let ?k = "block_cache_key (cache_id t) (bh_offset ?h)"
  have d: "block_bound ?kvs < 2 ^ 31" "block_stored c ?kvs ?h"
    using t j by (auto simp: open_table_def list_all_length case_prod_unfold)
  have v: "snd (idx ! j) = handle_bytes ?h"
    using t j by (simp add: open_table_def index_entries_def)
  have "sorted_keys cmp valid (concat (map fst dones))"
    using t by (simp add: open_table_def)
  then have sorted: "sorted_keys cmp valid ?kvs"
    using j concat_split_nth [of j "map fst dones"] by (simp add: sorted_keys_def sorted_wrt_append)
  have r: "reads_ok read c" "length c < 2 ^ 31" "t_file t = read"
    using t by (simp_all add: open_table_def)
  obtain contents b it where b: "ReadBlock lib garbage read (verify_checksums ro) ?h = Some (OK, contents)" "Block_new contents = Some b"
    "Block_NewIterator b = Some it" "blocks_at cmp valid it ?kvs (length ?kvs)"
    by (rule block_opened [OF d(2) sorted d(1) r(1,2)])
  have read: "read_new_block lib garbage t ro ?h = Some (OK, contents, Some b)"
    using b(1,2) r(3) by (simp add: read_new_block_def)
  have P: "?P ?k b"
    using b(3,4) entries by (auto simp: right_block_def block_cache_key_inject)
  have "\<exists>r c'. Cache_Lookup cops ?k c0 = Some (r, c') \<and>
        (case r of None \<Rightarrow> cache_inv ?P c' (\<lambda>_. 0) \<and> (room c0 \<longrightarrow> room c')
         | Some h \<Rightarrow> cache_inv ?P c' ((\<lambda>_. 0)(h := 0 + 1)) \<and> (\<exists>v. Cache_Value cops h c' = Some v \<and> ?P ?k v))"
    by (rule shared_cache.Lookup_ok [where P = ?P and held = "\<lambda>_. 0"], rule sc, rule inv) simp
  then obtain r c' where look: "Cache_Lookup cops ?k c0 = Some (r, c')"
    "case r of None \<Rightarrow> cache_inv ?P c' (\<lambda>_. 0) \<and> (room c0 \<longrightarrow> room c')
         | Some h \<Rightarrow> cache_inv ?P c' ((\<lambda>_. 0)(h := 1)) \<and> (\<exists>v. Cache_Value cops h c' = Some v \<and> ?P ?k v)"
    unfolding add_0 by blast
  note defs = BlockReader_def BlockReader_block_def v Let_def
  show ?thesis
  proof (cases r)
    case (Some h)
    then obtain b' where b': "Cache_Value cops h c' = Some b'" "?P ?k b'" "cache_inv ?P c' ((\<lambda>_. 0)(h := 1))"
      using look(2) by auto
    obtain it' where it': "Block_NewIterator b' = Some it'" "blocks_at cmp valid it' ?kvs (length ?kvs)"
      using b'(2) unfolding right_block_def entries [symmetric] by blast
    have "BlockReader lib garbage cops t ro (snd (idx ! j)) (Some c0) = Some (it', [ReleaseBlock h], Some c')"
      using look(1) Some b'(1) it'(1) by (simp add: defs)
    then show ?thesis
      using that [of it' "[ReleaseBlock h]" c'] it'(2) b'(3) by simp
  next
    case None
    then have c': "cache_inv ?P c' (\<lambda>_. 0)" "room c'"
      using look(2) room by simp_all
    show ?thesis
    proof (cases "cacheable contents \<and> fill_cache ro")
      case False
      have "BlockReader lib garbage cops t ro (snd (idx ! j)) (Some c0) = Some (it, [DeleteBlock b], Some c')"
        using look(1) None read False b(3) by (auto simp: defs)
      then show ?thesis
        using that [of it "[DeleteBlock b]" c'] b(4) c'(1) by simp
    next
      case True
      have "\<exists>h c2. Cache_Insert cops ?k b (b_size b) () c' = Some (h, c2) \<and> cache_inv ?P c2 ((\<lambda>_. 0)(h := 0 + 1)) \<and> Cache_Value cops h c2 = Some b"
        by (rule shared_cache.Insert_ok [where P = ?P and held = "\<lambda>_. 0"], rule sc, rule c'(1), rule c'(2), rule P)
      then obtain h c2 where h: "Cache_Insert cops ?k b (b_size b) () c' = Some (h, c2)" "cache_inv ?P c2 ((\<lambda>_. 0)(h := 1))"
        unfolding add_0 by blast
      have "BlockReader lib garbage cops t ro (snd (idx ! j)) (Some c0) = Some (it, [ReleaseBlock h], Some c2)"
        using look(1) None read True b(3) h(1) by (simp add: defs)
      then show ?thesis
        using that [of it "[ReleaseBlock h]" c2] b(4) h(2) by simp
    qed
  qed
qed

lemma InternalGet_cached:
  assumes sc: "shared_cache cops cache_inv room" and inv: "cache_inv (right_block cmp valid entries) c0 (\<lambda>_. 0)" and room: "room c0"
    and t: "open_table opts read t c idx dones" and opts: "Compare (opt_comparator opts) = cmp" and k: "valid k"
    and entries: "\<And>j. j < length dones \<Longrightarrow> entries (cache_id t) (bh_offset (snd (dones ! j))) = fst (dones ! j)"
  shows "\<exists>c1. InternalGet lib garbage cops t ro k (Some c0) = Some (OK, table_get idx (map fst dones) k, Some c1) \<and>
    cache_inv (right_block cmp valid entries) c1 (\<lambda>_. 0)"
proof -
  note it = blocks_iterator
  let ?j = "seek_pos cmp k idx"
  obtain i where i: "index_seek t k = Some i" "blocks_at cmp valid i idx ?j"
    by (rule index_seek_open [OF t opts k])
  have len: "length idx = length dones" and o: "t_options t = opts" "t_filter t = None"
    using t by (simp_all add: open_table_def)
  note facts = iterator.Valid_at [OF it i(2)] iterator.status_at [OF it i(2)]
  show ?thesis
  proof (cases "?j < length idx")
    case False
    then show ?thesis
      using i(1) facts o opts len inv by (simp add: InternalGet_def table_get_def Let_def)
  next
    case True
    then have j: "?j < length dones"
      using len by simp
    let ?kvs = "fst (dones ! ?j)"
    obtain bi cl c1 where b: "BlockReader lib garbage cops t ro (snd (idx ! ?j)) (Some c0) = Some (bi, cl, Some c1)"
      "blocks_at cmp valid bi ?kvs (length ?kvs)" "cache_inv (right_block cmp valid entries) c1 (cleanup_held cl)" "length cl = 1"
      by (rule BlockReader_cached [OF sc inv room t j entries [OF j]])
    obtain c2 where c2: "fold (\<lambda>f c. Option.bind c (run_block_cleanup cops f)) cl (Some (Some c1)) = Some (Some c2)"
      "cache_inv (right_block cmp valid entries) c2 (\<lambda>_. 0)"
      using run_cleanup [where P = "right_block cmp valid entries" and c = c1 and cl = cl, OF sc b(3,4)] by blast
    obtain bi' where bi': "it_Seek (BlockIterators cmp) k bi = Some bi'" "blocks_at cmp valid bi' ?kvs (seek_pos cmp k ?kvs)"
      using iterator.Seek_at [OF it b(2) k] by blast
    note bf = iterator.Valid_at [OF it bi'(2)] iterator.status_at [OF it bi'(2)] iterator.key_at [OF it bi'(2)] iterator.value_at [OF it bi'(2)]
    have "filter_hides t (snd (idx ! ?j)) k = Some False"
      using o(2) by (simp add: filter_hides_def)
    then show ?thesis
      using i(1) facts o(1) opts True j iterator.value_at [OF it i(2) True] b(1) bi'(1) bf c2
      by (simp add: InternalGet_def table_get_def Let_def)
  qed
qed

end

section \<open>Properties\<close>

text \<open>C11. The block cache is transparent: over every cache that satisfies the contract, and whatever right blocks of this and of other
  tables it holds, \<open>InternalGet\<close> of an open table gives what it gives without a block cache, the blocks that it puts into the cache are right,
  and it holds no handle at the end.\<close>

theorem block_cache_transparent:
  assumes "bytes_order cmp valid" and "shared_cache cops cache_inv room"
    and "cache_inv (right_block cmp valid entries) c0 (\<lambda>_. 0)" and "room c0"
    and "bytes_order.open_table cmp valid opts read t c idx dones" and "Compare (opt_comparator opts) = cmp" and "valid k"
    and "\<forall>j < length dones. entries (cache_id t) (bh_offset (snd (dones ! j))) = fst (dones ! j)"
  shows "\<exists>s saved c1. InternalGet lib garbage cops t ro k (Some c0) = Some (s, saved, Some c1) \<and>
    cache_inv (right_block cmp valid entries) c1 (\<lambda>_. 0) \<and> InternalGet lib garbage null_cache t ro k None = Some (s, saved, None)"
proof -
  note bo = assms(1)
  have e: "\<And>j. j < length dones \<Longrightarrow> entries (cache_id t) (bh_offset (snd (dones ! j))) = fst (dones ! j)"
    using assms(8) by blast
  have "\<exists>c1. InternalGet lib garbage cops t ro k (Some c0) = Some (OK, bytes_order.table_get cmp idx (map fst dones) k, Some c1) \<and>
    cache_inv (right_block cmp valid entries) c1 (\<lambda>_. 0)"
    by (rule bytes_order.InternalGet_cached [where entries = entries, OF bo assms(2-7) e])
  then show ?thesis
    using bytes_order.InternalGet_open [OF bo assms(5-7), of lib garbage null_cache ro] by blast
qed

theorem block_cache_transparent_witness:
  "\<exists>(c0 :: (Block, unit) ShardedLRUCache) c1 t.
     InternalGet no_snappy (\<lambda>n. replicate n 0) (ShardedLRUCache_ops first_free) t ReadOptions_new (str ''a'') (Some c0) =
       Some (OK, Some (str ''a'', [1]), Some c1)"
proof -
  obtain g c blocks where tf: "table_file Bytewise_Compare (\<lambda>_. True) c blocks" "concat blocks = [(str ''a'', [1])]"
    and rd: "reads_ok (mmap_Read memory_os g) c"
    by (rule sample_table_file)
  have opts: "filter_policy Options_new = None" "Compare (opt_comparator Options_new) = Bytewise_Compare"
    by (simp_all add: Options_new_def BytewiseComparator_def)
  obtain t idx dones where t: "Table_Open no_snappy (\<lambda>n. replicate n 0) 1 Options_new (mmap_Read memory_os g) (word_of_nat (length c)) = Some (OK, Some t)"
    "bytewise_order.open_table Options_new (mmap_Read memory_os g) t c idx dones" "blocks = map fst dones"
    by (rule bytewise_order.Table_opened [OF tf(1) rd opts(1)])
  have one: "fst (dones ! j) = [(str ''a'', [1])]" if j: "j < length dones" for j
  proof -
    have "fst (dones ! j) \<noteq> []"
      using t(2) j by (auto simp: bytewise_order.open_table_def list_all_length case_prod_unfold)
    moreover have "concat (take j blocks) @ fst (dones ! j) @ concat (drop (Suc j) blocks) = [(str ''a'', [1])]"
      using concat_split_nth [of j blocks] j t(3) tf(2) by simp
    ultimately show ?thesis
      by (auto simp: append_eq_Cons_conv)
  qed
  let ?P = "right_block Bytewise_Compare (\<lambda>_. True) (\<lambda>_ _. [(str ''a'', [1])])"
  obtain c0 :: "(Block, unit) ShardedLRUCache" where c0: "sharded_inv first_free ?P c0 (\<lambda>_. 0)" "sharded_room c0"
    using NewLRUCache_ok [OF first_free_ok] by blast
  have e: "\<forall>j < length dones. (\<lambda>_ _. [(str ''a'', [1])]) (cache_id t) (bh_offset (snd (dones ! j))) = fst (dones ! j)"
    using one by simp
  obtain s saved c1 where "InternalGet no_snappy (\<lambda>n. replicate n 0) (ShardedLRUCache_ops first_free) t ReadOptions_new (str ''a'') (Some c0) =
      Some (s, saved, Some c1)" "InternalGet no_snappy (\<lambda>n. replicate n 0) null_cache t ReadOptions_new (str ''a'') None = Some (s, saved, None)"
    using block_cache_transparent [OF bytewise_order.bytes_order_axioms sharded.shared_cache_axioms c0 t(2) opts(2) TrueI e] by blast
  moreover have "InternalGet no_snappy (\<lambda>n. replicate n 0) null_cache t ReadOptions_new (str ''a'') None =
      Some (OK, bytewise_order.table_get idx (map fst dones) (str ''a''), None)"
    by (rule bytewise_order.InternalGet_open [OF t(2) opts(2) TrueI])
  moreover have "bytewise_order.table_get idx (map fst dones) (str ''a'') = Some (str ''a'', [1])"
    using bytewise_order.table_get_found [OF t(2), of "(str ''a'', [1])" "str ''a''"] tf(2) t(3) by (simp add: Bytewise_eq del: set_concat)
  ultimately show ?thesis
    by auto
qed

end
