(* ===== verification/Table_Cache.thy ===== *)
theory Table_Cache
  imports Table_Files Cache_Sharded Filename
begin

text \<open>
  The cache of open tables (\<^verbatim>\<open>db/table_cache.h\<close>, \<^verbatim>\<open>db/table_cache.cpp\<close>).

  It uses a cache through its interface, the environment through \<open>NewRandomAccessFile\<close>, the \<open>Read\<close> and the destructor of
  the files it opens, and tables.  \<open>'o\<close> is the state of the system, \<open>bc\<close> the state of the block cache of the options, if
  there is one.  \<^const>\<open>None\<close> stands for a failed assertion, a null pointer dereferenced, or a call that does not return.
\<close>

section \<open>State\<close>

record 'r TableAndFile =
  tf_file :: 'r
  tf_table :: Table

text \<open>The deleter of the entries; the calls of the deleter are in the state of the cache.\<close>

definition DeleteEntry :: "('r \<Rightarrow> 'o \<Rightarrow> 'o) \<Rightarrow> 'r TableAndFile \<Rightarrow> 'o \<Rightarrow> 'o" where
  "DeleteEntry delete_file tf st = delete_file (tf_file tf) st"

record 'c TableCache =
  tc_dbname :: bytes
  tc_options :: Options
  tc_cache :: 'c

record ('r, 'o) table_env =
  te_NewRandomAccessFile :: "bytes \<Rightarrow> 'o \<Rightarrow> Status \<times> 'r option \<times> 'o"
  te_Read :: "'r \<Rightarrow> read_at"
  te_delete :: "'r \<Rightarrow> 'o \<Rightarrow> 'o"

definition UnrefEntry :: "('v, 'd, 'h, 'c) Cache \<Rightarrow> 'h \<Rightarrow> 'c \<Rightarrow> 'c option" where
  "UnrefEntry ops h cache = Cache_Release ops h cache"

definition TableCache_new :: "bytes \<Rightarrow> Options \<Rightarrow> int \<Rightarrow> ('r TableAndFile, unit) ShardedLRUCache TableCache option" where
  "TableCache_new dbname options entries =
     map_option (\<lambda>cache. \<lparr>tc_dbname = dbname, tc_options = options, tc_cache = cache\<rparr>) (NewLRUCache (word_of_int entries))"

definition TableCache_delete :: "('v, unit) ShardedLRUCache TableCache \<Rightarrow> (unit \<times> bytes \<times> 'v) list option" where
  "TableCache_delete tc = Sharded_delete (tc_cache tc)"

section \<open>Operations\<close>

text \<open>Opening the file, under its new or its old name.\<close>

definition open_table_file ::
  "('r, 'o) table_env \<Rightarrow> bytes \<Rightarrow> u64 \<Rightarrow> 'o \<Rightarrow> (Status \<times> 'r option \<times> 'o) option" where
  "open_table_file env dbname file_number st =
     Option.bind (TableFileName dbname file_number) (\<lambda>fname.
       let (s, file, st) = te_NewRandomAccessFile env fname st in
       if \<not> ok s then
         map_option (\<lambda>old_fname.
           let (s2, file, st) = te_NewRandomAccessFile env old_fname st in (if ok s2 then OK else s, file, st))
           (SSTTableFileName dbname file_number)
       else Some (s, file, st))"

text \<open>\<open>Table::Open\<close> on the file; the identifier for the block cache is drawn when the table is made.\<close>

definition open_table_on ::
  "snappy \<Rightarrow> (nat \<Rightarrow> bytes) \<Rightarrow> ('bv, 'bd, 'bh, 'b) Cache \<Rightarrow> ('r, 'o) table_env \<Rightarrow> Options \<Rightarrow> u64 \<Rightarrow> 'r \<Rightarrow> 'b option \<Rightarrow>
     (Status \<times> Table option \<times> 'b option) option" where
  "open_table_on lib garbage bops env options file_size f bc =
     (let (new_id, bc2) = (case bc of None \<Rightarrow> (0, None) | Some b \<Rightarrow> (case Cache_NewId bops b of (n, b) \<Rightarrow> (n, Some b)))
      in map_option (\<lambda>(s, table). (s, table, if table = None then bc else bc2))
           (Table_Open lib garbage new_id options (te_Read env f) file_size))"

definition FindTable ::
  "snappy \<Rightarrow> (nat \<Rightarrow> bytes) \<Rightarrow> ('bv, 'bd, 'bh, 'b) Cache \<Rightarrow> ('r, 'o) table_env \<Rightarrow> ('r TableAndFile, unit, 'h, 'c) Cache \<Rightarrow>
     u64 \<Rightarrow> u64 \<Rightarrow> 'c TableCache \<Rightarrow> 'b option \<Rightarrow> 'o \<Rightarrow> (Status \<times> 'h option \<times> 'c TableCache \<times> 'b option \<times> 'o) option" where
  "FindTable lib garbage bops env ops file_number file_size tc bc st =
     (let k = EncodeFixed64 file_number in
      Option.bind (Cache_Lookup ops k (tc_cache tc)) (\<lambda>(handle, cache).
        let tc = tc\<lparr>tc_cache := cache\<rparr> in
        if handle = None then
          Option.bind (open_table_file env (tc_dbname tc) file_number st) (\<lambda>(s, file, st).
          Option.bind
            (if ok s then Option.bind file (\<lambda>f. open_table_on lib garbage bops env (tc_options tc) file_size f bc) else Some (s, None, bc))
            (\<lambda>(s, table, bc).
              if \<not> ok s then
                (if table = None then Some (s, None, tc, bc, case file of None \<Rightarrow> st | Some f \<Rightarrow> te_delete env f st) else None)
              else
                (case (file, table) of
                   (Some f, Some t) \<Rightarrow>
                     map_option (\<lambda>(h, cache). (s, Some h, tc\<lparr>tc_cache := cache\<rparr>, bc, st))
                       (Cache_Insert ops k \<lparr>tf_file = f, tf_table = t\<rparr> 1 () (tc_cache tc))
                 | _ \<Rightarrow> None)))
        else Some (OK, handle, tc, bc, st)))"

text \<open>The result is an error iterator, or the iterator of the table with the cleanup function \<open>UnrefEntry\<close> for the handle.\<close>

definition TableCache_NewIterator ::
  "snappy \<Rightarrow> (nat \<Rightarrow> bytes) \<Rightarrow> ('bv, 'bd, 'bh, 'b) Cache \<Rightarrow> ('r, 'o) table_env \<Rightarrow> ('r TableAndFile, unit, 'h, 'c) Cache \<Rightarrow>
     u64 \<Rightarrow> u64 \<Rightarrow> 'c TableCache \<Rightarrow> 'b option \<Rightarrow> 'o \<Rightarrow>
     ((Status + (Status + BlockIter, Status + BlockIter) TwoLevel \<times> 'h \<times> Table) \<times> 'c TableCache \<times> 'b option \<times> 'o) option" where
  "TableCache_NewIterator lib garbage bops env ops file_number file_size tc bc st =
     Option.bind (FindTable lib garbage bops env ops file_number file_size tc bc st) (\<lambda>(s, handle, tc, bc, st).
       if \<not> ok s then Some (Inl (NewErrorIterator s), tc, bc, st)
       else
         Option.bind handle (\<lambda>h.
         Option.bind (Cache_Value ops h (tc_cache tc)) (\<lambda>tf.
           map_option (\<lambda>it. (Inr (it, h, tf_table tf), tc, bc, st)) (Table_NewIterator (tf_table tf)))))"

definition TableCache_Get ::
  "snappy \<Rightarrow> (nat \<Rightarrow> bytes) \<Rightarrow> (Block, unit, 'bh, 'b) Cache \<Rightarrow> ('r, 'o) table_env \<Rightarrow> ('r TableAndFile, unit, 'h, 'c) Cache \<Rightarrow>
     ReadOptions \<Rightarrow> u64 \<Rightarrow> u64 \<Rightarrow> bytes \<Rightarrow> 'c TableCache \<Rightarrow> 'b option \<Rightarrow> 'o \<Rightarrow>
     (Status \<times> (bytes \<times> bytes) option \<times> 'c TableCache \<times> 'b option \<times> 'o) option" where
  "TableCache_Get lib garbage bops env ops options file_number file_size k tc bc st =
     Option.bind (FindTable lib garbage bops env ops file_number file_size tc bc st) (\<lambda>(s, handle, tc, bc, st).
       if ok s then
         Option.bind handle (\<lambda>h.
         Option.bind (Cache_Value ops h (tc_cache tc)) (\<lambda>tf.
         Option.bind (InternalGet lib garbage bops (tf_table tf) options k bc) (\<lambda>(s, saved, bc).
           map_option (\<lambda>cache. (s, saved, tc\<lparr>tc_cache := cache\<rparr>, bc, st)) (Cache_Release ops h (tc_cache tc)))))
       else Some (s, None, tc, bc, st))"

section \<open>Reading through the cache\<close>

text \<open>What a table with the entries \<open>kvs\<close> gives to readers, see \<^const>\<open>table_yields\<close>.\<close>

definition table_serves ::
  "(bytes \<Rightarrow> bytes \<Rightarrow> int) \<Rightarrow> (bytes \<Rightarrow> bool) \<Rightarrow> snappy \<Rightarrow> (nat \<Rightarrow> bytes) \<Rightarrow> (Block, unit, 'bh, 'b) Cache \<Rightarrow> Table \<Rightarrow> (bytes \<times> bytes) list \<Rightarrow> bool" where
  "table_serves cmp valid lib garbage bops t kvs \<longleftrightarrow>
     (\<forall>ro. (\<exists>at it. iterator cmp valid (Table_ops lib garbage t ro) at \<and> Table_NewIterator t = Some it \<and> at it kvs (length kvs)) \<and>
        (\<forall>k. valid k \<longrightarrow> (\<exists>saved. InternalGet lib garbage bops t ro k None = Some (OK, saved, None) \<and>
           (\<forall>kv \<in> set kvs. cmp (fst kv) k = 0 \<longrightarrow> saved = Some kv) \<and>
           (\<forall>kv. saved = Some kv \<longrightarrow> seek_pos cmp k kvs < length kvs \<and> kv = kvs ! seek_pos cmp k kvs))))"

lemma table_yields_serves:
  assumes "\<And>ro. table_yields cmp valid lib garbage bops cid opts ro read sz kvs"
  obtains t where "Table_Open lib garbage cid opts read sz = Some (OK, Some t)" and "table_serves cmp valid lib garbage bops t kvs"
proof -
  obtain t where t: "Table_Open lib garbage cid opts read sz = Some (OK, Some t)"
    using assms [of ReadOptions_new] unfolding table_yields_def by blast
  have "table_serves cmp valid lib garbage bops t kvs"
    unfolding table_serves_def
  proof (intro allI)
    fix ro
    obtain t' at it it' where "Table_Open lib garbage cid opts read sz = Some (OK, Some t')"
      "iterator cmp valid (Table_ops lib garbage t' ro) at" "Table_NewIterator t' = Some it" "at it kvs (length kvs)"
      "\<forall>k. valid k \<longrightarrow> (\<exists>saved. InternalGet lib garbage bops t' ro k None = Some (OK, saved, None) \<and>
           (\<forall>kv \<in> set kvs. cmp (fst kv) k = 0 \<longrightarrow> saved = Some kv) \<and>
           (\<forall>kv. saved = Some kv \<longrightarrow> seek_pos cmp k kvs < length kvs \<and> kv = kvs ! seek_pos cmp k kvs))"
      using assms [of ro] unfolding table_yields_def by blast
    moreover from this(1) have "t' = t"
      using t by simp
    ultimately show "(\<exists>at it. iterator cmp valid (Table_ops lib garbage t ro) at \<and> Table_NewIterator t = Some it \<and> at it kvs (length kvs)) \<and>
        (\<forall>k. valid k \<longrightarrow> (\<exists>saved. InternalGet lib garbage bops t ro k None = Some (OK, saved, None) \<and>
           (\<forall>kv \<in> set kvs. cmp (fst kv) k = 0 \<longrightarrow> saved = Some kv) \<and>
           (\<forall>kv. saved = Some kv \<longrightarrow> seek_pos cmp k kvs < length kvs \<and> kv = kvs ! seek_pos cmp k kvs)))"
      by blast
  qed
  then show thesis
    using that t by blast
qed

text \<open>The value for a file number \<open>n\<close> is a table that serves the entries \<open>entries n\<close>.\<close>

definition right_table ::
  "(bytes \<Rightarrow> bytes \<Rightarrow> int) \<Rightarrow> (bytes \<Rightarrow> bool) \<Rightarrow> snappy \<Rightarrow> (nat \<Rightarrow> bytes) \<Rightarrow> (Block, unit, 'bh, 'b) Cache \<Rightarrow> (u64 \<Rightarrow> (bytes \<times> bytes) list) \<Rightarrow>
     bytes \<Rightarrow> 'r TableAndFile \<Rightarrow> bool" where
  "right_table cmp valid lib garbage bops entries k tf \<longleftrightarrow>
     (\<forall>n. k = EncodeFixed64 n \<longrightarrow> table_serves cmp valid lib garbage bops (tf_table tf) (entries n))"

text \<open>The file with number \<open>n\<close> can be opened, and holds a table with these entries.\<close>

definition table_on_disk ::
  "(bytes \<Rightarrow> bytes \<Rightarrow> int) \<Rightarrow> (bytes \<Rightarrow> bool) \<Rightarrow> snappy \<Rightarrow> (nat \<Rightarrow> bytes) \<Rightarrow> (Block, unit, 'bh, 'b) Cache \<Rightarrow> ('r, 'o) table_env \<Rightarrow>
     bytes \<Rightarrow> Options \<Rightarrow> u64 \<Rightarrow> u64 \<Rightarrow> (bytes \<times> bytes) list \<Rightarrow> 'o \<Rightarrow> bool" where
  "table_on_disk cmp valid lib garbage bops env dbname opts n sz kvs st \<longleftrightarrow>
     (\<exists>f st'. open_table_file env dbname n st = Some (OK, Some f, st') \<and>
        (\<forall>ro. table_yields cmp valid lib garbage bops 0 opts ro (te_Read env f) sz kvs))"

lemma FindTable_ok:
  assumes sc: "shared_cache ops cache_inv room" and inv: "cache_inv (right_table cmp valid lib garbage bops entries) (tc_cache tc) (\<lambda>_. 0)"
    and room: "room (tc_cache tc)"
    and disk: "table_on_disk cmp valid lib garbage bops env (tc_dbname tc) (tc_options tc) n sz (entries n) st"
  obtains h tc' st' tf where "FindTable lib garbage bops env ops n sz tc None st = Some (OK, Some h, tc', None, st')"
    and "cache_inv (right_table cmp valid lib garbage bops entries) (tc_cache tc') ((\<lambda>_. 0)(h := 1))"
    and "Cache_Value ops h (tc_cache tc') = Some tf" and "table_serves cmp valid lib garbage bops (tf_table tf) (entries n)"
    and "tc' = tc\<lparr>tc_cache := tc_cache tc'\<rparr>"
proof -
  let ?P = "right_table cmp valid lib garbage bops entries" and ?k = "EncodeFixed64 n"
  obtain f st' where f: "open_table_file env (tc_dbname tc) n st = Some (OK, Some f, st')"
    and y: "\<And>ro. table_yields cmp valid lib garbage bops 0 (tc_options tc) ro (te_Read env f) sz (entries n)"
    using disk unfolding table_on_disk_def by blast
  obtain t where t: "Table_Open lib garbage 0 (tc_options tc) (te_Read env f) sz = Some (OK, Some t)"
    "table_serves cmp valid lib garbage bops t (entries n)"
    by (rule table_yields_serves [OF y])
  let ?tf = "\<lparr>tf_file = f, tf_table = t\<rparr>"
  have inj: "m = n" if "EncodeFixed64 m = EncodeFixed64 n" for m
    using arg_cong [OF that, of DecodeFixed64] by simp
  have P: "?P ?k ?tf"
    using t(2) inj by (auto simp: right_table_def)
  show thesis
  proof (rule shared_cache.find_or_insert [where P = ?P and k = ?k and v = ?tf and chg = 1 and d = "()", OF sc inv room P])
    fix h c1
    assume h: "Cache_Lookup ops ?k (tc_cache tc) = Some (Some h, c1)" "cache_inv ?P c1 ((\<lambda>_. 0)(h := 1))" "\<exists>v. Cache_Value ops h c1 = Some v \<and> ?P ?k v"
    then obtain tf where tf: "Cache_Value ops h c1 = Some tf" "?P ?k tf"
      by blast
    show thesis
      by (rule that [of h "tc\<lparr>tc_cache := c1\<rparr>" st tf]) (use h tf in \<open>simp_all add: FindTable_def Let_def right_table_def\<close>)
  next
    fix h c1 c2
    assume h: "Cache_Lookup ops ?k (tc_cache tc) = Some (None, c1)" "Cache_Insert ops ?k ?tf 1 () c1 = Some (h, c2)"
      "cache_inv ?P c2 ((\<lambda>_. 0)(h := 1))" "Cache_Value ops h c2 = Some ?tf"
    show thesis
      by (rule that [of h "tc\<lparr>tc_cache := c2\<rparr>" st' ?tf]) (use h f t in \<open>simp_all add: FindTable_def Let_def open_table_on_def\<close>)
  qed
qed

section \<open>Properties\<close>

text \<open>C10. The table cache is transparent: whatever tables it holds, and over every cache that satisfies the contract, \<open>Get\<close> and \<open>NewIterator\<close>
  give what the table file with the number gives, and the table in the cache stays right for its number.  After \<open>Get\<close> no
  handle is held; the handle of an iterator is released by its cleanup function.  This is without a block cache.\<close>

theorem table_cache_transparent:
  assumes "shared_cache ops cache_inv room" and "cache_inv (right_table cmp valid lib garbage bops entries) (tc_cache tc) (\<lambda>_. 0)"
    and "room (tc_cache tc)"
    and "table_on_disk cmp valid lib garbage bops env (tc_dbname tc) (tc_options tc) n sz (entries n) st" and "valid k"
  shows "(\<exists>saved tc' st'. TableCache_Get lib garbage bops env ops ro n sz k tc None st = Some (OK, saved, tc', None, st') \<and>
       cache_inv (right_table cmp valid lib garbage bops entries) (tc_cache tc') (\<lambda>_. 0) \<and>
       (\<forall>kv \<in> set (entries n). cmp (fst kv) k = 0 \<longrightarrow> saved = Some kv) \<and>
       (\<forall>kv. saved = Some kv \<longrightarrow> seek_pos cmp k (entries n) < length (entries n) \<and> kv = entries n ! seek_pos cmp k (entries n))) \<and>
    (\<exists>it h t tc' c st' at. TableCache_NewIterator lib garbage bops env ops n sz tc None st = Some (Inr (it, h, t), tc', None, st') \<and>
       iterator cmp valid (Table_ops lib garbage t ro) at \<and> at it (entries n) (length (entries n)) \<and>
       UnrefEntry ops h (tc_cache tc') = Some c \<and> cache_inv (right_table cmp valid lib garbage bops entries) c (\<lambda>_. 0))"
proof -
  let ?P = "right_table cmp valid lib garbage bops entries"
  obtain h tc' st' tf where f: "FindTable lib garbage bops env ops n sz tc None st = Some (OK, Some h, tc', None, st')"
    and inv: "cache_inv ?P (tc_cache tc') ((\<lambda>_. 0)(h := 1))"
    and tf: "Cache_Value ops h (tc_cache tc') = Some tf" "table_serves cmp valid lib garbage bops (tf_table tf) (entries n)"
    by (rule FindTable_ok [OF assms(1-4)])
  have "\<exists>c. Cache_Release ops h (tc_cache tc') = Some c \<and> cache_inv ?P c ((\<lambda>_. 0)(h := 1, h := ((\<lambda>_. 0)(h := 1)) h - 1))"
    by (rule shared_cache.Release_ok [where h = h and held = "(\<lambda>_. 0)(h := 1)"], rule assms(1), rule inv, simp)
  then obtain c where c: "Cache_Release ops h (tc_cache tc') = Some c" "cache_inv ?P c (\<lambda>_. 0)"
    by (auto simp: fun_upd_idem)
  obtain saved where saved: "InternalGet lib garbage bops (tf_table tf) ro k None = Some (OK, saved, None)"
    "\<forall>kv \<in> set (entries n). cmp (fst kv) k = 0 \<longrightarrow> saved = Some kv"
    "\<forall>kv. saved = Some kv \<longrightarrow> seek_pos cmp k (entries n) < length (entries n) \<and> kv = entries n ! seek_pos cmp k (entries n)"
    using mp [OF spec [OF conjunct2 [OF spec [OF tf(2) [unfolded table_serves_def], of ro]], of k] assms(5)] by (elim exE conjE)
  have get: "TableCache_Get lib garbage bops env ops ro n sz k tc None st = Some (OK, saved, tc'\<lparr>tc_cache := c\<rparr>, None, st')"
    using f tf(1) saved(1) c(1) by (simp add: TableCache_Get_def)
  obtain at it where it: "iterator cmp valid (Table_ops lib garbage (tf_table tf) ro) at" "Table_NewIterator (tf_table tf) = Some it"
    "at it (entries n) (length (entries n))"
    using tf(2) unfolding table_serves_def by blast
  have new: "TableCache_NewIterator lib garbage bops env ops n sz tc None st = Some (Inr (it, h, tf_table tf), tc', None, st')"
    using f tf(1) it(2) by (simp add: TableCache_NewIterator_def)
  have unref: "UnrefEntry ops h (tc_cache tc') = Some c"
    using c(1) by (simp add: UnrefEntry_def)
  show ?thesis
  proof (rule conjI)
    show "\<exists>saved tc' st'. TableCache_Get lib garbage bops env ops ro n sz k tc None st = Some (OK, saved, tc', None, st') \<and>
       cache_inv ?P (tc_cache tc') (\<lambda>_. 0) \<and> (\<forall>kv \<in> set (entries n). cmp (fst kv) k = 0 \<longrightarrow> saved = Some kv) \<and>
       (\<forall>kv. saved = Some kv \<longrightarrow> seek_pos cmp k (entries n) < length (entries n) \<and> kv = entries n ! seek_pos cmp k (entries n))"
      by (rule exI [of _ saved], rule exI [of _ "tc'\<lparr>tc_cache := c\<rparr>"], rule exI [of _ st']) (simp add: get c(2) saved(2,3))
  qed (use new it(1,3) unref c(2) in blast)
qed

lemma sample_table:
  obtains g sz where "\<forall>ro. table_yields Bytewise_Compare (\<lambda>_. True) no_snappy (\<lambda>n. replicate n 0) null_cache 0 Options_new ro
    (mmap_Read memory_os g) sz [(str ''a'', [1])]"
proof -
  obtain g c blocks where tf: "table_file Bytewise_Compare (\<lambda>_. True) c blocks" "concat blocks = [(str ''a'', [1])]"
    and rd: "reads_ok (mmap_Read memory_os g) c"
    by (rule sample_table_file)
  have "\<forall>ro. table_yields Bytewise_Compare (\<lambda>_. True) no_snappy (\<lambda>n. replicate n 0) null_cache 0 Options_new ro
      (mmap_Read memory_os g) (word_of_nat (length c)) (concat blocks)"
    by (intro allI bytewise_order.table_read [OF tf(1) rd]) (simp_all add: Options_new_def BytewiseComparator_def)
  then show thesis
    using that tf(2) by simp
qed

theorem table_cache_transparent_witness:
  "\<exists>(tc :: (PosixMmapReadableFile TableAndFile, unit) ShardedLRUCache TableCache) tc' env sz.
     TableCache_Get no_snappy (\<lambda>n. replicate n 0) null_cache env (ShardedLRUCache_ops first_free) ReadOptions_new 7 sz (str ''a'') tc None () =
       Some (OK, Some (str ''a'', [1]), tc', None, ())"
proof -
  obtain g sz where g: "\<forall>ro. table_yields Bytewise_Compare (\<lambda>_. True) no_snappy (\<lambda>n. replicate n 0) null_cache 0 Options_new ro
    (mmap_Read memory_os g) sz [(str ''a'', [1])]"
    by (rule sample_table)
  let ?env = "\<lparr>te_NewRandomAccessFile = (\<lambda>_ st. (OK, Some g, st)), te_Read = mmap_Read memory_os, te_delete = (\<lambda>_ st. st)\<rparr>
    :: (PosixMmapReadableFile, unit) table_env"
  let ?P = "right_table Bytewise_Compare (\<lambda>_. True) no_snappy (\<lambda>n. replicate n 0) null_cache (\<lambda>_. [(str ''a'', [1])])
    :: bytes \<Rightarrow> PosixMmapReadableFile TableAndFile \<Rightarrow> bool"
  obtain c :: "(PosixMmapReadableFile TableAndFile, unit) ShardedLRUCache" where c: "sharded_inv first_free ?P c (\<lambda>_. 0)" "sharded_room c"
    using NewLRUCache_ok [OF first_free_ok] by blast
  let ?tc = "\<lparr>tc_dbname = str ''db'', tc_options = Options_new, tc_cache = c\<rparr>"
  have inv: "sharded_inv first_free ?P (tc_cache ?tc) (\<lambda>_. 0)" "sharded_room (tc_cache ?tc)"
    using c by simp_all
  have disk: "table_on_disk Bytewise_Compare (\<lambda>_. True) no_snappy (\<lambda>n. replicate n 0) null_cache ?env (tc_dbname ?tc) (tc_options ?tc) 7 sz
      ((\<lambda>_. [(str ''a'', [1])]) 7) ()"
    unfolding table_on_disk_def by (intro exI [of _ g] exI [of _ "()"]) (simp add: open_table_file_def TableFileName_def g)
  obtain saved tc' st' where "TableCache_Get no_snappy (\<lambda>n. replicate n 0) null_cache ?env (ShardedLRUCache_ops first_free) ReadOptions_new 7 sz
      (str ''a'') ?tc None () = Some (OK, saved, tc', None, st')"
    "\<forall>kv \<in> set ((\<lambda>_. [(str ''a'', [1])]) 7). Bytewise_Compare (fst kv) (str ''a'') = 0 \<longrightarrow> saved = Some kv"
    using conjunct1 [OF table_cache_transparent [OF sharded.shared_cache_axioms inv disk TrueI, where k = "str ''a''" and ro = ReadOptions_new]]
    by blast
  then show ?thesis
    by (auto simp: Bytewise_eq)
qed

end
