(* ===== verification/Windows_Files.thy ===== *)
theory Windows_Files
  imports Posix_Files
begin

text \<open>
  The file objects of \<^verbatim>\<open>util/env_windows.cpp\<close>: \<open>ScopedHandle\<close>, \<open>WindowsSequentialFile\<close>,
  \<open>WindowsRandomAccessFile\<close>, \<open>WindowsMmapReadableFile\<close> and \<open>WindowsWritableFile\<close>.  The class \<open>Limiter\<close> is
  the one of the POSIX environment and taken from there.

  The Win32 calls are a parameter: a record of functions over an abstract state \<open>'o\<close> of the system.
  A call returns whether it succeeded, and \<open>GetLastError\<close> reads the code of the last failure.
  Lengths passed to \<open>ReadFile\<close> and \<open>WriteFile\<close> are \<open>DWORD\<close>s, so 32 bits wide.
\<close>

section \<open>The operating system\<close>

type_synonym HANDLE = int

datatype desired_access = GENERIC_READ | GENERIC_WRITE | FILE_APPEND_DATA
datatype creation = OPEN_EXISTING | CREATE_ALWAYS | OPEN_ALWAYS
datatype file_attribute = FILE_ATTRIBUTE_NORMAL | FILE_ATTRIBUTE_READONLY

text \<open>A file is opened with a name, the access wanted, whether others may read it meanwhile, the
  disposition and the attributes.  A read has the low and high part of its offset, if it has one.\<close>

record 'o win32 =
  win_CreateFileA :: "bytes \<Rightarrow> desired_access list \<Rightarrow> bool \<Rightarrow> creation \<Rightarrow> file_attribute \<Rightarrow> 'o \<Rightarrow> HANDLE \<times> 'o"
  win_CloseHandle :: "HANDLE \<Rightarrow> 'o \<Rightarrow> bool \<times> 'o"
  win_ReadFile :: "HANDLE \<Rightarrow> u32 \<Rightarrow> (u32 \<times> u32) option \<Rightarrow> 'o \<Rightarrow> bool \<times> bytes \<times> 'o"
  win_SetFilePointerEx :: "HANDLE \<Rightarrow> int \<Rightarrow> 'o \<Rightarrow> bool \<times> 'o"
  win_WriteFile :: "HANDLE \<Rightarrow> bytes \<Rightarrow> 'o \<Rightarrow> bool \<times> u32 \<times> 'o"
  win_UnmapViewOfFile :: "bytes \<Rightarrow> 'o \<Rightarrow> 'o"
  win_GetLastError :: "'o \<Rightarrow> u32"
  win_FormatMessageA :: "u32 \<Rightarrow> bytes option"

definition ERROR_FILE_NOT_FOUND :: u32 where "ERROR_FILE_NOT_FOUND = 2"
definition ERROR_PATH_NOT_FOUND :: u32 where "ERROR_PATH_NOT_FOUND = 3"
definition ERROR_NO_MORE_FILES :: u32 where "ERROR_NO_MORE_FILES = 18"
definition ERROR_HANDLE_EOF :: u32 where "ERROR_HANDLE_EOF = 38"
definition ERROR_INVALID_PARAMETER :: u32 where "ERROR_INVALID_PARAMETER = 87"
definition INVALID_HANDLE_VALUE :: HANDLE where "INVALID_HANDLE_VALUE = - 1"

lemmas error_codes = ERROR_FILE_NOT_FOUND_def ERROR_PATH_NOT_FOUND_def ERROR_NO_MORE_FILES_def ERROR_HANDLE_EOF_def
  ERROR_INVALID_PARAMETER_def

definition GetWindowsErrorMessage :: "'o win32 \<Rightarrow> u32 \<Rightarrow> bytes" where
  "GetWindowsErrorMessage os error_code = (case win_FormatMessageA os error_code of None \<Rightarrow> [] | Some error_text \<Rightarrow> error_text)"

definition WindowsError :: "'o win32 \<Rightarrow> bytes \<Rightarrow> u32 \<Rightarrow> Status" where
  "WindowsError os context error_code =
     (if error_code = ERROR_FILE_NOT_FOUND \<or> error_code = ERROR_PATH_NOT_FOUND
      then NotFound context (GetWindowsErrorMessage os error_code)
      else IOError context (GetWindowsErrorMessage os error_code))"

lemma ok_WindowsError [simp]: "\<not> ok (WindowsError os context e)"
  by (simp add: WindowsError_def)

section \<open>ScopedHandle\<close>

record ScopedHandle =
  sh_handle :: HANDLE

definition ScopedHandle_is_valid :: "ScopedHandle \<Rightarrow> bool" where
  "ScopedHandle_is_valid sh \<longleftrightarrow> sh_handle sh \<noteq> INVALID_HANDLE_VALUE \<and> sh_handle sh \<noteq> 0"

definition ScopedHandle_Close :: "'o win32 \<Rightarrow> ScopedHandle \<Rightarrow> 'o \<Rightarrow> bool \<times> ScopedHandle \<times> 'o" where
  "ScopedHandle_Close os sh st =
     (if \<not> ScopedHandle_is_valid sh then (True, sh, st)
      else case win_CloseHandle os (sh_handle sh) st of (r, st) \<Rightarrow> (r, sh\<lparr>sh_handle := INVALID_HANDLE_VALUE\<rparr>, st))"

definition ScopedHandle_destroy :: "'o win32 \<Rightarrow> ScopedHandle \<Rightarrow> 'o \<Rightarrow> 'o" where
  "ScopedHandle_destroy os sh st = snd (snd (ScopedHandle_Close os sh st))"

definition ScopedHandle_Release :: "ScopedHandle \<Rightarrow> HANDLE \<times> ScopedHandle" where
  "ScopedHandle_Release sh = (sh_handle sh, sh\<lparr>sh_handle := INVALID_HANDLE_VALUE\<rparr>)"

text \<open>The move constructor: the new object and what is left of the old one.\<close>

definition ScopedHandle_move :: "ScopedHandle \<Rightarrow> ScopedHandle \<times> ScopedHandle" where
  "ScopedHandle_move other = (case ScopedHandle_Release other of (h, other) \<Rightarrow> (\<lparr>sh_handle = h\<rparr>, other))"

text \<open>The move assignment between two different objects; the handle held before is not closed.\<close>

definition ScopedHandle_assign :: "ScopedHandle \<Rightarrow> ScopedHandle \<Rightarrow> ScopedHandle \<times> ScopedHandle" where
  "ScopedHandle_assign sh rhs = (case ScopedHandle_Release rhs of (h, rhs) \<Rightarrow> (sh\<lparr>sh_handle := h\<rparr>, rhs))"

text \<open>A handle that has been moved from is not closed by its destructor, so a handle is closed at
  most once.\<close>

lemma ScopedHandle_moved:
  "ScopedHandle_move sh = (new, old) \<Longrightarrow> sh_handle new = sh_handle sh \<and> ScopedHandle_destroy os old st = st"
  by (auto simp: ScopedHandle_move_def ScopedHandle_Release_def ScopedHandle_destroy_def ScopedHandle_Close_def
      ScopedHandle_is_valid_def)

lemma ScopedHandle_Close_twice:
  "ScopedHandle_Close os sh st = (r, sh', st') \<Longrightarrow> ScopedHandle_Close os sh' st'' = (True, sh', st'')"
  by (auto simp: ScopedHandle_Close_def ScopedHandle_is_valid_def split: if_splits prod.splits)

section \<open>WindowsSequentialFile\<close>

record WindowsSequentialFile =
  wseq_filename :: bytes
  wseq_file :: ScopedHandle

text \<open>\<^const>\<open>None\<close>: the assertion on the length fails.  The result is not set when the call fails.\<close>

definition WindowsSequentialFile_Read ::
  "'o win32 \<Rightarrow> WindowsSequentialFile \<Rightarrow> nat \<Rightarrow> 'o \<Rightarrow> (Status \<times> bytes option \<times> 'o) option" where
  "WindowsSequentialFile_Read os f n st =
     (if \<not> n \<le> 2 ^ 32 - 1 then None
      else
        (case win_ReadFile os (sh_handle (wseq_file f)) (word_of_nat n) None st of (r, data, st) \<Rightarrow>
           if \<not> r then Some (WindowsError os (wseq_filename f) (win_GetLastError os st), None, st)
           else Some (OK, Some data, st)))"

text \<open>The distance is a signed number.\<close>

definition WindowsSequentialFile_Skip ::
  "'o win32 \<Rightarrow> WindowsSequentialFile \<Rightarrow> u64 \<Rightarrow> 'o \<Rightarrow> Status \<times> 'o" where
  "WindowsSequentialFile_Skip os f n st =
     (case win_SetFilePointerEx os (sh_handle (wseq_file f)) (sint n) st of (r, st) \<Rightarrow>
        if \<not> r then (WindowsError os (wseq_filename f) (win_GetLastError os st), st) else (OK, st))"

section \<open>WindowsRandomAccessFile\<close>

record WindowsRandomAccessFile =
  wra_filename :: bytes
  wra_handle :: ScopedHandle

definition WindowsRandomAccessFile_Read ::
  "'o win32 \<Rightarrow> WindowsRandomAccessFile \<Rightarrow> u64 \<Rightarrow> u64 \<Rightarrow> 'o \<Rightarrow> Status \<times> bytes \<times> 'o" where
  "WindowsRandomAccessFile_Read os f offset n st =
     (let OffsetHigh = ucast (drop_bit 32 offset); Offset = ucast offset in
      case win_ReadFile os (sh_handle (wra_handle f)) (ucast n) (Some (Offset, OffsetHigh)) st of (r, data, st) \<Rightarrow>
        if \<not> r \<and> win_GetLastError os st \<noteq> ERROR_HANDLE_EOF
        then (IOError (wra_filename f) (GetWindowsErrorMessage os (win_GetLastError os st)), [], st)
        else (OK, data, st))"

section \<open>WindowsMmapReadableFile\<close>

text \<open>The region mapped, and the length the file had when it was opened.  \<^const>\<open>None\<close>: the slice would
  leave the region.\<close>

record WindowsMmapReadableFile =
  wmm_filename :: bytes
  wmm_region :: bytes
  wmm_length :: u64

definition WindowsMmapReadableFile_Read ::
  "'o win32 \<Rightarrow> WindowsMmapReadableFile \<Rightarrow> u64 \<Rightarrow> u64 \<Rightarrow> (Status \<times> bytes) option" where
  "WindowsMmapReadableFile_Read os f offset n =
     (if offset + n > wmm_length f then Some (WindowsError os (wmm_filename f) ERROR_INVALID_PARAMETER, [])
      else if unat offset + unat n > length (wmm_region f) then None
      else Some (OK, take (unat n) (drop (unat offset) (wmm_region f))))"

definition WindowsMmapReadableFile_destroy ::
  "'o win32 \<Rightarrow> WindowsMmapReadableFile \<Rightarrow> int \<Rightarrow> 'o \<Rightarrow> int \<times> 'o" where
  "WindowsMmapReadableFile_destroy os f limiter st = (Release limiter, win_UnmapViewOfFile os (wmm_region f) st)"

section \<open>WindowsWritableFile\<close>

definition kWindowsBufferSize :: nat where
  "kWindowsBufferSize = 65536"

text \<open>\<open>ww_buf\<close> is \<open>buf_[0, pos_ - 1]\<close>, so \<open>pos_\<close> is its length.\<close>

record WindowsWritableFile =
  ww_filename :: bytes
  ww_handle :: ScopedHandle
  ww_buf :: bytes

definition WindowsWritableFile_new :: "bytes \<Rightarrow> ScopedHandle \<Rightarrow> WindowsWritableFile" where
  "WindowsWritableFile_new fname handle = \<lparr>ww_filename = fname, ww_handle = handle, ww_buf = []\<rparr>"

text \<open>The length is cast to a \<open>DWORD\<close>, and the number of bytes written is not looked at.\<close>

definition WriteRaw :: "'o win32 \<Rightarrow> WindowsWritableFile \<Rightarrow> bytes \<Rightarrow> 'o \<Rightarrow> Status \<times> 'o" where
  "WriteRaw os f p st =
     (let n = unat (word_of_nat (length p) :: u32) in
      case win_WriteFile os (sh_handle (ww_handle f)) (take n p) st of (r, bytes_written, st) \<Rightarrow>
        if \<not> r then (IOError (ww_filename f) (GetWindowsErrorMessage os (win_GetLastError os st)), st)
        else (OK, st))"

definition FlushBuffered ::
  "'o win32 \<Rightarrow> WindowsWritableFile \<Rightarrow> 'o \<Rightarrow> Status \<times> WindowsWritableFile \<times> 'o" where
  "FlushBuffered os f st = (case WriteRaw os f (ww_buf f) st of (s, st) \<Rightarrow> (s, f\<lparr>ww_buf := []\<rparr>, st))"

definition WindowsWritableFile_Append ::
  "'o win32 \<Rightarrow> WindowsWritableFile \<Rightarrow> bytes \<Rightarrow> 'o \<Rightarrow> Status \<times> WindowsWritableFile \<times> 'o" where
  "WindowsWritableFile_Append os f data st =
     (let copy = min (length data) (kWindowsBufferSize - length (ww_buf f));
          f = f\<lparr>ww_buf := ww_buf f @ take copy data\<rparr>;
          p = drop copy data
      in if length p = 0 then (OK, f, st)
         else
           (case FlushBuffered os f st of (s, f, st) \<Rightarrow>
              if \<not> ok s then (s, f, st)
              else if length p < kWindowsBufferSize then (OK, f\<lparr>ww_buf := p\<rparr>, st)
              else (case WriteRaw os f p st of (s, st) \<Rightarrow> (s, f, st))))"

definition WindowsWritableFile_Close ::
  "'o win32 \<Rightarrow> WindowsWritableFile \<Rightarrow> 'o \<Rightarrow> Status \<times> WindowsWritableFile \<times> 'o" where
  "WindowsWritableFile_Close os f st =
     (case FlushBuffered os f st of (result, f, st) \<Rightarrow>
        case ScopedHandle_Close os (ww_handle f) st of (closed, sh, st) \<Rightarrow>
          (if \<not> closed \<and> ok result then WindowsError os (ww_filename f) (win_GetLastError os st) else result,
           f\<lparr>ww_handle := sh\<rparr>, st))"

definition WindowsWritableFile_Flush ::
  "'o win32 \<Rightarrow> WindowsWritableFile \<Rightarrow> 'o \<Rightarrow> Status \<times> WindowsWritableFile \<times> 'o" where
  "WindowsWritableFile_Flush os f st = FlushBuffered os f st"

definition WindowsWritableFile_Sync ::
  "'o win32 \<Rightarrow> WindowsWritableFile \<Rightarrow> 'o \<Rightarrow> Status \<times> WindowsWritableFile \<times> 'o" where
  "WindowsWritableFile_Sync os f st = FlushBuffered os f st"

text \<open>The destructor is the default one: it closes the handle and writes nothing.\<close>

definition WindowsWritableFile_destroy :: "'o win32 \<Rightarrow> WindowsWritableFile \<Rightarrow> 'o \<Rightarrow> 'o" where
  "WindowsWritableFile_destroy os f st = ScopedHandle_destroy os (ww_handle f) st"

section \<open>Writing\<close>

text \<open>A file object together with the state of the system, seen through the interface of \<^verbatim>\<open>Env\<close>.\<close>

definition windows_Append ::
  "'o win32 \<Rightarrow> WindowsWritableFile \<times> 'o \<Rightarrow> bytes \<Rightarrow> Status \<times> WindowsWritableFile \<times> 'o" where
  "windows_Append os = (\<lambda>(f, st) data. WindowsWritableFile_Append os f data st)"

definition windows_Flush :: "'o win32 \<Rightarrow> WindowsWritableFile \<times> 'o \<Rightarrow> Status \<times> WindowsWritableFile \<times> 'o" where
  "windows_Flush os = (\<lambda>(f, st). WindowsWritableFile_Flush os f st)"

definition windows_good :: "HANDLE \<Rightarrow> ('o \<Rightarrow> bool) \<Rightarrow> WindowsWritableFile \<times> 'o \<Rightarrow> bool" where
  "windows_good h writable = (\<lambda>(f, st). writable st \<and> sh_handle (ww_handle f) = h \<and> length (ww_buf f) \<le> kWindowsBufferSize)"

definition windows_contents :: "('o \<Rightarrow> bytes) \<Rightarrow> WindowsWritableFile \<times> 'o \<Rightarrow> bytes" where
  "windows_contents written = (\<lambda>(f, st). written st @ ww_buf f)"

text \<open>What reaches the file of the bytes given to one call of \<open>WriteRaw\<close>.\<close>

definition truncated :: "bytes \<Rightarrow> bytes" where
  "truncated p = take (length p mod 2 ^ 32) p"

lemma truncated_short [simp]: "length p < 2 ^ 32 \<Longrightarrow> truncated p = p"
  by (simp add: truncated_def)

text \<open>What is relied on of \<open>WriteFile\<close> for the handle \<open>h\<close>: it writes what it is given.\<close>

locale windows_writer =
  fixes os :: "'o win32" and h :: HANDLE and written :: "'o \<Rightarrow> bytes" and writable :: "'o \<Rightarrow> bool"
  assumes write_all: "writable st \<Longrightarrow> win_WriteFile os h data st = (r, n, st') \<Longrightarrow>
    r \<and> writable st' \<and> written st' = written st @ data"
begin

lemma WriteRaw_ok:
  assumes "writable st" and "sh_handle (ww_handle f) = h"
  shows "\<exists>st'. WriteRaw os f p st = (OK, st') \<and> writable st' \<and> written st' = written st @ truncated p"
proof -
  obtain r n st' where w: "win_WriteFile os h (truncated p) st = (r, n, st')"
    by (cases "win_WriteFile os h (truncated p) st")
  then show ?thesis
    using write_all [OF assms(1) w] assms(2)
    by (auto simp: WriteRaw_def Let_def truncated_def unsigned_of_nat take_bit_eq_mod)
qed

lemma FlushBuffered_ok:
  assumes "windows_good h writable (f, st)"
  shows "\<exists>st'. FlushBuffered os f st = (OK, f\<lparr>ww_buf := []\<rparr>, st') \<and> writable st' \<and> written st' = written st @ ww_buf f"
  using assms WriteRaw_ok [of st f "ww_buf f"] by (auto simp: FlushBuffered_def windows_good_def kWindowsBufferSize_def)

lemma WindowsWritableFile_Append_ok:
  assumes "windows_good h writable (f, st)"
    and n: "n = min (length data) (kWindowsBufferSize - length (ww_buf f))"
  shows "\<exists>f' st'. WindowsWritableFile_Append os f data st = (OK, f', st') \<and> windows_good h writable (f', st') \<and>
    windows_contents written (f', st') = windows_contents written (f, st) @ take n data @ truncated (drop n data)"
proof -
  define f1 where "f1 = f\<lparr>ww_buf := ww_buf f @ take n data\<rparr>"
  have g1: "windows_good h writable (f1, st)"
    using assms by (auto simp: f1_def windows_good_def)
  have h: "sh_handle (ww_handle f1) = h"
    using g1 by (simp add: windows_good_def)
  obtain st1 where flush: "FlushBuffered os f1 st = (OK, f1\<lparr>ww_buf := []\<rparr>, st1)"
    and st1: "writable st1" "written st1 = written st @ ww_buf f @ take n data"
    using FlushBuffered_ok [OF g1] by (auto simp: f1_def)
  obtain st2 where direct: "WriteRaw os (f1\<lparr>ww_buf := []\<rparr>) (drop n data) st1 = (OK, st2)"
    and st2: "writable st2" "written st2 = written st1 @ truncated (drop n data)"
    using WriteRaw_ok [of st1 "f1\<lparr>ww_buf := []\<rparr>" "drop n data"] st1(1) h by auto
  consider (fits) "drop n data = []" | (small) "drop n data \<noteq> []" "length (drop n data) < kWindowsBufferSize"
    | (large) "\<not> length (drop n data) < kWindowsBufferSize" "drop n data \<noteq> []"
    by blast
  then show ?thesis
  proof cases
    case fits
    then show ?thesis
      using g1 by (simp add: WindowsWritableFile_Append_def Let_def n [symmetric] f1_def windows_contents_def)
  next
    case small
    then have "WindowsWritableFile_Append os f data st = (OK, f1\<lparr>ww_buf := drop n data\<rparr>, st1)"
      using flush by (simp add: WindowsWritableFile_Append_def Let_def n [symmetric] f1_def)
    then show ?thesis
      using small h st1 by (simp add: windows_good_def windows_contents_def kWindowsBufferSize_def)
  next
    case large
    then have "WindowsWritableFile_Append os f data st = (OK, f1\<lparr>ww_buf := []\<rparr>, st2)"
      using flush direct by (simp add: WindowsWritableFile_Append_def Let_def n [symmetric] f1_def)
    then show ?thesis
      using h st1 st2 by (simp add: windows_good_def windows_contents_def)
  qed
qed

end

text \<open>\<open>WindowsWritableFile\<close> provides the interface of a writable file.\<close>

sublocale windows_writer \<subseteq> wout: writable_file "windows_Append os" "windows_Flush os"
  "windows_contents written" "windows_good h writable"
proof
  fix f s f' and data :: bytes
  assume good: "windows_good h writable f" and len: "length data < 2 ^ 32" and app: "windows_Append os f data = (s, f')"
  let ?n = "min (length data) (kWindowsBufferSize - length (ww_buf (fst f)))"
  have "truncated (drop ?n data) = drop ?n data"
    using len by (intro truncated_short) simp
  then show "ok s \<and> windows_good h writable f' \<and> windows_contents written f' = windows_contents written f @ data"
    using WindowsWritableFile_Append_ok [of "fst f" "snd f" ?n data] good app
    by (auto simp: windows_Append_def split: prod.splits)
next
  fix f s f'
  assume good: "windows_good h writable f" and flush: "windows_Flush os f = (s, f')"
  show "ok s \<and> windows_good h writable f' \<and> windows_contents written f' = windows_contents written f"
    using FlushBuffered_ok [of "fst f" "snd f"] good flush
    by (auto simp: windows_Flush_def WindowsWritableFile_Flush_def windows_good_def windows_contents_def split: prod.splits)
qed

section \<open>Reading\<close>

lemma sint_small:
  assumes "unat (k :: u64) < 2 ^ 63"
  shows "sint k = int (unat k)"
proof -
  have "uint k < 2 ^ 63"
    unfolding uint_nat using assms by (metis of_nat_less_iff of_nat_numeral of_nat_power)
  moreover have "- (2 ^ 63) \<le> uint k"
    by (rule order_trans [OF _ uint_ge_0]) simp
  ultimately have "signed_take_bit 63 (uint k) = uint k"
    by (rule signed_take_bit_int_eq_self [rotated])
  then show ?thesis
    by (simp add: sint_uint)
qed

text \<open>What is relied on of \<open>ReadFile\<close> and \<open>SetFilePointerEx\<close> for the handle \<open>h\<close> of a regular file.\<close>

locale windows_reader =
  fixes os :: "'o win32" and h :: HANDLE and pending :: "'o \<Rightarrow> bytes" and readable :: "'o \<Rightarrow> bool"
  assumes read_next: "readable st \<Longrightarrow> win_ReadFile os h n None st = (r, data, st') \<Longrightarrow>
      r \<and> readable st' \<and> data = take (unat n) (pending st) \<and> pending st' = drop (unat n) (pending st)"
    and seek_forward: "readable st \<Longrightarrow> 0 \<le> d \<Longrightarrow> win_SetFilePointerEx os h d st = (r, st') \<Longrightarrow>
      r \<and> readable st' \<and> pending st' = drop (nat d) (pending st)"
begin

lemma WindowsSequentialFile_Read_ok:
  assumes "readable st" and "sh_handle (wseq_file f) = h" and "n < 2 ^ 32"
  shows "\<exists>st'. WindowsSequentialFile_Read os f n st = Some (OK, Some (take n (pending st)), st') \<and>
    readable st' \<and> pending st' = drop n (pending st)"
proof -
  obtain r data st' where r: "win_ReadFile os h (word_of_nat n) None st = (r, data, st')"
    by (cases "win_ReadFile os h (word_of_nat n) None st")
  have "unat (word_of_nat n :: u32) = n"
    using assms(3) by (simp add: unsigned_of_nat take_bit_nat_eq_self)
  then show ?thesis
    using read_next [OF assms(1) r] r assms(2,3) by (auto simp: WindowsSequentialFile_Read_def)
qed

lemma WindowsSequentialFile_Skip_ok:
  assumes "readable st" and "sh_handle (wseq_file f) = h" and "unat k < 2 ^ 63"
  shows "\<exists>st'. WindowsSequentialFile_Skip os f k st = (OK, st') \<and> readable st' \<and> pending st' = drop (unat k) (pending st)"
proof -
  obtain r st' where r: "win_SetFilePointerEx os h (sint k) st = (r, st')"
    by (cases "win_SetFilePointerEx os h (sint k) st")
  note k = sint_small [OF assms(3)]
  from seek_forward [OF assms(1) _ r] k have "r" "readable st'" "pending st' = drop (unat k) (pending st)"
    by simp_all
  with r assms(2) show ?thesis
    by (simp add: WindowsSequentialFile_Skip_def)
qed

end

text \<open>The two halves of an offset denote it, so a read at an offset reads there.\<close>

lemma offset_parts: "unat (ucast (drop_bit 32 offset) :: u32) * 2 ^ 32 + unat (ucast offset :: u32) = unat (offset :: u64)"
proof -
  have "unat offset div 2 ^ 32 < 2 ^ 32"
    using unat_bound64 [of offset] by (simp add: less_mult_imp_div_less)
  moreover have "unat (drop_bit 32 offset) = unat offset div 2 ^ 32"
    by (simp only: unat_drop_bit_eq) (simp add: drop_bit_eq_div)
  ultimately show ?thesis
    by (simp add: unsigned_ucast_eq take_bit_eq_mod)
qed

lemma WindowsRandomAccessFile_Read_at:
  assumes "\<And>lo hi n st. win_ReadFile os (sh_handle (wra_handle f)) n (Some (lo, hi)) st =
      (True, take (unat n) (drop (unat hi * 2 ^ 32 + unat lo) data), st)" and "unat n < 2 ^ 32"
  shows "WindowsRandomAccessFile_Read os f offset n st = (OK, take (unat n) (drop (unat offset) data), st)"
  using assms offset_parts [of offset] by (simp add: WindowsRandomAccessFile_Read_def Let_def unsigned_ucast_eq take_bit_eq_mod)

text \<open>A mapped file as a random-access file, when the region has the length of the file.\<close>

definition windows_mmap_Read :: "'o win32 \<Rightarrow> WindowsMmapReadableFile \<Rightarrow> read_at" where
  "windows_mmap_Read os f offset n = map_option (\<lambda>(s, data). (s, data, False)) (WindowsMmapReadableFile_Read os f offset n)"

interpretation windows_mmap: random_access_file "windows_mmap_Read os" wmm_region
  "\<lambda>f. length (wmm_region f) = unat (wmm_length f)"
proof
  fix f :: WindowsMmapReadableFile and offset n :: u64
  assume len: "length (wmm_region f) = unat (wmm_length f)" and le: "unat offset + unat n \<le> length (wmm_region f)"
  have "unat (offset + n) = unat offset + unat n"
    using len le unat_bound64 [of "wmm_length f"] by (intro unat_add_lem [THEN iffD1]) simp
  then show "\<exists>scratch. windows_mmap_Read os f offset n =
      Some (OK, take (unat n) (drop (unat offset) (wmm_region f)), scratch)"
    using le len by (intro exI [of _ False]) (simp add: windows_mmap_Read_def WindowsMmapReadableFile_Read_def word_less_nat_alt)
qed

section \<open>A file held in memory\<close>

definition memory_win32 :: "memory_file win32" where
  "memory_win32 =
     \<lparr>win_CreateFileA = (\<lambda>_ _ _ _ _ st. (4, st)),
      win_CloseHandle = (\<lambda>_ st. (True, st)),
      win_ReadFile = (\<lambda>_ n off st. case off of
         None \<Rightarrow> (True, take (unat n) (drop (position st) (stored st)), st\<lparr>position := position st + unat n\<rparr>)
       | Some (lo, hi) \<Rightarrow> (True, take (unat n) (drop (unat hi * 2 ^ 32 + unat lo) (stored st)), st)),
      win_SetFilePointerEx = (\<lambda>_ d st. (True, st\<lparr>position := nat (int (position st) + d)\<rparr>)),
      win_WriteFile = (\<lambda>_ data st. (True, word_of_nat (length data), st\<lparr>stored := stored st @ data\<rparr>)),
      win_UnmapViewOfFile = (\<lambda>_ st. st),
      win_GetLastError = (\<lambda>_. 0),
      win_FormatMessageA = (\<lambda>_. None)\<rparr>"

interpretation memory_wout: windows_writer memory_win32 h stored "\<lambda>_. True"
  by unfold_locales (auto simp: memory_win32_def)

interpretation memory_win: windows_reader memory_win32 h "\<lambda>st. drop (position st) (stored st)" "\<lambda>_. True"
  by unfold_locales (auto simp: memory_win32_def nat_add_distrib add.commute)

section \<open>Properties\<close>

text \<open>C37. \<open>WindowsWritableFile\<close> over a system that writes what it is given: \<open>Append\<close> returns OK and keeps the
  64 KB buffer bound, and after \<open>Flush\<close> the system has written exactly the bytes appended if and only if
  those that do not fit into the free \<open>room\<close> of the buffer are fewer than \<open>2^32\<close>.  Otherwise the direct
  write passes their number modulo \<open>2^32\<close>: only a proper prefix is written, and the status is OK all the same.\<close>

theorem WindowsWritableFile_writes:
  assumes "windows_writer os h written writable" and "windows_good h writable (f, st)"
    and room: "room = kWindowsBufferSize - length (ww_buf f)"
  shows "\<exists>f1 st1 st2.
    WindowsWritableFile_Append os f data st = (OK, f1, st1) \<and> length (ww_buf f1) \<le> kWindowsBufferSize \<and>
    WindowsWritableFile_Flush os f1 st1 = (OK, f1\<lparr>ww_buf := []\<rparr>, st2) \<and>
    (written st2 = written st @ ww_buf f @ data \<longleftrightarrow> length data < room + 2 ^ 32) \<and>
    (\<not> length data < room + 2 ^ 32 \<longrightarrow>
       written st2 = written st @ ww_buf f @ take (room + (length data - room) mod 2 ^ 32) data)"
proof -
  define n where "n = min (length data) (kWindowsBufferSize - length (ww_buf f))"
  have len: "length data < room + 2 ^ 32 \<longleftrightarrow> length (drop n data) < 2 ^ 32"
    by (auto simp: n_def room)
  obtain f1 st1 where a: "WindowsWritableFile_Append os f data st = (OK, f1, st1)" "windows_good h writable (f1, st1)"
    "windows_contents written (f1, st1) = windows_contents written (f, st) @ take n data @ truncated (drop n data)"
    using windows_writer.WindowsWritableFile_Append_ok [OF assms(1,2) n_def] by blast
  obtain st2 where b: "FlushBuffered os f1 st1 = (OK, f1\<lparr>ww_buf := []\<rparr>, st2)" "written st2 = written st1 @ ww_buf f1"
    using windows_writer.FlushBuffered_ok [OF assms(1) a(2)] by blast
  have all: "written st2 = written st @ ww_buf f @ take n data @ truncated (drop n data)"
    using a(3) b(2) by (simp add: windows_contents_def)
  have cut: "take n data @ truncated (drop n data) = take (room + (length data - room) mod 2 ^ 32) data"
    if "\<not> length data < room + 2 ^ 32"
  proof -
    have "n = room"
      using that by (simp add: n_def room)
    then show ?thesis
      by (simp add: truncated_def take_add)
  qed
  have "take n data @ truncated (drop n data) = data \<longleftrightarrow> length data < room + 2 ^ 32"
  proof (cases "length data < room + 2 ^ 32")
    case True
    then show ?thesis
      using len by simp
  next
    case False
    then have "length (drop n data) \<ge> 2 ^ 32"
      using len by simp
    then have "length (truncated (drop n data)) < length (drop n data)"
      using mod_less_divisor [of "2 ^ 32" "length (drop n data)"] unfolding truncated_def length_take min_less_iff_disj by simp
    then show ?thesis
      using False by (metis append_take_drop_id less_irrefl same_append_eq)
  qed
  with a(1,2) b(1) all cut show ?thesis
    by (auto simp: WindowsWritableFile_Flush_def windows_good_def)
qed

theorem WindowsWritableFile_writes_witness:
  "\<exists>f1 st1 st2.
    WindowsWritableFile_Append memory_win32 (WindowsWritableFile_new (str ''000005.log'') \<lparr>sh_handle = 4\<rparr>) (str ''abc'')
      \<lparr>stored = [], position = 0, interrupts = 0\<rparr> = (OK, f1, st1) \<and>
    WindowsWritableFile_Flush memory_win32 f1 st1 = (OK, f1\<lparr>ww_buf := []\<rparr>, st2) \<and> stored st2 = str ''abc''"
proof -
  let ?f = "WindowsWritableFile_new (str ''000005.log'') \<lparr>sh_handle = 4\<rparr>" and ?st = "\<lparr>stored = [], position = 0, interrupts = 0\<rparr>"
  have good: "windows_good 4 (\<lambda>_. True) (?f, ?st)" and room: "65536 = kWindowsBufferSize - length (ww_buf ?f)"
    by (simp_all add: windows_good_def WindowsWritableFile_new_def kWindowsBufferSize_def)
  have len: "length (str ''abc'') < 65536 + 2 ^ 32"
    by simp
  obtain f1 st1 st2 where "WindowsWritableFile_Append memory_win32 ?f (str ''abc'') ?st = (OK, f1, st1)"
    "WindowsWritableFile_Flush memory_win32 f1 st1 = (OK, f1\<lparr>ww_buf := []\<rparr>, st2)" "stored st2 = stored ?st @ ww_buf ?f @ str ''abc''"
    using WindowsWritableFile_writes [OF memory_wout.windows_writer_axioms [of 4] good room, of "str ''abc''"] len by metis
  then show ?thesis
    by (auto simp: WindowsWritableFile_new_def)
qed

end
