(* ===== verification/Windows_Env.thy ===== *)
theory Windows_Env
  imports Windows_Files Posix_Env
begin

text \<open>
  \<open>WindowsEnv\<close> of \<^verbatim>\<open>util/env_windows.cpp\<close>: opening, removing and renaming files, locks, and the queue
  of the background thread.

  The Win32 calls that are not about open files extend the record of \<open>Windows_Files\<close>.  The background
  thread is shown to be simulated by the one of the POSIX environment, so what is proved there holds
  here too.
\<close>

section \<open>More system calls\<close>

record 'o win32_env =
  wcalls :: "'o win32"
  win_GetFileSizeEx :: "HANDLE \<Rightarrow> 'o \<Rightarrow> bool \<times> u64 \<times> 'o"
  win_CreateFileMappingA :: "HANDLE \<Rightarrow> 'o \<Rightarrow> HANDLE \<times> 'o"
  win_MapViewOfFile :: "HANDLE \<Rightarrow> 'o \<Rightarrow> bytes option \<times> 'o"
  win_GetFileAttributesA :: "bytes \<Rightarrow> 'o \<Rightarrow> u32"
  win_FindFirstFileA :: "bytes \<Rightarrow> 'o \<Rightarrow> HANDLE \<times> bytes \<times> 'o"
  win_FindNextFileA :: "HANDLE \<Rightarrow> 'o \<Rightarrow> bool \<times> bytes \<times> 'o"
  win_FindClose :: "HANDLE \<Rightarrow> 'o \<Rightarrow> 'o"
  win_splitpath_s :: "bytes \<Rightarrow> (bytes \<times> bytes) option"
  win_DeleteFileA :: "bytes \<Rightarrow> 'o \<Rightarrow> bool \<times> 'o"
  win_CreateDirectoryA :: "bytes \<Rightarrow> 'o \<Rightarrow> bool \<times> 'o"
  win_RemoveDirectoryA :: "bytes \<Rightarrow> 'o \<Rightarrow> bool \<times> 'o"
  win_GetFileAttributesExA :: "bytes \<Rightarrow> 'o \<Rightarrow> bool \<times> u32 \<times> u32 \<times> 'o"
  win_MoveFileA :: "bytes \<Rightarrow> bytes \<Rightarrow> 'o \<Rightarrow> bool \<times> 'o"
  win_ReplaceFileA :: "bytes \<Rightarrow> bytes \<Rightarrow> 'o \<Rightarrow> bool \<times> 'o"
  win_LockFile :: "HANDLE \<Rightarrow> 'o \<Rightarrow> bool \<times> 'o"
  win_UnlockFile :: "HANDLE \<Rightarrow> 'o \<Rightarrow> bool \<times> 'o"
  win_getenv :: "bytes \<Rightarrow> 'o \<Rightarrow> bytes option"
  win_GetTempPathA :: "'o \<Rightarrow> bytes option \<times> 'o"
  win_get_id :: "'o \<Rightarrow> bytes"
  win_fopen :: "bytes \<Rightarrow> bytes \<Rightarrow> 'o \<Rightarrow> int option \<times> 'o"
  win_GetSystemTimeAsFileTime :: "'o \<Rightarrow> u32 \<times> u32"

definition INVALID_FILE_ATTRIBUTES :: u32 where
  "INVALID_FILE_ATTRIBUTES = - 1"

text \<open>The status of a call that failed, with the code \<open>GetLastError\<close> reports afterwards.\<close>

definition last_error :: "'o win32_env \<Rightarrow> bytes \<Rightarrow> 'o \<Rightarrow> Status" where
  "last_error os context st = WindowsError (wcalls os) context (win_GetLastError (wcalls os) st)"

lemma ok_last_error [simp]: "\<not> ok (last_error os context st)"
  by (simp add: last_error_def)

section \<open>The environment\<close>

text \<open>\<open>'w\<close> is the type of work items: a function and its argument.\<close>

record 'w WindowsEnv =
  started_bgthread :: bool
  bg_queue :: "'w list"
  win_mmap_limiter :: int

definition MaxMmaps :: "int \<Rightarrow> int" where
  "MaxMmaps g_mmap_limit = (if g_mmap_limit \<ge> 0 then g_mmap_limit else 1000)"

definition WindowsEnv_new :: "int \<Rightarrow> 'w WindowsEnv" where
  "WindowsEnv_new g_mmap_limit = \<lparr>started_bgthread = False, bg_queue = [], win_mmap_limiter = MaxMmaps g_mmap_limit\<rparr>"

section \<open>Files\<close>

definition WindowsEnv_NewSequentialFile ::
  "'o win32_env \<Rightarrow> bytes \<Rightarrow> 'o \<Rightarrow> Status \<times> WindowsSequentialFile option \<times> 'o" where
  "WindowsEnv_NewSequentialFile os fname st =
     (let (h, st) = win_CreateFileA (wcalls os) fname [GENERIC_READ] True OPEN_EXISTING FILE_ATTRIBUTE_NORMAL st;
          handle = \<lparr>sh_handle = h\<rparr>
      in if \<not> ScopedHandle_is_valid handle then (last_error os fname st, None, st)
         else (OK, Some \<lparr>wseq_filename = fname, wseq_file = fst (ScopedHandle_move handle)\<rparr>, st))"

datatype WindowsFile = WindowsRead WindowsRandomAccessFile | WindowsMapped WindowsMmapReadableFile

text \<open>The handles of the file and the mapping are closed on every path that does not keep them; the view
  stays.\<close>

definition WindowsEnv_NewRandomAccessFile ::
  "'o win32_env \<Rightarrow> bytes \<Rightarrow> 'w WindowsEnv \<Rightarrow> 'o \<Rightarrow> Status \<times> WindowsFile option \<times> 'w WindowsEnv \<times> 'o" where
  "WindowsEnv_NewRandomAccessFile os fname env st =
     (let (h, st) = win_CreateFileA (wcalls os) fname [GENERIC_READ] True OPEN_EXISTING FILE_ATTRIBUTE_READONLY st;
          handle = \<lparr>sh_handle = h\<rparr>
      in if \<not> ScopedHandle_is_valid handle then (last_error os fname st, None, env, st)
         else
           let (acquired, allowed) = Acquire (win_mmap_limiter env);
               env = env\<lparr>win_mmap_limiter := allowed\<rparr>
           in if \<not> acquired
              then (OK, Some (WindowsRead \<lparr>wra_filename = fname, wra_handle = fst (ScopedHandle_move handle)\<rparr>), env, st)
              else
                let (r, file_size, st) = win_GetFileSizeEx os (sh_handle handle) st
                in if \<not> r then (last_error os fname st, None, env, ScopedHandle_destroy (wcalls os) handle st)
                   else
                     let (m, st) = win_CreateFileMappingA os (sh_handle handle) st;
                         mapping = \<lparr>sh_handle = m\<rparr>;
                         (base, st) = (if ScopedHandle_is_valid mapping then win_MapViewOfFile os (sh_handle mapping) st else (None, st));
                         s = (if base = None then last_error os fname st else OK);
                         st = ScopedHandle_destroy (wcalls os) handle (ScopedHandle_destroy (wcalls os) mapping st)
                     in (case base of
                           Some region \<Rightarrow>
                             (s, Some (WindowsMapped \<lparr>wmm_filename = fname, wmm_region = region, wmm_length = file_size\<rparr>), env, st)
                         | None \<Rightarrow>
                             (s, None, if \<not> ok s then env\<lparr>win_mmap_limiter := Release (win_mmap_limiter env)\<rparr> else env, st)))"

definition WindowsEnv_NewWritableFile ::
  "'o win32_env \<Rightarrow> bytes \<Rightarrow> 'o \<Rightarrow> Status \<times> WindowsWritableFile option \<times> 'o" where
  "WindowsEnv_NewWritableFile os fname st =
     (let (h, st) = win_CreateFileA (wcalls os) fname [GENERIC_WRITE] False CREATE_ALWAYS FILE_ATTRIBUTE_NORMAL st;
          handle = \<lparr>sh_handle = h\<rparr>
      in if \<not> ScopedHandle_is_valid handle then (last_error os fname st, None, st)
         else (OK, Some (WindowsWritableFile_new fname (fst (ScopedHandle_move handle))), st))"

definition WindowsEnv_NewAppendableFile ::
  "'o win32_env \<Rightarrow> bytes \<Rightarrow> 'o \<Rightarrow> Status \<times> WindowsWritableFile option \<times> 'o" where
  "WindowsEnv_NewAppendableFile os fname st =
     (let (h, st) = win_CreateFileA (wcalls os) fname [FILE_APPEND_DATA] False OPEN_ALWAYS FILE_ATTRIBUTE_NORMAL st;
          handle = \<lparr>sh_handle = h\<rparr>
      in if \<not> ScopedHandle_is_valid handle then (last_error os fname st, None, st)
         else (OK, Some (WindowsWritableFile_new fname (fst (ScopedHandle_move handle))), st))"

definition WindowsEnv_FileExists :: "'o win32_env \<Rightarrow> bytes \<Rightarrow> 'o \<Rightarrow> bool" where
  "WindowsEnv_FileExists os fname st \<longleftrightarrow> win_GetFileAttributesA os fname st \<noteq> INVALID_FILE_ATTRIBUTES"

text \<open>The loop over the entries of a directory: a name that cannot be split is left out.\<close>

partial_function (option) FindNext_loop ::
  "'o win32_env \<Rightarrow> HANDLE \<Rightarrow> bytes \<Rightarrow> bytes list \<Rightarrow> 'o \<Rightarrow> (bytes list \<times> 'o) option" where
  [code]: "FindNext_loop os dir_handle cFileName result st =
     (let result = (case win_splitpath_s os cFileName of
            Some (base_name, ext) \<Rightarrow> result @ [base_name @ ext]
          | None \<Rightarrow> result)
      in case win_FindNextFileA os dir_handle st of (found, cFileName, st) \<Rightarrow>
           if found then FindNext_loop os dir_handle cFileName result st else Some (result, st))"

definition WindowsEnv_GetChildren :: "'o win32_env \<Rightarrow> bytes \<Rightarrow> 'o \<Rightarrow> (Status \<times> bytes list \<times> 'o) option" where
  "WindowsEnv_GetChildren os dir st =
     (case win_FindFirstFileA os (dir @ [92, 42]) st of (dir_handle, cFileName, st) \<Rightarrow>
        if dir_handle = INVALID_HANDLE_VALUE then
          Some (if win_GetLastError (wcalls os) st = ERROR_FILE_NOT_FOUND then OK else last_error os dir st, [], st)
        else
          Option.bind (FindNext_loop os dir_handle cFileName [] st) (\<lambda>(result, st).
            let error = win_GetLastError (wcalls os) st;
                st = win_FindClose os dir_handle st
            in Some (if error \<noteq> ERROR_NO_MORE_FILES then WindowsError (wcalls os) dir error else OK, result, st)))"

definition win_status :: "'o win32_env \<Rightarrow> bytes \<Rightarrow> bool \<times> 'o \<Rightarrow> Status \<times> 'o" where
  "win_status os context r = (case r of (succeeded, st) \<Rightarrow> (if \<not> succeeded then last_error os context st else OK, st))"

definition WindowsEnv_DeleteFile :: "'o win32_env \<Rightarrow> bytes \<Rightarrow> 'o \<Rightarrow> Status \<times> 'o" where
  "WindowsEnv_DeleteFile os fname st = win_status os fname (win_DeleteFileA os fname st)"

definition WindowsEnv_CreateDir :: "'o win32_env \<Rightarrow> bytes \<Rightarrow> 'o \<Rightarrow> Status \<times> 'o" where
  "WindowsEnv_CreateDir os dirname st = win_status os dirname (win_CreateDirectoryA os dirname st)"

definition WindowsEnv_DeleteDir :: "'o win32_env \<Rightarrow> bytes \<Rightarrow> 'o \<Rightarrow> Status \<times> 'o" where
  "WindowsEnv_DeleteDir os dirname st = win_status os dirname (win_RemoveDirectoryA os dirname st)"

text \<open>The size is not set when the call fails.\<close>

definition WindowsEnv_GetFileSize :: "'o win32_env \<Rightarrow> bytes \<Rightarrow> 'o \<Rightarrow> Status \<times> u64 option \<times> 'o" where
  "WindowsEnv_GetFileSize os fname st =
     (case win_GetFileAttributesExA os fname st of (r, nFileSizeHigh, nFileSizeLow, st) \<Rightarrow>
        if \<not> r then (last_error os fname st, None, st)
        else (OK, Some (push_bit 32 (ucast nFileSizeHigh) + ucast nFileSizeLow), st))"

definition WindowsEnv_RenameFile :: "'o win32_env \<Rightarrow> bytes \<Rightarrow> bytes \<Rightarrow> 'o \<Rightarrow> Status \<times> 'o" where
  "WindowsEnv_RenameFile os src target st =
     (case win_MoveFileA os src target st of (moved, st) \<Rightarrow>
        if moved then (OK, st)
        else
          let move_error = win_GetLastError (wcalls os) st in
          case win_ReplaceFileA os target src st of (replaced, st) \<Rightarrow>
            if replaced then (OK, st)
            else
              let replace_error = win_GetLastError (wcalls os) st in
              (WindowsError (wcalls os) src
                 (if replace_error = ERROR_FILE_NOT_FOUND \<or> replace_error = ERROR_PATH_NOT_FOUND then move_error else replace_error), st))"

record WindowsFileLock =
  wl_handle :: ScopedHandle
  wl_name :: bytes

definition WindowsLockOrUnlock :: "'o win32_env \<Rightarrow> HANDLE \<Rightarrow> bool \<Rightarrow> 'o \<Rightarrow> bool \<times> 'o" where
  "WindowsLockOrUnlock os handle lock st = (if lock then win_LockFile os handle st else win_UnlockFile os handle st)"

definition WindowsEnv_LockFile ::
  "'o win32_env \<Rightarrow> bytes \<Rightarrow> 'o \<Rightarrow> Status \<times> WindowsFileLock option \<times> 'o" where
  "WindowsEnv_LockFile os fname st =
     (let (h, st) = win_CreateFileA (wcalls os) fname [GENERIC_READ, GENERIC_WRITE] True OPEN_ALWAYS FILE_ATTRIBUTE_NORMAL st;
          handle = \<lparr>sh_handle = h\<rparr>
      in if \<not> ScopedHandle_is_valid handle then (last_error os fname st, None, st)
         else
           (case WindowsLockOrUnlock os (sh_handle handle) True st of (locked, st) \<Rightarrow>
              if \<not> locked then (last_error os (str ''lock '' @ fname) st, None, ScopedHandle_destroy (wcalls os) handle st)
              else (OK, Some \<lparr>wl_handle = fst (ScopedHandle_move handle), wl_name = fname\<rparr>, st)))"

text \<open>The lock object is destroyed, and its handle closed, whether or not the file could be unlocked.\<close>

definition WindowsEnv_UnlockFile :: "'o win32_env \<Rightarrow> WindowsFileLock \<Rightarrow> 'o \<Rightarrow> Status \<times> 'o" where
  "WindowsEnv_UnlockFile os my_lock st =
     (case WindowsLockOrUnlock os (sh_handle (wl_handle my_lock)) False st of (unlocked, st) \<Rightarrow>
        (if \<not> unlocked then last_error os (str ''unlock'') st else OK,
         ScopedHandle_destroy (wcalls os) (wl_handle my_lock) st))"

definition WindowsEnv_GetTestDirectory :: "'o win32_env \<Rightarrow> 'o \<Rightarrow> Status \<times> bytes option \<times> 'o" where
  "WindowsEnv_GetTestDirectory os st =
     (case win_getenv os (str ''TEST_TMPDIR'') st of
        Some (c # env) \<Rightarrow> (OK, Some (c # env), st)
      | _ \<Rightarrow>
          (case win_GetTempPathA os st of
             (None, st) \<Rightarrow> (last_error os (str ''GetTempPath'') st, None, st)
           | (Some tmp_path, st) \<Rightarrow>
               let result = tmp_path @ str ''leveldbtest-'' @ win_get_id os st
               in (OK, Some result, snd (WindowsEnv_CreateDir os result st))))"

text \<open>The result of \<open>NewLogger\<close> is the stream the \<open>WindowsLogger\<close> owns.\<close>

definition WindowsEnv_NewLogger :: "'o win32_env \<Rightarrow> bytes \<Rightarrow> 'o \<Rightarrow> Status \<times> int option \<times> 'o" where
  "WindowsEnv_NewLogger os filename st =
     (case win_fopen os filename (str ''w'') st of
        (None, st) \<Rightarrow> (last_error os (str ''NewLogger'') st, None, st)
      | (Some fp, st) \<Rightarrow> (OK, Some fp, st))"

definition WindowsEnv_NowMicros :: "'o win32_env \<Rightarrow> 'o \<Rightarrow> u64" where
  "WindowsEnv_NowMicros os st =
     (case win_GetSystemTimeAsFileTime os st of (dwHighDateTime, dwLowDateTime) \<Rightarrow>
        let num_ticks = push_bit 32 (ucast dwHighDateTime) + ucast dwLowDateTime in num_ticks div 10)"

section \<open>The background thread\<close>

text \<open>\<open>Schedule\<close> under the mutex: the new state, whether the thread is started, and whether the
  condition variable is notified.\<close>

definition WindowsEnv_Schedule :: "'w \<Rightarrow> 'w WindowsEnv \<Rightarrow> 'w WindowsEnv \<times> bool \<times> bool" where
  "WindowsEnv_Schedule work env =
     (let start = \<not> started_bgthread env;
          env = (if start then env\<lparr>started_bgthread := True\<rparr> else env);
          signal = (bg_queue env = [])
      in (env\<lparr>bg_queue := bg_queue env @ [work]\<rparr>, start, signal))"

record 'w win_background =
  wb_env :: "'w WindowsEnv"
  wb_thread :: "'w thread"
  wb_scheduled :: "'w list"
  wb_executed :: "'w list"

text \<open>A step of \<open>BGThread\<close>: it waits while the queue is empty, takes an item, or runs it.\<close>

definition BGThread :: "'w win_background \<Rightarrow> 'w win_background option" where
  "BGThread s =
     (case wb_thread s of
        NotStarted \<Rightarrow> None
      | Waiting \<Rightarrow> None
      | Locking \<Rightarrow>
          (case bg_queue (wb_env s) of
             [] \<Rightarrow> Some (s\<lparr>wb_thread := Waiting\<rparr>)
           | work # rest \<Rightarrow> Some (s\<lparr>wb_env := (wb_env s)\<lparr>bg_queue := rest\<rparr>, wb_thread := Working work\<rparr>))
      | Working work \<Rightarrow> Some (s\<lparr>wb_thread := Locking, wb_executed := wb_executed s @ [work]\<rparr>))"

definition win_schedule_call :: "'w \<Rightarrow> 'w win_background \<Rightarrow> 'w win_background" where
  "win_schedule_call work s =
     (case WindowsEnv_Schedule work (wb_env s) of (env, start, signal) \<Rightarrow>
        s\<lparr>wb_env := env, wb_scheduled := wb_scheduled s @ [work],
          wb_thread := (if start then Locking else if signal \<and> wb_thread s = Waiting then Locking else wb_thread s)\<rparr>)"

inductive win_step :: "'w win_background \<Rightarrow> 'w win_background \<Rightarrow> bool" where
  win_call: "win_step s (win_schedule_call work s)"
| win_run: "BGThread s = Some s' \<Longrightarrow> win_step s s'"
| win_spurious: "wb_thread s = Waiting \<Longrightarrow> win_step s (s\<lparr>wb_thread := Locking\<rparr>)"

inductive win_reachable :: "'w win_background \<Rightarrow> bool" where
  win_start: "win_reachable \<lparr>wb_env = WindowsEnv_new limit, wb_thread = NotStarted, wb_scheduled = [], wb_executed = []\<rparr>"
| win_next: "win_reachable s \<Longrightarrow> win_step s s' \<Longrightarrow> win_reachable s'"

text \<open>The state seen as one of the POSIX environment, and the simulation.\<close>

definition as_posix :: "'w win_background \<Rightarrow> 'w background" where
  "as_posix s =
     \<lparr>bg_env = \<lparr>started_background_thread = started_bgthread (wb_env s), background_work_queue = bg_queue (wb_env s),
        locked_files = {}, mmap_limiter = win_mmap_limiter (wb_env s), fd_limiter = 0\<rparr>,
      bg_thread = wb_thread s, bg_scheduled = wb_scheduled s, bg_executed = wb_executed s\<rparr>"

lemma as_posix_schedule: "as_posix (win_schedule_call work s) = schedule_call work (as_posix s)"
  by (simp add: as_posix_def win_schedule_call_def WindowsEnv_Schedule_def schedule_call_def Schedule_def Let_def)

lemma as_posix_run: "map_option as_posix (BGThread s) = BackgroundThreadMain (as_posix s)"
  by (cases "wb_thread s"; cases "bg_queue (wb_env s)")
    (simp_all add: BGThread_def as_posix_def BackgroundThread_take_def)

lemma win_step_simulated: "win_step s s' \<Longrightarrow> background_step (as_posix s) (as_posix s')"
proof (induction rule: win_step.induct)
  case (win_call s work)
  then show ?case
    using background_step.call [of "as_posix s" work] by (simp add: as_posix_schedule)
next
  case (win_run s s')
  then show ?case
    using as_posix_run [of s] by (intro background_step.run) simp
next
  case (win_spurious s)
  then show ?case
    using background_step.spurious [of "as_posix s"] by (simp add: as_posix_def)
qed

lemma win_reachable_simulated: "win_reachable s \<Longrightarrow> background_reachable (as_posix s)"
proof (induction rule: win_reachable.induct)
  case (win_start limit)
  show ?case
    by (simp add: as_posix_def WindowsEnv_new_def background_reachable.start)
next
  case (win_next s s')
  then show ?case
    by (blast intro: background_reachable.step win_step_simulated)
qed

fun run_BGThread :: "nat \<Rightarrow> 'w win_background \<Rightarrow> 'w win_background" where
  "run_BGThread 0 s = s"
| "run_BGThread (Suc n) s = (case BGThread s of None \<Rightarrow> s | Some s' \<Rightarrow> run_BGThread n s')"

lemma as_posix_run_BGThread: "as_posix (run_BGThread n s) = run_background n (as_posix s)"
proof (induction n arbitrary: s)
  case (Suc n)
  then show ?case
    by (cases "BGThread s") (simp_all add: as_posix_run [symmetric] del: BackgroundThreadMain.simps)
qed simp

section \<open>Renaming\<close>

text \<open>
  What is documented of \<open>MoveFile\<close> and \<open>ReplaceFile\<close>, \<open>fs\<close> mapping names to contents: a move that fails
  changes nothing; a replacement without a backup name that fails keeps the replacement file, but the
  file to be replaced may be gone.
\<close>

definition renamed :: "bytes \<Rightarrow> bytes \<Rightarrow> (bytes \<Rightarrow> bytes option) \<Rightarrow> (bytes \<Rightarrow> bytes option)" where
  "renamed src target m = (m(src := None))(target := m src)"

locale windows_rename =
  fixes os :: "'o win32_env" and fs :: "'o \<Rightarrow> bytes \<Rightarrow> bytes option"
  assumes move: "win_MoveFileA os src target st = (r, st') \<Longrightarrow> fs st' = (if r then renamed src target (fs st) else fs st)"
    and replace: "win_ReplaceFileA os target src st = (r, st') \<Longrightarrow>
      (if r then fs st' = renamed src target (fs st) else fs st' = fs st \<or> fs st' = (fs st)(target := None))"
begin

lemma RenameFile_fs:
  assumes "WindowsEnv_RenameFile os src target st = (s, st')"
  shows "(if ok s then fs st' = renamed src target (fs st) else fs st' = fs st \<or> fs st' = (fs st)(target := None))"
proof -
  obtain m st1 where m: "win_MoveFileA os src target st = (m, st1)"
    by (cases "win_MoveFileA os src target st")
  obtain r st2 where r: "win_ReplaceFileA os target src st1 = (r, st2)"
    by (cases "win_ReplaceFileA os target src st1")
  show ?thesis
    using assms move [OF m] replace [OF r] m r
    by (auto simp: WindowsEnv_RenameFile_def Let_def ok_def [symmetric] split: if_splits)
qed

text \<open>A failed rename keeps the file to be renamed.\<close>

lemma RenameFile_keeps:
  assumes "WindowsEnv_RenameFile os src target st = (s, st')" and "\<not> ok s" and "n \<noteq> target"
  shows "fs st' n = fs st n"
  using RenameFile_fs [OF assms(1)] assms(2,3) by auto

end

section \<open>A system in memory\<close>

text \<open>The files of a system by name.  \<open>replace_fails\<close> makes \<open>ReplaceFile\<close> fail after the target has been
  removed, as it is documented to be possible; \<open>size_fails\<close> is the same for \<open>GetFileSizeEx\<close>.\<close>

record win_disk =
  wd_files :: "bytes \<Rightarrow> bytes option"
  replace_fails :: bool
  size_fails :: bool

definition disk_calls :: "win_disk win32" where
  "disk_calls =
     \<lparr>win_CreateFileA = (\<lambda>_ _ _ _ _ st. (4, st)), win_CloseHandle = (\<lambda>_ st. (True, st)),
      win_ReadFile = (\<lambda>_ _ _ st. (False, [], st)), win_SetFilePointerEx = (\<lambda>_ _ st. (False, st)),
      win_WriteFile = (\<lambda>_ _ st. (False, 0, st)), win_UnmapViewOfFile = (\<lambda>_ st. st),
      win_GetLastError = (\<lambda>_. 1176), win_FormatMessageA = (\<lambda>_. None)\<rparr>"

definition disk_win32 :: "win_disk win32_env" where
  "disk_win32 =
     \<lparr>wcalls = disk_calls,
      win_GetFileSizeEx = (\<lambda>_ st. (\<not> size_fails st, 3, st)),
      win_CreateFileMappingA = (\<lambda>_ st. (5, st)),
      win_MapViewOfFile = (\<lambda>_ st. (Some (str ''abc''), st)),
      win_GetFileAttributesA = (\<lambda>n st. if wd_files st n = None then INVALID_FILE_ATTRIBUTES else 0),
      win_FindFirstFileA = (\<lambda>_ st. (INVALID_HANDLE_VALUE, [], st)),
      win_FindNextFileA = (\<lambda>_ st. (False, [], st)),
      win_FindClose = (\<lambda>_ st. st), win_splitpath_s = (\<lambda>_. None),
      win_DeleteFileA = (\<lambda>n st. (wd_files st n \<noteq> None, st\<lparr>wd_files := (wd_files st)(n := None)\<rparr>)),
      win_CreateDirectoryA = (\<lambda>_ st. (True, st)), win_RemoveDirectoryA = (\<lambda>_ st. (True, st)),
      win_GetFileAttributesExA = (\<lambda>_ st. (False, 0, 0, st)),
      win_MoveFileA = (\<lambda>src target st.
         if wd_files st src \<noteq> None \<and> wd_files st target = None
         then (True, st\<lparr>wd_files := renamed src target (wd_files st)\<rparr>) else (False, st)),
      win_ReplaceFileA = (\<lambda>target src st.
         if wd_files st src = None \<or> wd_files st target = None then (False, st)
         else if replace_fails st then (False, st\<lparr>wd_files := (wd_files st)(target := None)\<rparr>)
         else (True, st\<lparr>wd_files := renamed src target (wd_files st)\<rparr>)),
      win_LockFile = (\<lambda>_ st. (True, st)), win_UnlockFile = (\<lambda>_ st. (True, st)),
      win_getenv = (\<lambda>_ _. None), win_GetTempPathA = (\<lambda>st. (None, st)), win_get_id = (\<lambda>_. []),
      win_fopen = (\<lambda>_ _ st. (None, st)), win_GetSystemTimeAsFileTime = (\<lambda>_. (0, 0))\<rparr>"

interpretation wdisk: windows_rename disk_win32 wd_files
  by unfold_locales (auto simp: disk_win32_def split: if_splits)

text \<open>\<open>CURRENT\<close> can be lost by a rename that fails.\<close>

lemma rename_may_lose_target:
  "\<exists>st s st'. wd_files st (str ''CURRENT'') = Some (str ''MANIFEST-000001'') \<and>
     WindowsEnv_RenameFile disk_win32 (str ''000002.dbtmp'') (str ''CURRENT'') st = (s, st') \<and>
     \<not> ok s \<and> wd_files st' (str ''CURRENT'') = None"
proof -
  let ?st = "\<lparr>wd_files = [str ''CURRENT'' \<mapsto> str ''MANIFEST-000001'', str ''000002.dbtmp'' \<mapsto> str ''MANIFEST-000002''],
    replace_fails = True, size_fails = False\<rparr>"
  have "str ''CURRENT'' \<noteq> str ''000002.dbtmp''"
    by (simp add: str_def)
  then show ?thesis
    by (intro exI [of _ ?st]) (simp add: WindowsEnv_RenameFile_def disk_win32_def Let_def)
qed

section \<open>Properties\<close>

text \<open>C39. The slots of the limiter on mapped files: \<open>NewRandomAccessFile\<close> takes one slot for each file it maps
  and none for a file it reads through the handle, which it does only when none is free; a call
  that fails gives its slot back, except when the size of the file cannot be read: then the
  call returns an error and the slot is lost for good.\<close>

theorem WindowsEnv_mmap_slots:
  assumes "WindowsEnv_NewRandomAccessFile os fname env st = (s, r, env', st')"
    and "win_CreateFileA (wcalls os) fname [GENERIC_READ] True OPEN_EXISTING FILE_ATTRIBUTE_READONLY st = (h, st1)"
  shows "case r of
      Some (WindowsMapped m) \<Rightarrow> ok s \<and> win_mmap_limiter env > 0 \<and> win_mmap_limiter env' = win_mmap_limiter env - 1
    | Some (WindowsRead f) \<Rightarrow> ok s \<and> win_mmap_limiter env \<le> 0 \<and> env' = env
    | None \<Rightarrow> \<not> ok s \<and>
        (if ScopedHandle_is_valid \<lparr>sh_handle = h\<rparr> \<and> win_mmap_limiter env > 0 \<and> \<not> fst (win_GetFileSizeEx os h st1)
         then win_mmap_limiter env' = win_mmap_limiter env - 1 else env' = env)"
  using assms
  by (auto simp: WindowsEnv_NewRandomAccessFile_def Let_def Acquire_def Release_def fetch_sub1_def fetch_add1_def
      split: prod.splits if_splits option.splits)

theorem WindowsEnv_mmap_slots_witness:
  "\<exists>s env' st'. WindowsEnv_NewRandomAccessFile disk_win32 (str ''000007.ldb'') (WindowsEnv_new 1)
       \<lparr>wd_files = Map.empty, replace_fails = False, size_fails = True\<rparr> = (s, None, env', st') \<and>
     \<not> ok s \<and> win_mmap_limiter (env' :: nat WindowsEnv) = 0"
proof -
  let ?st = "\<lparr>wd_files = Map.empty, replace_fails = False, size_fails = True\<rparr>"
  obtain s r env' st' where c: "WindowsEnv_NewRandomAccessFile disk_win32 (str ''000007.ldb'') (WindowsEnv_new 1 :: nat WindowsEnv) ?st =
      (s, r, env', st')"
    by (metis prod_cases4)
  have "r = None"
    using c by (simp add: WindowsEnv_NewRandomAccessFile_def disk_win32_def disk_calls_def Let_def Acquire_def fetch_sub1_def
        WindowsEnv_new_def MaxMmaps_def ScopedHandle_is_valid_def INVALID_HANDLE_VALUE_def split: prod.splits)
  with WindowsEnv_mmap_slots [OF c, of 4 ?st] c show ?thesis
    by (simp add: disk_win32_def disk_calls_def ScopedHandle_is_valid_def INVALID_HANDLE_VALUE_def WindowsEnv_new_def MaxMmaps_def)
qed

text \<open>The background thread of the Windows environment refines the one of the POSIX environment, and so
  inherits its guarantees: under every interleaving, scheduled items are executed in the order
  scheduled, none lost or repeated, the thread does not wait while there is work, and left alone
  it executes everything scheduled in at most two steps per item and one.\<close>

lemma windows_background_refines:
  assumes "win_reachable s"
  shows "background_reachable (as_posix s) \<and>
    wb_scheduled s = wb_executed s @ in_progress (wb_thread s) @ bg_queue (wb_env s) \<and>
    \<not> (wb_thread s = Waiting \<and> bg_queue (wb_env s) \<noteq> []) \<and>
    (\<exists>n \<le> 2 * length (bg_queue (wb_env s)) + 1. wb_executed (run_BGThread n s) = wb_scheduled s)"
proof -
  note r = win_reachable_simulated [OF assms]
  note inv = background_reachable_inv [OF r]
  have "\<exists>n \<le> 2 * length (bg_queue (wb_env s)) + 1. wb_executed (run_BGThread n s) = wb_scheduled s"
  proof (cases "wb_thread s = Waiting \<or> wb_thread s = NotStarted")
    case True
    then show ?thesis
      using inv by (intro exI [of _ 0]) (auto simp: background_inv_def as_posix_def in_progress_def)
  next
    case False
    then have "bg_executed (run_background (steps_left (as_posix s)) (as_posix s)) = wb_scheduled s"
      using run_background_all [OF inv] by (simp add: as_posix_def)
    moreover have "steps_left (as_posix s) \<le> 2 * length (bg_queue (wb_env s)) + 1"
      by (simp add: steps_left_def as_posix_def in_progress_def split: thread.splits)
    ultimately show ?thesis
      by (intro exI [of _ "steps_left (as_posix s)"])
        (simp add: as_posix_run_BGThread [symmetric], simp add: as_posix_def)
  qed
  with r inv show ?thesis
    by (auto simp: background_inv_def as_posix_def)
qed

end
