(* ===== verification/Info_Log.thy ===== *)
theory Info_Log
  imports Logging
begin

text \<open>
  The loggers: \<open>PosixLogger::Logv\<close> (\<^verbatim>\<open>util/posix_logger.h\<close>), \<open>WindowsLogger::Logv\<close>
  (\<^verbatim>\<open>util/windows_logger.h\<close>) and \<open>Log\<close> of \<^verbatim>\<open>util/env.cpp\<close>.

  A line is printed into a buffer on the stack and, if it does not fit, into one that is allocated
  with the size the first attempt asked for.  The format and its arguments appear as the text they
  produce; the buffers hold arbitrary bytes before they are written.  \<^const>\<open>None\<close> is a failed assertion
  or an overflow of an \<open>int\<close>.
\<close>

section \<open>Printing into a buffer\<close>

text \<open>\<open>snprintf(buffer + off, length buffer - off, ...)\<close>, given the text of the format: what fits, then a
  terminating zero; the result is the length of the text.\<close>

definition snprintf_at :: "bytes \<Rightarrow> nat \<Rightarrow> bytes \<Rightarrow> bytes \<times> nat" where
  "snprintf_at buffer off text =
     (let room = length buffer - off; n = min (length text) (room - 1)
      in (if room = 0 then buffer else take off buffer @ take n text @ [0] @ drop (off + n + 1) buffer, length text))"

text \<open>The conversion \<open>%0<width>d\<close>.\<close>

definition pad_decimal :: "nat \<Rightarrow> int \<Rightarrow> bytes" where
  "pad_decimal width i =
     (let digits = decimal (nat \<bar>i\<bar>)
      in if i < 0 then str ''-'' @ replicate (width - 1 - length digits) 48 @ digits
         else replicate (width - length digits) 48 @ digits)"

record log_time =
  lt_year :: int
  lt_month :: int
  lt_day :: int
  lt_hour :: int
  lt_minute :: int
  lt_second :: int
  lt_micros :: int

definition kMaxThreadIdSize :: nat where
  "kMaxThreadIdSize = 32"

definition kStackBufferSize :: nat where
  "kStackBufferSize = 512"

text \<open>\<open>"%04d/%02d/%02d-%02d:%02d:%02d.%06d %s "\<close>.\<close>

definition log_header :: "log_time \<Rightarrow> bytes \<Rightarrow> bytes" where
  "log_header t thread_id =
     pad_decimal 4 (lt_year t) @ str ''/'' @ pad_decimal 2 (lt_month t) @ str ''/'' @ pad_decimal 2 (lt_day t) @ str ''-'' @
     pad_decimal 2 (lt_hour t) @ str '':'' @ pad_decimal 2 (lt_minute t) @ str '':'' @ pad_decimal 2 (lt_second t) @ str ''.'' @
     pad_decimal 6 (lt_micros t) @ str '' '' @ thread_id @ str '' ''"

text \<open>One iteration of the loop: the size asked for, or the bytes handed to \<open>fwrite\<close>.\<close>

definition Logv_iteration :: "bool \<Rightarrow> bytes \<Rightarrow> bytes \<Rightarrow> bytes \<Rightarrow> (nat + bytes) option" where
  "Logv_iteration first_iteration buffer header message =
     (let buffer_size = length buffer;
          (buffer, buffer_offset) = snprintf_at buffer 0 header
      in if \<not> buffer_offset \<le> 28 + kMaxThreadIdSize then None
         else if \<not> buffer_offset < buffer_size then None
         else
           let (buffer, n) = snprintf_at buffer buffer_offset message;
               buffer_offset = buffer_offset + n
           in if buffer_offset + 2 \<ge> 2 ^ 31 then None
              else if buffer_offset \<ge> buffer_size - 1 then
                (if first_iteration then Some (Inl (buffer_offset + 2)) else None)
              else
                let (buffer, buffer_offset) =
                      (if buffer ! (buffer_offset - 1) \<noteq> 10 then (buffer[buffer_offset := 10], buffer_offset + 1)
                       else (buffer, buffer_offset))
                in if \<not> buffer_offset \<le> buffer_size then None else Some (Inr (take buffer_offset buffer)))"

text \<open>The loop, from the contents of the stack buffer and of memory that is allocated to the bytes written.\<close>

definition Logv_loop :: "bytes \<Rightarrow> (nat \<Rightarrow> u8) \<Rightarrow> bytes \<Rightarrow> bytes \<Rightarrow> bytes option" where
  "Logv_loop stack_buffer heap header message =
     Option.bind (Logv_iteration True stack_buffer header message) (\<lambda>r.
       case r of
         Inr line \<Rightarrow> Some line
       | Inl dynamic_buffer_size \<Rightarrow>
           Option.bind (Logv_iteration False (map heap [0..<dynamic_buffer_size]) header message) (\<lambda>r.
             case r of Inr line \<Rightarrow> Some line | Inl _ \<Rightarrow> Some []))"

section \<open>The loggers\<close>

text \<open>The broken-down local time of POSIX and of Windows.\<close>

record tm =
  tm_sec :: int
  tm_min :: int
  tm_hour :: int
  tm_mday :: int
  tm_mon :: int
  tm_year :: int

record SYSTEMTIME =
  wYear :: "16 word"
  wMonth :: "16 word"
  wDay :: "16 word"
  wHour :: "16 word"
  wMinute :: "16 word"
  wSecond :: "16 word"
  wMilliseconds :: "16 word"

definition PosixLogger_Logv ::
  "tm \<Rightarrow> int \<Rightarrow> bytes \<Rightarrow> bytes \<Rightarrow> (nat \<Rightarrow> u8) \<Rightarrow> bytes \<Rightarrow> bytes \<Rightarrow> bytes option" where
  "PosixLogger_Logv now_components tv_usec thread_id stack_buffer heap message fp =
     (let thread_id = (if length thread_id > kMaxThreadIdSize then take kMaxThreadIdSize thread_id else thread_id);
          header = log_header \<lparr>lt_year = tm_year now_components + 1900, lt_month = tm_mon now_components + 1,
            lt_day = tm_mday now_components, lt_hour = tm_hour now_components, lt_minute = tm_min now_components,
            lt_second = tm_sec now_components, lt_micros = tv_usec\<rparr> thread_id
      in map_option (\<lambda>line. fp @ line) (Logv_loop stack_buffer heap header message))"

definition WindowsLogger_Logv ::
  "SYSTEMTIME \<Rightarrow> bytes \<Rightarrow> bytes \<Rightarrow> (nat \<Rightarrow> u8) \<Rightarrow> bytes \<Rightarrow> bytes \<Rightarrow> bytes option" where
  "WindowsLogger_Logv now_components thread_id stack_buffer heap message fp =
     (let thread_id = (if length thread_id > kMaxThreadIdSize then take kMaxThreadIdSize thread_id else thread_id);
          header = log_header \<lparr>lt_year = uint (wYear now_components), lt_month = uint (wMonth now_components),
            lt_day = uint (wDay now_components), lt_hour = uint (wHour now_components),
            lt_minute = uint (wMinute now_components), lt_second = uint (wSecond now_components),
            lt_micros = uint (wMilliseconds now_components) * 1000\<rparr> thread_id
      in map_option (\<lambda>line. fp @ line) (Logv_loop stack_buffer heap header message))"

text \<open>\<open>Log\<close>: nothing happens without a logger.\<close>

definition Log_call :: "('l \<Rightarrow> bytes \<Rightarrow> 'l option) \<Rightarrow> 'l option \<Rightarrow> bytes \<Rightarrow> 'l option option" where
  "Log_call Logv info_log message = (case info_log of None \<Rightarrow> Some None | Some l \<Rightarrow> map_option Some (Logv l message))"

section \<open>Lemmas\<close>

lemma length_snprintf_at [simp]: "length (fst (snprintf_at buffer off text)) = length buffer"
  by (auto simp: snprintf_at_def Let_def)

lemma snd_snprintf_at [simp]: "snd (snprintf_at buffer off text) = length text"
  by (simp add: snprintf_at_def Let_def)

text \<open>What is printed, when there is room for it and the zero.\<close>

lemma snprintf_at_prefix:
  assumes "off + length text < length buffer"
  shows "take (off + length text) (fst (snprintf_at buffer off text)) = take off buffer @ text"
  using assms by (simp add: snprintf_at_def Let_def)

lemma take_butlast_append: "xs \<noteq> [] \<Longrightarrow> (xs @ ys) ! (length xs - 1) = last xs"
  by (simp add: nth_append last_conv_nth)

text \<open>The line for a header and a message.\<close>

definition log_line :: "bytes \<Rightarrow> bytes \<Rightarrow> bytes" where
  "log_line header message =
     (let text = header @ message in if last text = 10 then text else text @ [10])"

lemma Logv_iteration_fits:
  assumes h: "header \<noteq> []" "length header \<le> 28 + kMaxThreadIdSize"
    and fits: "length header + length message + 1 < length buffer" and small: "length header + length message + 2 < 2 ^ 31"
  shows "Logv_iteration first_iteration buffer header message = Some (Inr (log_line header message))"
proof -
  define b1 where "b1 = fst (snprintf_at buffer 0 header)"
  define b2 where "b2 = fst (snprintf_at b1 (length header) message)"
  let ?n = "length header + length message"
  have len: "length b2 = length buffer"
    by (simp add: b2_def b1_def)
  have "take (length header) b1 = header"
    using fits snprintf_at_prefix [of 0 header buffer] by (simp add: b1_def)
  then have printed: "take ?n b2 = header @ message"
    using fits snprintf_at_prefix [of "length header" message b1] by (simp add: b2_def b1_def)
  then have b2: "b2 = (header @ message) @ drop ?n b2"
    by (metis append_take_drop_id)
  have "b2 ! (?n - 1) = last (header @ message)"
    using take_butlast_append [of "header @ message" "drop ?n b2"] h(1) b2 by simp
  moreover have "take (Suc ?n) (b2[?n := 10]) = (header @ message) @ [10]"
    using printed fits len by (simp add: take_Suc_conv_app_nth)
  moreover have "snprintf_at buffer 0 header = (b1, length header)" "snprintf_at b1 (length header) message = (b2, length message)"
    by (simp_all add: b1_def b2_def prod_eq_iff)
  moreover have "\<not> length buffer - Suc 0 \<le> length header + length message"
    using fits by linarith
  ultimately show ?thesis
    using h(2) fits small len printed by (simp add: Logv_iteration_def log_line_def Let_def)
qed

lemma Logv_iteration_grows:
  assumes h: "length header \<le> 28 + kMaxThreadIdSize" "length header < length buffer"
    and big: "\<not> length header + length message + 1 < length buffer" and small: "length header + length message + 2 < 2 ^ 31"
  shows "Logv_iteration True buffer header message = Some (Inl (length header + length message + 2))"
  using assms by (auto simp: Logv_iteration_def Let_def snprintf_at_def)

lemma Logv_loop_line:
  assumes h: "header \<noteq> []" "length header \<le> 28 + kMaxThreadIdSize" and stack: "length stack_buffer = kStackBufferSize"
    and small: "length header + length message + 2 < 2 ^ 31"
  shows "Logv_loop stack_buffer heap header message = Some (log_line header message)"
proof (cases "length header + length message + 1 < length stack_buffer")
  case True
  then show ?thesis
    using Logv_iteration_fits [OF h True small] by (simp add: Logv_loop_def)
next
  case False
  have "length header < length stack_buffer"
    using h(2) stack by (simp add: kMaxThreadIdSize_def kStackBufferSize_def)
  then show ?thesis
    using Logv_iteration_grows [OF h(2) _ False small]
      Logv_iteration_fits [OF h, of message "map heap [0..<length header + length message + 2]" False] small
    by (simp add: Logv_loop_def)
qed

text \<open>The header has 28 bytes and the thread identifier when the time is in range.\<close>

lemma length_pad_decimal: "0 \<le> i \<Longrightarrow> i < 10 ^ Suc k \<Longrightarrow> length (pad_decimal (Suc k) i) = Suc k"
  using length_decimal [of "nat i" k] by (simp add: pad_decimal_def Let_def nat_less_iff)

definition log_time_ok :: "log_time \<Rightarrow> bool" where
  "log_time_ok t \<longleftrightarrow> 0 \<le> lt_year t \<and> lt_year t < 10000 \<and> 0 \<le> lt_month t \<and> lt_month t < 100 \<and> 0 \<le> lt_day t \<and> lt_day t < 100 \<and>
     0 \<le> lt_hour t \<and> lt_hour t < 100 \<and> 0 \<le> lt_minute t \<and> lt_minute t < 100 \<and> 0 \<le> lt_second t \<and> lt_second t < 100 \<and>
     0 \<le> lt_micros t \<and> lt_micros t < 1000000"

lemma length_log_header:
  assumes "log_time_ok t"
  shows "length (log_header t thread_id) = 28 + length thread_id"
  using assms length_pad_decimal [of _ 3] length_pad_decimal [of _ 1] length_pad_decimal [of _ 5]
  by (simp add: log_header_def log_time_ok_def str_def numeral_eq_Suc)

lemma log_header_ne [simp]: "log_header t thread_id \<noteq> []"
  by (simp add: log_header_def str_def)

definition posix_time :: "tm \<Rightarrow> int \<Rightarrow> log_time" where
  "posix_time c usec = \<lparr>lt_year = tm_year c + 1900, lt_month = tm_mon c + 1, lt_day = tm_mday c, lt_hour = tm_hour c,
     lt_minute = tm_min c, lt_second = tm_sec c, lt_micros = usec\<rparr>"

definition windows_time :: "SYSTEMTIME \<Rightarrow> log_time" where
  "windows_time c = \<lparr>lt_year = uint (wYear c), lt_month = uint (wMonth c), lt_day = uint (wDay c), lt_hour = uint (wHour c),
     lt_minute = uint (wMinute c), lt_second = uint (wSecond c), lt_micros = uint (wMilliseconds c) * 1000\<rparr>"

lemma Logv_loop_header:
  assumes "log_time_ok t" and "length stack_buffer = kStackBufferSize" and "length message < 2 ^ 31 - 64"
  shows "Logv_loop stack_buffer heap (log_header t (take kMaxThreadIdSize thread_id)) message =
    Some (log_line (log_header t (take kMaxThreadIdSize thread_id)) message)"
  using assms length_log_header [OF assms(1), of "take kMaxThreadIdSize thread_id"]
  by (intro Logv_loop_line) (simp_all add: kMaxThreadIdSize_def)

section \<open>Properties\<close>

text \<open>C38. Both loggers write exactly one line for every message, however long: for a time in the range of
  the format, any thread identifier and any message shorter than \<open>2^31 - 64\<close> bytes, no assertion
  fails and no buffer is exceeded, whatever the buffers held before, and what is written is the
  header, the message and a newline unless the message ends with one.\<close>

theorem Logv_one_line:
  assumes "length stack_buffer = kStackBufferSize" and "length message < 2 ^ 31 - 64"
  shows "(log_time_ok (posix_time c usec) \<longrightarrow>
      PosixLogger_Logv c usec thread_id stack_buffer heap message fp =
        Some (fp @ log_line (log_header (posix_time c usec) (take kMaxThreadIdSize thread_id)) message)) \<and>
    (log_time_ok (windows_time w) \<longrightarrow>
      WindowsLogger_Logv w thread_id stack_buffer heap message fp =
        Some (fp @ log_line (log_header (windows_time w) (take kMaxThreadIdSize thread_id)) message))"
proof -
  have cut: "(if length thread_id > kMaxThreadIdSize then take kMaxThreadIdSize thread_id else thread_id) = take kMaxThreadIdSize thread_id"
    by simp
  show ?thesis
    using Logv_loop_header [OF _ assms, where thread_id = thread_id]
    unfolding PosixLogger_Logv_def WindowsLogger_Logv_def cut Let_def posix_time_def [symmetric] windows_time_def [symmetric]
    by simp
qed

theorem Logv_one_line_witness:
  "PosixLogger_Logv \<lparr>tm_sec = 5, tm_min = 4, tm_hour = 3, tm_mday = 2, tm_mon = 0, tm_year = 119\<rparr> 42 (str ''7'')
     (replicate 512 0) (\<lambda>_. 0) (str ''hi'') [] = Some (str ''2019/01/02-03:04:05.000042 7 hi'' @ [10])"
proof -
  let ?c = "\<lparr>tm_sec = 5, tm_min = 4, tm_hour = 3, tm_mday = 2, tm_mon = 0, tm_year = 119\<rparr>"
  have "log_time_ok (posix_time ?c 42)"
    by (simp add: log_time_ok_def posix_time_def)
  moreover have "log_line (log_header (posix_time ?c 42) (take kMaxThreadIdSize (str ''7''))) (str ''hi'') =
      str ''2019/01/02-03:04:05.000042 7 hi'' @ [10]"
    by (simp add: log_line_def log_header_def posix_time_def pad_decimal_def decimal.simps str_def kMaxThreadIdSize_def Let_def)
      (simp add: eval_nat_numeral)
  ultimately show ?thesis
    using Logv_one_line [of "replicate 512 0" "str ''hi''" ?c 42 "str ''7''" "\<lambda>_. 0" "[]" undefined]
    by (simp add: kStackBufferSize_def str_def)
qed

end
