(* ===== verification/Spec2Isabelle.thy ===== *)
theory Spec2Isabelle
  imports Coding Comparator Status Crc32c Log Bloom Dbformat Logging Posix_Files Random_Gen
    Skiplist Arena Memtable Iterators Merger Block_Builder Format Block Filter_Block
    Posix_Env Env_Files Posix_Fs Filename
    Two_Level Table_Builder Table_Errors Cache Cache_Table Cache_Correct Cache_Lru Cache_Sharded Table Table_Files
    Block_Cache Table_Cache Windows_Files Windows_Env Info_Log
begin

text \<open>
  Verification of squirrel, a C++ port of the storage layer of LevelDB: sorted string tables on disk,
  the write-ahead log, the memtable, the caches, and the environments they run on.  The repository has no
  \<open>DBImpl\<close>; the parts below are the ones it has.

  \<^bold>\<open>The parts and how they interact.\<close>
  An update is encoded as a record and appended to the log (\<^verbatim>\<open>db/log_writer.cpp\<close>), which cuts it into fragments
  of blocks of 32 KB, each with a checksum (\<^verbatim>\<open>util/crc32c.cpp\<close>); after a crash the reader (\<^verbatim>\<open>db/log_reader.cpp\<close>)
  returns the records that are complete.  The update also goes to a memtable (\<^verbatim>\<open>db/memtable.cpp\<close>), a skip
  list (\<^verbatim>\<open>db/skiplist.h\<close>) of entries that live in an arena (\<^verbatim>\<open>util/arena.cpp\<close>), ordered by user key and then
  by decreasing sequence number (\<^verbatim>\<open>db/dbformat.cpp\<close>).  Sorted entries are written to a table file
  (\<^verbatim>\<open>table/table_builder.cpp\<close>): data blocks of prefix-compressed entries (\<^verbatim>\<open>table/block_builder.cpp\<close>), optionally a
  block of Bloom filters (\<^verbatim>\<open>table/filter_block.cpp\<close>, \<^verbatim>\<open>util/bloom.cpp\<close>), an index block and a footer
  (\<^verbatim>\<open>table/format.cpp\<close>).  A table is read (\<^verbatim>\<open>table/table.cpp\<close>) through a two-level iterator
  (\<^verbatim>\<open>table/two_level_iterator.cpp\<close>) over its index and its data blocks (\<^verbatim>\<open>table/block.cpp\<close>), which may come from
  a block cache (\<^verbatim>\<open>util/cache.cpp\<close>); open tables are kept in a table cache (\<^verbatim>\<open>db/table_cache.cpp\<close>).  Several sources
  are read as one by a merging iterator (\<^verbatim>\<open>table/merger.cpp\<close>).  All of them see files through the interface
  \<open>Env\<close> (\<^verbatim>\<open>include/leveldb/env.h\<close>), implemented for POSIX (\<^verbatim>\<open>util/env_posix.cpp\<close>) and Windows
  (\<^verbatim>\<open>util/env_windows.cpp\<close>).

  \<^bold>\<open>Conventions.\<close>  Machine integers are words of their width (\<open>u8\<close>, \<open>u32\<close>, \<open>u64\<close>), byte strings are
  lists of bytes.  Objects are records, passed and returned updated; pointers that alias (nodes of the skip list,
  entries of the cache) are addresses of an explicit store.  A method of an abstract class is a field of
  a record of operations, or an argument.  Errors the code returns are values of \<open>Status\<close>.  \<^const>\<open>None\<close> as the result
  of an operation is a failed assertion, an access outside an object, or a loop that does not end; the
  theorems state when operations return \<open>Some\<close>, which excludes all three.  There is no fuel: loops without a
  structural measure are \<^verbatim>\<open>function\<close>s with a termination proof, or partial functions into \<open>option\<close> that are
  proved to return.  Memory that is not initialised is a parameter (\<open>garbage\<close>, \<open>heap\<close>).

  A status is used as an abstract value (a code and a text).  The theory \<open>Status\<close> also has its heap representation, whose
  constructor writes outside its array for texts shorter than three bytes.  \<open>MemTable_Get\<close> is the one place
  where the sources make such a text by themselves, and there the model calls the constructor of the representation and fails with it.
  All other texts in the sources are longer, or end in the message of the operating system for an error; of the latter we
  take it that it is not empty, or on Windows that the name of the file has three bytes or more.

  \<^bold>\<open>Theories.\<close>  Each group of definitions has the names of the C++ functions, prefixed with the class where several
  classes have a method of that name.

  \<^item> \<open>Prelude\<close>: types, byte strings, shared lemmas.  \<open>Slice\<close>, \<open>Status\<close>, \<open>Coding\<close>, \<open>Logging\<close>, \<open>Random_Gen\<close>: the files of
    \<^verbatim>\<open>util/\<close> and \<^verbatim>\<open>include/leveldb/\<close> of these names.  Shown: encodings round trip and consume exactly what was written,
    decimal numbers are parsed without overflow, the heap layout of a status represents its value.
  \<^item> \<open>Crc32c_Tables\<close>, \<open>Crc32c\<close>: the tables are the ones of the polynomial, and the strided \<open>Extend\<close> equals the bitwise
    definition of the checksum for every input and alignment.
  \<^item> \<open>Comparator\<close>, \<open>Dbformat\<close>, \<open>Bloom\<close>: the interfaces \<open>Comparator\<close> and \<open>FilterPolicy\<close> as locales (\<open>key_order\<close>,
    \<open>comparator\<close>, \<open>user_comparator\<close>, \<open>filter_policy\<close>, \<open>user_filter_policy\<close>), interpreted by the bytewise comparator, the internal
    key comparator over any user comparator, and the Bloom filter, which has no false negatives.
  \<^item> \<open>Env\<close>: files as locales (\<open>writable_file\<close>, \<open>sequential_file\<close>, \<open>random_access_file\<close>).  \<open>Env_Files\<close>: the environment
    as locales \<open>env_fs\<close> and \<open>env_read\<close>, and the helpers of \<^verbatim>\<open>util/env.cpp\<close>.  \<open>Posix_Files\<close>, \<open>Posix_Env\<close>, \<open>Posix_Fs\<close>: the
    POSIX classes over a record of system calls that may be interrupted, write less than asked, or fail; they
    provide the locales.  The background thread executes scheduled work in order and completely under every
    interleaving; the limiter and the lock table keep their bounds.  \<open>Windows_Files\<close>, \<open>Windows_Env\<close>: the Windows
    classes over a record of Win32 calls; the writable file provides \<open>writable_file\<close> too, the background
    thread is simulated by the POSIX one.  \<open>Info_Log\<close>: the two loggers.  \<open>Filename\<close>: names of files
    (\<^verbatim>\<open>db/filename.cpp\<close>), and that \<open>SetCurrentFile\<close> replaces \<open>CURRENT\<close> atomically at every point of failure.
  \<^item> \<open>Log_Writer\<close>, \<open>Log_Reader\<close>, \<open>Log\<close>: the layout of the file the writer produces, that the reader terminates on every
    file, returns exactly the records of an intact one, and of one cut off anywhere a prefix of them that
    contains all complete records, without reporting corruption.
  \<^item> \<open>Skiplist\<close>, \<open>Arena\<close>, \<open>Memtable\<close>: \<open>Insert\<close> refines insertion into a sorted list and all searches terminate
    (locale \<open>skiplist_search\<close>); allocations are disjoint, inside their blocks and aligned (locale \<open>allocator\<close>); a
    lookup in a memtable goes by the newest entry not newer than the snapshot, and fails in the constructor of the status if
    that is a deletion.
  \<^item> \<open>Iterators\<close>, \<open>Merger\<close>, \<open>Two_Level\<close>: the contract of iterators (locale \<open>iterator\<close>: the position in a sorted list
    of pairs, moved by each operation in both directions), which the iterators of memtables, blocks and tables, the merging
    and the two-level iterator (locale \<open>two_level\<close>) satisfy.
  \<^item> \<open>Block_Builder\<close>, \<open>Block\<close>, \<open>Format\<close>, \<open>Filter_Block\<close>, \<open>Table_Builder\<close>, \<open>Table\<close>, \<open>Table_Files\<close>, \<open>Table_Errors\<close>: what a builder
    was given is what an iterator over the block or the table yields (locales \<open>bytes_order\<close>, \<open>table_build\<close>), opening
    arbitrary bytes does not fail an assertion, filters that were built never hide a key and damaged ones only under the
    condition stated, and the builder reports
    success only if no call on the file failed.  The round trip of tables is for total sizes below \<open>2^31\<close>,
    no filter policy, and compression off or not supported by the platform.
  \<^item> \<open>Cache\<close>, \<open>Cache_Table\<close>, \<open>Cache_Correct\<close>, \<open>Cache_Lru\<close>, \<open>Cache_Sharded\<close>: the hash table and the circular list of the
    cache refine a map with an order of use; handles stay valid while they are held, each deleter
    is called once, eviction keeps the usage bound.  The sharded cache provides the locale \<open>shared_cache\<close>.
    \<open>Block_Cache\<close>, \<open>Table_Cache\<close>: on that basis reading through a cache yields what reading the file yields.
  \<^item> This theory: memtables read through the merging iterator, and tables written to Windows files.

  Each locale about system calls is also interpreted on a small system held in memory, which shows that what is
  assumed can be met.

  \<^bold>\<open>Not modelled.\<close>  \<open>Env::Default\<close>, the creation of threads and sleeping, and the forwarding class \<open>EnvWrapper\<close>; the
  wrappers of mutexes and condition variables (\<^verbatim>\<open>port/\<close>, \<^verbatim>\<open>util/mutexlock.h\<close>), where the steps of the models are the
  regions a mutex protects; \<^verbatim>\<open>util/no_destructor.h\<close>; the reordering of memory accesses by the hardware in the skip list;
  snappy, which is a parameter and absent from the port layer; table iterators through a block cache (lookups
  through it are modelled); \<open>TableCache::Evict\<close>, which is declared and not defined; the tests.
\<close>

section \<open>Reading several memtables\<close>

text \<open>A merging iterator over iterators of memtables.\<close>

interpretation merged_memtables: iterator "icmp Bytewise_Compare" "mem_valid (\<lambda>_. True)"
  "MergingIterator (icmp Bytewise_Compare) (MemTableIterator Bytewise_Compare)"
  "merge_at (icmp Bytewise_Compare) (mem_valid (\<lambda>_. True)) (MemTableIterator Bytewise_Compare)
     (mem_at Bytewise_Compare (\<lambda>_. True))"
  by (rule iterator.merged [OF bytewise_user.mem_iterator])

text \<open>C4. Merging is correct: over children that satisfy the contract of iterators and yield
  disjoint sorted contents, the merging iterator satisfies the contract too, in both directions
  and with changes of direction, and yields the sorted union of what the children yield.\<close>

theorem merging_correct:
  assumes "iterator cmp valid ops at" and "list_all2 (\<lambda>s c. \<exists>p. at s c p) its kss"
    and "union_of kss kvs" and "sorted_keys cmp valid kvs"
  shows "iterator cmp valid (MergingIterator cmp ops) (merge_at cmp valid ops at) \<and>
    (\<exists>m m'. MergingIterator_new ops its = Some m \<and> merge_at cmp valid ops at m kvs (length kvs) \<and>
       it_SeekToFirst (MergingIterator cmp ops) m = Some m' \<and>
       scan (MergingIterator cmp ops) (length kvs) m' = Some kvs)"
proof -
  note it = iterator.merged [OF assms(1)]
  obtain m where m: "MergingIterator_new ops its = Some m" "merge_at cmp valid ops at m kvs (length kvs)"
    using iterator.merge_at_new [OF assms] by blast
  obtain m' where m': "it_SeekToFirst (MergingIterator cmp ops) m = Some m'" "merge_at cmp valid ops at m' kvs 0"
    using iterator.SeekToFirst_at [OF it m(2)] by blast
  from iterator.scan_at [OF it m'(2)] m m'(1) it show ?thesis
    by auto
qed

lemma example_memtable:
  obtains m where "mem_represents Bytewise_Compare (\<lambda>_. True) m [MemOp 5 kTypeValue (str ''k'') (str ''v'')]"
proof -
  obtain m where m: "blocks (mem_arena m) = [(4096, 4096)]" "alloc_bytes_remaining (mem_arena m) = 3992"
    "mem_represents Bytewise_Compare (\<lambda>_. True) m []"
    by (rule example_new)
  have "op_ok (\<lambda>_. True) (MemOp 5 kTypeValue (str ''k'') (str ''v''))"
    by (simp add: op_ok_def kMaxSequenceNumber_def)
  from bytewise_user.MemTable_Add_represents [OF m(3) this example_Add_new_ok [OF m(1,2)]] show ?thesis
    using that by auto
qed

theorem merging_correct_witness:
  "\<exists>m m' kv. it_SeekToFirst (MergingIterator (icmp Bytewise_Compare) (MemTableIterator Bytewise_Compare)) m = Some m' \<and>
     scan (MergingIterator (icmp Bytewise_Compare) (MemTableIterator Bytewise_Compare)) 1 m' = Some [kv] \<and>
     snd kv = str ''v''"
proof -
  let ?p = "MemOp 5 kTypeValue (str ''k'') (str ''v'')" and ?at = "mem_at Bytewise_Compare (\<lambda>_. True)"
  obtain m0 where m0: "mem_represents Bytewise_Compare (\<lambda>_. True) m0 []"
    by (rule example_new)
  obtain m1 where m1: "mem_represents Bytewise_Compare (\<lambda>_. True) m1 [?p]"
    by (rule example_memtable)
  have 0: "?at (MemTable_NewIterator m0) [] 0"
    using mem_at_NewIterator [OF m0] by auto
  obtain kvs where kvs: "?at (MemTable_NewIterator m1) kvs (length kvs)" "set kvs = {op_pair ?p}"
    using mem_at_NewIterator [OF m1] by auto
  note it = bytewise_user.mem_iterator
  have sorted: "sorted_keys (icmp Bytewise_Compare) (mem_valid (\<lambda>_. True)) kvs"
    using iterator.at_sorted [OF it kvs(1)] .
  have "length kvs = 1"
    using distinct_card [OF iterator.sorted_keys_distinct [OF it sorted]] kvs(2) by simp
  then have 1: "kvs = [op_pair ?p]"
    using kvs(2) by (cases kvs) auto
  have "list_all2 (\<lambda>s c. \<exists>p. ?at s c p) [MemTable_NewIterator m0, MemTable_NewIterator m1] [[], kvs]"
    using 0 kvs(1) by auto
  moreover have "union_of [[], kvs] kvs"
    by (auto simp: union_of_def less_Suc_eq)
  ultimately obtain m m' where
    "it_SeekToFirst (MergingIterator (icmp Bytewise_Compare) (MemTableIterator Bytewise_Compare)) m = Some m'"
    "scan (MergingIterator (icmp Bytewise_Compare) (MemTableIterator Bytewise_Compare)) (length kvs) m' = Some kvs"
    using merging_correct [OF it _ _ sorted] by blast
  then show ?thesis
    by (intro exI [of _ m] exI [of _ m'] exI [of _ "op_pair ?p"]) (simp add: 1 op_pair_def)
qed

section \<open>Tables on Windows\<close>

text \<open>What is proved of the builder holds for a table written to a \<open>WindowsWritableFile\<close>.\<close>

interpretation windows_tables: table_build "windows_Append memory_win32" "windows_Flush memory_win32" "windows_contents stored"
  "windows_good h (\<lambda>_. True)" Bytewise_Compare "\<lambda>_. True" Bytewise_FindShortestSeparator Bytewise_FindShortSuccessor
  Options_new "\<lambda>_. None" create for h create
  by unfold_locales (simp_all add: separator_bytewise_short successor_bytewise_short Options_new_def BytewiseComparator_def)

end
